(* ===== verification/Prelude.thy ===== *)
theory Prelude
  imports Main "HOL-Library.Word"
begin

text \<open>
  Shared vocabulary of the GuideOS development: the machine integer types of
  \<^verbatim>\<open>lib/libsys/include/types.h\<close>, the outcome type of kernel code (a call returns, panics,
  spins for ever or leaves the domain of defined C behaviour), its sequencing operator, the
  address macros of \<^verbatim>\<open>defs.h\<close> and \<^verbatim>\<open>mem/memlayout.h\<close>, and the word/nat lemmas that every
  component uses to turn 64-bit arithmetic into arithmetic on \<open>nat\<close>.
\<close>

unbundle bit_operations_syntax

named_theorems outcome_simps \<open>rewrite rules for the sequencing of kernel calls\<close>
named_theorems unat_arith_simps \<open>rules that turn word arithmetic into arithmetic on nat\<close>

section \<open>Machine integers\<close>

type_synonym u8 = "8 word"
type_synonym u16 = "16 word"
type_synonym u32 = "32 word"
type_synonym u64 = "64 word"

text \<open>A C pointer is its 64-bit value; \<open>NULL\<close> is 0.\<close>

type_synonym ptr = u64

abbreviation (input) NULL :: ptr where "NULL \<equiv> 0"

section \<open>Outcomes of kernel code\<close>

text \<open>
  \<open>Ret\<close> is a normal return; \<open>Panic\<close> is \<^verbatim>\<open>panic(s)\<close> of \<^verbatim>\<open>util/helpers.c\<close>, which never
  returns and halts the CPU; \<open>Hang\<close> is a loop that this CPU never leaves by itself (a spin on a
  lock that another CPU holds, unbounded recursion); \<open>Undef\<close> marks an access outside an object
  or a division by zero, where C gives no meaning.
\<close>

datatype 'a outcome = Ret 'a | Panic string | Hang | Undef string

definition bindk :: "('s \<Rightarrow> ('a \<times> 's) outcome) \<Rightarrow> ('a \<Rightarrow> 's \<Rightarrow> ('b \<times> 't) outcome) \<Rightarrow> 's \<Rightarrow> ('b \<times> 't) outcome" where
  "bindk m f s = (case m s of
      Ret (a, s') \<Rightarrow> f a s'
    | Panic e \<Rightarrow> Panic e
    | Hang \<Rightarrow> Hang
    | Undef e \<Rightarrow> Undef e)"

definition retk :: "'a \<Rightarrow> 's \<Rightarrow> ('a \<times> 's) outcome" where
  "retk a s = Ret (a, s)"

definition panic :: "string \<Rightarrow> 's \<Rightarrow> ('a \<times> 's) outcome" where
  "panic msg s = Panic msg"

lemma bindk_Ret [outcome_simps]: "m s = Ret (a, s') \<Longrightarrow> bindk m f s = f a s'"
  by (simp add: bindk_def)

lemma bindk_Panic [outcome_simps]: "m s = Panic e \<Longrightarrow> bindk m f s = Panic e"
  by (simp add: bindk_def)

lemma bindk_Hang [outcome_simps]: "m s = Hang \<Longrightarrow> bindk m f s = Hang"
  by (simp add: bindk_def)

lemma bindk_Undef [outcome_simps]: "m s = Undef e \<Longrightarrow> bindk m f s = Undef e"
  by (simp add: bindk_def)

lemma bindk_retk [outcome_simps]: "bindk (retk a) f s = f a s"
  by (simp add: bindk_def retk_def)

lemma bindk_eq_Ret_iff:
  "bindk m f s = Ret r \<longleftrightarrow> (\<exists>a s'. m s = Ret (a, s') \<and> f a s' = Ret r)"
  by (auto simp: bindk_def split: outcome.splits)

lemma bindk_RetE:
  assumes "bindk m f s = Ret r"
  obtains a s' where "m s = Ret (a, s')" and "f a s' = Ret r"
  using assms by (auto simp: bindk_eq_Ret_iff)

declare retk_def [outcome_simps] panic_def [outcome_simps]

section \<open>Word arithmetic on \<open>nat\<close>\<close>

lemma unat_lt_2_64: "unat (x :: u64) < 18446744073709551616"
  using unsigned_less [of x] by simp

lemma unat_add_nowrap:
  "unat (a :: u64) + unat b < 2 ^ 64 \<Longrightarrow> unat (a + b) = unat a + unat b"
  by (simp add: unat_word_ariths)

lemma unat_of_nat_lt: "n < 2 ^ 64 \<Longrightarrow> unat (of_nat n :: u64) = n"
  by (simp add: unat_of_nat)

lemma unat_add_of_nat:
  "unat (a :: u64) + n < 2 ^ 64 \<Longrightarrow> unat (a + of_nat n) = unat a + n"
  by (simp add: unat_word_ariths unat_of_nat)

lemma unat_add_numeral:
  "unat (a :: u64) + numeral k < 2 ^ 64 \<Longrightarrow> unat (a + numeral k) = unat a + numeral k"
  using unat_add_of_nat [of a "numeral k"] by simp

lemma unat_sub_le: "(b :: u64) \<le> a \<Longrightarrow> unat (a - b) = unat a - unat b"
  by (simp add: unat_sub_if' word_le_nat_alt)

lemma and_mask_mod: "unat ((x :: u64) AND mask n) = unat x mod 2 ^ n"
proof -
  have "unat (x AND mask n) = unat (take_bit n x)"
    by (simp add: take_bit_eq_mask)
  also have "\<dots> = take_bit n (unat x)"
    by (simp add: unsigned_take_bit_eq)
  finally show ?thesis by (simp add: take_bit_eq_mod)
qed

lemma push_bit_1_minus_1: "(push_bit n 1 - 1 :: u64) = mask n"
  by (simp add: mask_eq_decr_exp push_bit_eq_mult)

lemma and_not_mask_eq: "(x :: u64) AND NOT (mask n) = x - (x AND mask n)"
proof -
  have "NOT x AND (x AND mask n) = 0"
    by (rule bit_eqI) (auto simp: bit_simps)
  then have "x - (x AND mask n) = x AND NOT (x AND mask n)"
    by (rule disjunctive_diff_eq_and_not)
  also have "\<dots> = x AND NOT (mask n)"
    by (rule bit_eqI) (auto simp: bit_simps)
  finally show ?thesis ..
qed

lemma and_not_mask_mod:
  "unat ((x :: u64) AND NOT (mask n)) = unat x - unat x mod 2 ^ n"
proof -
  have "x AND mask n \<le> x" by (rule word_and_le2)
  then have "unat (x AND NOT (mask n)) = unat x - unat (x AND mask n)"
    by (simp add: and_not_mask_eq unat_sub_le)
  then show ?thesis by (simp add: and_mask_mod)
qed

lemma drop_bit_div: "unat (drop_bit n (x :: u64)) = unat x div 2 ^ n"
  by (simp add: unat_drop_bit_eq flip: drop_bit_eq_div)

end
