(* ===== verification/Memory.thy ===== *)
theory Memory
  imports Prelude
begin

text \<open>
  The byte-addressed memory that every heap structure of the kernel lives in: the free lists and
  bitmaps of the page allocator, the block headers of \<^verbatim>\<open>kmalloc\<close>, the queue nodes, strings and
  frame buffer. Loads and stores of 32 and 64 bits are little endian. A \<open>region\<close> is the set of
  addresses of an object; the lemmas say which loads a store leaves alone.
\<close>

named_theorems mem_simps \<open>rewrite rules for loads after stores\<close>

type_synonym memory = "u64 \<Rightarrow> u8"

definition region :: "ptr \<Rightarrow> nat \<Rightarrow> ptr set" where
  "region a n = {x. unat (x - a) < n}"

definition eq_on :: "ptr set \<Rightarrow> memory \<Rightarrow> memory \<Rightarrow> bool" where
  "eq_on R m m' \<longleftrightarrow> (\<forall>x \<in> R. m x = m' x)"

definition ld_bytes :: "memory \<Rightarrow> ptr \<Rightarrow> nat \<Rightarrow> u8 list" where
  "ld_bytes m a n = map (\<lambda>i. m (a + of_nat i)) [0..<n]"

definition st_bytes :: "memory \<Rightarrow> ptr \<Rightarrow> u8 list \<Rightarrow> memory" where
  "st_bytes m a bs = (\<lambda>x. let k = unat (x - a) in if k < length bs then bs ! k else m x)"

definition word_to_bytes :: "nat \<Rightarrow> 'a::len word \<Rightarrow> u8 list" where
  "word_to_bytes n w = map (\<lambda>i. ucast (drop_bit (8 * i) w)) [0..<n]"

definition word_of_bytes :: "u8 list \<Rightarrow> 'a::len word" where
  "word_of_bytes bs = foldr (\<lambda>b acc. ucast b OR push_bit 8 acc) bs 0"

definition ld64 :: "memory \<Rightarrow> ptr \<Rightarrow> u64" where
  "ld64 m a = word_of_bytes (ld_bytes m a 8)"

definition st64 :: "memory \<Rightarrow> ptr \<Rightarrow> u64 \<Rightarrow> memory" where
  "st64 m a v = st_bytes m a (word_to_bytes 8 v)"

definition ld32 :: "memory \<Rightarrow> ptr \<Rightarrow> u32" where
  "ld32 m a = word_of_bytes (ld_bytes m a 4)"

definition st32 :: "memory \<Rightarrow> ptr \<Rightarrow> u32 \<Rightarrow> memory" where
  "st32 m a v = st_bytes m a (word_to_bytes 4 v)"

section \<open>Regions\<close>

lemma in_region_nat:
  assumes "unat a + n \<le> 2 ^ 64"
  shows "x \<in> region a n \<longleftrightarrow> unat a \<le> unat x \<and> unat x < unat a + n"
proof (cases "a \<le> x")
  case True
  then show ?thesis
    by (auto simp: region_def unat_sub_le word_le_nat_alt)
next
  case False
  then have lt: "unat x < unat a" by (simp add: word_le_nat_alt)
  then have "unat (x - a) = unat x + 2 ^ 64 - unat a"
    by (simp add: unat_sub_if' word_le_nat_alt)
  with lt assms show ?thesis by (simp add: region_def)
qed

lemma region_self [simp]: "0 < n \<Longrightarrow> a \<in> region a n"
  by (simp add: region_def)

lemma region_0 [simp]: "region a 0 = {}"
  by (simp add: region_def)

lemma region_disjoint_nat:
  assumes "unat a + n \<le> 2 ^ 64" and "unat b + k \<le> 2 ^ 64"
    and "unat a + n \<le> unat b \<or> unat b + k \<le> unat a"
  shows "region a n \<inter> region b k = {}"
  using assms by (auto simp: in_region_nat)

lemma region_subset_nat:
  assumes "unat b + k \<le> 2 ^ 64" and "unat b \<le> unat a" and "unat a + n \<le> unat b + k"
  shows "region a n \<subseteq> region b k"
  using assms by (auto simp: in_region_nat)

lemma region_mono: "n \<le> k \<Longrightarrow> region a n \<subseteq> region a k"
  by (auto simp: region_def)

lemma mem_region_add: "i < n \<Longrightarrow> n \<le> 2 ^ 64 \<Longrightarrow> a + of_nat i \<in> region a n"
  by (simp add: region_def unat_of_nat)

section \<open>Agreement of memories\<close>

lemma eq_on_refl [simp]: "eq_on R m m"
  by (simp add: eq_on_def)

lemma eq_on_sym: "eq_on R m m' \<Longrightarrow> eq_on R m' m"
  by (simp add: eq_on_def)

lemma eq_on_trans: "eq_on R m m' \<Longrightarrow> eq_on R m' m'' \<Longrightarrow> eq_on R m m''"
  by (simp add: eq_on_def)

lemma eq_on_mono: "eq_on R m m' \<Longrightarrow> S \<subseteq> R \<Longrightarrow> eq_on S m m'"
  by (auto simp: eq_on_def)

lemma eq_on_Un [simp]: "eq_on (R \<union> S) m m' \<longleftrightarrow> eq_on R m m' \<and> eq_on S m m'"
  by (auto simp: eq_on_def)

lemma st_bytes_outside: "x \<notin> region a (length bs) \<Longrightarrow> st_bytes m a bs x = m x"
  by (simp add: st_bytes_def region_def Let_def)

lemma eq_on_st_bytes:
  "R \<inter> region a (length bs) = {} \<Longrightarrow> eq_on R m (st_bytes m a bs)"
  unfolding eq_on_def by (metis disjoint_iff st_bytes_outside)

lemma ld_bytes_cong:
  "eq_on (region b n) m m' \<Longrightarrow> n \<le> 2 ^ 64 \<Longrightarrow> ld_bytes m b n = ld_bytes m' b n"
  by (simp add: ld_bytes_def eq_on_def mem_region_add)

lemma ld_bytes_st_bytes_same:
  assumes "n = length bs" and "n \<le> 2 ^ 64"
  shows "ld_bytes (st_bytes m a bs) a n = bs"
  using assms by (intro nth_equalityI) (simp_all add: ld_bytes_def st_bytes_def unat_of_nat)

lemma ld_bytes_length [simp]: "length (ld_bytes m a n) = n"
  by (simp add: ld_bytes_def)

section \<open>Little endian encoding\<close>

lemma length_word_to_bytes [simp]: "length (word_to_bytes n w) = n"
  by (simp add: word_to_bytes_def)

lemma word_to_bytes_Suc:
  "word_to_bytes (Suc n) w = ucast w # word_to_bytes n (drop_bit 8 w)"
  by (simp add: word_to_bytes_def upt_conv_Cons map_Suc_upt [symmetric]
      add.commute del: upt_Suc)

lemma word_of_to_bytes: "word_of_bytes (word_to_bytes n w) = take_bit (8 * n) (w :: 'a::len word)"
proof (induction n arbitrary: w)
  case 0
  then show ?case by (simp add: word_of_bytes_def word_to_bytes_def)
next
  case (Suc n)
  have "word_of_bytes (word_to_bytes (Suc n) w)
      = ucast (ucast w :: u8) OR push_bit 8 (take_bit (8 * n) (drop_bit 8 w))"
    using Suc.IH [of "drop_bit 8 w"] by (simp add: word_of_bytes_def word_to_bytes_Suc)
  also have "\<dots> = take_bit (8 * Suc n) w"
    by (rule bit_word_eqI) (auto simp: bit_simps)
  finally show ?case .
qed

lemma ld64_st64_same [simp, mem_simps]: "ld64 (st64 m a v) a = v"
  by (simp add: ld64_def st64_def ld_bytes_st_bytes_same word_of_to_bytes take_bit_word_eq_self)

lemma ld32_st32_same [simp, mem_simps]: "ld32 (st32 m a v) a = v"
  by (simp add: ld32_def st32_def ld_bytes_st_bytes_same word_of_to_bytes take_bit_word_eq_self)

lemma ld64_cong: "eq_on (region a 8) m m' \<Longrightarrow> ld64 m a = ld64 m' a"
  by (simp add: ld64_def ld_bytes_cong)

lemma ld32_cong: "eq_on (region a 4) m m' \<Longrightarrow> ld32 m a = ld32 m' a"
  by (simp add: ld32_def ld_bytes_cong)

lemma eq_on_st64: "R \<inter> region a 8 = {} \<Longrightarrow> eq_on R m (st64 m a v)"
  by (simp add: st64_def eq_on_st_bytes)

lemma eq_on_st32: "R \<inter> region a 4 = {} \<Longrightarrow> eq_on R m (st32 m a v)"
  by (simp add: st32_def eq_on_st_bytes)

lemma ld64_st64_other:
  "region b 8 \<inter> region a 8 = {} \<Longrightarrow> ld64 (st64 m a v) b = ld64 m b"
  by (metis eq_on_st64 ld64_cong)

lemma ld64_st32_other:
  "region b 8 \<inter> region a 4 = {} \<Longrightarrow> ld64 (st32 m a v) b = ld64 m b"
  by (metis eq_on_st32 ld64_cong)

lemma ld32_st64_other:
  "region b 4 \<inter> region a 8 = {} \<Longrightarrow> ld32 (st64 m a v) b = ld32 m b"
  by (metis eq_on_st64 ld32_cong)

lemma ld32_st32_other:
  "region b 4 \<inter> region a 4 = {} \<Longrightarrow> ld32 (st32 m a v) b = ld32 m b"
  by (metis eq_on_st32 ld32_cong)

lemma ld64_zero [simp]: "ld64 (\<lambda>_. 0) a = 0"
  by (simp add: ld64_def ld_bytes_def word_of_bytes_def upt_rec)

lemma ld32_zero [simp]: "ld32 (\<lambda>_. 0) a = 0"
  by (simp add: ld32_def ld_bytes_def word_of_bytes_def upt_rec)

end
