(* ===== verification/Cpu.thy ===== *)
theory Cpu
  imports Memory
begin

text \<open>
  Per-CPU state, interrupt masking and spin locks as one CPU sees them: \<^verbatim>\<open>kernel/src/cpu.c\<close>,
  the interrupt primitives of \<^verbatim>\<open>arch/x86/system.c\<close> and \<^verbatim>\<open>kernel/src/spinlock.c\<close>. The record
  \<open>machine\<close> is the root of the kernel state; later theories extend it with the globals of their
  component. A pointer \<^verbatim>\<open>struct cpu*\<close> is the index into \<^verbatim>\<open>cpus[]\<close>; a pointer to one of the
  kernel's static locks is its \<open>lock_id\<close>.
\<close>

section \<open>State\<close>

definition NCPU :: nat where "NCPU = 128"

definition RFLAGS_IF :: u64 where "RFLAGS_IF = 0x200"

record cpu =
  started :: u32
  int_disable_layer :: u32
  int_enabled :: u32
  cpu_proc :: ptr
  scheduler_ctx :: ptr
  apicid :: u8

record spinlock =
  locked :: u8
  lk_name :: string
  lk_cpu :: "nat option"

datatype lock_id =
    Pgalloc_lock | Kmalloc_lock | Ptable_lock | Sched_lock | Console_lock | Console_read_lock

record machine =
  mem :: memory
  rflags :: u64
  lapic_id_reg :: u32
  ncpu :: u16
  cpus :: "cpu list"
  locks :: "lock_id \<Rightarrow> spinlock"

section \<open>Interrupt flag (\<^verbatim>\<open>arch/x86/instructions.h\<close>, \<^verbatim>\<open>arch/x86/system.c\<close>)\<close>

definition if_set :: "u64 \<Rightarrow> bool" where
  "if_set f \<longleftrightarrow> f AND RFLAGS_IF \<noteq> 0"

definition cli :: "'z machine_scheme \<Rightarrow> 'z machine_scheme" where
  "cli s = s\<lparr>rflags := rflags s AND NOT RFLAGS_IF\<rparr>"

definition sti :: "'z machine_scheme \<Rightarrow> 'z machine_scheme" where
  "sti s = s\<lparr>rflags := rflags s OR RFLAGS_IF\<rparr>"

definition disable_interrupt :: "'z machine_scheme \<Rightarrow> (bool \<times> 'z machine_scheme) outcome" where
  "disable_interrupt s = Ret (if_set (rflags s), cli s)"

definition enable_interrupt :: "'z machine_scheme \<Rightarrow> (unit \<times> 'z machine_scheme) outcome" where
  "enable_interrupt s = Ret ((), sti s)"

section \<open>The current CPU (\<^verbatim>\<open>cpu.c\<close>)\<close>

text \<open>
  \<open>lapic_id_reg\<close> is the register \<^verbatim>\<open>lapic[ID]\<close> of the executing CPU: its value never changes and reading it has no side
  effect, so the read is a field of the state and no entry of the device trace. The pointer \<^verbatim>\<open>lapic\<close> of the source is
  set by \<^verbatim>\<open>lapic_init\<close>, which \<^verbatim>\<open>kmain\<close> calls before the first \<^verbatim>\<open>lapic_id\<close>; a call through the null pointer before that
  is outside the model.
\<close>

definition lapic_id :: "'z machine_scheme \<Rightarrow> u8" where
  "lapic_id s = ucast (drop_bit 24 (lapic_id_reg s))"

definition cpu_lookup :: "'z machine_scheme \<Rightarrow> nat option" where
  "cpu_lookup s = List.find (\<lambda>i. apicid (cpus s ! i) = lapic_id s) [0..<unat (ncpu s)]"

definition cur_cpu :: "'z machine_scheme \<Rightarrow> (nat \<times> 'z machine_scheme) outcome" where
  "cur_cpu s =
     (if if_set (rflags s) then panic ''cur_cpu with IF'' s
      else case cpu_lookup s of
          Some i \<Rightarrow> Ret (i, s)
        | None \<Rightarrow> panic ''unknown cpu'' s)"

definition cpu_id :: "'z machine_scheme \<Rightarrow> (u16 \<times> 'z machine_scheme) outcome" where
  "cpu_id = bindk cur_cpu (\<lambda>c. retk (of_nat c))"

definition push_int_disable :: "'z machine_scheme \<Rightarrow> (unit \<times> 'z machine_scheme) outcome" where
  "push_int_disable =
     bindk disable_interrupt (\<lambda>enabled.
     bindk cur_cpu (\<lambda>c s.
       let p = cpus s ! c;
           p1 = (if int_disable_layer p = 0
                 then p\<lparr>int_enabled := (if enabled then 1 else 0)\<rparr> else p);
           p2 = p1\<lparr>int_disable_layer := int_disable_layer p1 + 1\<rparr>
       in Ret ((), s\<lparr>cpus := (cpus s)[c := p2]\<rparr>)))"

text \<open>
  \<^verbatim>\<open>int_disable_layer\<close> is a \<^verbatim>\<open>u32\<close>, so the test \<^verbatim>\<open>c->int_disable_layer < 0\<close> compares an
  unsigned word with 0.
\<close>

definition pop_int_disable :: "'z machine_scheme \<Rightarrow> (unit \<times> 'z machine_scheme) outcome" where
  "pop_int_disable =
     bindk cur_cpu (\<lambda>c s.
       let p = cpus s ! c;
           p1 = p\<lparr>int_disable_layer := int_disable_layer p - 1\<rparr>;
           s1 = s\<lparr>cpus := (cpus s)[c := p1]\<rparr>
       in if int_disable_layer p1 < 0 then panic ''popcli'' s1
          else if int_disable_layer p1 = 0 \<and> int_enabled p1 \<noteq> 0 then enable_interrupt s1
          else Ret ((), s1))"

definition curproc :: "'z machine_scheme \<Rightarrow> (ptr \<times> 'z machine_scheme) outcome" where
  "curproc =
     bindk push_int_disable (\<lambda>_.
     bindk cur_cpu (\<lambda>i s.
     bindk pop_int_disable (\<lambda>_. retk (cpu_proc (cpus s ! i))) s))"

section \<open>Spin locks as seen by one CPU (\<^verbatim>\<open>spinlock.c\<close>)\<close>

definition init_lock :: "lock_id \<Rightarrow> string \<Rightarrow> 'z machine_scheme \<Rightarrow> (unit \<times> 'z machine_scheme) outcome" where
  "init_lock lk name s =
     Ret ((), s\<lparr>locks := (locks s)(lk := \<lparr>locked = 0, lk_name = name, lk_cpu = None\<rparr>)\<rparr>)"

definition holding :: "lock_id \<Rightarrow> 'z machine_scheme \<Rightarrow> (bool \<times> 'z machine_scheme) outcome" where
  "holding lk =
     bindk push_int_disable (\<lambda>_.
     bindk cur_cpu (\<lambda>c s.
       let r = (locked (locks s lk) \<noteq> 0 \<and> lk_cpu (locks s lk) = Some c)
       in bindk pop_int_disable (\<lambda>_. retk r) s))"

text \<open>
  The atomic exchange of \<^verbatim>\<open>acquire\<close> returns the old value of \<^verbatim>\<open>locked\<close>. While another CPU
  holds the lock, this CPU spins: from its own code alone the loop never ends. The interleaved
  behaviour of several CPUs is the subject of the theory \<open>Spinlock_SMP\<close>.
\<close>

definition spin_exchange :: "lock_id \<Rightarrow> 'z machine_scheme \<Rightarrow> (unit \<times> 'z machine_scheme) outcome" where
  "spin_exchange lk s =
     (if locked (locks s lk) \<noteq> 0 then Hang
      else Ret ((), s\<lparr>locks := (locks s)(lk := (locks s lk)\<lparr>locked := 1\<rparr>)\<rparr>))"

definition acquire :: "lock_id \<Rightarrow> 'z machine_scheme \<Rightarrow> (unit \<times> 'z machine_scheme) outcome" where
  "acquire lk =
     bindk push_int_disable (\<lambda>_.
     bindk (holding lk) (\<lambda>h.
       if h then panic ''acquire''
       else bindk (spin_exchange lk) (\<lambda>_.
            bindk cur_cpu (\<lambda>c s.
              Ret ((), s\<lparr>locks := (locks s)(lk := (locks s lk)\<lparr>lk_cpu := Some c\<rparr>)\<rparr>)))))"

definition release :: "lock_id \<Rightarrow> 'z machine_scheme \<Rightarrow> (unit \<times> 'z machine_scheme) outcome" where
  "release lk =
     bindk (holding lk) (\<lambda>h.
       if \<not> h then panic ''release''
       else (\<lambda>s. pop_int_disable
              (s\<lparr>locks := (locks s)(lk := (locks s lk)\<lparr>lk_cpu := None, locked := 0\<rparr>)\<rparr>)))"

text \<open>The shape \<^verbatim>\<open>acquire(&lk); r = body; release(&lk); return r;\<close> of the locked entry points.\<close>

definition locked_call ::
  "lock_id \<Rightarrow> ('z machine_scheme \<Rightarrow> ('a \<times> 'z machine_scheme) outcome)
    \<Rightarrow> 'z machine_scheme \<Rightarrow> ('a \<times> 'z machine_scheme) outcome" where
  "locked_call lk body =
     bindk (acquire lk) (\<lambda>_.
     bindk body (\<lambda>r.
     bindk (release lk) (\<lambda>_. retk r)))"

section \<open>Well-formed CPU state\<close>

text \<open>
  \<open>cpu_ready d c s\<close>: this CPU is \<^verbatim>\<open>cpus[c]\<close>, its nesting counter has room for \<open>d\<close> more levels,
  and interrupts are off whenever the counter is positive.
\<close>

definition cpu_ready :: "nat \<Rightarrow> nat \<Rightarrow> 'z machine_scheme \<Rightarrow> bool" where
  "cpu_ready d c s \<longleftrightarrow>
     cpu_lookup s = Some c \<and> c < length (cpus s) \<and>
     unat (int_disable_layer (cpus s ! c)) + d < 2 ^ 32 \<and>
     (int_disable_layer (cpus s ! c) \<noteq> 0 \<longrightarrow> \<not> if_set (rflags s))"

definition lock_free :: "lock_id \<Rightarrow> 'z machine_scheme \<Rightarrow> bool" where
  "lock_free lk s \<longleftrightarrow> locked (locks s lk) = 0 \<and> lk_cpu (locks s lk) = None"

definition lock_held :: "nat \<Rightarrow> lock_id \<Rightarrow> 'z machine_scheme \<Rightarrow> bool" where
  "lock_held c lk s \<longleftrightarrow> locked (locks s lk) \<noteq> 0 \<and> lk_cpu (locks s lk) = Some c"

definition pushed :: "u64 \<Rightarrow> cpu \<Rightarrow> cpu" where
  "pushed f p = p\<lparr>int_enabled := (if int_disable_layer p = 0 then (if if_set f then 1 else 0)
                                   else int_enabled p),
                 int_disable_layer := int_disable_layer p + 1\<rparr>"

text \<open>
  \<open>entered c s\<close> is the state after one \<^verbatim>\<open>push_int_disable\<close>; \<open>settled c s\<close> is what a balanced push
  and pop leaves in \<^verbatim>\<open>cpus[]\<close>: only the saved flag of the outermost level may differ.
\<close>

definition entered :: "nat \<Rightarrow> 'z machine_scheme \<Rightarrow> 'z machine_scheme" where
  "entered c s = s\<lparr>rflags := rflags s AND NOT RFLAGS_IF,
                   cpus := (cpus s)[c := pushed (rflags s) (cpus s ! c)]\<rparr>"

definition settled :: "nat \<Rightarrow> 'z machine_scheme \<Rightarrow> cpu list" where
  "settled c s = (cpus s)[c := (cpus s ! c)\<lparr>int_enabled :=
      (if int_disable_layer (cpus s ! c) = 0 then (if if_set (rflags s) then 1 else 0)
       else int_enabled (cpus s ! c))\<rparr>]"

definition same_cpu :: "'z machine_scheme \<Rightarrow> 'z machine_scheme \<Rightarrow> bool" where
  "same_cpu s t \<longleftrightarrow> rflags t = rflags s \<and> cpus t = cpus s \<and> ncpu t = ncpu s
     \<and> lapic_id_reg t = lapic_id_reg s"

definition acquired :: "nat \<Rightarrow> lock_id \<Rightarrow> 'z machine_scheme \<Rightarrow> 'z machine_scheme" where
  "acquired c lk s = (entered c s)\<lparr>locks := (locks s)(lk := (locks s lk)\<lparr>locked := 1, lk_cpu := Some c\<rparr>)\<rparr>"

text \<open>Repeated masking, and a one-CPU machine with interrupts on for the concrete instances.\<close>

primrec push_times :: "nat \<Rightarrow> 'z machine_scheme \<Rightarrow> (unit \<times> 'z machine_scheme) outcome" where
  "push_times 0 = retk ()"
| "push_times (Suc n) = bindk push_int_disable (\<lambda>_. push_times n)"

primrec pop_times :: "nat \<Rightarrow> 'z machine_scheme \<Rightarrow> (unit \<times> 'z machine_scheme) outcome" where
  "pop_times 0 = retk ()"
| "pop_times (Suc n) = bindk (pop_times n) (\<lambda>_. pop_int_disable)"

definition demo_cpu :: cpu where
  "demo_cpu = \<lparr>started = 1, int_disable_layer = 0, int_enabled = 0, cpu_proc = 0,
              scheduler_ctx = 0, apicid = 0\<rparr>"

definition demo_machine :: machine where
  "demo_machine = \<lparr>mem = (\<lambda>_. 0), rflags = RFLAGS_IF, lapic_id_reg = 0, ncpu = 1, cpus = [demo_cpu],
     locks = (\<lambda>_. \<lparr>locked = 0, lk_name = '''', lk_cpu = None\<rparr>)\<rparr>"

section \<open>Lemmas\<close>

lemma RFLAGS_IF_exp: "RFLAGS_IF = 2 ^ 9"
  by (simp add: RFLAGS_IF_def)

lemma bit_RFLAGS_IF: "bit RFLAGS_IF n \<longleftrightarrow> n = 9"
  unfolding RFLAGS_IF_exp by (simp only: bit_exp_iff) (auto simp: possible_bit_def)

lemma if_set_bit: "if_set f \<longleftrightarrow> bit f 9"
  unfolding if_set_def RFLAGS_IF_exp by (simp only: and_exp_eq_0_iff_not_bit) simp

lemma if_set_cleared [simp]: "\<not> if_set (f AND NOT RFLAGS_IF)"
  by (simp add: if_set_bit bit_simps bit_RFLAGS_IF)

lemma if_set_enabled [simp]: "if_set (f OR RFLAGS_IF)"
  by (simp add: if_set_bit bit_simps bit_RFLAGS_IF)

lemma if_clear_id: "\<not> if_set f \<Longrightarrow> f AND NOT RFLAGS_IF = f"
  by (rule bit_word_eqI) (auto simp: if_set_bit bit_simps bit_RFLAGS_IF)

lemma if_reset: "if_set f \<Longrightarrow> (f AND NOT RFLAGS_IF) OR RFLAGS_IF = f"
  by (rule bit_word_eqI) (auto simp: if_set_bit bit_simps bit_RFLAGS_IF)

lemma cpu_lookup_upd_cpus:
  assumes "apicid p = apicid (cpus s ! c)" and "c < length (cpus s)"
  shows "cpu_lookup (s\<lparr>cpus := (cpus s)[c := p]\<rparr>) = cpu_lookup s"
proof -
  have "apicid ((cpus s)[c := p] ! i) = apicid (cpus s ! i)" for i
    using assms by (cases "i = c") simp_all
  then show ?thesis by (simp add: cpu_lookup_def lapic_id_def)
qed

lemma cpu_lookup_cong:
  "cpus t = cpus s \<Longrightarrow> ncpu t = ncpu s \<Longrightarrow> lapic_id_reg t = lapic_id_reg s
    \<Longrightarrow> cpu_lookup t = cpu_lookup s"
  by (simp add: cpu_lookup_def lapic_id_def)

lemma cpu_lookup_simps [simp]:
  "cpu_lookup (rflags_update g s) = cpu_lookup s"
  "cpu_lookup (locks_update h s) = cpu_lookup s"
  "cpu_lookup (mem_update k s) = cpu_lookup s"
  by (simp_all add: cpu_lookup_def lapic_id_def)

lemma cur_cpu_eq:
  "\<not> if_set (rflags s) \<Longrightarrow> cpu_lookup s = Some c \<Longrightarrow> cur_cpu s = Ret (c, s)"
  by (simp add: cur_cpu_def)

lemma push_int_disable_eq:
  assumes "cpu_lookup s = Some c"
  shows "push_int_disable s = Ret ((), s\<lparr>rflags := rflags s AND NOT RFLAGS_IF,
           cpus := (cpus s)[c := pushed (rflags s) (cpus s ! c)]\<rparr>)"
  using assms
  by (simp add: push_int_disable_def disable_interrupt_def cli_def bindk_def cur_cpu_def Let_def pushed_def)

lemma pop_int_disable_eq:
  assumes "cpu_lookup s = Some c" "\<not> if_set (rflags s)"
  shows "pop_int_disable s = Ret ((), s\<lparr>
           cpus := (cpus s)[c := (cpus s ! c)\<lparr>int_disable_layer := int_disable_layer (cpus s ! c) - 1\<rparr>],
           rflags := (if int_disable_layer (cpus s ! c) = 1 \<and> int_enabled (cpus s ! c) \<noteq> 0
                      then rflags s OR RFLAGS_IF else rflags s)\<rparr>)"
  using assms
  by (auto simp: pop_int_disable_def bindk_def cur_cpu_def Let_def enable_interrupt_def sti_def)



lemma entered_simps [simp]:
  "ncpu (entered c s) = ncpu s" "lapic_id_reg (entered c s) = lapic_id_reg s"
  "locks (entered c s) = locks s" "mem (entered c s) = mem s"
  "rflags (entered c s) = rflags s AND NOT RFLAGS_IF"
  "length (cpus (entered c s)) = length (cpus s)"
  by (simp_all add: entered_def)

lemma apicid_pushed [simp]: "apicid (pushed f p) = apicid p"
  by (simp add: pushed_def)

lemma push_int_disable_entered:
  "cpu_lookup s = Some c \<Longrightarrow> push_int_disable s = Ret ((), entered c s)"
  by (simp add: push_int_disable_eq entered_def)

lemma cpu_lookup_entered [simp]:
  assumes "c < length (cpus s)"
  shows "cpu_lookup (entered c s) = cpu_lookup s"
  using cpu_lookup_upd_cpus [of "pushed (rflags s) (cpus s ! c)" s c] assms
  by (simp add: entered_def cpu_lookup_def lapic_id_def)

lemma cpus_entered:
  "c < length (cpus s) \<Longrightarrow> cpus (entered c s) ! c = pushed (rflags s) (cpus s ! c)"
  by (simp add: entered_def)

lemma unat_add_1_u32: "unat (l :: u32) + 1 < 2 ^ 32 \<Longrightarrow> unat (l + 1) = unat l + 1"
  by (simp add: unat_word_ariths)

lemma pushed_layer:
  assumes "unat (int_disable_layer p) + 1 < 2 ^ 32"
  shows "unat (int_disable_layer (pushed f p)) = unat (int_disable_layer p) + 1"
    and "int_disable_layer (pushed f p) \<noteq> 0"
proof -
  show *: "unat (int_disable_layer (pushed f p)) = unat (int_disable_layer p) + 1"
    using unat_add_1_u32 [OF assms] by (simp add: pushed_def)
  show "int_disable_layer (pushed f p) \<noteq> 0"
    using * by (metis unat_0 Suc_eq_plus1 nat.distinct(1))
qed

lemma cpu_ready_entered:
  assumes "cpu_ready (Suc d) c s"
  shows "cpu_ready d c (entered c s)"
  using assms pushed_layer [of "cpus s ! c" "rflags s"]
  by (auto simp: cpu_ready_def cpus_entered)

lemma cpu_ready_mono: "cpu_ready d c s \<Longrightarrow> e \<le> d \<Longrightarrow> cpu_ready e c s"
  by (auto simp: cpu_ready_def)

lemma cpu_ready_same: "same_cpu s t \<Longrightarrow> cpu_ready d c t \<longleftrightarrow> cpu_ready d c s"
  by (simp add: cpu_ready_def same_cpu_def cpu_lookup_def lapic_id_def)

lemma popped_pushed:
  "(pushed f p)\<lparr>int_disable_layer := int_disable_layer (pushed f p) - 1\<rparr>
   = p\<lparr>int_enabled := (if int_disable_layer p = 0 then (if if_set f then 1 else 0)
                        else int_enabled p)\<rparr>"
  by (cases p) (simp add: pushed_def)

lemma pop_entered:
  assumes rd: "cpu_ready (Suc d) c s" and same: "same_cpu (entered c s) t"
  shows "pop_int_disable t = Ret ((), t\<lparr>cpus := settled c s, rflags := rflags s\<rparr>)"
proof -
  have cl: "c < length (cpus s)" and ly: "unat (int_disable_layer (cpus s ! c)) + 1 < 2 ^ 32"
    using rd by (auto simp: cpu_ready_def)
  have look: "cpu_lookup t = Some c"
    using cpu_ready_same [OF same, of d c] cpu_ready_entered [OF rd] by (simp add: cpu_ready_def)
  have t: "cpus t ! c = pushed (rflags s) (cpus s ! c)"
    "cpus t = (cpus s)[c := pushed (rflags s) (cpus s ! c)]" "rflags t = rflags s AND NOT RFLAGS_IF"
    using same cl by (simp_all add: same_cpu_def entered_def)
  have one: "int_disable_layer (pushed (rflags s) (cpus s ! c)) = 1 \<longleftrightarrow> int_disable_layer (cpus s ! c) = 0"
    by (simp add: pushed_def)
  have c1: "(cpus t)[c := (cpus t ! c)\<lparr>int_disable_layer := int_disable_layer (cpus t ! c) - 1\<rparr>] = settled c s"
    by (simp add: t(1) popped_pushed) (simp add: t(2) settled_def)
  have r1: "(if int_disable_layer (cpus t ! c) = 1 \<and> int_enabled (cpus t ! c) \<noteq> 0
            then rflags t OR RFLAGS_IF else rflags t) = rflags s"
    using rd if_reset [of "rflags s"] if_clear_id [of "rflags s"]
    unfolding t(1) one by (auto simp: t pushed_def cpu_ready_def)
  show ?thesis
    using pop_int_disable_eq [of t c] look by (simp add: t(3) c1 r1)
qed

lemma settled_nested:
  "int_disable_layer (cpus s ! c) \<noteq> 0 \<Longrightarrow> settled c s = cpus s"
  by (simp add: settled_def)

lemma length_settled [simp]: "length (settled c s) = length (cpus s)"
  by (simp add: settled_def)

lemma cpu_ready_settled:
  assumes "cpu_ready d c s" and "cpus t = settled c s" and "rflags t = rflags s"
    and "ncpu t = ncpu s" and "lapic_id_reg t = lapic_id_reg s"
  shows "cpu_ready d c t"
proof -
  have c: "c < length (cpus s)" using assms(1) by (simp add: cpu_ready_def)
  have "cpu_lookup t = cpu_lookup (s\<lparr>cpus := settled c s\<rparr>)"
    using assms by (simp add: cpu_lookup_def lapic_id_def)
  also have "\<dots> = cpu_lookup s"
    unfolding settled_def by (rule cpu_lookup_upd_cpus) (simp_all add: c)
  finally show ?thesis
    using assms c by (simp add: cpu_ready_def settled_def)
qed

lemma holding_nested:
  assumes rd: "cpu_ready (Suc d) c s" and nest: "int_disable_layer (cpus s ! c) \<noteq> 0"
  shows "holding lk s = Ret (lock_held c lk s, s)"
proof -
  have c: "c < length (cpus s)" and l: "cpu_lookup s = Some c" using rd by (auto simp: cpu_ready_def)
  have "pop_int_disable (entered c s) = Ret ((), s)"
    using pop_entered [OF rd, of "entered c s"]
    by (simp add: same_cpu_def settled_nested nest) (simp add: entered_def)
  then show ?thesis
    using c l by (simp add: holding_def bindk_def push_int_disable_entered cur_cpu_eq Let_def retk_def lock_held_def)
qed

lemma entered_nested:
  "cpu_ready (Suc d) c s \<Longrightarrow> int_disable_layer (cpus (entered c s) ! c) \<noteq> 0"
  by (auto simp: cpu_ready_def cpus_entered pushed_layer)

lemma acquire_free:
  assumes rd: "cpu_ready (Suc (Suc d)) c s" and free: "lock_free lk s"
  shows "acquire lk s = Ret ((), acquired c lk s)"
proof -
  have c: "c < length (cpus s)" and l: "cpu_lookup s = Some c" using rd by (auto simp: cpu_ready_def)
  have rd': "cpu_ready (Suc d) c (entered c s)" using rd by (rule cpu_ready_entered)
  have "holding lk (entered c s) = Ret (False, entered c s)"
    using holding_nested [OF rd' entered_nested [OF rd]] free
    by (simp add: lock_held_def lock_free_def)
  then show ?thesis
    using c l free
    by (simp add: acquire_def bindk_def push_int_disable_entered spin_exchange_def lock_free_def
        cur_cpu_eq acquired_def)
qed

lemma release_held:
  assumes rd: "cpu_ready (Suc (Suc d)) c s" and same: "same_cpu (entered c s) t"
    and held: "lock_held c lk t"
  shows "release lk t = Ret ((), t\<lparr>cpus := settled c s, rflags := rflags s,
           locks := (locks t)(lk := (locks t lk)\<lparr>lk_cpu := None, locked := 0\<rparr>)\<rparr>)"
proof -
  have rd': "cpu_ready (Suc d) c t"
    using cpu_ready_entered [OF rd] cpu_ready_same [OF same] by simp
  have nest: "int_disable_layer (cpus t ! c) \<noteq> 0"
    using entered_nested [OF rd] same by (simp add: same_cpu_def)
  have "holding lk t = Ret (True, t)"
    using holding_nested [OF rd' nest] held by simp
  moreover have "same_cpu (entered c s) (t\<lparr>locks := l\<rparr>)" for l
    using same by (simp add: same_cpu_def)
  ultimately show ?thesis
    using pop_entered [OF rd] by (simp add: release_def bindk_def)
qed

lemma lock_free_reset:
  "lock_free lk s \<Longrightarrow> (locks s lk)\<lparr>lk_cpu := None, locked := 0\<rparr> = locks s lk"
  by (cases "locks s lk") (simp add: lock_free_def)

lemma same_cpu_acquired: "same_cpu (entered c s) (acquired c lk s)"
  by (simp add: same_cpu_def acquired_def)

text \<open>A locked section around a body that leaves the CPU state and its own lock alone.\<close>

lemma locked_call_Ret:
  assumes rd: "cpu_ready (Suc (Suc d)) c s" and free: "lock_free lk s"
    and body: "body (acquired c lk s) = Ret (r, t)"
    and same: "same_cpu (acquired c lk s) t" and lk: "locks t lk = locks (acquired c lk s) lk"
  shows "locked_call lk body s = Ret (r, t\<lparr>cpus := settled c s, rflags := rflags s,
           locks := (locks t)(lk := locks s lk)\<rparr>)"
proof -
  have same': "same_cpu (entered c s) t"
    using same same_cpu_acquired [of c s lk] by (simp add: same_cpu_def)
  have "lock_held c lk t" using lk by (simp add: lock_held_def acquired_def)
  from release_held [OF rd same' this] show ?thesis
    using acquire_free [OF rd free] body lk lock_free_reset [OF free]
    by (simp add: locked_call_def bindk_def retk_def acquired_def)
qed

lemma nested_balanced:
  assumes "cpu_ready n c s" and "int_disable_layer (cpus s ! c) \<noteq> 0"
  shows "\<exists>t. push_times n s = Ret ((), t) \<and> \<not> if_set (rflags t) \<and> pop_times n t = Ret ((), s)"
  using assms
proof (induction n arbitrary: s)
  case 0
  then show ?case by (auto simp: retk_def cpu_ready_def)
next
  case (Suc n)
  have rd: "cpu_ready n c (entered c s)" using Suc.prems(1) by (rule cpu_ready_entered)
  obtain t where t: "push_times n (entered c s) = Ret ((), t)" "\<not> if_set (rflags t)"
      "pop_times n t = Ret ((), entered c s)"
    using Suc.IH [OF rd entered_nested [OF Suc.prems(1)]] by blast
  have "pop_int_disable (entered c s) = Ret ((), s)"
    using pop_entered [OF Suc.prems(1), of "entered c s"]
    by (simp add: same_cpu_def settled_nested Suc.prems(2)) (simp add: entered_def)
  with t Suc.prems show ?case
    by (auto simp: bindk_def cpu_ready_def push_int_disable_entered)
qed

text \<open>nested interrupt masking is balanced: after any number of \<^verbatim>\<open>push_int_disable\<close> calls
  interrupts are off, and the same number of \<^verbatim>\<open>pop_int_disable\<close> calls restores the interrupt flag
  and the nesting counter the CPU started with.\<close>

theorem push_pop_balanced:
  assumes "cpu_ready (Suc n) c s"
  shows "\<exists>t. push_times (Suc n) s = Ret ((), t) \<and> \<not> if_set (rflags t)
           \<and> pop_times (Suc n) t = Ret ((), s\<lparr>cpus := settled c s\<rparr>)"
proof -
  obtain t where t: "push_times n (entered c s) = Ret ((), t)" "\<not> if_set (rflags t)"
      "pop_times n t = Ret ((), entered c s)"
    using nested_balanced [OF cpu_ready_entered [OF assms] entered_nested [OF assms]] by blast
  have "pop_int_disable (entered c s) = Ret ((), s\<lparr>cpus := settled c s\<rparr>)"
    using pop_entered [OF assms, of "entered c s"] by (simp add: same_cpu_def) (simp add: entered_def)
  with t assms show ?thesis
    by (auto simp: bindk_def cpu_ready_def push_int_disable_entered)
qed

lemma demo_ready: "cpu_ready 9 0 demo_machine"
  by (simp add: cpu_ready_def demo_machine_def demo_cpu_def cpu_lookup_def lapic_id_def)

theorem push_pop_balanced_witness:
  "\<exists>t. push_times 3 demo_machine = Ret ((), t) \<and> \<not> if_set (rflags t)
       \<and> pop_times 3 t = Ret ((), demo_machine\<lparr>cpus := settled 0 demo_machine\<rparr>)"
  using push_pop_balanced [of 2 0 demo_machine] cpu_ready_mono [OF demo_ready, of 3]
  by (simp add: numeral_3_eq_3 del: push_times.simps pop_times.simps)

text \<open>C14: taking a free lock succeeds, leaves interrupts off and makes \<^verbatim>\<open>holding\<close> true; the matching
  \<^verbatim>\<open>release\<close> frees the lock and restores the interrupt flag and nesting level of the caller.\<close>

theorem acquire_release_roundtrip:
  assumes rd: "cpu_ready 3 c s" and free: "lock_free lk s"
  shows "\<exists>t. acquire lk s = Ret ((), t) \<and> \<not> if_set (rflags t) \<and> holding lk t = Ret (True, t)
           \<and> release lk t = Ret ((), s\<lparr>cpus := settled c s\<rparr>)"
proof -
  have rd2: "cpu_ready (Suc (Suc 1)) c s" using rd by (simp add: numeral_3_eq_3)
  let ?t = "acquired c lk s"
  have held: "lock_held c lk ?t" by (simp add: lock_held_def acquired_def)
  have rdt: "cpu_ready (Suc 1) c ?t"
    using cpu_ready_entered [OF rd2] cpu_ready_same [OF same_cpu_acquired] by blast
  have nest: "int_disable_layer (cpus ?t ! c) \<noteq> 0"
    using entered_nested [OF rd2] by (simp add: acquired_def)
  have "release lk ?t = Ret ((), s\<lparr>cpus := settled c s\<rparr>)"
    using release_held [OF rd2 same_cpu_acquired held] lock_free_reset [OF free]
    by (simp add: acquired_def) (simp add: entered_def)
  moreover have "\<not> if_set (rflags ?t)" by (simp add: acquired_def)
  ultimately show ?thesis
    using acquire_free [OF rd2 free] holding_nested [OF rdt nest, of lk] held by auto
qed

theorem acquire_release_roundtrip_witness:
  "\<exists>t. acquire Sched_lock demo_machine = Ret ((), t) \<and> \<not> if_set (rflags t)
     \<and> holding Sched_lock t = Ret (True, t)
     \<and> release Sched_lock t = Ret ((), demo_machine\<lparr>cpus := settled 0 demo_machine\<rparr>)"
  using acquire_release_roundtrip [OF cpu_ready_mono [OF demo_ready], of Sched_lock]
  by (simp add: lock_free_def demo_machine_def)

lemma acquire_busy:
  assumes rd: "cpu_ready 3 c s" and busy: "locked (locks s lk) \<noteq> 0"
  shows "acquire lk s = (if lk_cpu (locks s lk) = Some c then Panic ''acquire'' else Hang)"
proof -
  have rd2: "cpu_ready (Suc (Suc 1)) c s" using rd by (simp add: numeral_3_eq_3)
  have "holding lk (entered c s) = Ret (lock_held c lk s, entered c s)"
    using holding_nested [OF cpu_ready_entered [OF rd2] entered_nested [OF rd2], of lk]
    by (simp add: lock_held_def)
  then show ?thesis
    using rd busy by (simp add: acquire_def bindk_def push_int_disable_entered cpu_ready_def
        lock_held_def panic_def spin_exchange_def)
qed

lemma release_not_held:
  assumes rd: "cpu_ready 3 c s" and no: "\<not> lock_held c lk s"
  shows "release lk s = Panic ''release''"
proof -
  have rd1: "cpu_ready (Suc 2) c s" using rd by (simp add: numeral_3_eq_3)
  have c: "c < length (cpus s)" and l: "cpu_lookup s = Some c" using rd by (auto simp: cpu_ready_def)
  have "holding lk s = Ret (False, s\<lparr>cpus := settled c s\<rparr>)"
    using pop_entered [OF rd1, of "entered c s"] c l no
    by (simp add: holding_def bindk_def push_int_disable_entered cur_cpu_eq Let_def retk_def
        lock_held_def same_cpu_def) (simp add: entered_def)
  then show ?thesis by (simp add: release_def bindk_def panic_def)
qed

text \<open>lock misuse: acquiring a lock this CPU holds panics, acquiring one that another CPU holds spins,
  and releasing a lock this CPU does not hold panics.\<close>

theorem lock_misuse_detected:
  assumes "cpu_ready 3 c s"
  shows "(lock_held c lk s \<longrightarrow> acquire lk s = Panic ''acquire'')
       \<and> (locked (locks s lk) \<noteq> 0 \<and> lk_cpu (locks s lk) \<noteq> Some c \<longrightarrow> acquire lk s = Hang)
       \<and> (\<not> lock_held c lk s \<longrightarrow> release lk s = Panic ''release'')"
  using acquire_busy [OF assms, of lk] release_not_held [OF assms, of lk]
  by (simp add: lock_held_def)

theorem lock_misuse_detected_witness:
  "release Sched_lock demo_machine = Panic ''release''"
  using lock_misuse_detected [OF cpu_ready_mono [OF demo_ready], of Sched_lock]
  by (simp add: lock_held_def demo_machine_def)

text \<open>the underflow check of \<^verbatim>\<open>pop_int_disable\<close> is dead: the counter is unsigned, so the panic
  \<^verbatim>\<open>popcli\<close> never happens and an unmatched pop wraps the counter to \<^verbatim>\<open>0xFFFFFFFF\<close>.\<close>

theorem pop_underflow_unnoticed:
  "pop_int_disable s \<noteq> Panic ''popcli''
   \<and> (cpu_lookup s = Some c \<and> c < length (cpus s) \<and> \<not> if_set (rflags s)
        \<and> int_disable_layer (cpus s ! c) = 0
      \<longrightarrow> (\<exists>t. pop_int_disable s = Ret ((), t) \<and> int_disable_layer (cpus t ! c) = 0xFFFFFFFF))"
  by (auto simp: pop_int_disable_eq) 
     (auto simp: pop_int_disable_def bindk_def cur_cpu_def Let_def enable_interrupt_def panic_def 
      split: option.splits if_splits)

theorem pop_underflow_unnoticed_witness:
  "\<exists>t. pop_int_disable (demo_machine\<lparr>rflags := 0\<rparr>) = Ret ((), t)
     \<and> int_disable_layer (cpus t ! 0) = 0xFFFFFFFF"
  using pop_underflow_unnoticed [of "demo_machine\<lparr>rflags := 0\<rparr>" 0] demo_ready
  by (simp add: cpu_ready_def) (simp add: demo_machine_def demo_cpu_def if_set_def)

end
