(* ===== verification/Spinlock_SMP.thy ===== *)
theory Spinlock_SMP
  imports Cpu
begin

text \<open>
  One spin lock shared by any number of CPUs: \<^verbatim>\<open>spinlock.c\<close> at the granularity of its accesses
  to the shared fields \<^verbatim>\<open>locked\<close> and \<^verbatim>\<open>cpu\<close>. Each CPU has a program counter inside
  \<^verbatim>\<open>acquire\<close> and \<^verbatim>\<open>release\<close>; a step is one access by one CPU, so every interleaving is a
  run of \<open>smp_step\<close>.
\<close>

datatype lock_pc =
    Outside            \<comment> \<open>in neither call, does not own the lock\<close>
  | Entering           \<comment> \<open>in \<^verbatim>\<open>acquire\<close>: \<^verbatim>\<open>holding\<close> has read \<^verbatim>\<open>locked\<close> as set, not yet \<^verbatim>\<open>cpu\<close>\<close>
  | Straying           \<comment> \<open>the same in a \<^verbatim>\<open>release\<close> by a CPU that does not own the lock\<close>
  | Spinning           \<comment> \<open>in the exchange loop of \<^verbatim>\<open>acquire\<close>\<close>
  | Got                \<comment> \<open>exchange returned 0, \<^verbatim>\<open>lk->cpu\<close> not yet written\<close>
  | Critical           \<comment> \<open>between \<^verbatim>\<open>acquire\<close> and \<^verbatim>\<open>release\<close>\<close>
  | Reentering         \<comment> \<open>the owner in \<^verbatim>\<open>acquire\<close>: \<^verbatim>\<open>holding\<close> has read \<^verbatim>\<open>locked\<close>\<close>
  | Releasing          \<comment> \<open>the owner in \<^verbatim>\<open>release\<close>: \<^verbatim>\<open>holding\<close> has read \<^verbatim>\<open>locked\<close>\<close>
  | Checked            \<comment> \<open>in \<^verbatim>\<open>release\<close>, \<^verbatim>\<open>holding\<close> was true, \<^verbatim>\<open>lk->cpu\<close> not yet cleared\<close>
  | Clearing           \<comment> \<open>in \<^verbatim>\<open>release\<close>, \<^verbatim>\<open>lk->cpu\<close> cleared, \<^verbatim>\<open>locked\<close> not yet\<close>
  | Halted             \<comment> \<open>panicked without the lock\<close>
  | HaltedInside       \<comment> \<open>panicked while owning the lock\<close>

record smp =
  l_locked :: u8
  l_cpu :: "nat option"
  pcs :: "nat \<Rightarrow> lock_pc"

definition smp_init :: smp where
  "smp_init = \<lparr>l_locked = 0, l_cpu = None, pcs = (\<lambda>_. Outside)\<rparr>"

text \<open>What \<^verbatim>\<open>holding\<close> would answer to CPU \<open>i\<close> if it made both reads in state \<open>s\<close>.\<close>

definition smp_holding :: "smp \<Rightarrow> nat \<Rightarrow> bool" where
  "smp_holding s i \<longleftrightarrow> l_locked s \<noteq> 0 \<and> l_cpu s = Some i"

text \<open>
  \<^verbatim>\<open>holding\<close> reads \<^verbatim>\<open>locked\<close> first and \<^verbatim>\<open>cpu\<close> only if it was set. A CPU may also misuse the lock: the owner may
  call \<^verbatim>\<open>acquire\<close> again, a CPU without the lock may call \<^verbatim>\<open>release\<close>.
\<close>

inductive smp_step :: "smp \<Rightarrow> smp \<Rightarrow> bool" where
  enter_free: "pcs s i = Outside \<Longrightarrow> l_locked s = 0 \<Longrightarrow>
      smp_step s (s\<lparr>pcs := (pcs s)(i := Spinning)\<rparr>)"
| enter_locked: "pcs s i = Outside \<Longrightarrow> l_locked s \<noteq> 0 \<Longrightarrow>
      smp_step s (s\<lparr>pcs := (pcs s)(i := Entering)\<rparr>)"
| enter_other: "pcs s i = Entering \<Longrightarrow> l_cpu s \<noteq> Some i \<Longrightarrow>
      smp_step s (s\<lparr>pcs := (pcs s)(i := Spinning)\<rparr>)"
| enter_panic: "pcs s i = Entering \<Longrightarrow> l_cpu s = Some i \<Longrightarrow>
      smp_step s (s\<lparr>pcs := (pcs s)(i := Halted)\<rparr>)"
| exchange_busy: "pcs s i = Spinning \<Longrightarrow> l_locked s \<noteq> 0 \<Longrightarrow>
      smp_step s (s\<lparr>l_locked := 1\<rparr>)"
| exchange_won: "pcs s i = Spinning \<Longrightarrow> l_locked s = 0 \<Longrightarrow>
      smp_step s (s\<lparr>l_locked := 1, pcs := (pcs s)(i := Got)\<rparr>)"
| set_owner: "pcs s i = Got \<Longrightarrow>
      smp_step s (s\<lparr>l_cpu := Some i, pcs := (pcs s)(i := Critical)\<rparr>)"
| reenter_free: "pcs s i = Critical \<Longrightarrow> l_locked s = 0 \<Longrightarrow>
      smp_step s (s\<lparr>pcs := (pcs s)(i := Spinning)\<rparr>)"
| reenter_locked: "pcs s i = Critical \<Longrightarrow> l_locked s \<noteq> 0 \<Longrightarrow>
      smp_step s (s\<lparr>pcs := (pcs s)(i := Reentering)\<rparr>)"
| reenter_panic: "pcs s i = Reentering \<Longrightarrow> l_cpu s = Some i \<Longrightarrow>
      smp_step s (s\<lparr>pcs := (pcs s)(i := HaltedInside)\<rparr>)"
| reenter_spin: "pcs s i = Reentering \<Longrightarrow> l_cpu s \<noteq> Some i \<Longrightarrow>
      smp_step s (s\<lparr>pcs := (pcs s)(i := Spinning)\<rparr>)"
| release_free: "pcs s i = Critical \<Longrightarrow> l_locked s = 0 \<Longrightarrow>
      smp_step s (s\<lparr>pcs := (pcs s)(i := HaltedInside)\<rparr>)"
| release_locked: "pcs s i = Critical \<Longrightarrow> l_locked s \<noteq> 0 \<Longrightarrow>
      smp_step s (s\<lparr>pcs := (pcs s)(i := Releasing)\<rparr>)"
| release_panic: "pcs s i = Releasing \<Longrightarrow> l_cpu s \<noteq> Some i \<Longrightarrow>
      smp_step s (s\<lparr>pcs := (pcs s)(i := HaltedInside)\<rparr>)"
| release_checked: "pcs s i = Releasing \<Longrightarrow> l_cpu s = Some i \<Longrightarrow>
      smp_step s (s\<lparr>pcs := (pcs s)(i := Checked)\<rparr>)"
| release_clear: "pcs s i = Checked \<Longrightarrow>
      smp_step s (s\<lparr>l_cpu := None, pcs := (pcs s)(i := Clearing)\<rparr>)"
| release_store: "pcs s i = Clearing \<Longrightarrow>
      smp_step s (s\<lparr>l_locked := 0, pcs := (pcs s)(i := Outside)\<rparr>)"
| stray_free: "pcs s i = Outside \<Longrightarrow> l_locked s = 0 \<Longrightarrow>
      smp_step s (s\<lparr>pcs := (pcs s)(i := Halted)\<rparr>)"
| stray_locked: "pcs s i = Outside \<Longrightarrow> l_locked s \<noteq> 0 \<Longrightarrow>
      smp_step s (s\<lparr>pcs := (pcs s)(i := Straying)\<rparr>)"
| stray_panic: "pcs s i = Straying \<Longrightarrow> l_cpu s \<noteq> Some i \<Longrightarrow>
      smp_step s (s\<lparr>pcs := (pcs s)(i := Halted)\<rparr>)"
| stray_checked: "pcs s i = Straying \<Longrightarrow> l_cpu s = Some i \<Longrightarrow>
      smp_step s (s\<lparr>pcs := (pcs s)(i := Checked)\<rparr>)"

inductive smp_reachable :: "smp \<Rightarrow> bool" where
  start: "smp_reachable smp_init"
| step: "smp_reachable s \<Longrightarrow> smp_step s t \<Longrightarrow> smp_reachable t"

text \<open>
  The section of the code in which a CPU owns the lock, and the part of it in which the lock records this: from the
  store of \<^verbatim>\<open>lk->cpu\<close> in \<^verbatim>\<open>acquire\<close> to its clearing in \<^verbatim>\<open>release\<close>.
\<close>

definition inside :: "lock_pc \<Rightarrow> bool" where
  "inside p \<longleftrightarrow> p \<in> {Got, Critical, Reentering, Releasing, Checked, Clearing, HaltedInside}"

definition recorded :: "lock_pc \<Rightarrow> bool" where
  "recorded p \<longleftrightarrow> p \<in> {Critical, Reentering, Releasing, Checked, HaltedInside}"

text \<open>The lock is free, or exactly one CPU owns it and the owner field agrees.\<close>

definition unowned :: "smp \<Rightarrow> bool" where
  "unowned s \<longleftrightarrow> l_locked s = 0 \<and> l_cpu s = None \<and> (\<forall>i. \<not> inside (pcs s i))"

definition owned :: "nat \<Rightarrow> smp \<Rightarrow> bool" where
  "owned k s \<longleftrightarrow> l_locked s \<noteq> 0 \<and> inside (pcs s k) \<and> (\<forall>i. i \<noteq> k \<longrightarrow> \<not> inside (pcs s i))
     \<and> l_cpu s = (if recorded (pcs s k) then Some k else None)"

definition smp_inv :: "smp \<Rightarrow> bool" where
  "smp_inv s \<longleftrightarrow> unowned s \<or> (\<exists>k. owned k s)"

lemma inside_simps [simp]:
  "\<not> inside Outside" "\<not> inside Entering" "\<not> inside Straying" "\<not> inside Spinning" "\<not> inside Halted"
  "inside Got" "inside Critical" "inside Reentering" "inside Releasing" "inside Checked" "inside Clearing" "inside HaltedInside"
  by (simp_all add: inside_def)

lemma recorded_simps [simp]:
  "\<not> recorded Outside" "\<not> recorded Entering" "\<not> recorded Straying" "\<not> recorded Spinning" "\<not> recorded Halted"
  "\<not> recorded Got" "recorded Critical" "recorded Reentering" "recorded Releasing" "recorded Checked" "\<not> recorded Clearing"
  "recorded HaltedInside"
  by (simp_all add: recorded_def)

lemma recorded_inside: "recorded p \<Longrightarrow> inside p"
  by (auto simp: recorded_def inside_def)

lemma smp_inv_init: "smp_inv smp_init"
  by (simp add: smp_inv_def unowned_def smp_init_def)

lemma owned_inside: "owned k s \<Longrightarrow> inside (pcs s i) \<Longrightarrow> i = k"
  unfolding owned_def by blast

lemma smp_inv_exclusive: "smp_inv s \<Longrightarrow> inside (pcs s i) \<Longrightarrow> inside (pcs s j) \<Longrightarrow> i = j"
  unfolding smp_inv_def unowned_def by (blast dest: owned_inside)

lemma smp_inv_owned: "smp_inv s \<Longrightarrow> inside (pcs s i) \<Longrightarrow> owned i s"
  unfolding smp_inv_def unowned_def by (metis owned_inside)

lemma smp_inv_unowned: "smp_inv s \<Longrightarrow> l_locked s = 0 \<longleftrightarrow> unowned s"
  unfolding smp_inv_def by (auto simp: unowned_def owned_def)

lemma smp_inv_cpu: "smp_inv s \<Longrightarrow> l_cpu s = Some i \<longleftrightarrow> recorded (pcs s i)"
  unfolding smp_inv_def unowned_def owned_def by (auto split: if_splits dest: recorded_inside) (metis recorded_inside)+

lemma smp_inv_locked: "smp_inv s \<Longrightarrow> inside (pcs s i) \<Longrightarrow> l_locked s \<noteq> 0"
  using smp_inv_owned by (auto simp: owned_def)

lemma smp_inv_holding: "smp_inv s \<Longrightarrow> smp_holding s i \<longleftrightarrow> recorded (pcs s i)"
  using smp_inv_cpu [of s i] smp_inv_locked [of s i] recorded_inside by (auto simp: smp_holding_def)

lemma smp_inv_move:
  assumes "smp_inv s" and "\<not> inside (pcs s i)" and "\<not> inside p"
  shows "smp_inv (s\<lparr>pcs := (pcs s)(i := p)\<rparr>)"
proof (cases "unowned s")
  case True
  with assms(3) show ?thesis by (simp add: smp_inv_def unowned_def)
next
  case False
  with assms(1) obtain k where k: "owned k s" by (auto simp: smp_inv_def)
  with assms(2,3) have "owned k (s\<lparr>pcs := (pcs s)(i := p)\<rparr>)" by (auto simp: owned_def)
  then show ?thesis by (auto simp: smp_inv_def)
qed

lemma owned_inv: "owned k s \<Longrightarrow> smp_inv s"
  by (auto simp: smp_inv_def)

lemma smp_inv_stay:
  assumes "smp_inv s" and "inside (pcs s i)" and "inside p" and "recorded p = recorded (pcs s i)"
  shows "smp_inv (s\<lparr>pcs := (pcs s)(i := p)\<rparr>)"
  using smp_inv_owned [OF assms(1,2)] assms(3,4) by (intro owned_inv [of i]) (simp add: owned_def)

lemma smp_step_inv: "smp_step s t \<Longrightarrow> smp_inv s \<Longrightarrow> smp_inv t"
proof (induction rule: smp_step.induct)
  case (exchange_busy s i)
  then show ?case by (auto simp: smp_inv_def unowned_def owned_def)
next
  case (exchange_won s i)
  then have "unowned s" using smp_inv_unowned by blast
  then show ?case by (intro owned_inv [of i]) (simp add: owned_def unowned_def)
next
  case (set_owner s i)
  then have "owned i s" by (simp add: smp_inv_owned)
  then show ?case by (intro owned_inv [of i]) (simp add: owned_def)
next
  case (release_clear s i)
  then have "owned i s" by (simp add: smp_inv_owned)
  then show ?case by (intro owned_inv [of i]) (simp add: owned_def)
next
  case (release_store s i)
  then have "owned i s" by (simp add: smp_inv_owned)
  with release_store show ?case by (auto simp: smp_inv_def unowned_def owned_def)
next
  case (reenter_free s i)
  then show ?case using smp_inv_locked [of s i] by simp
next
  case (release_free s i)
  then show ?case using smp_inv_locked [of s i] by simp
qed (simp_all add: smp_inv_cpu smp_inv_move smp_inv_stay)

lemma smp_reachable_inv: "smp_reachable s \<Longrightarrow> smp_inv s"
  by (induction rule: smp_reachable.induct) (auto intro: smp_inv_init smp_step_inv)

text \<open>C12: mutual exclusion under every interleaving: two CPUs are never both between winning the
  exchange in \<^verbatim>\<open>acquire\<close> and the unlocking store in \<^verbatim>\<open>release\<close>.\<close>

theorem spinlock_mutual_exclusion:
  assumes "smp_reachable s" and "inside (pcs s i)" and "inside (pcs s j)"
  shows "i = j"
  using smp_inv_exclusive [OF smp_reachable_inv [OF assms(1)] assms(2,3)] .

lemma smp_reachable_critical:
  "smp_reachable \<lparr>l_locked = 1, l_cpu = Some 0, pcs = (\<lambda>_. Outside)(0 := Critical)\<rparr>"
proof -
  let ?s1 = "smp_init\<lparr>pcs := (pcs smp_init)(0 := Spinning)\<rparr>"
  let ?s2 = "?s1\<lparr>l_locked := 1, pcs := (pcs ?s1)(0 := Got)\<rparr>"
  let ?s3 = "?s2\<lparr>l_cpu := Some 0, pcs := (pcs ?s2)(0 := Critical)\<rparr>"
  have "smp_step smp_init ?s1" by (rule smp_step.enter_free) (simp_all add: smp_init_def)
  moreover have "smp_step ?s1 ?s2" by (rule smp_step.exchange_won) (simp_all add: smp_init_def)
  moreover have "smp_step ?s2 ?s3" by (rule smp_step.set_owner) simp
  ultimately have "smp_reachable ?s3" by (meson smp_reachable.intros)
  then show ?thesis by (simp add: smp_init_def)
qed

theorem spinlock_mutual_exclusion_witness:
  "smp_reachable \<lparr>l_locked = 1, l_cpu = Some 0, pcs = (\<lambda>_. Outside)(0 := Critical)\<rparr>
   \<and> inside (((\<lambda>_. Outside)(0 := Critical)) (0 :: nat))
   \<and> \<not> inside (((\<lambda>_. Outside)(0 := Critical)) (1 :: nat))"
  using spinlock_mutual_exclusion [OF smp_reachable_critical, of 0 1] smp_reachable_critical by simp

text \<open>C13: \<^verbatim>\<open>holding\<close> is exact under every interleaving. At every reachable state it would be true for CPU \<open>i\<close>
  precisely when \<open>i\<close> is between its store of \<^verbatim>\<open>lk->cpu\<close> in \<^verbatim>\<open>acquire\<close> and the clearing of that field in \<^verbatim>\<open>release\<close>; and
  although it makes its two reads at different moments, the checks built on it come out right: the owner's
  \<^verbatim>\<open>release\<close> passes both reads, the owner's second \<^verbatim>\<open>acquire\<close> is detected, no \<^verbatim>\<open>acquire\<close> of another CPU panics and
  a \<^verbatim>\<open>release\<close> without the lock always does. When nobody owns the lock, a spinning CPU wins its next exchange.\<close>

theorem spinlock_holding_exact:
  assumes "smp_reachable s"
  shows "(smp_holding s i \<longleftrightarrow> recorded (pcs s i))
       \<and> (pcs s i \<in> {Critical, Reentering, Releasing} \<longrightarrow> l_locked s \<noteq> 0 \<and> l_cpu s = Some i)
       \<and> (pcs s i \<in> {Entering, Straying} \<longrightarrow> l_cpu s \<noteq> Some i)
       \<and> (pcs s i = Spinning \<and> (\<forall>j. \<not> inside (pcs s j)) \<longrightarrow>
            smp_step s (s\<lparr>l_locked := 1, pcs := (pcs s)(i := Got)\<rparr>))"
proof -
  have inv: "smp_inv s" using assms by (rule smp_reachable_inv)
  have "l_locked s = 0" if "\<forall>j. \<not> inside (pcs s j)"
    using inv that by (auto simp: smp_inv_def unowned_def owned_def)
  moreover have "l_locked s \<noteq> 0" if "inside (pcs s i)" by (rule smp_inv_locked [OF inv that])
  ultimately show ?thesis
    using smp_inv_holding [OF inv, of i] smp_inv_cpu [OF inv, of i] by (auto intro: smp_step.exchange_won)
qed

theorem spinlock_holding_exact_witness:
  "smp_reachable \<lparr>l_locked = 1, l_cpu = Some 0, pcs = (\<lambda>_. Outside)(0 := Critical)\<rparr>
   \<and> smp_holding \<lparr>l_locked = 1, l_cpu = Some 0, pcs = (\<lambda>_. Outside)(0 := Critical)\<rparr> 0
   \<and> \<not> smp_holding \<lparr>l_locked = 1, l_cpu = Some 0, pcs = (\<lambda>_. Outside)(0 := Critical)\<rparr> 1"
  using spinlock_holding_exact [OF smp_reachable_critical, of 0]
    spinlock_holding_exact [OF smp_reachable_critical, of 1] smp_reachable_critical by simp

end
