(* ===== verification/Cstring.thy ===== *)
theory Cstring
  imports Memory
begin

text \<open>
  The memory and string routines \<^verbatim>\<open>kernel/src/util/string.c\<close>, on the byte memory of the theory \<open>Memory\<close>.
  The predicate \<open>cstr m p w\<close> says that a NUL-terminated string with the bytes \<open>w\<close> starts at \<open>p\<close>.
\<close>

section \<open>Block operations\<close>

text \<open>
  \<^verbatim>\<open>rep stosb\<close> and \<^verbatim>\<open>rep stosl\<close> of \<^verbatim>\<open>arch/x86/instructions.h\<close>; their count is a C \<^verbatim>\<open>int\<close>, so the
  hardware loop runs for the low 32 bits of the value passed.
\<close>

primrec rep_stosb :: "nat \<Rightarrow> ptr \<Rightarrow> u8 \<Rightarrow> memory \<Rightarrow> memory" where
  "rep_stosb 0 a c m = m"
| "rep_stosb (Suc n) a c m = rep_stosb n (a + 1) c (m(a := c))"

primrec rep_stosl :: "nat \<Rightarrow> ptr \<Rightarrow> u32 \<Rightarrow> memory \<Rightarrow> memory" where
  "rep_stosl 0 a w m = m"
| "rep_stosl (Suc n) a w m = rep_stosl n (a + 4) w (st32 m a w)"

definition stosb :: "ptr \<Rightarrow> u32 \<Rightarrow> u64 \<Rightarrow> memory \<Rightarrow> memory" where
  "stosb a data cnt = rep_stosb (unat (ucast cnt :: u32)) a (ucast data)"

definition stosl :: "ptr \<Rightarrow> u32 \<Rightarrow> u64 \<Rightarrow> memory \<Rightarrow> memory" where
  "stosl a data cnt = rep_stosl (unat (ucast cnt :: u32)) a data"

definition memset :: "ptr \<Rightarrow> u32 \<Rightarrow> u64 \<Rightarrow> memory \<Rightarrow> memory" where
  "memset dst c n m =
     (if dst mod 4 = 0 \<and> n mod 4 = 0 then
        let c' = c AND 0xFF
        in stosl dst (push_bit 24 c' OR push_bit 16 c' OR push_bit 8 c' OR c') (n div 4) m
      else stosb dst c n m)"

text \<open>\<^verbatim>\<open>memcmp\<close>: the loop \<^verbatim>\<open>while (n-- > 0)\<close>.\<close>

primrec memcmp_loop :: "nat \<Rightarrow> ptr \<Rightarrow> ptr \<Rightarrow> memory \<Rightarrow> int" where
  "memcmp_loop 0 s1 s2 m = 0"
| "memcmp_loop (Suc n) s1 s2 m =
     (if m s1 \<noteq> m s2 then uint (m s1) - uint (m s2) else memcmp_loop n (s1 + 1) (s2 + 1) m)"

definition memcmp :: "ptr \<Rightarrow> ptr \<Rightarrow> u64 \<Rightarrow> memory \<Rightarrow> int" where
  "memcmp v1 v2 n = memcmp_loop (unat n) v1 v2"

primrec copy_bwd :: "nat \<Rightarrow> ptr \<Rightarrow> ptr \<Rightarrow> memory \<Rightarrow> memory" where
  "copy_bwd 0 d s m = m"
| "copy_bwd (Suc n) d s m = copy_bwd n (d - 1) (s - 1) (m(d - 1 := m (s - 1)))"

primrec copy_fwd :: "nat \<Rightarrow> ptr \<Rightarrow> ptr \<Rightarrow> memory \<Rightarrow> memory" where
  "copy_fwd 0 d s m = m"
| "copy_fwd (Suc n) d s m = copy_fwd n (d + 1) (s + 1) (m(d := m s))"

definition memmove :: "ptr \<Rightarrow> ptr \<Rightarrow> u64 \<Rightarrow> memory \<Rightarrow> memory" where
  "memmove dst src n m =
     (if src < dst \<and> dst < src + n then copy_bwd (unat n) (dst + n) (src + n) m
      else copy_fwd (unat n) dst src m)"

definition memcpy :: "ptr \<Rightarrow> ptr \<Rightarrow> u64 \<Rightarrow> memory \<Rightarrow> memory" where
  "memcpy dst src n = memmove dst src n"

section \<open>Strings\<close>

text \<open>
  \<^verbatim>\<open>char\<close> is signed: a byte is promoted by sign extension unless the code casts it to \<^verbatim>\<open>u8\<close>. Loops that run to
  the terminating NUL return None when there is none.
\<close>

primrec strncmp_loop :: "nat \<Rightarrow> ptr \<Rightarrow> ptr \<Rightarrow> memory \<Rightarrow> int" where
  "strncmp_loop 0 p q m = 0"
| "strncmp_loop (Suc n) p q m =
     (if m p \<noteq> 0 \<and> m p = m q then strncmp_loop n (p + 1) (q + 1) m
      else sint (ucast ((scast (m p) :: u64) - scast (m q)) :: u32))"

definition strncmp :: "ptr \<Rightarrow> ptr \<Rightarrow> u64 \<Rightarrow> memory \<Rightarrow> int" where
  "strncmp p q n = strncmp_loop (unat n) p q"

text \<open>
  First loop of \<^verbatim>\<open>strncpy\<close>. It ends after storing the NUL, with the counter decremented for it, or when the
  counter is 0, which the test \<^verbatim>\<open>n-- > 0\<close> has then wrapped to \<^verbatim>\<open>SIZE_MAX\<close>.
\<close>

primrec strncpy_copy :: "nat \<Rightarrow> ptr \<Rightarrow> ptr \<Rightarrow> memory \<Rightarrow> ptr \<times> u64 \<times> memory" where
  "strncpy_copy 0 s t m = (s, 0 - 1, m)"
| "strncpy_copy (Suc n) s t m =
     (let m' = m(s := m t)
      in if m t \<noteq> 0 then strncpy_copy n (s + 1) (t + 1) m' else (s + 1, of_nat n, m'))"

definition strncpy :: "ptr \<Rightarrow> ptr \<Rightarrow> u64 \<Rightarrow> memory \<Rightarrow> memory" where
  "strncpy s t n m = (case strncpy_copy (unat n) s t m of (s', n', m') \<Rightarrow> rep_stosb (unat n') s' 0 m')"

primrec strnlen_loop :: "nat \<Rightarrow> ptr \<Rightarrow> u64 \<Rightarrow> memory \<Rightarrow> u64" where
  "strnlen_loop 0 s n m = n"
| "strnlen_loop (Suc k) s n m = (if m s \<noteq> 0 then strnlen_loop k (s + 1) (n + 1) m else n)"

definition strnlen :: "ptr \<Rightarrow> u64 \<Rightarrow> memory \<Rightarrow> u64" where
  "strnlen s sz = strnlen_loop (unat sz) s 0"

primrec safestrcpy_loop :: "nat \<Rightarrow> ptr \<Rightarrow> ptr \<Rightarrow> memory \<Rightarrow> ptr \<times> memory" where
  "safestrcpy_loop 0 s t m = (s, m)"
| "safestrcpy_loop (Suc n) s t m =
     (let m' = m(s := m t) in if m t \<noteq> 0 then safestrcpy_loop n (s + 1) (t + 1) m' else (s + 1, m'))"

definition safestrcpy :: "ptr \<Rightarrow> ptr \<Rightarrow> u64 \<Rightarrow> memory \<Rightarrow> memory" where
  "safestrcpy s t n m =
     (if n = 0 then m
      else case safestrcpy_loop (unat (n - 1)) s t m of (s', m') \<Rightarrow> m'(s' := 0))"

partial_function (option) strlen_loop :: "ptr \<Rightarrow> nat \<Rightarrow> memory \<Rightarrow> nat option" where
  "strlen_loop s n m = (if m (s + of_nat n) \<noteq> 0 then strlen_loop s (n + 1) m else Some n)"

definition strlen :: "ptr \<Rightarrow> memory \<Rightarrow> nat option" where
  "strlen s = strlen_loop s 0"

partial_function (option) strcmp :: "ptr \<Rightarrow> ptr \<Rightarrow> memory \<Rightarrow> int option" where
  "strcmp p q m = (if m p \<noteq> 0 \<and> m p = m q then strcmp (p + 1) (q + 1) m
                   else Some (uint (m p) - uint (m q)))"

partial_function (option) strchr :: "ptr \<Rightarrow> u8 \<Rightarrow> memory \<Rightarrow> ptr option" where
  "strchr s c m = (if m s \<noteq> 0 then (if m s = c then Some s else strchr (s + 1) c m) else Some NULL)"

partial_function (option) strfind :: "ptr \<Rightarrow> u8 \<Rightarrow> memory \<Rightarrow> ptr option" where
  "strfind s c m = (if m s \<noteq> 0 \<and> m s \<noteq> c then strfind (s + 1) c m else Some s)"

text \<open>\<^verbatim>\<open>strtok\<close> keeps the string and the position in static variables.\<close>

record tok_state =
  tok_copy :: ptr
  tok_i :: nat

text \<open>The inner loop over the delimiters: it stops early when a word is complete, else reports \<^verbatim>\<open>blanks\<close>.\<close>

datatype tok_inner = Word_end | Scanned bool

partial_function (option) strtok_delims ::
  "u8 \<Rightarrow> bool \<Rightarrow> ptr \<Rightarrow> nat \<Rightarrow> bool \<Rightarrow> memory \<Rightarrow> tok_inner option" where
  "strtok_delims ch word delims j blanks m =
     (if m (delims + of_nat j) \<noteq> 0 then
        if ch = m (delims + of_nat j) then
          if word then Some Word_end else strtok_delims ch word delims (j + 1) True m
        else strtok_delims ch word delims (j + 1) blanks m
      else Some (Scanned blanks))"

partial_function (option) strtok_loop ::
  "ptr \<Rightarrow> ptr \<Rightarrow> nat \<Rightarrow> nat option \<Rightarrow> memory \<Rightarrow> (ptr \<times> nat \<times> memory) option" where
  "strtok_loop copy delims i word_found m =
     (if m (copy + of_nat i) \<noteq> 0 then
        (case strtok_delims (m (copy + of_nat i)) (word_found \<noteq> None) delims 0 False m of
           None \<Rightarrow> None
         | Some Word_end \<Rightarrow>
             Some (copy + of_nat (the word_found), i + 1, m(copy + of_nat i := 0))
         | Some (Scanned blanks) \<Rightarrow>
             strtok_loop copy delims (i + 1)
               (if word_found = None \<and> \<not> blanks then Some i else word_found) m)
      else case word_found of
          None \<Rightarrow> Some (NULL, i, m)
        | Some w \<Rightarrow> Some (copy + of_nat w, i, m))"

definition strtok :: "ptr \<Rightarrow> ptr \<Rightarrow> tok_state \<times> memory \<Rightarrow> (ptr \<times> tok_state \<times> memory) option" where
  "strtok base delims = (\<lambda>(st, m).
     let st1 = (if base \<noteq> NULL then \<lparr>tok_copy = base, tok_i = 0\<rparr> else st)
     in case strtok_loop (tok_copy st1) delims (tok_i st1) None m of
          None \<Rightarrow> None
        | Some (r, i, m') \<Rightarrow> Some (r, st1\<lparr>tok_i := i\<rparr>, m'))"

section \<open>Lemmas\<close>

lemma in_region_Suc: "x \<in> region a (Suc n) \<longleftrightarrow> x = a \<or> x \<in> region (a + 1) n" if "n < 2 ^ 64"
proof (cases "x = a")
  case False
  then have "x - a \<noteq> 0" by simp
  from unat_minus_one [OF this] have "unat (x - (a + 1)) = unat (x - a) - 1" by (simp add: diff_diff_eq)
  moreover have "0 < unat (x - a)" using \<open>x - a \<noteq> 0\<close> unat_gt_0 by blast
  ultimately show ?thesis using False by (auto simp: region_def)
qed simp

lemma rep_stosb_eq:
  "n \<le> 2 ^ 64 \<Longrightarrow> rep_stosb n a c m = (\<lambda>x. if x \<in> region a n then c else m x)"
proof (induction n arbitrary: a m)
  case (Suc n)
  then have "rep_stosb (Suc n) a c m = (\<lambda>x. if x \<in> region (a + 1) n then c else (m(a := c)) x)" by simp
  also have "\<dots> = (\<lambda>x. if x \<in> region a (Suc n) then c else m x)"
    using in_region_Suc [of n _ a] Suc.prems by (auto simp: fun_eq_iff)
  finally show ?case .
qed simp

lemma word_to_bytes_4:
  "word_to_bytes 4 (w :: u32) = [ucast w, ucast (drop_bit 8 w), ucast (drop_bit 16 w), ucast (drop_bit 24 w)]"
  by (simp add: word_to_bytes_def upt_rec)

lemma spread_byte:
  fixes x :: u32
  assumes "x = take_bit 8 c" and "k \<in> {0, 8, 16, 24}"
  shows "ucast (drop_bit k (push_bit 24 x OR push_bit 16 x OR push_bit 8 x OR x)) = (ucast c :: u8)"
  using assms(2) unfolding assms(1) by (intro bit_word_eqI) (auto simp: bit_simps)

lemma fill_word:
  fixes c :: u32
  shows "word_to_bytes 4 (push_bit 24 (c AND 0xFF) OR push_bit 16 (c AND 0xFF) OR push_bit 8 (c AND 0xFF) OR (c AND 0xFF))
     = replicate 4 (ucast c)"
proof -
  have x: "c AND 0xFF = take_bit 8 c" by (simp add: take_bit_eq_mask mask_eq_decr_exp)
  have r: "replicate 4 b = [b, b, b, b]" for b :: u8 by (simp add: numeral_eq_Suc)
  note sb = spread_byte [OF x]
  show ?thesis unfolding word_to_bytes_4 r
    using sb [of 0] sb [of 8] sb [of 16] sb [of 24] by (simp only: drop_bit_0 insert_iff id_apply simp_thms)
qed

lemma region_split: "n + k \<le> 2 ^ 64 \<Longrightarrow> x \<in> region a (n + k) \<longleftrightarrow> x \<in> region a n \<or> x \<in> region (a + of_nat n) k"
proof (induction n arbitrary: a)
  case (Suc n)
  have "x \<in> region a (Suc n + k) \<longleftrightarrow> x = a \<or> x \<in> region (a + 1) (n + k)"
    using in_region_Suc [of "n + k" x a] Suc.prems by simp
  also have "\<dots> \<longleftrightarrow> x = a \<or> x \<in> region (a + 1) n \<or> x \<in> region (a + 1 + of_nat n) k"
    using Suc by simp
  also have "\<dots> \<longleftrightarrow> x \<in> region a (Suc n) \<or> x \<in> region (a + of_nat (Suc n)) k"
    using in_region_Suc [of n x a] Suc.prems by (auto simp: add.assoc)
  finally show ?case .
qed simp

lemma rep_stosl_eq:
  assumes "word_to_bytes 4 w = replicate 4 c"
  shows "4 * n \<le> 2 ^ 64 \<Longrightarrow> rep_stosl n a w m = (\<lambda>x. if x \<in> region a (4 * n) then c else m x)"
proof (induction n arbitrary: a m)
  case (Suc n)
  have st: "st32 m a w = (\<lambda>x. if x \<in> region a 4 then c else m x)"
    unfolding st32_def assms by (auto simp: st_bytes_def region_def Let_def fun_eq_iff)
  have "4 * n \<le> 2 ^ 64" using Suc.prems by simp
  from Suc.IH [OF this] have "rep_stosl (Suc n) a w m
      = (\<lambda>x. if x \<in> region (a + 4) (4 * n) then c else if x \<in> region a 4 then c else m x)"
    by (simp add: st)
  then show ?case using region_split [of 4 "4 * n" _ a] Suc.prems by (auto simp: fun_eq_iff)
qed simp

lemma ucast_small_u32: "unat (n :: u64) < 2 ^ 32 \<Longrightarrow> unat (ucast n :: u32) = unat n"
  by (simp add: unsigned_ucast_eq take_bit_nat_eq_self)

lemma memset_eq:
  assumes "unat n < 2 ^ 31"
  shows "memset dst c n m = (\<lambda>x. if x \<in> region dst (unat n) then ucast c else m x)"
proof (cases "dst mod 4 = 0 \<and> n mod 4 = 0")
  case True
  have "unat (n mod 4) = 0" using True by simp
  then have four: "4 * (unat n div 4) = unat n" by (simp add: unat_mod) (metis dvd_eq_mod_eq_0 dvd_mult_div_cancel)
  have "unat (ucast (n div 4) :: u32) = unat n div 4"
    using assms by (subst ucast_small_u32) (simp_all add: unat_div)
  then show ?thesis
    using True rep_stosl_eq [OF fill_word [of c], of "unat n div 4" dst m] assms four
    by (simp add: memset_def stosl_def Let_def)
next
  case False
  then show ?thesis using assms rep_stosb_eq [of "unat n" dst "ucast c" m]
    by (simp add: memset_def stosb_def ucast_small_u32 if_not_P)
qed

text \<open>Copying in the direction that never overwrites a byte still to be read.\<close>

lemma copy_fwd_eq:
  assumes "n \<le> 2 ^ 64" and "\<And>i j. i < n \<Longrightarrow> j < i \<Longrightarrow> s + of_nat i \<noteq> d + of_nat j"
  shows "copy_fwd n d s m = (\<lambda>x. if x \<in> region d n then m (s + (x - d)) else m x)"
  using assms
proof (induction n arbitrary: d s m)
  case (Suc n)
  have IH: "copy_fwd n (d + 1) (s + 1) (m(d := m s))
      = (\<lambda>x. if x \<in> region (d + 1) n then (m(d := m s)) (s + 1 + (x - (d + 1))) else (m(d := m s)) x)"
  proof (rule Suc.IH)
    show "s + 1 + of_nat i \<noteq> d + 1 + of_nat j" if "i < n" "j < i" for i j
      using Suc.prems(2) [of "Suc i" "Suc j"] that by (simp add: ac_simps)
  qed (use Suc.prems in simp)
  have ne: "s + (x - d) \<noteq> d" if x: "x \<in> region (d + 1) n" for x
  proof -
    have lt: "unat (x - (d + 1)) < n" using x by (simp add: region_def)
    then have "s + of_nat (Suc (unat (x - (d + 1)))) \<noteq> d + of_nat 0" by (intro Suc.prems(2)) auto
    then show ?thesis by simp
  qed
  show ?case using in_region_Suc [of n _ d] Suc.prems(1) ne unfolding copy_fwd.simps IH
    by (auto simp: fun_eq_iff algebra_simps)
qed simp

lemma copy_bwd_eq:
  assumes "n \<le> 2 ^ 64" and "\<And>i j. j < n \<Longrightarrow> i < j \<Longrightarrow> s + of_nat i \<noteq> d + of_nat j"
  shows "copy_bwd n (d + of_nat n) (s + of_nat n) m = (\<lambda>x. if x \<in> region d n then m (s + (x - d)) else m x)"
  using assms
proof (induction n arbitrary: m)
  case (Suc n)
  let ?m = "m(d + of_nat n := m (s + of_nat n))"
  have IH: "copy_bwd n (d + of_nat n) (s + of_nat n) ?m
      = (\<lambda>x. if x \<in> region d n then ?m (s + (x - d)) else ?m x)"
    by (rule Suc.IH) (use Suc.prems in auto)
  have ne: "s + (x - d) \<noteq> d + of_nat n" if x: "x \<in> region d n" for x
  proof -
    have "unat (x - d) < n" using x by (simp add: region_def)
    then have "s + of_nat (unat (x - d)) \<noteq> d + of_nat n" by (intro Suc.prems(2)) auto
    then show ?thesis by simp
  qed
  have "x \<in> region d (Suc n) \<longleftrightarrow> x \<in> region d n \<or> x = d + of_nat n" for x
    using region_split [of n 1 x d] Suc.prems(1) in_region_Suc [of 0 x "d + of_nat n"] by simp
  then show ?case using IH ne by (auto simp: fun_eq_iff)
qed simp

lemma memmove_eq:
  assumes s: "unat src + unat n < 2 ^ 64" and d: "unat dst + unat n < 2 ^ 64"
  shows "memmove dst src n m = (\<lambda>x. if x \<in> region dst (unat n) then m (src + (x - dst)) else m x)"
proof -
  have us: "unat (src + of_nat i) = unat src + i" and ud: "unat (dst + of_nat i) = unat dst + i"
    if "i \<le> unat n" for i
    using that s d by (auto intro!: unat_add_of_nat)
  have n64: "unat n \<le> 2 ^ 64" using s by simp
  show ?thesis
  proof (cases "src < dst \<and> dst < src + n")
    case True
    have "src + of_nat i \<noteq> dst + of_nat j" if "j < unat n" "i < j" for i j
    proof -
      have "unat src + i \<noteq> unat dst + j" using True that by (simp add: word_less_nat_alt)
      then show ?thesis using us [of i] ud [of j] that by (metis less_imp_le_nat less_trans)
    qed
    from copy_bwd_eq [OF n64 this, of m] show ?thesis using True by (simp add: memmove_def)
  next
    case False
    have "unat (src + n) = unat src + unat n" using us [of "unat n"] by simp
    then have "unat dst \<le> unat src \<or> unat src + unat n \<le> unat dst" using False by (auto simp: word_less_nat_alt)
    then have neq: "unat src + i \<noteq> unat dst + j" if "i < unat n" "j < i" for i j using that by linarith
    have "src + of_nat i \<noteq> dst + of_nat j" if "i < unat n" "j < i" for i j
      using us [of i] ud [of j] that neq [OF that] by (metis less_imp_le_nat less_trans)
    from copy_fwd_eq [OF n64 this, of m] show ?thesis using False by (simp add: memmove_def if_not_P)
  qed
qed

section \<open>C strings\<close>

primrec cstr :: "memory \<Rightarrow> ptr \<Rightarrow> u8 list \<Rightarrow> bool" where
  "cstr m p [] \<longleftrightarrow> m p = 0"
| "cstr m p (c # w) \<longleftrightarrow> m p = c \<and> c \<noteq> 0 \<and> cstr m (p + 1) w"

lemma strlen_loop_cstr: "cstr m (s + of_nat n) w \<Longrightarrow> strlen_loop s n m = Some (n + length w)"
proof (induction w arbitrary: n)
  case Nil
  then show ?case by (subst strlen_loop.simps) simp
next
  case (Cons c w)
  have "strlen_loop s (n + 1) m = Some (n + 1 + length w)"
    using Cons.prems by (intro Cons.IH) (simp add: ac_simps)
  then show ?case using Cons.prems by (subst strlen_loop.simps) simp
qed

lemma strnlen_loop_cstr:
  "cstr m s w \<Longrightarrow> strnlen_loop k s n m = n + of_nat (min k (length w))"
proof (induction k arbitrary: s n w)
  case (Suc k)
  then show ?case by (cases w) (auto simp: add.assoc)
qed simp

lemma strcmp_cstr:
  assumes "cstr m p v" and "cstr m q w"
  shows "\<exists>r. strcmp p q m = Some r \<and> (r = 0 \<longleftrightarrow> v = w) \<and> (r < 0 \<longleftrightarrow> (v, w) \<in> lexord {(a, b). a < b})"
  using assms
proof (induction v arbitrary: p q w)
  case Nil
  show ?case
  proof (cases w)
    case Nil
    then show ?thesis using Nil.prems by (subst strcmp.simps) simp
  next
    case (Cons c w')
    then have "strcmp p q m = Some (- uint c)" using Nil.prems by (subst strcmp.simps) simp
    moreover have "0 < uint c" using Cons Nil.prems by (simp add: word_neq_0_conv word_less_def)
    ultimately show ?thesis using Cons by simp
  qed
next
  case (Cons a v)
  show ?case
  proof (cases "w \<noteq> [] \<and> hd w = a")
    case True
    then obtain w' where w: "w = a # w'" by (cases w) auto
    have "strcmp p q m = strcmp (p + 1) (q + 1) m" using Cons.prems w by (subst strcmp.simps) simp
    then show ?thesis using Cons.IH [of "p + 1" "q + 1" w'] Cons.prems w by simp
  next
    case False
    have ne: "m q \<noteq> a" using False Cons.prems by (cases w) auto
    have eq: "strcmp p q m = Some (uint a - uint (m q))" using Cons.prems ne by (subst strcmp.simps) auto
    have lt: "uint a < uint (m q) \<longleftrightarrow> (a # v, w) \<in> lexord {(a, b). a < b}"
      using Cons.prems ne by (cases w) (auto simp: word_less_def)
    have "uint a \<noteq> uint (m q)" using ne by (simp add: word_uint_eq_iff)
    moreover have "a # v \<noteq> w" using False by auto
    ultimately show ?thesis using eq lt by auto
  qed
qed

lemma char_diff: "sint (ucast ((scast (x :: u8) :: u64) - scast (y :: u8)) :: u32) = sint x - sint y"
proof -
  have d: "(scast x :: u64) - scast y = of_int (sint x - sint y)" by (simp only: scast_eq of_int_diff)
  have u: "ucast (of_int k :: u64) = (of_int k :: u32)" for k
    by (rule ucast_down_wi) (simp add: is_down)
  have s: "sint (of_int k :: u32) = k" if "- 256 \<le> k" "k < 256" for k
    using that by (simp add: sint_sbintrunc' signed_take_bit_int_eq_self)
  have "- 128 \<le> sint x" "sint x < 128" "- 128 \<le> sint y" "sint y < 128"
    using sint_greater_eq [of x] sint_less [of x] sint_greater_eq [of y] sint_less [of y] by simp_all
  then show ?thesis unfolding d u by (intro s) linarith+
qed

lemma strncmp_loop_zero:
  assumes "cstr m p v" and "cstr m q w"
  shows "strncmp_loop n p q m = 0 \<longleftrightarrow> take n v = take n w"
  using assms
proof (induction n arbitrary: p q v w)
  case (Suc n)
  have "strncmp_loop (Suc n) p q m
      = (if m p \<noteq> 0 \<and> m p = m q then strncmp_loop n (p + 1) (q + 1) m else sint (m p) - sint (m q))"
    by (simp only: strncmp_loop.simps char_diff)
  moreover have "sint x - sint y = 0 \<longleftrightarrow> x = y" for x y :: u8 by (auto intro: signed_word_eqI)
  moreover have "sint x = 0 \<longleftrightarrow> x = 0" for x :: u8 by (auto intro: signed_word_eqI)
  ultimately show ?case using Suc by (cases v; cases w) (auto simp del: strncmp_loop.simps)
qed simp

lemma memcmp_loop_zero:
  "n \<le> 2 ^ 64 \<Longrightarrow> memcmp_loop n p q m = 0 \<longleftrightarrow> (\<forall>i < n. m (p + of_nat i) = m (q + of_nat i))"
proof (induction n arbitrary: p q)
  case (Suc n)
  have "(\<forall>i < Suc n. m (p + of_nat i) = m (q + of_nat i))
      \<longleftrightarrow> m p = m q \<and> (\<forall>i < n. m (p + 1 + of_nat i) = m (q + 1 + of_nat i))"
    by (auto simp: less_Suc_eq_0_disj ac_simps)
  then show ?case using Suc by (auto simp: word_uint_eq_iff)
qed simp

lemma st_bytes_Cons:
  assumes "Suc (length bs) \<le> 2 ^ 64"
  shows "st_bytes (m(s := c)) (s + 1) bs = st_bytes m s (c # bs)"
proof
  fix x
  show "st_bytes (m(s := c)) (s + 1) bs x = st_bytes m s (c # bs) x"
  proof (cases "x = s")
    case True
    have "unat (s - (s + 1)) = 2 ^ 64 - 1" by (simp add: unsigned_minus_1_eq_mask mask_eq_exp_minus_1)
    then show ?thesis using True assms by (simp add: st_bytes_def Let_def)
  next
    case False
    then have ne: "x - s \<noteq> 0" by simp
    from unat_minus_one [OF this] have u: "unat (x - (s + 1)) = unat (x - s) - 1" by (simp add: diff_diff_eq)
    have "0 < unat (x - s)" using ne unat_gt_0 by blast
    then show ?thesis using False unfolding st_bytes_def Let_def u by (auto simp: nth_Cons')
  qed
qed

lemma st_bytes_Nil [simp]: "st_bytes m s [] = m"
  by (simp add: st_bytes_def)

lemma st_bytes_single: "st_bytes m s [c] = m(s := c)"
  using st_bytes_Cons [of "[]" m s c] by simp

lemma cstr_upd:
  "s \<notin> region p (Suc (length w)) \<Longrightarrow> Suc (length w) \<le> 2 ^ 64 \<Longrightarrow> cstr (m(s := c)) p w = cstr m p w"
proof (induction w arbitrary: p)
  case Nil
  then show ?case using in_region_Suc [of 0 s p] by simp
next
  case (Cons a w)
  then show ?case using in_region_Suc [of "Suc (length w)" s p] by auto
qed

lemma cstr_nth:
  "cstr m p w \<longleftrightarrow> (\<forall>i < length w. m (p + of_nat i) = w ! i \<and> w ! i \<noteq> 0) \<and> m (p + of_nat (length w)) = 0"
proof (induction w arbitrary: p)
  case (Cons a w)
  have "(\<forall>i < length (a # w). m (p + of_nat i) = (a # w) ! i \<and> (a # w) ! i \<noteq> 0)
      \<longleftrightarrow> m p = a \<and> a \<noteq> 0 \<and> (\<forall>i < length w. m (p + 1 + of_nat i) = w ! i \<and> w ! i \<noteq> 0)"
    by (auto simp: less_Suc_eq_0_disj ac_simps)
  then show ?case using Cons.IH [of "p + 1"] by (auto simp: ac_simps)
qed simp

lemma region_step_disjoint:
  assumes "region s (Suc n) \<inter> region t (Suc k) = {}" and "Suc n \<le> 2 ^ 64" and "Suc k \<le> 2 ^ 64"
  shows "region (s + 1) n \<inter> region (t + 1) k = {}" and "s \<notin> region (t + 1) k"
  using assms in_region_Suc [of n _ s] in_region_Suc [of k _ t] by auto

lemma safestrcpy_loop_eq:
  assumes "cstr m t w" and "region s n \<inter> region t (Suc (length w)) = {}"
    and "n \<le> 2 ^ 64" and "Suc (length w) \<le> 2 ^ 64"
  shows "safestrcpy_loop n s t m
     = (if length w < n then (s + of_nat (Suc (length w)), st_bytes m s (w @ [0]))
        else (s + of_nat n, st_bytes m s (take n w)))"
  using assms
proof (induction n arbitrary: s t m w)
  case 0
  then show ?case by (simp add: st_bytes_def)
next
  case (Suc n)
  show ?case
  proof (cases w)
    case Nil
    then show ?thesis using Suc.prems by (simp add: Let_def st_bytes_single)
  next
    case (Cons c v)
    note dj = region_step_disjoint [OF Suc.prems(2,3,4)]
    have len: "length w = Suc (length v)" using Cons by simp
    have t: "m t = c" "c \<noteq> 0" "cstr m (t + 1) v" using Suc.prems(1) Cons by auto
    have c1: "cstr (m(s := c)) (t + 1) v" using t(3) dj(2) Suc.prems(4) len by (subst cstr_upd) auto
    have IH: "safestrcpy_loop n (s + 1) (t + 1) (m(s := c))
       = (if length v < n then (s + 1 + of_nat (Suc (length v)), st_bytes (m(s := c)) (s + 1) (v @ [0]))
          else (s + 1 + of_nat n, st_bytes (m(s := c)) (s + 1) (take n v)))"
      using dj(1) Suc.prems(3,4) len by (intro Suc.IH c1) auto
    show ?thesis using IH t Cons Suc.prems(3,4)
      by (simp add: Let_def st_bytes_Cons min_def add.assoc)
  qed
qed

lemma strncpy_copy_eq:
  assumes "cstr m t w" and "region s n \<inter> region t (Suc (length w)) = {}"
    and "n \<le> 2 ^ 64" and "Suc (length w) \<le> 2 ^ 64"
  shows "strncpy_copy n s t m
     = (if length w < n then (s + of_nat (Suc (length w)), of_nat (n - Suc (length w)), st_bytes m s (w @ [0]))
        else (s + of_nat n, - 1, st_bytes m s (take n w)))"
  using assms
proof (induction n arbitrary: s t m w)
  case 0
  then show ?case by (simp add: st_bytes_def)
next
  case (Suc n)
  show ?case
  proof (cases w)
    case Nil
    then show ?thesis using Suc.prems by (simp add: Let_def st_bytes_single)
  next
    case (Cons c v)
    note dj = region_step_disjoint [OF Suc.prems(2,3,4)]
    have len: "length w = Suc (length v)" using Cons by simp
    have t: "m t = c" "c \<noteq> 0" "cstr m (t + 1) v" using Suc.prems(1) Cons by auto
    have c1: "cstr (m(s := c)) (t + 1) v" using t(3) dj(2) Suc.prems(4) len by (subst cstr_upd) auto
    have IH: "strncpy_copy n (s + 1) (t + 1) (m(s := c))
       = (if length v < n then (s + 1 + of_nat (Suc (length v)), of_nat (n - Suc (length v)), st_bytes (m(s := c)) (s + 1) (v @ [0]))
          else (s + 1 + of_nat n, - 1, st_bytes (m(s := c)) (s + 1) (take n v)))"
      using dj(1) Suc.prems(3,4) len by (intro Suc.IH c1) auto
    show ?thesis using IH t Cons Suc.prems(3,4)
      by (simp add: Let_def st_bytes_Cons min_def add.assoc)
  qed
qed

lemma st_bytes_nth: "i < length bs \<Longrightarrow> length bs \<le> 2 ^ 64 \<Longrightarrow> st_bytes m s bs (s + of_nat i) = bs ! i"
  by (simp add: st_bytes_def unat_of_nat)

lemma cstr_st_bytes:
  assumes "\<forall>c \<in> set w. c \<noteq> 0" and "Suc (length w) \<le> 2 ^ 64"
  shows "cstr (st_bytes m s (w @ [0])) s w"
  unfolding cstr_nth using assms by (auto simp: st_bytes_nth nth_append)

lemma cstr_nonzero: "cstr m p w \<Longrightarrow> \<forall>c \<in> set w. c \<noteq> 0"
  by (induction w arbitrary: p) auto

section \<open>Tokens\<close>

lemma strtok_delims_eq:
  "cstr m (delims + of_nat j) ds \<Longrightarrow> strtok_delims ch word delims j bl m
     = Some (if ch \<in> set ds then (if word then Word_end else Scanned True) else Scanned bl)"
proof (induction ds arbitrary: j bl)
  case Nil
  then show ?case by (subst strtok_delims.simps) simp
next
  case (Cons d ds)
  have "cstr m (delims + of_nat (j + 1)) ds" using Cons.prems by (simp add: ac_simps)
  note IH = Cons.IH [OF this]
  show ?case using Cons.prems IH by (subst strtok_delims.simps) auto
qed

lemma strtok_loop_word:
  assumes "cstr m delims ds" and "cstr m (copy + of_nat i) w"
  shows "strtok_loop copy delims i (Some f) m =
    (let n = length (takeWhile (\<lambda>c. c \<notin> set ds) w)
     in Some (copy + of_nat f, if n < length w then (i + n + 1, m(copy + of_nat (i + n) := 0)) else (i + n, m)))"
  using assms(2)
proof (induction w arbitrary: i)
  case Nil
  then show ?case by (subst strtok_loop.simps) simp
next
  case (Cons c w)
  have d: "strtok_delims c True delims 0 False m = Some (if c \<in> set ds then Word_end else Scanned False)"
    using strtok_delims_eq [of m delims 0 ds c True False] assms(1) by simp
  have "cstr m (copy + of_nat (i + 1)) w" using Cons.prems by (simp add: ac_simps)
  note IH = Cons.IH [OF this]
  show ?case using Cons.prems IH d by (subst strtok_loop.simps) (simp add: Let_def)
qed

lemma strtok_loop_skip:
  assumes "cstr m delims ds" and "cstr m (copy + of_nat i) w"
  shows "strtok_loop copy delims i None m =
    (let k = length (takeWhile (\<lambda>c. c \<in> set ds) w)
     in if k < length w then strtok_loop copy delims (i + k + 1) (Some (i + k)) m
        else Some (NULL, i + k, m))"
  using assms(2)
proof (induction w arbitrary: i)
  case Nil
  then show ?case by (subst strtok_loop.simps) simp
next
  case (Cons c w)
  have d: "strtok_delims c False delims 0 False m = Some (Scanned (c \<in> set ds))"
    using strtok_delims_eq [of m delims 0 ds c False False] assms(1) by simp
  have "cstr m (copy + of_nat (i + 1)) w" using Cons.prems by (simp add: ac_simps)
  note IH = Cons.IH [OF this]
  show ?case using Cons.prems IH d by (subst strtok_loop.simps) (simp add: Let_def)
qed

lemma region_adjacent:
  assumes "k + j \<le> 2 ^ 64"
  shows "region a k \<inter> region (a + of_nat k) j = {}"
proof -
  have "\<not> unat (x - (a + of_nat k)) < j" if x: "unat (x - a) < k" for x
  proof -
    have k: "k < 2 ^ 64 \<or> j = 0" using assms by linarith
    have "unat (x - (a + of_nat k)) = unat (x - a) + 2 ^ 64 - k" if "k < 2 ^ 64"
      using x that unfolding diff_diff_eq [symmetric]
      by (simp add: unat_sub_if' unat_of_nat word_le_nat_alt)
    then show ?thesis using x k assms by auto
  qed
  then show ?thesis by (auto simp: region_def)
qed

lemma cstr_cong:
  assumes "eq_on (region p (Suc (length w))) m m'" and "Suc (length w) \<le> 2 ^ 64"
  shows "cstr m' p w \<longleftrightarrow> cstr m p w"
proof -
  have "m' (p + of_nat i) = m (p + of_nat i)" if "i \<le> length w" for i
    using assms that mem_region_add [of i "Suc (length w)" p] by (simp add: eq_on_def)
  then show ?thesis by (simp add: cstr_nth)
qed

section \<open>Properties\<close>

text \<open>C15: \<^verbatim>\<open>memmove\<close> (and \<^verbatim>\<open>memcpy\<close>, which calls it) copies the source bytes as they were before the call, even
  when source and destination overlap in either direction, and changes nothing else.\<close>

theorem memmove_correct:
  assumes "unat src + unat n < 2 ^ 64" and "unat dst + unat n < 2 ^ 64"
  shows "ld_bytes (memmove dst src n m) dst (unat n) = ld_bytes m src (unat n)
       \<and> eq_on (- region dst (unat n)) m (memmove dst src n m)
       \<and> memcpy dst src n m = memmove dst src n m"
proof -
  have "memmove dst src n m (dst + of_nat i) = m (src + of_nat i)" if "i < unat n" for i
    using that assms(1) memmove_eq [OF assms, of m] by (simp add: mem_region_add)
  then show ?thesis
    using memmove_eq [OF assms, of m] by (auto simp: ld_bytes_def eq_on_def memcpy_def)
qed

theorem memmove_correct_witness:
  "ld_bytes (memmove 0x1002 0x1000 8 (\<lambda>x. ucast x)) 0x1002 8 = [0, 1, 2, 3, 4, 5, 6, 7]"
  using memmove_correct [of "0x1000" 8 "0x1002" "\<lambda>x. ucast x"] by (simp add: ld_bytes_def upt_rec)

text \<open>\<^verbatim>\<open>memset\<close> fills exactly the \<open>n\<close> bytes at \<open>dst\<close> with the low byte of \<open>c\<close>, whether it takes the word or
  the byte path, for every \<open>n\<close> below \<open>2 ^ 31\<close> (the count is passed on as an \<^verbatim>\<open>int\<close>).\<close>

theorem memset_correct:
  assumes "unat n < 2 ^ 31"
  shows "ld_bytes (memset dst c n m) dst (unat n) = replicate (unat n) (ucast c)
       \<and> eq_on (- region dst (unat n)) m (memset dst c n m)"
proof -
  have "memset dst c n m (dst + of_nat i) = ucast c" if "i < unat n" for i
    using that assms memset_eq [OF assms, of dst c m] by (simp add: mem_region_add)
  then have "ld_bytes (memset dst c n m) dst (unat n) = replicate (unat n) (ucast c)"
    by (intro nth_equalityI) (simp_all add: ld_bytes_def)
  then show ?thesis using memset_eq [OF assms, of dst c m] by (auto simp: eq_on_def)
qed

theorem memset_correct_witness:
  "ld_bytes (memset 0x1000 0x141 4 (\<lambda>_. 0)) 0x1000 4 = replicate 4 0x41
   \<and> ld_bytes (memset 0x1001 0x141 3 (\<lambda>_. 0)) 0x1001 3 = replicate 3 0x41"
  using memset_correct [of 4 "0x1000" "0x141" "\<lambda>_. 0"] memset_correct [of 3 "0x1001" "0x141" "\<lambda>_. 0"]
  by simp

text \<open>comparison: on terminated strings \<^verbatim>\<open>strcmp\<close> returns, is 0 exactly on equal strings and negative exactly
  when the first is smaller in byte order; \<^verbatim>\<open>strncmp\<close> is 0 exactly when the first \<open>n\<close> characters agree;
  \<^verbatim>\<open>strlen\<close> and \<^verbatim>\<open>strnlen\<close> give the length.\<close>

theorem string_compare_correct:
  assumes "cstr m p v" and "cstr m q w"
  shows "(\<exists>r. strcmp p q m = Some r \<and> (r = 0 \<longleftrightarrow> v = w) \<and> (r < 0 \<longleftrightarrow> (v, w) \<in> lexord {(a, b). a < b}))
       \<and> (strncmp p q n m = 0 \<longleftrightarrow> take (unat n) v = take (unat n) w)
       \<and> strlen p m = Some (length v) \<and> strnlen p n m = of_nat (min (unat n) (length v))"
  using strcmp_cstr [OF assms] strncmp_loop_zero [OF assms, of "unat n"] strlen_loop_cstr [of m p 0 v]
    strnlen_loop_cstr [OF assms(1), of "unat n" 0] assms(1)
  by (simp add: strncmp_def strlen_def strnlen_def)

text \<open>\<^verbatim>\<open>ls\<close> at address 8 and \<^verbatim>\<open>lz\<close> at address 16.\<close>

definition demo_strings :: memory where
  "demo_strings = (\<lambda>_. 0)(8 := 0x6C, 9 := 0x73, 16 := 0x6C, 17 := 0x7A)"

theorem string_compare_correct_witness:
  "(\<exists>r. strcmp 8 16 demo_strings = Some r \<and> r < 0) \<and> strncmp 8 16 1 demo_strings = 0
   \<and> strlen 8 demo_strings = Some 2"
proof -
  have "cstr demo_strings 8 [0x6C, 0x73]" "cstr demo_strings 16 [0x6C, 0x7A]"
    by (simp_all add: demo_strings_def)
  from string_compare_correct [OF this, of 1] show ?thesis by auto
qed

text \<open>\<^verbatim>\<open>safestrcpy\<close> always leaves a terminated string in its buffer, the longest prefix of the source that
  fits, and writes nothing outside the buffer.\<close>

theorem safestrcpy_correct:
  assumes src: "cstr m t w" and n: "0 < n" and dj: "region s (unat n) \<inter> region t (Suc (length w)) = {}"
    and len: "Suc (length w) \<le> 2 ^ 64"
  shows "cstr (safestrcpy s t n m) s (take (unat n - 1) w)
       \<and> eq_on (- region s (unat n)) m (safestrcpy s t n m)"
proof -
  have n0: "n \<noteq> 0" using n by simp
  have u: "unat (n - 1) = unat n - 1" using unat_minus_one [OF n0] .
  have un: "0 < unat n" "unat n < 2 ^ 64" using n0 unat_gt_0 unat_lt_2_64 by auto
  have dj1: "region s (unat n - 1) \<inter> region t (Suc (length w)) = {}"
    using dj region_mono [of "unat n - 1" "unat n" s] by auto
  note nz = cstr_nonzero [OF src]
  note lp = safestrcpy_loop_eq [OF src dj1 _ len]
  show ?thesis
  proof (cases "length w < unat n - 1")
    case True
    let ?m = "st_bytes m s (w @ [0])" and ?e = "s + of_nat (Suc (length w))"
    have eq: "safestrcpy s t n m = ?m(?e := 0)" using True lp un n0 by (simp add: safestrcpy_def u)
    have ue: "unat (of_nat (Suc (length w)) :: u64) = Suc (length w)"
      by (rule unat_of_nat_lt) (use True un in simp)
    have "?e \<notin> region s (Suc (length w))" by (simp only: region_def mem_Collect_eq add_diff_cancel_left' ue)
    then have "cstr (?m(?e := 0)) s w" using cstr_st_bytes [OF nz len, of m s] len by (subst cstr_upd) auto
    moreover have "x \<notin> region s (unat n) \<Longrightarrow> (?m(?e := 0)) x = m x" for x
      using True un ue by (auto simp: region_def st_bytes_def Let_def simp del: of_nat_Suc)
    ultimately show ?thesis using True eq by (auto simp: eq_on_def)
  next
    case False
    let ?k = "unat n - 1" and ?m = "st_bytes m s (take (unat n - 1) w)"
    have lk: "length (take ?k w) = ?k" using False by simp
    have eq: "safestrcpy s t n m = ?m(s + of_nat ?k := 0)" using False lp un n0 by (simp add: safestrcpy_def u)
    have "cstr (?m(s + of_nat ?k := 0)) s (take ?k w)"
      unfolding cstr_nth
    proof (intro conjI allI impI)
      fix i assume i: "i < length (take ?k w)"
      then have "of_nat i \<noteq> (of_nat ?k :: u64)" using un lk by (metis unat_of_nat_lt less_imp_diff_less less_trans nat_neq_iff)
      then have "(?m(s + of_nat ?k := 0)) (s + of_nat i) = ?m (s + of_nat i)" by simp
      also have "\<dots> = take ?k w ! i" using i un by (intro st_bytes_nth) auto
      finally show "(?m(s + of_nat ?k := 0)) (s + of_nat i) = take ?k w ! i" .
      show "take ?k w ! i \<noteq> 0" using nz i by (metis in_set_takeD nth_mem)
    qed (simp only: lk fun_upd_same)
    moreover have "x \<notin> region s (unat n) \<Longrightarrow> (?m(s + of_nat ?k := 0)) x = m x" for x
      using un lk u by (auto simp: region_def st_bytes_def Let_def unat_of_nat)
    ultimately show ?thesis using eq by (auto simp: eq_on_def)
  qed
qed

theorem safestrcpy_correct_witness:
  "cstr (safestrcpy 32 8 2 demo_strings) 32 [0x6C]"
proof -
  have c: "cstr demo_strings 8 [0x6C, 0x73]" by (simp add: demo_strings_def)
  have "region 32 (unat (2 :: u64)) \<inter> region 8 (Suc (length [0x6C, 0x73 :: u8])) = {}"
    by (intro region_disjoint_nat) simp_all
  from safestrcpy_correct [OF c _ this] show ?thesis by simp
qed

text \<open>\<^verbatim>\<open>strncpy\<close> copies and zero-pads a string that is shorter than the buffer. When the source has \<open>n\<close>
  characters or more, the counter wraps below 0 and the padding loop clears the whole address space, the copied
  characters included: only the last one survives.\<close>

theorem strncpy_behaviour:
  assumes src: "cstr m t w" and n: "0 < n" and dj: "region s (unat n) \<inter> region t (Suc (length w)) = {}"
    and len: "Suc (length w) \<le> 2 ^ 64"
  shows "(length w < unat n \<longrightarrow> cstr (strncpy s t n m) s w
            \<and> (\<forall>i. length w \<le> i \<and> i < unat n \<longrightarrow> strncpy s t n m (s + of_nat i) = 0)
            \<and> eq_on (- region s (unat n)) m (strncpy s t n m))
       \<and> (unat n \<le> length w \<longrightarrow> strncpy s t n m = (\<lambda>x. if x = s + n - 1 then w ! (unat n - 1) else 0))"
proof (intro conjI impI allI)
  have un: "0 < unat n" "unat n < 2 ^ 64" using n unat_lt_2_64 by (auto simp: word_less_nat_alt)
  have cp: "strncpy_copy (unat n) s t m
     = (if length w < unat n
        then (s + of_nat (Suc (length w)), of_nat (unat n - Suc (length w)), st_bytes m s (w @ [0]))
        else (s + of_nat (unat n), - 1, st_bytes m s (take (unat n) w)))"
    by (rule strncpy_copy_eq [OF src dj _ len]) (use un in simp)
  { assume lt: "length w < unat n"
    let ?l = "Suc (length w)" and ?m = "st_bytes m s (w @ [0])"
    have k: "unat (of_nat (unat n - ?l) :: u64) = unat n - ?l" by (rule unat_of_nat_lt) (use un in simp)
    have eq: "strncpy s t n m = (\<lambda>x. if x \<in> region (s + of_nat ?l) (unat n - ?l) then 0 else ?m x)"
      unfolding strncpy_def cp if_P [OF lt] prod.case k by (rule rep_stosb_eq) (use un in simp)
    have adj: "region s ?l \<inter> region (s + of_nat ?l) (unat n - ?l) = {}"
      by (rule region_adjacent) (use lt un in simp)
    have spl: "x \<in> region s (unat n) \<longleftrightarrow> x \<in> region s ?l \<or> x \<in> region (s + of_nat ?l) (unat n - ?l)" for x
      using region_split [of ?l "unat n - ?l" x s] lt un by simp
    have "eq_on (region s ?l) ?m (strncpy s t n m)" using adj unfolding eq by (auto simp: eq_on_def)
    then show "cstr (strncpy s t n m) s w"
      using cstr_cong cstr_st_bytes [OF cstr_nonzero [OF src] len] len by blast
    show "strncpy s t n m (s + of_nat i) = 0" if i: "length w \<le> i \<and> i < unat n" for i
    proof (cases "s + of_nat i \<in> region s ?l")
      case True
      then have "i = length w" using i un by (simp add: region_def unat_of_nat)
      then show ?thesis using st_bytes_nth [of "length w" "w @ [0]" m s] len unfolding eq by simp
    next
      case False
      then show ?thesis using spl [of "s + of_nat i"] i un unfolding eq by (simp add: mem_region_add)
    qed
    show "eq_on (- region s (unat n)) m (strncpy s t n m)"
      using spl unfolding eq by (auto simp: eq_on_def st_bytes_outside) }
  { assume ge: "unat n \<le> length w"
    let ?m = "st_bytes m s (take (unat n) w)"
    have m1: "unat (- 1 :: u64) = 2 ^ 64 - 1" by (simp add: unsigned_minus_1_eq_mask mask_eq_exp_minus_1)
    have "strncpy s t n m = (\<lambda>x. if x \<in> region (s + n) (2 ^ 64 - 1) then 0 else ?m x)"
      unfolding strncpy_def cp using ge m1 rep_stosb_eq [of "2 ^ 64 - 1" "s + n" 0 ?m] by simp
    moreover have "x \<in> region (s + n) (2 ^ 64 - 1) \<longleftrightarrow> x \<noteq> s + n - 1" for x
    proof -
      have "unat (x - (s + n)) < 2 ^ 64 - 1 \<longleftrightarrow> unat (x - (s + n)) \<noteq> unat (- 1 :: u64)"
        using unat_lt_2_64 [of "x - (s + n)"] unfolding m1 by auto
      also have "\<dots> \<longleftrightarrow> x - (s + n) \<noteq> - 1" by (simp only: word_unat_eq_iff [symmetric])
      also have "\<dots> \<longleftrightarrow> x \<noteq> s + n - 1" by (simp add: diff_eq_eq)
      finally show ?thesis by (simp add: region_def)
    qed
    moreover have "?m (s + n - 1) = w ! (unat n - 1)"
    proof -
      have "s + n - 1 = s + of_nat (unat n - 1)" using un by (simp add: of_nat_diff)
      then show ?thesis using st_bytes_nth [of "unat n - 1" "take (unat n) w" m s] ge un by (simp add: add_diff_eq)
    qed
    ultimately show "strncpy s t n m = (\<lambda>x. if x = s + n - 1 then w ! (unat n - 1) else 0)"
      by (auto simp: fun_eq_iff) }
qed

theorem strncpy_behaviour_witness:
  "cstr (strncpy 32 8 4 demo_strings) 32 [0x6C, 0x73]
   \<and> strncpy 32 8 2 demo_strings = (\<lambda>x. if x = 33 then 0x73 else 0)"
proof -
  have c: "cstr demo_strings 8 [0x6C, 0x73]" by (simp add: demo_strings_def)
  have "region 32 (unat (2 :: u64)) \<inter> region 8 (Suc (length [0x6C, 0x73 :: u8])) = {}"
    "region 32 (unat (4 :: u64)) \<inter> region 8 (Suc (length [0x6C, 0x73 :: u8])) = {}"
    by (intro region_disjoint_nat; simp)+
  note r = this
  have "[0x6C, 0x73 :: u8] ! (unat (2 :: u64) - 1) = 0x73" by simp
  then show ?thesis using strncpy_behaviour [OF c _ r(1)] strncpy_behaviour [OF c _ r(2)] by (auto simp: fun_eq_iff)
qed

lemma cstr_drop: "cstr m p (u @ v) \<Longrightarrow> cstr m (p + of_nat (length u)) v"
  by (induction u arbitrary: p) (auto simp flip: add.assoc)

lemma cstr_cut:
  assumes c: "cstr m p (u @ d # v)" and len: "length u + length v + 2 \<le> 2 ^ 64"
  shows "cstr (m(p + of_nat (length u) := 0)) p u"
    and "cstr (m(p + of_nat (length u) := 0)) (p + of_nat (Suc (length u))) v"
proof -
  let ?a = "p + of_nat (length u)"
  have ne: "of_nat i \<noteq> (of_nat (length u) :: u64)" if "i < length u" for i
  proof -
    have "unat (of_nat i :: u64) = i" "unat (of_nat (length u) :: u64) = length u"
      using that len by (intro unat_of_nat_lt; simp)+
    then show ?thesis using that by (metis less_irrefl)
  qed
  have "m (p + of_nat i) = u ! i \<and> u ! i \<noteq> 0" if "i < length u" for i
  proof -
    have "i < length (u @ d # v)" using that by simp
    then have "m (p + of_nat i) = (u @ d # v) ! i \<and> (u @ d # v) ! i \<noteq> 0" using c unfolding cstr_nth by blast
    then show ?thesis using that by (simp add: nth_append)
  qed
  then show "cstr (m(?a := 0)) p u" using ne unfolding cstr_nth by simp
  have "?a \<in> region p (Suc (length u))" using len by (intro mem_region_add) auto
  moreover have "region p (Suc (length u)) \<inter> region (p + of_nat (Suc (length u))) (Suc (length v)) = {}"
    by (rule region_adjacent) (use len in simp)
  ultimately have "?a \<notin> region (p + of_nat (Suc (length u))) (Suc (length v))" by blast
  moreover have "cstr m (p + of_nat (Suc (length u))) v" using cstr_drop [of m p "u @ [d]" v] c by simp
  ultimately show "cstr (m(?a := 0)) (p + of_nat (Suc (length u))) v"
    using len by (subst cstr_upd) auto
qed

text \<open>one \<^verbatim>\<open>strtok\<close> call on the unread rest of a string skips leading delimiters and returns NULL when
  nothing else is left; otherwise it returns the next maximal run of non-delimiters as a terminated string, and
  the unread rest becomes what follows the delimiter it overwrote. The delimiter string stays intact.\<close>

theorem strtok_next_token:
  assumes ds: "cstr m delims ds" and rest: "cstr m (tok_copy st + of_nat (tok_i st)) w"
    and len: "tok_i st + Suc (length w) \<le> 2 ^ 64" and dlen: "Suc (length ds) \<le> 2 ^ 64"
    and dj: "region delims (Suc (length ds)) \<inter> region (tok_copy st) (tok_i st + length w) = {}"
  shows "let sk = takeWhile (\<lambda>c. c \<in> set ds) w; ys = dropWhile (\<lambda>c. c \<in> set ds) w;
             tok = takeWhile (\<lambda>c. c \<notin> set ds) ys; p = tok_copy st + of_nat (tok_i st + length sk)
         in if ys = [] then strtok NULL delims (st, m) = Some (NULL, st\<lparr>tok_i := tok_i st + length w\<rparr>, m)
            else \<exists>st' m'. strtok NULL delims (st, m) = Some (p, st', m') \<and> cstr m' p tok \<and> tok \<noteq> []
                   \<and> tok_copy st' = tok_copy st \<and> cstr m' delims ds
                   \<and> cstr m' (tok_copy st + of_nat (tok_i st')) (drop (Suc (length tok)) ys)"
proof -
  let ?D = "\<lambda>c. c \<in> set ds" and ?i = "tok_i st" and ?cp = "tok_copy st"
  define sk ys where "sk = takeWhile ?D w" and "ys = dropWhile ?D w"
  define tok where "tok = takeWhile (\<lambda>c. c \<notin> set ds) ys"
  let ?p = "?cp + of_nat (?i + length sk)"
  have w: "w = sk @ ys" by (simp add: sk_def ys_def)
  have skip: "strtok_loop ?cp delims ?i None m = (if length sk < length w
      then strtok_loop ?cp delims (?i + length sk + 1) (Some (?i + length sk)) m
      else Some (NULL, ?i + length sk, m))"
    using strtok_loop_skip [OF ds rest] by (simp add: Let_def sk_def)
  show ?thesis
  proof (cases ys)
    case Nil
    have "length w = length sk" using w Nil by simp
    then show ?thesis
      unfolding Let_def sk_def [symmetric] ys_def [symmetric] using Nil skip by (simp add: strtok_def)
  next
    case (Cons c zs)
    have cD: "c \<notin> set ds" using Cons unfolding ys_def by (metis dropWhile_eq_Cons_conv)
    define n where "n = length (takeWhile (\<lambda>c. c \<notin> set ds) zs)"
    have tok: "tok = c # take n zs" using Cons cD unfolding tok_def n_def by (simp add: takeWhile_eq_take [symmetric])
    have nl: "n \<le> length zs" unfolding n_def by (rule length_takeWhile_le)
    have p: "cstr m ?p (c # zs)" using cstr_drop [of m "?cp + of_nat ?i" sk ys] rest w Cons by (simp add: add.assoc)
    have z: "cstr m (?cp + of_nat (?i + length sk + 1)) zs" using p by (simp add: ac_simps)
    have run: "strtok NULL delims (st, m) = Some (?p, if n < length zs
        then (st\<lparr>tok_i := ?i + length sk + 1 + n + 1\<rparr>, m(?cp + of_nat (?i + length sk + 1 + n) := 0))
        else (st\<lparr>tok_i := ?i + length sk + 1 + n\<rparr>, m))"
      using strtok_loop_word [OF ds z, of "?i + length sk"] skip w Cons
      by (simp add: strtok_def Let_def n_def)
    have len': "?i + length sk + length zs + 2 \<le> 2 ^ 64" using len w Cons by simp
    show ?thesis
    proof (cases "n < length zs")
      case True
      let ?a = "?cp + of_nat (?i + length sk + 1 + n)"
      have split: "c # zs = tok @ (zs ! n) # drop (Suc n) zs" using True tok by (simp add: id_take_nth_drop)
      have lt: "length tok = Suc n" using True tok by simp
      have a: "?a = ?p + of_nat (length tok)" by (simp add: lt add.assoc)
      note cut = cstr_cut [OF p [unfolded split]]
      have "?a \<in> region ?cp (?i + length w)"
        using True w Cons len by (intro mem_region_add) auto
      then have "cstr (m(?a := 0)) delims ds" using dj ds dlen by (subst cstr_upd) auto
      moreover have "cstr (m(?a := 0)) ?p tok" "cstr (m(?a := 0)) (?cp + of_nat (?i + length sk + 1 + n + 1)) (drop (Suc n) zs)"
        using cut len' True lt unfolding a [symmetric] by (simp_all add: ac_simps)
      ultimately show ?thesis
        unfolding Let_def sk_def [symmetric] ys_def [symmetric] tok_def [symmetric]
        using run True Cons lt tok by simp
    next
      case False
      then have eq: "n = length zs" using nl by simp
      then have t: "tok = c # zs" using tok by simp
      have "cstr m (?cp + of_nat (?i + length sk + 1 + n)) []"
        using cstr_drop [of m ?p "c # zs" "[]"] p eq by (simp add: ac_simps)
      then show ?thesis
        unfolding Let_def sk_def [symmetric] ys_def [symmetric] tok_def [symmetric]
        using run False Cons t p ds by simp
    qed
  qed
qed

definition demo_command :: memory where
  "demo_command = (\<lambda>_. 0)(8 := 0x20, 64 := 0x20, 65 := 0x61, 66 := 0x20, 67 := 0x62)"

theorem strtok_next_token_witness:
  "\<exists>st m. strtok NULL 8 (\<lparr>tok_copy = 64, tok_i = 0\<rparr>, demo_command) = Some (65, st, m) \<and> cstr m 65 [0x61]
     \<and> cstr m (64 + of_nat (tok_i st)) [0x62]"
proof -
  have d: "cstr demo_command 8 [0x20]" by (simp add: demo_command_def)
  have w: "cstr demo_command (tok_copy \<lparr>tok_copy = 64, tok_i = 0\<rparr> + of_nat (tok_i \<lparr>tok_copy = 64, tok_i = 0\<rparr>))
      [0x20, 0x61, 0x20, 0x62]"
    by (simp add: demo_command_def)
  have dj: "region 8 (Suc (length [0x20 :: u8])) \<inter> region (tok_copy \<lparr>tok_copy = 64, tok_i = 0\<rparr>)
      (tok_i \<lparr>tok_copy = 64, tok_i = 0\<rparr> + length [0x20, 0x61, 0x20, 0x62 :: u8]) = {}"
    by (intro region_disjoint_nat) simp_all
  from strtok_next_token [OF d w _ _ dj] show ?thesis by (auto simp: Let_def)
qed

end
