(* ===== verification/Stage2_Loader.thy ===== *)
theory Stage2_Loader
  imports Cstring
begin

text \<open>
  The C part of the second boot loader, \<^verbatim>\<open>stage2_bootloader/src/stage2_loader.c\<close>: it copies the kernel image to its
  load address and jumps to it.
\<close>

section \<open>Definitions\<close>

definition current_binary :: ptr where "current_binary = 0x10000"
definition target_binary :: ptr where "target_binary = 0x100000"
definition entry_point :: ptr where "entry_point = 0x100000"

primrec stage2_copy :: "nat \<Rightarrow> nat \<Rightarrow> memory \<Rightarrow> memory" where
  "stage2_copy 0 i m = m"
| "stage2_copy (Suc n) i m =
     stage2_copy n (Suc i) (m(target_binary + of_nat i := m (current_binary + of_nat i)))"

text \<open>The result is the address that is called and the memory it finds.\<close>

definition stage2_cmain :: "memory \<Rightarrow> ptr \<times> memory" where
  "stage2_cmain m = (entry_point, stage2_copy (256 * 1024) 0 m)"

section \<open>Properties\<close>

lemma stage2_copy_fwd: "stage2_copy n i m = copy_fwd n (target_binary + of_nat i) (current_binary + of_nat i) m"
  by (induction n arbitrary: i m) (simp_all add: ac_simps)

text \<open>The second boot loader jumps to the first byte of an exact copy of the 256 KB image at 64 KB, wherever the bytes come
  from, and changes no other memory; the image itself is kept as well.\<close>

theorem stage2_loads_image:
  "\<exists>m'. stage2_cmain m = (target_binary, m')
     \<and> (\<forall>i < 262144. m' (target_binary + of_nat i) = m (current_binary + of_nat i) \<and> m' (current_binary + of_nat i) = m (current_binary + of_nat i))
     \<and> eq_on (- region target_binary 262144) m m'"
proof -
  have u: "unat (current_binary + of_nat i) = 65536 + i" "unat (target_binary + of_nat i) = 1048576 + i" if "i < 262144" for i
    using that by (simp_all add: unat_add_of_nat current_binary_def target_binary_def)
  have ne: "current_binary + of_nat i \<noteq> target_binary + of_nat j" if "i < 262144" "j < 262144" for i j
  proof
    assume "current_binary + of_nat i = target_binary + of_nat j"
    then have "unat (current_binary + of_nat i) = unat (target_binary + of_nat j)" by simp
    then show False using u that by simp
  qed
  let ?m = "copy_fwd 262144 target_binary current_binary m"
  have c: "?m = (\<lambda>x. if x \<in> region target_binary 262144 then m (current_binary + (x - target_binary)) else m x)"
    by (rule copy_fwd_eq) (use ne in auto)
  have run: "stage2_cmain m = (target_binary, ?m)"
    by (simp add: stage2_cmain_def stage2_copy_fwd entry_point_def target_binary_def)
  have t: "target_binary + of_nat i \<in> region target_binary 262144" if "i < 262144" for i
    using that by (simp add: region_def unat_of_nat)
  have s: "current_binary + of_nat i \<notin> region target_binary 262144" if i: "i < 262144" for i
    by (subst in_region_nat) (use u(1) [OF i] i in \<open>simp_all add: target_binary_def\<close>)
  have "?m (target_binary + of_nat i) = m (current_binary + of_nat i)" "?m (current_binary + of_nat i) = m (current_binary + of_nat i)" if "i < 262144" for i
    unfolding c using t [OF that] s [OF that] by simp_all
  moreover have "eq_on (- region target_binary 262144) m ?m" unfolding c by (simp add: eq_on_def)
  ultimately show ?thesis using run by blast
qed

end
