(* ===== verification/Boot_Alloc.thy ===== *)
theory Boot_Alloc
  imports Cpu
begin

text \<open>
  The boot-time bump allocator \<^verbatim>\<open>kernel/src/mem/boot_alloc.c\<close> and the address macros of
  \<^verbatim>\<open>mem/memlayout.h\<close> and \<^verbatim>\<open>defs.h\<close>. It hands out page-aligned memory from one zone before locks
  and interrupts exist; \<^verbatim>\<open>vmm_init\<close> and \<^verbatim>\<open>pgalloc_init\<close> are its clients.
\<close>

section \<open>Address macros\<close>

definition KERNBASE :: u64 where "KERNBASE = 0xFFFF800000000000"
definition PG_SIZE :: u64 where "PG_SIZE = 4096"

definition KV2P :: "ptr \<Rightarrow> u64" where "KV2P va = va - KERNBASE"
definition P2KV :: "u64 \<Rightarrow> ptr" where "P2KV pa = pa + KERNBASE"
definition ROUNDUP_PWR2 :: "u64 \<Rightarrow> u64 \<Rightarrow> u64" where
  "ROUNDUP_PWR2 x sz = (x + (sz - 1)) AND NOT (sz - 1)"
definition PGROUNDUP :: "u64 \<Rightarrow> u64" where
  "PGROUNDUP sz = (sz + PG_SIZE - 1) AND NOT (PG_SIZE - 1)"
definition PGROUNDDOWN :: "u64 \<Rightarrow> u64" where
  "PGROUNDDOWN a = a AND NOT (PG_SIZE - 1)"
definition PG_INDEX :: "u64 \<Rightarrow> u64" where
  "PG_INDEX a = a div PG_SIZE"

section \<open>State and operations\<close>

record boot_sys = machine +
  begin_kva :: ptr
  end_kva :: ptr
  boot_alloc_initialized :: bool

definition boot_alloc_init :: "ptr \<Rightarrow> u64 \<Rightarrow> 'z boot_sys_scheme \<Rightarrow> 'z boot_sys_scheme" where
  "boot_alloc_init start_kva sz s =
     (if boot_alloc_initialized s then s
      else s\<lparr>boot_alloc_initialized := True,
             begin_kva := ROUNDUP_PWR2 start_kva PG_SIZE,
             end_kva := start_kva + sz\<rparr>)"

definition boot_alloc :: "u64 \<Rightarrow> 'z boot_sys_scheme \<Rightarrow> ptr \<times> 'z boot_sys_scheme" where
  "boot_alloc sz s =
     (let size' = ROUNDUP_PWR2 sz PG_SIZE
      in if begin_kva s + size' < end_kva s
         then (begin_kva s, s\<lparr>begin_kva := begin_kva s + size'\<rparr>)
         else (NULL, s))"

definition boot_alloc_disable :: "'z boot_sys_scheme \<Rightarrow> ptr \<times> 'z boot_sys_scheme" where
  "boot_alloc_disable s = (begin_kva s, s\<lparr>begin_kva := 0, end_kva := 0\<rparr>)"

text \<open>A sequence of requests, as the boot code issues them one after the other.\<close>

primrec boot_allocs :: "u64 list \<Rightarrow> 'z boot_sys_scheme \<Rightarrow> ptr list \<times> 'z boot_sys_scheme" where
  "boot_allocs [] s = ([], s)"
| "boot_allocs (n # ns) s =
     (let (p, s1) = boot_alloc n s; (ps, s2) = boot_allocs ns s1 in (p # ps, s2))"

text \<open>
  \<open>boot_zone s\<close>: the next free byte is page aligned and no request of at most 1 TB can wrap
  around the end of the address space from within the zone.
\<close>

definition max_request :: nat where "max_request = 2 ^ 40"

definition boot_zone :: "'z boot_sys_scheme \<Rightarrow> bool" where
  "boot_zone s \<longleftrightarrow> 4096 dvd unat (begin_kva s) \<and> 0 < begin_kva s
     \<and> unat (begin_kva s) + 2 * max_request < 2 ^ 64 \<and> unat (end_kva s) + 2 * max_request < 2 ^ 64"

text \<open>The request \<open>n\<close> at \<open>p\<close> lies in the zone of \<open>s\<close>, on a page boundary.\<close>

definition granted_in :: "'z boot_sys_scheme \<Rightarrow> ptr \<Rightarrow> u64 \<Rightarrow> bool" where
  "granted_in s p n \<longleftrightarrow> 4096 dvd unat p \<and> unat (begin_kva s) \<le> unat p
     \<and> unat p + unat n < unat (end_kva s)"

definition demo_boot :: boot_sys where
  "demo_boot = machine.extend demo_machine
     \<lparr>begin_kva = 0xFFFF800000200000, end_kva = 0xFFFF800000204000, boot_alloc_initialized = True\<rparr>"

section \<open>Lemmas\<close>

lemma mask_4095: "(4095 :: u64) = mask 12"
  by (simp add: mask_eq_decr_exp)

lemma unat_roundup:
  assumes "unat x + 4095 < 2 ^ 64"
  shows "unat (ROUNDUP_PWR2 x PG_SIZE) = (unat x + 4095) div 4096 * 4096"
proof -
  have "unat (ROUNDUP_PWR2 x PG_SIZE) = unat (x + 4095) - unat (x + 4095) mod 4096"
    using and_not_mask_mod [of "x + 4095" 12]
    by (simp add: ROUNDUP_PWR2_def PG_SIZE_def mask_4095 del: mask_numeral)
  also have "unat (x + 4095) = unat x + 4095"
    using assms by (simp add: unat_add_numeral)
  finally show ?thesis by (simp add: minus_mod_eq_div_mult)
qed

lemma roundup_bounds:
  assumes "unat x + 4095 < 2 ^ 64"
  shows "unat x \<le> unat (ROUNDUP_PWR2 x PG_SIZE)"
    and "unat (ROUNDUP_PWR2 x PG_SIZE) < unat x + 4096"
    and "4096 dvd unat (ROUNDUP_PWR2 x PG_SIZE)"
  unfolding unat_roundup [OF assms] by linarith+ simp

lemma boot_alloc_step:
  assumes z: "boot_zone s" and n: "unat n \<le> max_request" and eq: "boot_alloc n s = (p, s')"
  shows "p = 0 \<and> s' = s
       \<or> p = begin_kva s \<and> p \<noteq> 0 \<and> granted_in s p n \<and> boot_zone s' \<and> end_kva s' = end_kva s
         \<and> unat p + unat n \<le> unat (begin_kva s')"
proof (cases "begin_kva s + ROUNDUP_PWR2 n PG_SIZE < end_kva s")
  case False
  with eq show ?thesis by (simp add: boot_alloc_def)
next
  case True
  let ?r = "ROUNDUP_PWR2 n PG_SIZE"
  have n4: "unat n + 4095 < 2 ^ 64" using n by (simp add: max_request_def)
  note r = roundup_bounds [OF n4]
  have r_le: "unat ?r < 2 * max_request" using r(2) n by (simp add: max_request_def)
  have add: "unat (begin_kva s + ?r) = unat (begin_kva s) + unat ?r"
    using z r_le by (intro unat_add_nowrap) (simp add: boot_zone_def)
  have lt: "unat (begin_kva s) + unat ?r < unat (end_kva s)"
    using True add by (simp add: word_less_nat_alt)
  have p: "p = begin_kva s" "s' = s\<lparr>begin_kva := begin_kva s + ?r\<rparr>"
    using eq True by (auto simp: boot_alloc_def)
  have pos: "0 < begin_kva s + ?r" using z add by (auto simp: boot_zone_def word_less_nat_alt)
  show ?thesis
    using z r lt pos unfolding p boot_zone_def granted_in_def
    by (auto simp: add)
qed

text \<open>boot allocations are sound: whatever sequence of requests is made, every granted block is
  page aligned and lies inside the zone, and the blocks of two grants never overlap.\<close>

theorem boot_allocs_disjoint:
  assumes "boot_zone s" and "\<forall>n \<in> set ns. unat n \<le> max_request" and "boot_allocs ns s = (ps, s')"
  shows "length ps = length ns
       \<and> (\<forall>i < length ns. ps ! i = 0 \<or> granted_in s (ps ! i) (ns ! i))
       \<and> (\<forall>j < length ns. \<forall>i < j. ps ! i \<noteq> 0 \<and> ps ! j \<noteq> 0 \<longrightarrow>
            unat (ps ! i) + unat (ns ! i) \<le> unat (ps ! j))"
  using assms
proof (induction ns arbitrary: s ps)
  case Nil
  then show ?case by simp
next
  case (Cons n ns)
  obtain p s1 qs where p: "boot_alloc n s = (p, s1)" and qs: "boot_allocs ns s1 = (qs, s')"
    and ps: "ps = p # qs"
    using Cons.prems(3) by (auto simp: Let_def split: prod.splits)
  have st: "p = 0 \<and> s1 = s
      \<or> p = begin_kva s \<and> p \<noteq> 0 \<and> granted_in s p n \<and> boot_zone s1 \<and> end_kva s1 = end_kva s
        \<and> unat p + unat n \<le> unat (begin_kva s1)"
    using boot_alloc_step [OF Cons.prems(1) _ p] Cons.prems(2) by simp
  then have z1: "boot_zone s1" using Cons.prems(1) by auto
  have IH: "length qs = length ns"
      "\<forall>i < length ns. qs ! i = 0 \<or> granted_in s1 (qs ! i) (ns ! i)"
      "\<forall>j < length ns. \<forall>i < j. qs ! i \<noteq> 0 \<and> qs ! j \<noteq> 0 \<longrightarrow>
            unat (qs ! i) + unat (ns ! i) \<le> unat (qs ! j)"
    using Cons.IH [OF z1 _ qs] Cons.prems(2) by auto
  have mono: "granted_in s q k" if "granted_in s1 q k" for q k
    using st that by (auto simp: granted_in_def)
  have later: "p \<noteq> 0 \<Longrightarrow> granted_in s1 q k \<Longrightarrow> unat p + unat n \<le> unat q" for q k
    using st by (auto simp: granted_in_def)
  show ?case
    using st IH mono later by (auto simp: ps nth_Cons less_Suc_eq_0_disj split: nat.splits)
qed

theorem boot_allocs_disjoint_witness:
  "boot_allocs [1, 4096, 9000] demo_boot
     = ([0xFFFF800000200000, 0xFFFF800000201000, 0], demo_boot\<lparr>begin_kva := 0xFFFF800000202000\<rparr>)
   \<and> unat (0xFFFF800000200000 :: ptr) + unat (1 :: u64) \<le> unat (0xFFFF800000201000 :: ptr)"
proof -
  let ?ns = "[1, 4096, 9000] :: u64 list"
  have z: "boot_zone demo_boot"
    by (simp add: boot_zone_def demo_boot_def max_request_def machine.extend_def)
  have sz: "\<forall>n \<in> set ?ns. unat n \<le> max_request" by (simp add: max_request_def)
  have run: "boot_allocs ?ns demo_boot
     = ([0xFFFF800000200000, 0xFFFF800000201000, 0], demo_boot\<lparr>begin_kva := 0xFFFF800000202000\<rparr>)"
    by (simp add: boot_alloc_def demo_boot_def machine.extend_def ROUNDUP_PWR2_def PG_SIZE_def Let_def)
  from boot_allocs_disjoint [OF z sz run] show ?thesis
    using run by simp
qed

text \<open>life cycle of the boot allocator: initialisation happens once, and after
  \<^verbatim>\<open>boot_alloc_disable\<close> (which returns the first unused byte) every request is refused.\<close>

theorem boot_alloc_lifecycle:
  "boot_alloc_init b m (boot_alloc_init a n s) = boot_alloc_init a n s
   \<and> fst (boot_alloc_disable s) = begin_kva s
   \<and> boot_alloc k (snd (boot_alloc_disable s)) = (NULL, snd (boot_alloc_disable s))"
  by (simp add: boot_alloc_init_def boot_alloc_disable_def boot_alloc_def Let_def)

text \<open>a request within one page of the end of the address space wraps to size 0 in
  \<^verbatim>\<open>ROUNDUP_PWR2\<close>: it is granted without advancing the zone, so two such requests get the same
  pointer.\<close>

theorem boot_alloc_wraps:
  assumes "0xFFFFFFFFFFFFF001 \<le> n" and "begin_kva s < end_kva s"
  shows "boot_allocs [n, n] s = ([begin_kva s, begin_kva s], s)"
proof -
  have n: "2 ^ 64 - 4095 \<le> unat n" using assms(1) by (simp add: word_le_nat_alt)
  have "(unat n + 4095) mod 2 ^ 64 = unat n + 4095 - 2 ^ 64"
    using n unat_lt_2_64 [of n] by (intro mod_nat_eqI) auto
  then have "unat (n + 4095) < 4096"
    using unat_lt_2_64 [of n] by (simp add: unat_word_ariths)
  then have "unat ((n + 4095) AND NOT (mask 12)) = 0"
    by (simp add: and_not_mask_mod)
  then have "ROUNDUP_PWR2 n PG_SIZE = 0"
    by (simp add: ROUNDUP_PWR2_def PG_SIZE_def mask_4095 unat_eq_0 del: mask_numeral)
  then show ?thesis using assms(2) by (simp add: boot_alloc_def Let_def)
qed

theorem boot_alloc_wraps_witness:
  "boot_allocs [0xFFFFFFFFFFFFFFFF, 0xFFFFFFFFFFFFFFFF] demo_boot
     = ([0xFFFF800000200000, 0xFFFF800000200000], demo_boot)"
  using boot_alloc_wraps [of "0xFFFFFFFFFFFFFFFF" demo_boot]
  by (simp add: demo_boot_def machine.extend_def)

end
