(* ===== verification/Buddy.thy ===== *)
theory Buddy
  imports Main
begin

text \<open>
  The specification of the page allocator: a buddy system on page indices, with no memory layout.
  \<open>a_free\<close> and \<open>a_alloc\<close> are what \<^verbatim>\<open>s_free_block\<close> and \<^verbatim>\<open>s_alloc_block\<close> of
  \<^verbatim>\<open>kernel/src/mem/page_alloc.c\<close> compute on the free lists; the theory \<open>Page_Alloc\<close> proves that.
  The locale \<open>page_pool\<close> states the contract the clients rely on.
\<close>

section \<open>Definitions\<close>

definition MAX_ORDER :: nat where "MAX_ORDER = 10"

text \<open>The free list of every order, as page indices in list order.\<close>

type_synonym free_lists = "nat \<Rightarrow> nat list"

text \<open>
  \<open>blk k i\<close> are the pages of the block of order \<open>k\<close> at page \<open>i\<close>; its \<open>buddy\<close> is the other half of the
  \<open>parent\<close> block of order \<open>k + 1\<close>.
\<close>

definition blk :: "nat \<Rightarrow> nat \<Rightarrow> nat set" where
  "blk k i = {i..<i + 2 ^ k}"

definition buddy :: "nat \<Rightarrow> nat \<Rightarrow> nat" where
  "buddy k i = (if even (i div 2 ^ k) then i + 2 ^ k else i - 2 ^ k)"

definition parent :: "nat \<Rightarrow> nat \<Rightarrow> nat" where
  "parent k i = i - i mod 2 ^ Suc k"

text \<open>Freeing a block merges it with its buddy as long as that is free.\<close>

function a_free :: "nat \<Rightarrow> nat \<Rightarrow> free_lists \<Rightarrow> free_lists" where
  "a_free k i F =
     (if k < MAX_ORDER \<and> buddy k i \<in> set (F k)
      then a_free (Suc k) (parent k i) (F(k := remove1 (buddy k i) (F k)))
      else F(k := i # F k))"
  by pat_completeness auto
termination
  by (relation "measure (\<lambda>(k, i, F). MAX_ORDER - k)") auto

declare a_free.simps [simp del]

text \<open>Allocation takes the first block of the order, or splits a larger one and frees its upper half.\<close>

function a_alloc :: "nat \<Rightarrow> free_lists \<Rightarrow> (nat \<times> free_lists) option" where
  "a_alloc k F =
     (if MAX_ORDER < k then None
      else case F k of
          i # is \<Rightarrow> Some (i, F(k := is))
        | [] \<Rightarrow> (case a_alloc (Suc k) F of
              None \<Rightarrow> None
            | Some (i, F') \<Rightarrow> Some (i, a_free k (i + 2 ^ k) F')))"
  by pat_completeness auto
termination
  by (relation "measure (\<lambda>(k, F). Suc MAX_ORDER - k)") auto

declare a_alloc.simps [simp del]

definition pages :: "free_lists \<Rightarrow> nat set" where
  "pages F = (\<Union>k \<le> MAX_ORDER. \<Union>i \<in> set (F k). blk k i)"

text \<open>
  Well-formed free lists: aligned blocks below the page limit, pairwise disjoint, and no free block
  whose buddy is free too (except at the top order, which never merges).
\<close>

definition buddy_wf :: "nat \<Rightarrow> free_lists \<Rightarrow> bool" where
  "buddy_wf N F \<longleftrightarrow>
     (\<forall>k \<le> MAX_ORDER. distinct (F k) \<and> (\<forall>i \<in> set (F k). 2 ^ k dvd i \<and> i + 2 ^ k \<le> N)) \<and>
     (\<forall>k \<le> MAX_ORDER. \<forall>l \<le> MAX_ORDER. \<forall>i \<in> set (F k). \<forall>j \<in> set (F l).
        (k, i) \<noteq> (l, j) \<longrightarrow> blk k i \<inter> blk l j = {}) \<and>
     (\<forall>k < MAX_ORDER. \<forall>i \<in> set (F k). buddy k i \<notin> set (F k))"

section \<open>Lemmas\<close>

lemma blk_nonempty [simp]: "i \<in> blk k i"
  by (simp add: blk_def)

lemma blk_le: "blk k i \<subseteq> {..<N} \<longleftrightarrow> i + 2 ^ k \<le> N"
proof
  assume "blk k i \<subseteq> {..<N}"
  moreover have "0 < (2::nat) ^ k" by simp
  then have "i + 2 ^ k - 1 \<in> blk k i" unfolding blk_def by (simp only: atLeastLessThan_iff) linarith
  ultimately show "i + 2 ^ k \<le> N" by auto
qed (auto simp: blk_def)

lemma finite_blk [simp]: "finite (blk k i)"
  by (simp add: blk_def)

lemma buddy_parent_even:
  "buddy k (2 * 2 ^ k * r) = 2 * 2 ^ k * r + 2 ^ k"
  "parent k (2 * 2 ^ k * r) = 2 * 2 ^ k * r"
proof -
  have "2 * 2 ^ k * r div 2 ^ k = 2 * r" by (simp add: mult.commute [of 2] mult.assoc)
  then show "buddy k (2 * 2 ^ k * r) = 2 * 2 ^ k * r + 2 ^ k" by (simp add: buddy_def)
  show "parent k (2 * 2 ^ k * r) = 2 * 2 ^ k * r" by (simp add: parent_def)
qed

lemma buddy_parent_odd:
  "buddy k (2 * 2 ^ k * r + 2 ^ k) = 2 * 2 ^ k * r"
  "parent k (2 * 2 ^ k * r + 2 ^ k) = 2 * 2 ^ k * r"
proof -
  have "(2 * 2 ^ k * r + 2 ^ k) div 2 ^ k = 2 * r + 1" 
    by (simp add: mult.commute [of 2] mult.assoc)
  then show "buddy k (2 * 2 ^ k * r + 2 ^ k) = 2 * 2 ^ k * r" by (simp add: buddy_def)
  have "(2 * 2 ^ k * r + 2 ^ k) mod (2 * 2 ^ k) = 2 ^ k" by simp
  then show "parent k (2 * 2 ^ k * r + 2 ^ k) = 2 * 2 ^ k * r" by (simp add: parent_def)
qed

lemma aligned_cases:
  assumes "2 ^ k dvd (i :: nat)"
  obtains r where "i = 2 * 2 ^ k * r" | r where "i = 2 * 2 ^ k * r + 2 ^ k"
proof -
  from assms obtain q where q: "i = 2 ^ k * q" by (auto simp: dvd_def)
  show thesis
  proof (cases "even q")
    case True
    then obtain r where "q = 2 * r" by (elim evenE)
    then show thesis using q that(1) [of r] by (simp add: algebra_simps)
  next
    case False
    then obtain r where "q = 2 * r + 1" by (elim oddE)
    then show thesis using q that(2) [of r] by (simp add: algebra_simps)
  qed
qed

lemma buddy_facts:
  assumes "2 ^ k dvd i"
  shows blk_merge: "blk k i \<union> blk k (buddy k i) = blk (Suc k) (parent k i)"
    and blk_buddy_disjoint: "blk k i \<inter> blk k (buddy k i) = {}"
    and parent_aligned: "2 ^ Suc k dvd parent k i"
    and buddy_aligned: "2 ^ k dvd buddy k i"
    and buddy_neq: "buddy k i \<noteq> i"
    and buddy_buddy: "buddy k (buddy k i) = i"
    and parent_buddy: "parent k (buddy k i) = parent k i"
  using assms by (cases rule: aligned_cases; auto simp: buddy_parent_even buddy_parent_odd blk_def)+

lemma parent_bound:
  assumes "2 ^ k dvd i" and "i + 2 ^ k \<le> N" and "buddy k i + 2 ^ k \<le> N"
  shows "parent k i + 2 ^ Suc k \<le> N"
  using assms by (cases rule: aligned_cases) (auto simp: buddy_parent_even buddy_parent_odd)

text \<open>Blocks of the same order either coincide or are disjoint.\<close>

lemma blk_same_order:
  assumes "2 ^ k dvd i" and "2 ^ k dvd j" and "blk k i \<inter> blk k j \<noteq> {}"
  shows "i = j"
proof -
  obtain x where "x \<in> blk k i" "x \<in> blk k j" using assms(3) by blast
  then have "i \<le> x" "x < i + 2 ^ k" "j \<le> x" "x < j + 2 ^ k" by (simp_all add: blk_def)
  moreover obtain a b where "i = 2 ^ k * a" "j = 2 ^ k * b" using assms(1,2) by (auto simp: dvd_def)
  ultimately have "x div 2 ^ k = a" "x div 2 ^ k = b"
    by (auto intro!: div_nat_eqI simp: algebra_simps)
  then show ?thesis using \<open>i = 2 ^ k * a\<close> \<open>j = 2 ^ k * b\<close> by simp
qed

lemma pagesI: "k \<le> MAX_ORDER \<Longrightarrow> i \<in> set (F k) \<Longrightarrow> x \<in> blk k i \<Longrightarrow> x \<in> pages F"
  by (auto simp: pages_def)

lemma in_pages: "x \<in> pages F \<longleftrightarrow> (\<exists>k i. k \<le> MAX_ORDER \<and> i \<in> set (F k) \<and> x \<in> blk k i)"
  by (auto simp: pages_def)

lemma pages_insert:
  assumes "k \<le> MAX_ORDER"
  shows "pages (F(k := i # F k)) = pages F \<union> blk k i"
proof (intro set_eqI iffI)
  fix x assume "x \<in> pages (F(k := i # F k))"
  then show "x \<in> pages F \<union> blk k i" by (auto simp: in_pages split: if_splits)
next
  fix x assume "x \<in> pages F \<union> blk k i"
  then consider "x \<in> blk k i" | l j where "l \<le> MAX_ORDER" "j \<in> set (F l)" "x \<in> blk l j"
    by (auto simp: in_pages)
  then show "x \<in> pages (F(k := i # F k))"
  proof cases
    case 1
    with assms show ?thesis by (intro pagesI [of k i]) auto
  next
    case 2
    then show ?thesis by (intro pagesI [of l j]) auto
  qed
qed

lemma buddy_wfD:
  assumes "buddy_wf N F" and "k \<le> MAX_ORDER"
  shows wf_distinct: "distinct (F k)"
    and wf_aligned: "i \<in> set (F k) \<Longrightarrow> 2 ^ k dvd i"
    and wf_bound: "i \<in> set (F k) \<Longrightarrow> i + 2 ^ k \<le> N"
    and wf_disjoint: "l \<le> MAX_ORDER \<Longrightarrow> i \<in> set (F k) \<Longrightarrow> j \<in> set (F l) \<Longrightarrow> (k, i) \<noteq> (l, j)
          \<Longrightarrow> blk k i \<inter> blk l j = {}"
    and wf_buddy: "k < MAX_ORDER \<Longrightarrow> i \<in> set (F k) \<Longrightarrow> buddy k i \<notin> set (F k)"
  using assms unfolding buddy_wf_def by blast+

lemma buddy_wf_remove:
  assumes wf: "buddy_wf N F" and k: "k \<le> MAX_ORDER"
  shows "buddy_wf N (F(k := remove1 j (F k)))"
  using wf k unfolding buddy_wf_def
  by (auto dest!: notin_set_remove1 set_remove1_subset [THEN subsetD])

lemma pages_remove:
  assumes wf: "buddy_wf N F" and k: "k \<le> MAX_ORDER" and j: "j \<in> set (F k)"
  shows "pages (F(k := remove1 j (F k))) = pages F - blk k j"
proof -
  have set: "set (remove1 j (F k)) = set (F k) - {j}"
    using wf_distinct [OF wf k] by simp
  show ?thesis
  proof (intro set_eqI iffI)
    fix x assume "x \<in> pages (F(k := remove1 j (F k)))"
    then obtain l i where li: "l \<le> MAX_ORDER" "i \<in> set ((F(k := remove1 j (F k))) l)" "x \<in> blk l i"
      by (auto simp: pages_def)
    then have i: "i \<in> set (F l)" and ne: "(l, i) \<noteq> (k, j)" by (auto simp: set split: if_splits)
    then show "x \<in> pages F - blk k j"
      using wf_disjoint [OF wf li(1) k i j ne] li by (auto intro: pagesI)
  next
    fix x assume x: "x \<in> pages F - blk k j"
    then obtain l i where "l \<le> MAX_ORDER" "i \<in> set (F l)" "x \<in> blk l i" by (auto simp: pages_def)
    moreover from this x have "(l, i) \<noteq> (k, j)" by auto
    ultimately show "x \<in> pages (F(k := remove1 j (F k)))"
      by (intro pagesI [of l i]) (auto simp: set)
  qed
qed

lemma buddy_wf_insert:
  assumes wf: "buddy_wf N F" and k: "k \<le> MAX_ORDER" and al: "2 ^ k dvd i" and bd: "i + 2 ^ k \<le> N"
    and fresh: "blk k i \<inter> pages F = {}" and nb: "k < MAX_ORDER \<Longrightarrow> buddy k i \<notin> set (F k)"
  shows "buddy_wf N (F(k := i # F k))"
proof -
  have dj: "blk k i \<inter> blk l j = {}" if "l \<le> MAX_ORDER" "j \<in> set (F l)" for l j
    using fresh that by (meson disjoint_iff pagesI)
  have ni: "i \<notin> set (F k)" using dj [OF k, of i] blk_nonempty [of i k] by blast
  have nb': "buddy k j \<noteq> i" if "k < MAX_ORDER" "j \<in> set (F k)" for j
    using nb that buddy_buddy [OF wf_aligned [OF wf k that(2)]] by auto
  show ?thesis
    using wf ni al bd dj nb nb' buddy_neq [OF al] unfolding buddy_wf_def
    by (auto simp: Int_commute)
qed

lemma a_free_correct:
  assumes "buddy_wf N F" and "k \<le> MAX_ORDER" and "2 ^ k dvd i" and "i + 2 ^ k \<le> N"
    and "blk k i \<inter> pages F = {}"
  shows "buddy_wf N (a_free k i F) \<and> pages (a_free k i F) = pages F \<union> blk k i"
  using assms
proof (induction k i F rule: a_free.induct)
  case (1 k i F)
  note wf = "1.prems"(1) and k = "1.prems"(2) and al = "1.prems"(3)
  show ?case
  proof (cases "k < MAX_ORDER \<and> buddy k i \<in> set (F k)")
    case False
    then have eq: "a_free k i F = F(k := i # F k)" by (subst a_free.simps) (rule if_not_P)
    show ?thesis
      unfolding eq using False buddy_wf_insert [OF "1.prems"] pages_insert [OF k] by blast
  next
    case True
    let ?F = "F(k := remove1 (buddy k i) (F k))"
    have b: "buddy k i \<in> set (F k)" using True by simp
    have pg: "pages ?F = pages F - blk k (buddy k i)" by (rule pages_remove [OF wf k b])
    have sub: "blk k (buddy k i) \<subseteq> pages F" using k b by (auto intro: pagesI)
    have dj: "blk (Suc k) (parent k i) \<inter> pages ?F = {}"
      unfolding pg using "1.prems"(5) by (auto simp flip: blk_merge [OF al])
    have bd: "parent k i + 2 ^ Suc k \<le> N"
      by (rule parent_bound [OF al "1.prems"(4) wf_bound [OF wf k b]])
    have "Suc k \<le> MAX_ORDER" using True by simp
    note IH = "1.IH" [OF True buddy_wf_remove [OF wf k] this parent_aligned [OF al] bd dj]
    have eq: "a_free k i F = a_free (Suc k) (parent k i) ?F"
      using True by (subst a_free.simps) (rule if_P)
    have "pages F \<union> blk k i = pages ?F \<union> blk (Suc k) (parent k i)"
      unfolding pg using sub by (auto simp flip: blk_merge [OF al])
    with IH show ?thesis unfolding eq by blast
  qed
qed

lemma pages_tail:
  assumes wf: "buddy_wf N F" and k: "k \<le> MAX_ORDER" and F: "F k = i # is"
  shows "buddy_wf N (F(k := is)) \<and> pages (F(k := is)) = pages F - blk k i"
  using buddy_wf_remove [OF wf k, of i] pages_remove [OF wf k, of i] F by simp

lemma a_alloc_correct:
  assumes "buddy_wf N F"
  shows "case a_alloc k F of
      None \<Rightarrow> (\<forall>l. k \<le> l \<and> l \<le> MAX_ORDER \<longrightarrow> F l = [])
    | Some (i, F') \<Rightarrow> k \<le> MAX_ORDER \<and> buddy_wf N F' \<and> 2 ^ k dvd i \<and> i + 2 ^ k \<le> N
        \<and> blk k i \<subseteq> pages F \<and> pages F' = pages F - blk k i"
  using assms
proof (induction k F rule: a_alloc.induct)
  case (1 k F)
  consider "MAX_ORDER < k" | i "is" where "k \<le> MAX_ORDER" "F k = i # is"
    | "k \<le> MAX_ORDER" "F k = []"
    by (metis list.exhaust not_less)
  then show ?case
  proof cases
    case 1
    then show ?thesis by (auto simp: a_alloc.simps [of k F])
  next
    case 2
    then have "i \<in> set (F k)" by simp
    then show ?thesis
      using 2 pages_tail [OF "1.prems" 2] wf_aligned [OF "1.prems" 2(1)] wf_bound [OF "1.prems" 2(1)]
      by (auto simp: a_alloc.simps [of k F] intro: pagesI)
  next
    case 3
    then have IH: "case a_alloc (Suc k) F of
        None \<Rightarrow> (\<forall>l. Suc k \<le> l \<and> l \<le> MAX_ORDER \<longrightarrow> F l = [])
      | Some (i, F') \<Rightarrow> Suc k \<le> MAX_ORDER \<and> buddy_wf N F' \<and> 2 ^ Suc k dvd i \<and> i + 2 ^ Suc k \<le> N
          \<and> blk (Suc k) i \<subseteq> pages F \<and> pages F' = pages F - blk (Suc k) i"
      using "1.IH" [OF _ 3(2) "1.prems"] by simp
    show ?thesis
    proof (cases "a_alloc (Suc k) F")
      case None
      have "F l = []" if "k \<le> l" "l \<le> MAX_ORDER" for l
        using IH None 3(2) that by (cases "l = k") auto
      then show ?thesis using 3 None by (simp add: a_alloc.simps [of k F])
    next
      case (Some r)
      obtain i F' where r: "r = (i, F')" by (cases r)
      have i: "2 ^ Suc k dvd i" "i + 2 ^ Suc k \<le> N" "blk (Suc k) i \<subseteq> pages F"
          "pages F' = pages F - blk (Suc k) i" "buddy_wf N F'"
        using IH Some r by auto
      have hi: "2 ^ k dvd i + 2 ^ k" "2 ^ k dvd i" using i(1) by (auto dest: dvd_mult_left)
      have halves: "blk (Suc k) i = blk k i \<union> blk k (i + 2 ^ k)" "blk k i \<inter> blk k (i + 2 ^ k) = {}"
        by (auto simp: blk_def)
      have "buddy_wf N (a_free k (i + 2 ^ k) F')
          \<and> pages (a_free k (i + 2 ^ k) F') = pages F' \<union> blk k (i + 2 ^ k)"
        using i hi halves 3(1) by (intro a_free_correct) auto
      then show ?thesis
        using 3 Some r i hi halves by (auto simp: a_alloc.simps [of k F])
    qed
  qed
qed

section \<open>The page pool contract\<close>

text \<open>
  What a page allocator promises its clients, in terms of the set \<open>avail\<close> of free pages: an
  allocation takes an aligned block out of the pool, a free puts one back.
\<close>

locale page_pool =
  fixes P :: "nat set"
    and inv :: "'s \<Rightarrow> bool"
    and avail :: "'s \<Rightarrow> nat set"
    and alloc :: "nat \<Rightarrow> 's \<Rightarrow> (nat \<times> 's) option"
    and free :: "nat \<Rightarrow> nat \<Rightarrow> 's \<Rightarrow> 's"
  assumes alloc_Some: "inv s \<Longrightarrow> alloc k s = Some (i, t) \<Longrightarrow>
      k \<le> MAX_ORDER \<and> inv t \<and> 2 ^ k dvd i \<and> blk k i \<subseteq> avail s \<and> avail t = avail s - blk k i"
    and avail_P: "inv s \<Longrightarrow> avail s \<subseteq> P"
    and free_ok: "inv s \<Longrightarrow> k \<le> MAX_ORDER \<Longrightarrow> 2 ^ k dvd i \<Longrightarrow> blk k i \<subseteq> P \<Longrightarrow> blk k i \<inter> avail s = {} \<Longrightarrow>
      inv (free k i s) \<and> avail (free k i s) = avail s \<union> blk k i"
begin

lemma alloc_free_restores:
  assumes "inv s" and "alloc k s = Some (i, t)"
  shows "inv (free k i t) \<and> avail (free k i t) = avail s"
  using alloc_Some [OF assms] avail_P [OF assms(1)] free_ok [of t k i] by auto

text \<open>A run of allocations, stopping at the first failure.\<close>

primrec allocs :: "nat list \<Rightarrow> 's \<Rightarrow> ((nat \<times> nat) list \<times> 's) option" where
  "allocs [] s = Some ([], s)"
| "allocs (k # ks) s = (case alloc k s of None \<Rightarrow> None
     | Some (i, t) \<Rightarrow> map_option (\<lambda>(bs, u). ((k, i) # bs, u)) (allocs ks t))"

lemma allocs_sound:
  assumes "inv s" and "allocs ks s = Some (bs, t)"
  shows "inv t \<and> avail t \<subseteq> avail s \<and> map fst bs = ks
    \<and> (\<forall>(k, i) \<in> set bs. 2 ^ k dvd i \<and> blk k i \<subseteq> avail s - avail t)
    \<and> sorted_wrt (\<lambda>(k, i) (l, j). blk k i \<inter> blk l j = {}) bs"
  using assms
proof (induction ks arbitrary: s bs)
  case Nil
  then show ?case by simp
next
  case (Cons k ks)
  obtain i u cs where u: "alloc k s = Some (i, u)" and cs: "allocs ks u = Some (cs, t)"
    and bs: "bs = (k, i) # cs"
    using Cons.prems(2) by (auto split: option.splits)
  note a = alloc_Some [OF Cons.prems(1) u]
  note IH = Cons.IH [OF conjunct1 [OF conjunct2 [OF a]] cs]
  have IH1: "inv t" "avail t \<subseteq> avail u" "map fst cs = ks"
      "sorted_wrt (\<lambda>(k, i) (l, j). blk k i \<inter> blk l j = {}) cs"
    using IH by auto
  have IH2: "2 ^ l dvd j" "blk l j \<subseteq> avail u - avail t" if "(l, j) \<in> set cs" for l j
    using IH that by auto
  have here: "blk k i \<subseteq> avail s - avail t" using a IH1(2) by auto
  have later: "blk l j \<subseteq> avail s - avail t" "blk k i \<inter> blk l j = {}" if "(l, j) \<in> set cs" for l j
    using IH2(2) [OF that] a by auto
  have "\<forall>(l, j) \<in> set bs. 2 ^ l dvd j \<and> blk l j \<subseteq> avail s - avail t"
    using here later(1) IH2(1) a by (simp add: bs case_prod_unfold)
  moreover have "sorted_wrt (\<lambda>(k, i) (l, j). blk k i \<inter> blk l j = {}) bs"
    using IH1(4) later(2) by (simp add: bs case_prod_unfold)
  ultimately show ?case
    using IH1 a by (simp add: bs) blast
qed

end

text \<open>The abstract buddy system implements the contract.\<close>

interpretation bp: page_pool "{..<N}" "buddy_wf N" pages a_alloc a_free
  for N
proof
  fix s k i t
  assume "buddy_wf N s" and "a_alloc k s = Some (i, t)"
  then show "k \<le> MAX_ORDER \<and> buddy_wf N t \<and> 2 ^ k dvd i \<and> blk k i \<subseteq> pages s \<and> pages t = pages s - blk k i"
    using a_alloc_correct [of N s k] by auto
next
  fix s
  assume wf: "buddy_wf N s"
  show "pages s \<subseteq> {..<N}"
    using wf_bound [OF wf] by (fastforce simp: in_pages blk_def)
next
  fix s k i
  assume "buddy_wf N s" and "k \<le> MAX_ORDER" and "2 ^ k dvd i" and "blk k i \<subseteq> {..<N}"
    and "blk k i \<inter> pages s = {}"
  then show "buddy_wf N (a_free k i s) \<and> pages (a_free k i s) = pages s \<union> blk k i"
    by (intro a_free_correct) (simp_all add: blk_le)
qed

end
