(* ===== verification/Page_Alloc.thy ===== *)
theory Page_Alloc
  imports Boot_Alloc Buddy
begin

text \<open>
  The page allocator \<^verbatim>\<open>kernel/src/mem/page_alloc.c\<close>: eleven bins, each with a linked list that
  runs through the first word of the free pages themselves and with a bitmap that holds one bit per
  pair of buddies (the exclusive or of their freeness). The core routines work on the bins and the
  memory; the entry points take \<^verbatim>\<open>pgalloc_lock\<close>. The main result is that they refine the abstract
  buddy system of the theory \<open>Buddy\<close>.
\<close>

section \<open>State\<close>

record free_bin =
  head :: ptr
  lsize :: u64
  bitmap :: ptr

record pg_sys = boot_sys +
  pgalloc_bins :: "free_bin list"
  max_addr :: u64

text \<open>What the core routines work on: the bins and the memory.\<close>

record pg_core =
  bins :: "free_bin list"
  cmem :: memory

section \<open>Walking a free list through a pointer to a link\<close>

text \<open>
  \<^verbatim>\<open>struct free_page **pCurrent\<close> points either at the list head of the bin or at the \<^verbatim>\<open>next\<close> field
  of a free page. The search loop ends at NULL or at the target; on a cyclic list it never does.
\<close>

datatype link = Head | NextOf ptr

fun deref :: "free_bin \<Rightarrow> memory \<Rightarrow> link \<Rightarrow> ptr" where
  "deref b m Head = head b"
| "deref b m (NextOf a) = ld64 m a"

fun assign_link :: "link \<Rightarrow> ptr \<Rightarrow> free_bin \<times> memory \<Rightarrow> free_bin \<times> memory" where
  "assign_link Head v (b, m) = (b\<lparr>head := v\<rparr>, m)"
| "assign_link (NextOf a) v (b, m) = (b, st64 m a v)"

partial_function (option) find_link :: "free_bin \<Rightarrow> memory \<Rightarrow> ptr \<Rightarrow> link \<Rightarrow> link option" where
  "find_link b m target l =
     (if deref b m l = NULL \<or> deref b m l = target then Some l
      else find_link b m target (NextOf (deref b m l)))"

section \<open>Core routines\<close>

definition bit_word_addr :: "ptr \<Rightarrow> u64 \<Rightarrow> ptr" where
  "bit_word_addr bm bit_index = bm + 4 * (bit_index div 32)"

definition bit_mask :: "u64 \<Rightarrow> u32" where
  "bit_mask bit_index = push_bit (unat (bit_index mod 32)) 1"

definition toggle_bit :: "ptr \<Rightarrow> u64 \<Rightarrow> memory \<Rightarrow> memory" where
  "toggle_bit bm bit_index m =
     st32 m (bit_word_addr bm bit_index)
       (ld32 m (bit_word_addr bm bit_index) XOR bit_mask bit_index)"

text \<open>\<^verbatim>\<open>*pCurrent = (*pCurrent)->next; bin->list.size--;\<close>\<close>

definition unlink :: "nat \<Rightarrow> link \<Rightarrow> pg_core \<Rightarrow> pg_core" where
  "unlink order l c =
     (case assign_link l (ld64 (cmem c) (deref (bins c ! order) (cmem c) l)) (bins c ! order, cmem c) of
        (bin, m) \<Rightarrow> \<lparr>bins = (bins c)[order := bin\<lparr>lsize := lsize bin - 1\<rparr>], cmem = m\<rparr>)"

text \<open>\<^verbatim>\<open>pg_va->next = bin->list.head; bin->list.head = pg_va; bin->list.size++;\<close>\<close>

definition push_free :: "nat \<Rightarrow> ptr \<Rightarrow> pg_core \<Rightarrow> pg_core" where
  "push_free order pg_va c =
     \<lparr>bins = (bins c)[order := (bins c ! order)\<lparr>head := pg_va, lsize := lsize (bins c ! order) + 1\<rparr>],
      cmem = st64 (cmem c) pg_va (head (bins c ! order))\<rparr>"

text \<open>\<^verbatim>\<open>pgidx & ~((1UL << k) - 1)\<close>\<close>

definition align_down :: "u64 \<Rightarrow> nat \<Rightarrow> u64" where
  "align_down pgidx k = pgidx AND NOT (push_bit k 1 - 1)"

text \<open>
  One activation of \<^verbatim>\<open>s_free_block\<close>: it finishes, or it has unlinked the buddy and ends with the
  recursive call \<^verbatim>\<open>s_free_block(p, order+1)\<close>, represented by \<open>Merge p c\<close>.
\<close>

datatype free_step = Finish "(unit \<times> pg_core) outcome" | Merge u64 pg_core

definition s_free_step :: "u64 \<Rightarrow> nat \<Rightarrow> pg_core \<Rightarrow> free_step" where
  "s_free_step pgidx order c =
     (if 64 \<le> order then Finish (Undef ''shift count'')
      else if pgidx AND (push_bit order 1 - 1) \<noteq> 0 then Finish (Panic ''s_free_block'')
      else if MAX_ORDER < order then Finish (Undef ''pgalloc_bins index'')
      else
        let bit_index = drop_bit (order + 1) pgidx;
            pg_va = P2KV (pgidx * PG_SIZE);
            bm = bitmap (bins c ! order);
            w = ld32 (cmem c) (bit_word_addr bm bit_index);
            c1 = c\<lparr>cmem := toggle_bit bm bit_index (cmem c)\<rparr>
        in if w AND bit_mask bit_index \<noteq> 0 \<and> order \<noteq> MAX_ORDER then
             let buddy_va = P2KV ((pgidx XOR push_bit order 1) * PG_SIZE)
             in (case find_link (bins c1 ! order) (cmem c1) buddy_va Head of
                   None \<Rightarrow> Finish Hang
                 | Some l \<Rightarrow>
                     if deref (bins c1 ! order) (cmem c1) l = buddy_va then
                       Merge (align_down pgidx (order + 1)) (unlink order l c1)
                     else Finish (Panic ''has buddy but can't find it???''))
           else Finish (Ret ((), push_free order pg_va c1)))"

lemma s_free_step_Merge: "s_free_step pgidx order c = Merge p c' \<Longrightarrow> order < MAX_ORDER"
  by (auto simp: s_free_step_def Let_def split: if_splits option.splits)

function s_free_block :: "u64 \<Rightarrow> nat \<Rightarrow> pg_core \<Rightarrow> (unit \<times> pg_core) outcome" where
  "s_free_block pgidx order c =
     (case s_free_step pgidx order c of
        Finish r \<Rightarrow> r
      | Merge p c' \<Rightarrow> s_free_block p (order + 1) c')"
  by pat_completeness auto
termination
  by (relation "measure (\<lambda>(pgidx, order, c). Suc MAX_ORDER - order)")
    (auto dest: s_free_step_Merge)

declare s_free_block.simps [simp del]

text \<open>\<^verbatim>\<open>s_alloc_block\<close> returns NULL for an order out of range, which also ends its recursion.\<close>

function s_alloc_block :: "int \<Rightarrow> pg_core \<Rightarrow> (ptr \<times> pg_core) outcome" where
  "s_alloc_block order c =
     (if order < 0 \<or> order > int MAX_ORDER then Ret (NULL, c)
      else
        let bin = bins c ! nat order
        in if lsize bin \<noteq> 0 then
             let pg = head bin;
                 bit_index = drop_bit (nat order + 1) (PG_INDEX (KV2P pg))
             in Ret (pg, \<lparr>bins = (bins c)[nat order := bin\<lparr>lsize := lsize bin - 1, head := ld64 (cmem c) pg\<rparr>],
                          cmem = toggle_bit (bitmap bin) bit_index (cmem c)\<rparr>)
           else
             (case s_alloc_block (order + 1) c of
                Ret (large_page, c1) \<Rightarrow>
                  if large_page = NULL then Ret (NULL, c1)
                  else (case s_free_block
                               (PG_INDEX (KV2P (large_page + push_bit (nat order) PG_SIZE)))
                               (nat order) c1 of
                          Ret (u, c2) \<Rightarrow> Ret (large_page, c2)
                        | Panic e \<Rightarrow> Panic e | Hang \<Rightarrow> Hang | Undef e \<Rightarrow> Undef e)
              | Panic e \<Rightarrow> Panic e | Hang \<Rightarrow> Hang | Undef e \<Rightarrow> Undef e))"
  by pat_completeness auto
termination
  by (relation "measure (\<lambda>(order, c). nat (int MAX_ORDER + 1 - order))") auto

declare s_alloc_block.simps [simp del]

text \<open>The inner \<^verbatim>\<open>for\<close> loop of \<^verbatim>\<open>pgalloc_free_range\<close>: the largest order that fits at \<open>start\<close>.\<close>

fun fit_order :: "u64 \<Rightarrow> u64 \<Rightarrow> nat \<Rightarrow> nat option" where
  "fit_order start_pgidx end_pgidx 0 =
     (if start_pgidx AND (push_bit 0 1 - 1) = 0 \<and> start_pgidx + push_bit 0 1 \<le> end_pgidx
      then Some 0 else None)"
| "fit_order start_pgidx end_pgidx (Suc k) =
     (if start_pgidx AND (push_bit (Suc k) 1 - 1) = 0 \<and> start_pgidx + push_bit (Suc k) 1 \<le> end_pgidx
      then Some (Suc k) else fit_order start_pgidx end_pgidx k)"

partial_function (option) free_range_loop ::
  "u64 \<Rightarrow> u64 \<Rightarrow> pg_core \<Rightarrow> (unit \<times> pg_core) outcome option" where
  "free_range_loop start_pgidx end_pgidx c =
     (if start_pgidx < end_pgidx then
        (case fit_order start_pgidx end_pgidx MAX_ORDER of
           None \<Rightarrow> free_range_loop start_pgidx end_pgidx c
         | Some k \<Rightarrow>
             (case s_free_block start_pgidx k c of
                Ret (u, c') \<Rightarrow> free_range_loop (start_pgidx + push_bit k 1) end_pgidx c'
              | Panic e \<Rightarrow> Some (Panic e) | Hang \<Rightarrow> Some Hang | Undef e \<Rightarrow> Some (Undef e)))
      else Some (Ret ((), c)))"

section \<open>Entry points\<close>

text \<open>Run a core routine on the bins and the memory of the system state.\<close>

definition on_core :: "(pg_core \<Rightarrow> ('a \<times> pg_core) outcome) \<Rightarrow> 'z pg_sys_scheme \<Rightarrow> ('a \<times> 'z pg_sys_scheme) outcome" where
  "on_core f s = (case f \<lparr>bins = pgalloc_bins s, cmem = mem s\<rparr> of
      Ret (r, c) \<Rightarrow> Ret (r, s\<lparr>pgalloc_bins := bins c, mem := cmem c\<rparr>)
    | Panic e \<Rightarrow> Panic e | Hang \<Rightarrow> Hang | Undef e \<Rightarrow> Undef e)"

definition pgalloc_allocate :: "int \<Rightarrow> 'z pg_sys_scheme \<Rightarrow> (ptr \<times> 'z pg_sys_scheme) outcome" where
  "pgalloc_allocate order = locked_call Pgalloc_lock (on_core (s_alloc_block order))"

definition pgalloc_free :: "ptr \<Rightarrow> int \<Rightarrow> 'z pg_sys_scheme \<Rightarrow> (unit \<times> 'z pg_sys_scheme) outcome" where
  "pgalloc_free addr order =
     locked_call Pgalloc_lock
       (if order < 0 then (\<lambda>s. Undef ''shift count'')
        else on_core (s_free_block (PG_INDEX (KV2P addr)) (nat order)))"

definition pgalloc_free_range :: "ptr \<Rightarrow> ptr \<Rightarrow> 'z pg_sys_scheme \<Rightarrow> (unit \<times> 'z pg_sys_scheme) outcome" where
  "pgalloc_free_range start_va end_va =
     (let start_pgidx = PGROUNDUP (KV2P start_va) div PG_SIZE;
          end_pgidx = PGROUNDDOWN (KV2P end_va) div PG_SIZE
      in locked_call Pgalloc_lock
           (on_core (\<lambda>c. case free_range_loop start_pgidx end_pgidx c of None \<Rightarrow> Hang | Some r \<Rightarrow> r)))"

text \<open>
  \<^verbatim>\<open>pgalloc_init\<close> takes the bitmaps from the boot allocator and does not clear them: each bitmap
  starts with whatever the memory held.
\<close>

fun init_bitmaps :: "nat \<Rightarrow> nat \<Rightarrow> u64 \<Rightarrow> 'z pg_sys_scheme \<Rightarrow> (unit \<times> 'z pg_sys_scheme) outcome" where
  "init_bitmaps 0 i bitmap_size s = Ret ((), s)"
| "init_bitmaps (Suc n) i bitmap_size s =
     (let bitmap_size' = (bitmap_size + 1) div 2;
          (p, s1) = boot_alloc bitmap_size' s;
          s2 = s1\<lparr>pgalloc_bins := (pgalloc_bins s1)[i := (pgalloc_bins s1 ! i)\<lparr>bitmap := p\<rparr>]\<rparr>
      in if p = NULL then panic ''pgalloc_init'' s2
         else init_bitmaps n (Suc i) bitmap_size' s2)"

definition pgalloc_init :: "u64 \<Rightarrow> 'z pg_sys_scheme \<Rightarrow> (unit \<times> 'z pg_sys_scheme) outcome" where
  "pgalloc_init max_mem_addr s =
     (if max_addr s \<noteq> 0 then panic ''pgalloc_init double init'' s
      else bindk (init_lock Pgalloc_lock ''pgalloc'') (\<lambda>_ s1.
        let s2 = s1\<lparr>max_addr := PGROUNDUP max_mem_addr,
                    pgalloc_bins := replicate (Suc MAX_ORDER) \<lparr>head = 0, lsize = 0, bitmap = 0\<rparr>\<rparr>;
            num_pages = max_addr s2 div PG_SIZE
        in init_bitmaps (Suc MAX_ORDER) 0 (num_pages div 8) s2) s)"

end
