(* ===== verification/Page_Repr.thy ===== *)
theory Page_Repr
  imports Page_Alloc
begin

text \<open>
  How the page allocator's memory represents free lists of page indices: page numbers against kernel
  addresses, the singly linked lists through the free pages, the buddy bitmaps, and the relation
  \<open>rep N P c F\<close>: the bins and memory \<open>c\<close> represent the free lists \<open>F\<close>, where \<open>N\<close> is the number of
  physical pages and \<open>P\<close> the set of pages the allocator owns (whether free or handed out).
\<close>

section \<open>Page numbers and kernel addresses\<close>

definition page_limit :: nat where "page_limit = 2 ^ 35"

definition pva :: "nat \<Rightarrow> ptr" where
  "pva i = P2KV (of_nat i * PG_SIZE)"

lemma page_limit_num: "page_limit = 34359738368"
  by (simp add: page_limit_def)

lemma unat_of_page: "i < page_limit \<Longrightarrow> unat (of_nat i :: u64) = i"
  by (simp add: unat_of_nat page_limit_num)

lemma unat_KERNBASE: "unat KERNBASE + 4096 * page_limit = 2 ^ 64" "0 < unat KERNBASE"
  by (simp_all add: KERNBASE_def page_limit_num)

lemma unat_pva:
  assumes "i < page_limit"
  shows "unat (pva i) = unat KERNBASE + 4096 * i"
proof -
  have m: "unat (of_nat i * PG_SIZE) = 4096 * i"
  proof -
    have "of_nat i * PG_SIZE = (of_nat (4096 * i) :: u64)" by (simp add: PG_SIZE_def)
    then show ?thesis using assms by (simp only: unat_of_nat) (simp add: page_limit_num)
  qed
  have "unat (of_nat i * PG_SIZE + KERNBASE) = unat (of_nat i * PG_SIZE) + unat KERNBASE"
    using assms unat_KERNBASE by (intro unat_add_nowrap) (simp only: m)
  then show ?thesis by (simp add: pva_def P2KV_def m)
qed

lemma pva_nonzero: "i < page_limit \<Longrightarrow> pva i \<noteq> 0"
  by (rule notI) (drule unat_pva, use unat_KERNBASE(2) in simp)

lemma pva_inject: "i < page_limit \<Longrightarrow> j < page_limit \<Longrightarrow> pva i = pva j \<longleftrightarrow> i = j"
  by (metis add_left_imp_eq mult_left_cancel unat_pva zero_neq_numeral)

lemma pva_end: "i < page_limit \<Longrightarrow> unat (pva i) + 4096 \<le> 2 ^ 64"
  using unat_KERNBASE(1) by (simp only: unat_pva)

lemma pva_region_disjoint:
  assumes "i < page_limit" "j < page_limit" "i \<noteq> j"
  shows "region (pva i) 4096 \<inter> region (pva j) 4096 = {}"
  using assms by (intro region_disjoint_nat pva_end) (auto simp only: unat_pva)

lemma pva_add: "pva i + of_nat (4096 * j) = pva (i + j)"
  by (simp add: pva_def P2KV_def PG_SIZE_def algebra_simps)

lemma PG_INDEX_pva:
  assumes "i < page_limit"
  shows "PG_INDEX (KV2P (pva i)) = of_nat i"
proof -
  have "KV2P (pva i) = of_nat (4096 * i)" by (simp add: KV2P_def pva_def P2KV_def PG_SIZE_def)
  then have "unat (PG_INDEX (KV2P (pva i))) = unat (of_nat i :: u64)"
    using assms by (simp only: PG_INDEX_def PG_SIZE_def unat_div unat_of_nat)
      (simp add: page_limit_num)
  then show ?thesis by (rule unsigned_word_eqI)
qed

lemma drop_bit_of_page:
  assumes "i < page_limit"
  shows "drop_bit n (of_nat i :: u64) = of_nat (i div 2 ^ n)"
proof -
  have "i div 2 ^ n < page_limit" using assms by (meson div_le_dividend order_le_less_trans)
  then have "unat (drop_bit n (of_nat i :: u64)) = unat (of_nat (i div 2 ^ n) :: u64)"
    by (simp only: drop_bit_div unat_of_page assms)
  then show ?thesis by (rule unsigned_word_eqI)
qed

lemma aligned_test:
  assumes "i < page_limit"
  shows "(of_nat i :: u64) AND (push_bit k 1 - 1) = 0 \<longleftrightarrow> 2 ^ k dvd i"
proof -
  have "unat ((of_nat i :: u64) AND (push_bit k 1 - 1)) = i mod 2 ^ k"
    by (simp only: push_bit_1_minus_1 and_mask_mod unat_of_page assms)
  then show ?thesis by (metis unat_eq_zero dvd_eq_mod_eq_0)
qed

lemma align_down_parent:
  assumes "i < page_limit"
  shows "align_down (of_nat i) (Suc k) = of_nat (parent k i)"
proof -
  have "parent k i < page_limit" using assms by (simp add: parent_def)
  then have "unat (align_down (of_nat i) (Suc k)) = unat (of_nat (parent k i) :: u64)"
    unfolding align_down_def push_bit_1_minus_1 and_not_mask_mod
    by (simp only: unat_of_page assms parent_def)
  then show ?thesis by (rule unsigned_word_eqI)
qed

lemma even_xor_nat: "2 ^ Suc k dvd (j :: nat) \<Longrightarrow> j XOR 2 ^ k = j + 2 ^ k"
proof -
  assume a: "2 ^ Suc k dvd j"
  have "j AND 2 ^ k = 0"
  proof -
    have "\<not> bit j k" using a by (auto simp: bit_iff_odd elim!: dvdE)
    then show ?thesis by (simp add: and_exp_eq_0_iff_not_bit)
  qed
  then show ?thesis by (simp add: disjunctive_xor_eq_or disjunctive_add_eq_or)
qed

lemma xor_buddy_nat:
  assumes "2 ^ k dvd i"
  shows "i XOR 2 ^ k = buddy k i"
  using assms
proof (cases rule: aligned_cases)
  case (1 r)
  then show ?thesis using even_xor_nat [of k i] by (simp add: buddy_parent_even)
next
  case (2 r)
  have "2 ^ Suc k dvd 2 * 2 ^ k * r" by simp
  from even_xor_nat [OF this] have "i = 2 * 2 ^ k * r XOR 2 ^ k" using 2 by simp
  then have "i XOR 2 ^ k = 2 * 2 ^ k * r" by (simp add: xor.assoc)
  then show ?thesis using 2 buddy_parent_odd [of k r] by simp
qed

lemma xor_buddy:
  assumes "2 ^ k dvd i"
  shows "(of_nat i :: u64) XOR push_bit k 1 = of_nat (buddy k i)"
proof -
  have "(of_nat i :: u64) XOR push_bit k 1 = of_nat (i XOR push_bit k 1)"
    by (simp only: of_nat_xor_eq of_nat_push_bit of_nat_1)
  also have "i XOR push_bit k 1 = buddy k i"
    using xor_buddy_nat [OF assms] by (simp add: push_bit_eq_mult)
  finally show ?thesis .
qed

section \<open>Lists through memory\<close>

primrec lst :: "memory \<Rightarrow> ptr \<Rightarrow> ptr list \<Rightarrow> bool" where
  "lst m p [] \<longleftrightarrow> p = 0"
| "lst m p (a # as) \<longleftrightarrow> p = a \<and> a \<noteq> 0 \<and> lst m (ld64 m a) as"

lemma lst_cong: "(\<And>a. a \<in> set as \<Longrightarrow> ld64 m' a = ld64 m a) \<Longrightarrow> lst m' p as = lst m p as"
  by (induction as arbitrary: p) auto

lemma find_link_lst:
  assumes "lst m (deref b m l) (xs @ t # ys)" and "t \<notin> set xs"
  shows "find_link b m t l = Some (if xs = [] then l else NextOf (last xs))"
  using assms
proof (induction xs arbitrary: l)
  case Nil
  then show ?case by (subst find_link.simps) simp
next
  case (Cons x xs)
  then have "find_link b m t (NextOf (deref b m l)) = Some (if xs = [] then NextOf x else NextOf (last xs))"
    using Cons.IH [of "NextOf x"] by simp
  then show ?case using Cons.prems by (subst find_link.simps) auto
qed

lemma lst_mid: "lst m p (xs @ t # ys) \<Longrightarrow> xs \<noteq> [] \<Longrightarrow> ld64 m (last xs) = t"
  by (induction xs arbitrary: p) (auto split: if_splits simp: neq_Nil_conv)

lemma lst_tail: "lst m p (xs @ t # ys) \<Longrightarrow> lst m (ld64 m t) ys"
  by (induction xs arbitrary: p) auto

lemma lst_unlink:
  assumes "lst m p (xs @ t # ys)" and "distinct (xs @ t # ys)" and "xs \<noteq> []"
    and "\<And>a b. a \<in> set (xs @ ys) \<Longrightarrow> b \<in> set (xs @ ys) \<Longrightarrow> a \<noteq> b \<Longrightarrow> region a 8 \<inter> region b 8 = {}"
  shows "lst (st64 m (last xs) (ld64 m t)) p (xs @ ys)"
  using assms
proof (induction xs arbitrary: p)
  case Nil
  then show ?case by simp
next
  case (Cons x xs)
  show ?case
  proof (cases "xs = []")
    case True
    have "ld64 (st64 m x (ld64 m t)) a = ld64 m a" if "a \<in> set ys" for a
      using Cons.prems(2) Cons.prems(4) [of a x] that by (intro ld64_st64_other) auto
    then have "lst (st64 m x (ld64 m t)) (ld64 m t) ys = lst m (ld64 m t) ys" by (rule lst_cong)
    then show ?thesis using True Cons.prems lst_tail [of m p "[x]" t ys] by simp
  next
    case False
    have "last xs \<noteq> x" using Cons.prems(2) False by auto
    then have "ld64 (st64 m (last xs) (ld64 m t)) x = ld64 m x"
      using Cons.prems(4) [of x "last xs"] False by (intro ld64_st64_other) auto
    moreover have "lst (st64 m (last xs) (ld64 m t)) (ld64 m x) (xs @ ys)"
      using Cons.prems False by (intro Cons.IH) auto
    ultimately show ?thesis using Cons.prems(1) False by simp
  qed
qed

section \<open>Bitmaps\<close>

definition bitv :: "memory \<Rightarrow> ptr \<Rightarrow> nat \<Rightarrow> bool" where
  "bitv m bm j \<longleftrightarrow> bit (ld32 m (bm + of_nat (4 * (j div 32)))) (j mod 32)"

lemma unat_of_page_div:
  assumes "j < page_limit"
  shows "of_nat j div 32 = (of_nat (j div 32) :: u64)" and "unat (of_nat j mod 32 :: u64) = j mod 32"
proof -
  have "j div 32 < page_limit" using assms by linarith
  then have "unat (of_nat j div 32 :: u64) = unat (of_nat (j div 32) :: u64)"
    using assms by (simp add: unat_div unat_of_page)
  then show "of_nat j div 32 = (of_nat (j div 32) :: u64)" by (rule unsigned_word_eqI)
  show "unat (of_nat j mod 32 :: u64) = j mod 32" using assms by (simp add: unat_mod unat_of_page)
qed

lemma bit_word_addr_nat:
  "j < page_limit \<Longrightarrow> bit_word_addr bm (of_nat j) = bm + of_nat (4 * (j div 32))"
  by (simp add: bit_word_addr_def unat_of_page_div)

lemma bit_mask_nat: "j < page_limit \<Longrightarrow> bit_mask (of_nat j) = 2 ^ (j mod 32)"
  by (simp add: bit_mask_def unat_of_page_div push_bit_eq_mult)

lemma bit_test:
  assumes "j < page_limit"
  shows "ld32 m (bit_word_addr bm (of_nat j)) AND bit_mask (of_nat j) \<noteq> 0 \<longleftrightarrow> bitv m bm j"
  using assms by (simp add: bit_word_addr_nat bit_mask_nat bitv_def and_exp_eq_0_iff_not_bit)

lemma word_regions_disjoint:
  assumes "unat bm + 4 * n \<le> 2 ^ 64" and "a < n" and "b < n" and "a \<noteq> b"
  shows "region (bm + of_nat (4 * a)) 4 \<inter> region (bm + of_nat (4 * b)) 4 = {}"
proof -
  have u: "unat (bm + of_nat (4 * c)) = unat bm + 4 * c" if "c < n" for c
    using that assms(1) by (intro unat_add_of_nat) linarith
  show ?thesis
    using assms by (intro region_disjoint_nat) (auto simp only: u)
qed

lemma bitv_toggle:
  assumes "unat bm + 4 * n \<le> 2 ^ 64" and "j div 32 < n" and "j' div 32 < n" and "j < page_limit"
  shows "bitv (toggle_bit bm (of_nat j) m) bm j' \<longleftrightarrow> bitv m bm j' \<noteq> (j = j')"
proof (cases "j div 32 = j' div 32")
  case True
  then have "j = j' \<longleftrightarrow> j mod 32 = j' mod 32" by (metis div_mult_mod_eq)
  then show ?thesis using True assms(4)
    by (auto simp: bitv_def toggle_bit_def bit_word_addr_nat bit_mask_nat bit_xor_iff bit_exp_iff possible_bit_def)
next
  case False
  then have "region (bm + of_nat (4 * (j' div 32))) 4 \<inter> region (bm + of_nat (4 * (j div 32))) 4 = {}"
    using assms by (intro word_regions_disjoint [of _ n]) auto
  then show ?thesis using False assms(4)
    by (auto simp: bitv_def toggle_bit_def bit_word_addr_nat ld32_st32_other)
qed

lemma bitv_cong: "eq_on R m m' \<Longrightarrow> region (bm + of_nat (4 * (j div 32))) 4 \<subseteq> R \<Longrightarrow> bitv m' bm j = bitv m bm j"
  unfolding bitv_def by (drule (1) eq_on_mono, drule ld32_cong, simp only:)

text \<open>The bit of a pair of buddies is the exclusive or of their freeness.\<close>

definition pair_bit :: "nat list \<Rightarrow> nat \<Rightarrow> nat \<Rightarrow> bool" where
  "pair_bit xs k j \<longleftrightarrow> (2 * 2 ^ k * j \<in> set xs) \<noteq> (2 * 2 ^ k * j + 2 ^ k \<in> set xs)"

lemma pair_index:
  "2 * 2 ^ k * r div 2 ^ Suc k = (r::nat)" "(2 * 2 ^ k * r + 2 ^ k) div 2 ^ Suc k = (r::nat)"
  by simp_all

lemma pair_bit_eq:
  assumes "2 ^ k dvd i"
  shows "pair_bit xs k (i div 2 ^ Suc k) \<longleftrightarrow> (i \<in> set xs) \<noteq> (buddy k i \<in> set xs)"
  using assms
proof (cases rule: aligned_cases)
  case (1 r)
  then show ?thesis unfolding pair_bit_def 1 pair_index buddy_parent_even by simp
next
  case (2 r)
  then show ?thesis unfolding pair_bit_def 2 pair_index buddy_parent_odd by blast
qed

lemma pair_bit_flip:
  assumes x: "2 ^ k dvd x" and same: "set xs - {x} = set ys - {x}" and diff: "(x \<in> set xs) \<noteq> (x \<in> set ys)"
  shows "pair_bit ys k j \<longleftrightarrow> pair_bit xs k j \<noteq> (j = x div 2 ^ Suc k)"
proof (cases "j = x div 2 ^ Suc k")
  case True
  have "buddy k x \<in> set xs \<longleftrightarrow> buddy k x \<in> set ys" using same buddy_neq [OF x] by blast
  then show ?thesis using diff True pair_bit_eq [OF x] by blast
next
  case False
  then have "x \<noteq> 2 * 2 ^ k * j" "x \<noteq> 2 * 2 ^ k * j + 2 ^ k" using pair_index [of k j] by metis+
  then show ?thesis using same False unfolding pair_bit_def by blast
qed

section \<open>The representation relation\<close>

definition last_pair :: "nat \<Rightarrow> nat \<Rightarrow> nat" where
  "last_pair N k = (N - 1) div 2 ^ Suc k"

definition bm_words :: "nat \<Rightarrow> nat \<Rightarrow> nat" where
  "bm_words N k = last_pair N k div 32 + 1"

definition bm_region :: "nat \<Rightarrow> pg_core \<Rightarrow> nat \<Rightarrow> ptr set" where
  "bm_region N c k = region (bitmap (bins c ! k)) (4 * bm_words N k)"

definition pg_region :: "nat \<Rightarrow> ptr set" where
  "pg_region i = region (pva i) 4096"

definition lay_ok :: "nat \<Rightarrow> nat set \<Rightarrow> pg_core \<Rightarrow> bool" where
  "lay_ok N P c \<longleftrightarrow> N \<le> page_limit \<and> P \<subseteq> {..<N} \<and> length (bins c) = Suc MAX_ORDER
     \<and> (\<forall>k \<le> MAX_ORDER. unat (bitmap (bins c ! k)) + 4 * bm_words N k \<le> 2 ^ 64)
     \<and> (\<forall>k \<le> MAX_ORDER. \<forall>l \<le> MAX_ORDER. k \<noteq> l \<longrightarrow> bm_region N c k \<inter> bm_region N c l = {})
     \<and> (\<forall>k \<le> MAX_ORDER. \<forall>i \<in> P. bm_region N c k \<inter> pg_region i = {})"

definition list_ok :: "pg_core \<Rightarrow> nat list \<Rightarrow> nat \<Rightarrow> bool" where
  "list_ok c xs k \<longleftrightarrow> lst (cmem c) (head (bins c ! k)) (map pva xs)
     \<and> lsize (bins c ! k) = of_nat (length xs)"

definition bits_ok :: "nat \<Rightarrow> pg_core \<Rightarrow> nat list \<Rightarrow> nat \<Rightarrow> bool" where
  "bits_ok N c xs k \<longleftrightarrow>
     (\<forall>j \<le> last_pair N k. bitv (cmem c) (bitmap (bins c ! k)) j = pair_bit xs k j)"

definition rep :: "nat \<Rightarrow> nat set \<Rightarrow> pg_core \<Rightarrow> free_lists \<Rightarrow> bool" where
  "rep N P c F \<longleftrightarrow> lay_ok N P c \<and> buddy_wf N F \<and> pages F \<subseteq> P
     \<and> (\<forall>k \<le> MAX_ORDER. list_ok c (F k) k \<and> bits_ok N c (F k) k)"

definition touched :: "nat \<Rightarrow> pg_core \<Rightarrow> nat set \<Rightarrow> ptr set" where
  "touched N c Q = (\<Union>k \<le> MAX_ORDER. bm_region N c k) \<union> (\<Union>i \<in> Q. pg_region i)"

lemma lay_okD:
  assumes "lay_ok N P c"
  shows lay_limit: "i < N \<Longrightarrow> i < page_limit" and lay_bound: "i \<in> P \<Longrightarrow> i < N"
    and lay_length: "length (bins c) = Suc MAX_ORDER"
    and lay_nowrap: "k \<le> MAX_ORDER \<Longrightarrow> unat (bitmap (bins c ! k)) + 4 * bm_words N k \<le> 2 ^ 64"
    and lay_bitmaps: "k \<le> MAX_ORDER \<Longrightarrow> l \<le> MAX_ORDER \<Longrightarrow> k \<noteq> l \<Longrightarrow> bm_region N c k \<inter> bm_region N c l = {}"
    and lay_pages: "k \<le> MAX_ORDER \<Longrightarrow> i \<in> P \<Longrightarrow> bm_region N c k \<inter> pg_region i = {}"
  using assms unfolding lay_ok_def by auto

lemma lay_ok_cong:
  assumes "lay_ok N P c" and "map bitmap (bins c') = map bitmap (bins c)"
  shows "lay_ok N P c'" and "touched N c' Q = touched N c Q"
proof -
  have len: "length (bins c') = length (bins c)" using assms(2) by (metis length_map)
  have b: "bitmap (bins c' ! k) = bitmap (bins c ! k)" if "k \<le> MAX_ORDER" for k
    using assms len that lay_length [OF assms(1)] by (metis le_imp_less_Suc nth_map)
  then have r: "bm_region N c' k = bm_region N c k" if "k \<le> MAX_ORDER" for k
    using that by (simp add: bm_region_def)
  show "lay_ok N P c'" using assms(1) unfolding lay_ok_def by (auto simp: len b r)
  show "touched N c' Q = touched N c Q" by (simp add: touched_def r)
qed

lemma repD:
  assumes "rep N P c F"
  shows rep_lay: "lay_ok N P c" and rep_wf: "buddy_wf N F" and rep_pages: "pages F \<subseteq> P"
    and rep_list: "k \<le> MAX_ORDER \<Longrightarrow> list_ok c (F k) k"
    and rep_bits: "k \<le> MAX_ORDER \<Longrightarrow> bits_ok N c (F k) k"
  using assms unfolding rep_def by auto

lemma pair_in_range: "i < N \<Longrightarrow> i div 2 ^ Suc k \<le> last_pair N k"
  unfolding last_pair_def by (intro div_le_mono) simp

lemma pair_word: "j \<le> last_pair N k \<Longrightarrow> j div 32 < bm_words N k"
  unfolding bm_words_def using div_le_mono [of j "last_pair N k" 32] by simp

lemma bit_region_subset:
  assumes "lay_ok N P c" and "k \<le> MAX_ORDER" and "j \<le> last_pair N k"
  shows "region (bitmap (bins c ! k) + of_nat (4 * (j div 32))) 4 \<subseteq> bm_region N c k"
proof -
  note w = pair_word [OF assms(3)] and b = lay_nowrap [OF assms(1,2)]
  have "unat (bitmap (bins c ! k) + of_nat (4 * (j div 32))) = unat (bitmap (bins c ! k)) + 4 * (j div 32)"
    using w b by (intro unat_add_of_nat) linarith
  then show ?thesis unfolding bm_region_def
    using w b by (intro region_subset_nat) linarith+
qed

lemma rep_member:
  assumes "rep N P c F" and "k \<le> MAX_ORDER" and "i \<in> set (F k)"
  shows "i \<in> P" and "i < N" and "i < page_limit" and "2 ^ k dvd i" and "i div 2 ^ Suc k \<le> last_pair N k"
proof -
  show P: "i \<in> P" using rep_pages [OF assms(1)] assms(2,3) pagesI [of k i F i] by auto
  show N: "i < N" using lay_bound [OF rep_lay [OF assms(1)] P] .
  show "i < page_limit" using lay_limit [OF rep_lay [OF assms(1)] N] .
  show "2 ^ k dvd i" using wf_aligned [OF rep_wf [OF assms(1)] assms(2,3)] .
  show "i div 2 ^ Suc k \<le> last_pair N k" by (rule pair_in_range [OF N])
qed

text \<open>
  One bin changes: block \<open>x\<close> enters or leaves the list of order \<open>k\<close>, the bit of its pair is toggled, and
  besides that only the link word of page \<open>a\<close> is written.
\<close>

lemma rep_flip:
  assumes rep: "rep N P c F" and k: "k \<le> MAX_ORDER"
    and x: "2 ^ k dvd x" "x < N" "set (F k) - {x} = set ys - {x}" "(x \<in> set (F k)) \<noteq> (x \<in> set ys)"
    and a: "a \<in> P" "\<And>l. l \<le> MAX_ORDER \<Longrightarrow> l \<noteq> k \<Longrightarrow> a \<notin> set (F l)"
    and m': "eq_on (- region (pva a) 8) (toggle_bit (bitmap (bins c ! k)) (of_nat (x div 2 ^ Suc k)) (cmem c)) m'"
    and bin: "bitmap bin' = bitmap (bins c ! k)" "lst m' (head bin') (map pva ys)"
      "lsize bin' = of_nat (length ys)"
    and wf: "buddy_wf N (F(k := ys))" "pages (F(k := ys)) \<subseteq> P"
  shows "rep N P \<lparr>bins = (bins c)[k := bin'], cmem = m'\<rparr> (F(k := ys))"
    and "eq_on (- touched N c {a}) (cmem c) m'"
proof -
  let ?c = "\<lparr>bins = (bins c)[k := bin'], cmem = m'\<rparr>" and ?j = "x div 2 ^ Suc k"
  let ?m1 = "toggle_bit (bitmap (bins c ! k)) (of_nat ?j) (cmem c)"
  note lay = rep_lay [OF rep]
  have j: "?j \<le> last_pair N k" by (rule pair_in_range [OF x(2)])
  have jl: "?j < page_limit" using lay_limit [OF lay x(2)] by (meson div_le_dividend order_le_less_trans)
  have a8: "region (pva a) 8 \<subseteq> pg_region a" unfolding pg_region_def by (rule region_mono) simp
  have eqm: "eq_on (- (bm_region N c k \<union> region (pva a) 8)) (cmem c) m'"
  proof -
    have "eq_on (- bm_region N c k) (cmem c) ?m1"
      unfolding toggle_bit_def bit_word_addr_nat [OF jl]
      using bit_region_subset [OF lay k j] by (intro eq_on_st32) blast
    then show ?thesis using m' by (auto intro: eq_on_trans eq_on_mono)
  qed
  show "eq_on (- touched N c {a}) (cmem c) m'"
    using eqm k a8 by (elim eq_on_mono) (auto simp: touched_def)
  have len: "k < length (bins c)" using lay_length [OF lay] k by simp
  have bms: "map bitmap (bins ?c) = map bitmap (bins c)"
    using bin(1) len by (simp add: map_update) (metis list_update_id length_map nth_map)
  have lay': "lay_ok N P ?c" using lay_ok_cong [OF lay bms] by blast
  have other: "list_ok ?c (F l) l \<and> bits_ok N ?c (F l) l" if l: "l \<le> MAX_ORDER" "l \<noteq> k" for l
  proof -
    have "ld64 m' p = ld64 (cmem c) p" if p: "p \<in> set (map pva (F l))" for p
    proof -
      obtain i where i: "i \<in> set (F l)" "p = pva i" using p by auto
      note im = rep_member [OF rep l(1) i(1)]
      have "i \<noteq> a" using a(2) [OF l] i(1) by blast
      then have "region p 8 \<inter> region (pva a) 8 = {}"
        using pva_region_disjoint [OF im(3) lay_limit [OF lay lay_bound [OF lay a(1)]]] i(2)
          region_mono [of 8 4096] by fastforce
      moreover have "region p 8 \<inter> bm_region N c k = {}"
        using lay_pages [OF lay k im(1)] i(2) region_mono [of 8 4096] unfolding pg_region_def by fastforce
      ultimately have "region p 8 \<subseteq> - (bm_region N c k \<union> region (pva a) 8)" by blast
      then show ?thesis using ld64_cong eqm eq_on_mono by metis
    qed
    then have "lst m' (head (bins c ! l)) (map pva (F l)) = lst (cmem c) (head (bins c ! l)) (map pva (F l))"
      by (rule lst_cong)
    moreover have "bitv m' (bitmap (bins c ! l)) j = bitv (cmem c) (bitmap (bins c ! l)) j"
      if "j \<le> last_pair N l" for j
    proof (rule bitv_cong [OF eqm])
      have "bm_region N c l \<inter> region (pva a) 8 = {}" using lay_pages [OF lay l(1) a(1)] a8 by blast
      then show "region (bitmap (bins c ! l) + of_nat (4 * (j div 32))) 4 \<subseteq> - (bm_region N c k \<union> region (pva a) 8)"
        using bit_region_subset [OF lay l(1) that] lay_bitmaps [OF lay l(1) k l(2)] by blast
    qed
    ultimately show ?thesis
      using rep_list [OF rep l(1)] rep_bits [OF rep l(1)] l(2) by (simp add: list_ok_def bits_ok_def)
  qed
  have bits: "bitv m' (bitmap (bins c ! k)) j = pair_bit ys k j" if jj: "j \<le> last_pair N k" for j
  proof -
    have "bm_region N c k \<inter> region (pva a) 8 = {}" using lay_pages [OF lay k a(1)] a8 by blast
    then have "bitv m' (bitmap (bins c ! k)) j = bitv ?m1 (bitmap (bins c ! k)) j"
      using bit_region_subset [OF lay k jj] by (intro bitv_cong [OF m']) blast
    also have "\<dots> = (bitv (cmem c) (bitmap (bins c ! k)) j \<noteq> (?j = j))"
      by (rule bitv_toggle [OF lay_nowrap [OF lay k] pair_word [OF j] pair_word [OF jj] jl])
    also have "\<dots> = pair_bit ys k j"
      using pair_bit_flip [OF x(1,3,4)] rep_bits [OF rep k] jj unfolding bits_ok_def by blast
    finally show ?thesis .
  qed
  show "rep N P ?c (F(k := ys))"
    unfolding rep_def using lay' wf other bits bin len
    by (auto simp: list_ok_def bits_ok_def)
qed

end
