(* ===== verification/Page_Refine.thy ===== *)
theory Page_Refine
  imports Page_Repr
begin

text \<open>
  The page allocator of \<^verbatim>\<open>mem/page_alloc.c\<close> implements the buddy system of the theory \<open>Buddy\<close>: each core
  routine, run on memory that represents some free lists, returns (no panic, no endless loop) and leaves
  memory that represents the free lists the specification computes, with every byte outside the bitmaps
  and the pages concerned unchanged. The locked entry points and \<^verbatim>\<open>pgalloc_init\<close> follow.
\<close>

section \<open>What an operation may change\<close>

definition evolves :: "nat \<Rightarrow> nat set \<Rightarrow> pg_core \<Rightarrow> pg_core \<Rightarrow> bool" where
  "evolves N Q c c' \<longleftrightarrow> map bitmap (bins c') = map bitmap (bins c)
     \<and> eq_on (- touched N c Q) (cmem c) (cmem c')"

lemma evolves_mono: "evolves N Q c c' \<Longrightarrow> Q \<subseteq> Q' \<Longrightarrow> evolves N Q' c c'"
  unfolding evolves_def touched_def by (auto elim!: eq_on_mono)

lemma evolves_trans:
  assumes "lay_ok N P c" and "evolves N Q c c'" and "evolves N Q c' c''"
  shows "evolves N Q c c''"
  using assms lay_ok_cong(2) [OF assms(1)] unfolding evolves_def by (metis eq_on_trans)

lemma evolves_refl: "evolves N Q c c"
  by (simp add: evolves_def)

lemma map_bitmap_upd: "bitmap bin' = bitmap (bs ! k) \<Longrightarrow> map bitmap (bs[k := bin']) = map bitmap bs"
  by (metis list_update_id map_update)

lemma free_step_test:
  assumes rep: "rep N P c F" and k: "k \<le> MAX_ORDER" and i: "2 ^ k dvd i" "i < N" "i \<notin> set (F k)"
  shows "(ld32 (cmem c) (bit_word_addr (bitmap (bins c ! k)) (drop_bit (k + 1) (of_nat i)))
           AND bit_mask (drop_bit (k + 1) (of_nat i)) \<noteq> 0) \<longleftrightarrow> buddy k i \<in> set (F k)"
proof -
  have il: "i < page_limit" using lay_limit [OF rep_lay [OF rep] i(2)] .
  then have jl: "i div 2 ^ Suc k < page_limit" by (meson div_le_dividend order_le_less_trans)
  have "bitv (cmem c) (bitmap (bins c ! k)) (i div 2 ^ Suc k) \<longleftrightarrow> buddy k i \<in> set (F k)"
    using rep_bits [OF rep k] pair_in_range [OF i(2)] pair_bit_eq [OF i(1), of "F k"] i(3)
    unfolding bits_ok_def by blast
  then show ?thesis
    unfolding drop_bit_of_page [OF il] Suc_eq_plus1 [symmetric] bit_test [OF jl] .
qed

lemma fresh_not_member:
  assumes "blk k i \<inter> pages F = {}" and "l \<le> MAX_ORDER"
  shows "i \<notin> set (F l)"
proof
  assume "i \<in> set (F l)"
  then have "i \<in> pages F" using pagesI [of l i F i] assms(2) by simp
  moreover have "i \<in> blk k i" by simp
  ultimately show False using assms(1) by blast
qed

lemma region_8_page: "region a 8 \<subseteq> region a 4096"
  by (rule region_mono) simp

lemma blk_bound: "i + 2 ^ k \<le> N \<Longrightarrow> i < (N :: nat)"
  using zero_less_power [of "2 :: nat" k] by linarith

lemma pva8_disjoint:
  assumes "i < page_limit" "j < page_limit" "i \<noteq> j"
  shows "region (pva i) 8 \<inter> region (pva j) 8 = {}"
  using pva_region_disjoint [OF assms] region_8_page [of "pva i"] region_8_page [of "pva j"] by blast

lemma toggle_region:
  assumes lay: "lay_ok N P c" and k: "k \<le> MAX_ORDER" and j: "j \<le> last_pair N k" and N: "0 < N"
  shows "eq_on (- bm_region N c k) m (toggle_bit (bitmap (bins c ! k)) (of_nat j) m)"
proof -
  have "last_pair N k < N" using N unfolding last_pair_def by (meson diff_less div_le_dividend le_less_trans zero_less_one)
  then have jl: "j < page_limit" using j lay_limit [OF lay, of j] by simp
  show ?thesis
    unfolding toggle_bit_def bit_word_addr_nat [OF jl]
    using bit_region_subset [OF lay k j] by (intro eq_on_st32) blast
qed

lemma toggle_keeps:
  assumes "lay_ok N P c" and "k \<le> MAX_ORDER" and "j \<le> last_pair N k" and "i \<in> P"
  shows "ld64 (toggle_bit (bitmap (bins c ! k)) (of_nat j) m) (pva i) = ld64 m (pva i)"
proof -
  have "0 < N" using lay_bound [OF assms(1,4)] by simp
  note e = toggle_region [OF assms(1-3) this, of m]
  have "region (pva i) 8 \<subseteq> - bm_region N c k"
    using lay_pages [OF assms(1,2,4)] region_8_page [of "pva i"] unfolding pg_region_def by auto
  from ld64_cong [OF eq_on_mono [OF e this]] show ?thesis ..
qed

lemma s_free_step_finish:
  assumes rep: "rep N P c F" and k: "k \<le> MAX_ORDER" and i: "2 ^ k dvd i" "i + 2 ^ k \<le> N"
    and fresh: "blk k i \<inter> pages F = {}" and P: "blk k i \<subseteq> P"
    and nb: "\<not> (k < MAX_ORDER \<and> buddy k i \<in> set (F k))"
  shows "\<exists>c'. s_free_step (of_nat i) k c = Finish (Ret ((), c')) \<and> rep N P c' (F(k := i # F k))
           \<and> evolves N {i} c c'"
proof -
  note lay = rep_lay [OF rep]
  have iN: "i < N" using i(2) by (rule blk_bound)
  have il: "i < page_limit" by (rule lay_limit [OF lay iN])
  have iF: "i \<notin> set (F l)" if "l \<le> MAX_ORDER" for l
    using fresh_not_member [OF fresh that] .
  have iP: "i \<in> P" using P by auto
  let ?bm = "bitmap (bins c ! k)"
  let ?m1 = "toggle_bit ?bm (of_nat (i div 2 ^ Suc k)) (cmem c)"
  let ?bin = "(bins c ! k)\<lparr>head := pva i, lsize := lsize (bins c ! k) + 1\<rparr>"
  let ?m = "st64 ?m1 (pva i) (head (bins c ! k))"
  let ?c = "\<lparr>bins = (bins c)[k := ?bin], cmem = ?m\<rparr>"
  have step: "s_free_step (of_nat i) k c = Finish (Ret ((), ?c))"
    using free_step_test [OF rep k i(1) iN iF [OF k]] nb k aligned_test [OF il, of k] i(1)
    by (auto simp: s_free_step_def Let_def push_free_def pva_def MAX_ORDER_def drop_bit_of_page [OF il])
  have lst1: "lst (cmem c) (head (bins c ! k)) (map pva (F k))" "lsize (bins c ! k) = of_nat (length (F k))"
    using rep_list [OF rep k] by (auto simp: list_ok_def)
  have keep: "ld64 ?m p = ld64 (cmem c) p" if p: "p \<in> set (map pva (F k))" for p
  proof -
    obtain j where j: "j \<in> set (F k)" "p = pva j" using p by auto
    have "j \<noteq> i" using j(1) iF [OF k] by blast
    then have "ld64 ?m p = ld64 ?m1 p"
      unfolding j(2) by (intro ld64_st64_other pva8_disjoint rep_member(3) [OF rep k j(1)] il)
    then show ?thesis using toggle_keeps [OF lay k pair_in_range [OF iN] rep_member(1) [OF rep k j(1)]] j(2) by simp
  qed
  have lst': "lst ?m (head ?bin) (map pva (i # F k))"
    using lst_cong [of "map pva (F k)" ?m "cmem c"] keep lst1 pva_nonzero [OF il] by simp
  have eqm: "eq_on (- region (pva i) 8) ?m1 ?m" by (rule eq_on_st64) blast
  have wf: "buddy_wf N (F(k := i # F k))"
    by (rule buddy_wf_insert [OF rep_wf [OF rep] k i fresh]) (use nb in blast)
  have pgs: "pages (F(k := i # F k)) \<subseteq> P" using pages_insert [OF k] P rep_pages [OF rep] by blast
  have fl: "set (F k) - {i} = set (i # F k) - {i}" "(i \<in> set (F k)) \<noteq> (i \<in> set (i # F k))"
    using iF [OF k] by auto
  have bin: "bitmap ?bin = ?bm" "lsize ?bin = of_nat (length (i # F k))" using lst1 by simp_all
  note rep_flip [OF rep k i(1) iN fl iP iF eqm bin(1) lst' bin(2) wf pgs]
  then show ?thesis
    using step by (intro exI [of _ ?c]) (auto simp: evolves_def map_bitmap_upd)
qed

lemma unlink_lst:
  assumes lst: "lst m (head bin) (xs @ t # ys)" and dist: "distinct (xs @ t # ys)"
    and dj: "\<And>a b. a \<in> set (xs @ t # ys) \<Longrightarrow> b \<in> set (xs @ t # ys) \<Longrightarrow> a \<noteq> b \<Longrightarrow> region a 8 \<inter> region b 8 = {}"
  shows "\<exists>l bin' m' a. find_link bin m t Head = Some l \<and> deref bin m l = t
     \<and> assign_link l (ld64 m t) (bin, m) = (bin', m') \<and> bitmap bin' = bitmap bin \<and> lsize bin' = lsize bin
     \<and> lst m' (head bin') (xs @ ys) \<and> a \<in> set (xs @ t # ys) \<and> eq_on (- region a 8) m m'"
proof (cases "xs = []")
  case True
  then have "find_link bin m t Head = Some Head" using find_link_lst [of m bin Head xs t ys] lst by simp
  then show ?thesis using True lst by (intro exI [of _ Head] exI [of _ "bin\<lparr>head := ld64 m t\<rparr>"] exI [of _ m] exI [of _ t]) auto
next
  case False
  have "find_link bin m t Head = Some (NextOf (last xs))"
    using find_link_lst [of m bin Head xs t ys] lst dist False by simp
  moreover have "lst (st64 m (last xs) (ld64 m t)) (head bin) (xs @ ys)"
    by (rule lst_unlink [OF lst dist False]) (rule dj, auto)
  moreover have "eq_on (- region (last xs) 8) m (st64 m (last xs) (ld64 m t))" by (rule eq_on_st64) blast
  ultimately show ?thesis using False lst_mid [OF lst False]
    by (intro exI [of _ "NextOf (last xs)"] exI [of _ bin] exI [of _ "st64 m (last xs) (ld64 m t)"] exI [of _ "last xs"]) auto
qed

lemma wf_other_order:
  assumes "buddy_wf N F" and "k \<le> MAX_ORDER" and "l \<le> MAX_ORDER" and "l \<noteq> k" and "i \<in> set (F k)"
  shows "i \<notin> set (F l)"
  using wf_disjoint [OF assms(1,2,3,5), of i] assms(4) blk_nonempty [of i k] blk_nonempty [of i l] by blast

lemma rep_ptrs:
  assumes rep: "rep N P c F" and k: "k \<le> MAX_ORDER"
  shows "distinct (map pva (F k))"
    and "p \<in> set (map pva (F k)) \<Longrightarrow> q \<in> set (map pva (F k)) \<Longrightarrow> p \<noteq> q \<Longrightarrow> region p 8 \<inter> region q 8 = {}"
proof -
  have "inj_on pva (set (F k))"
    by (rule inj_onI) (use rep_member(3) [OF rep k] pva_inject in blast)
  then show "distinct (map pva (F k))"
    using wf_distinct [OF rep_wf [OF rep] k] by (simp add: distinct_map)
  assume "p \<in> set (map pva (F k))" "q \<in> set (map pva (F k))" "p \<noteq> q"
  then obtain x y where "x \<in> set (F k)" "p = pva x" "y \<in> set (F k)" "q = pva y" "x \<noteq> y" by auto
  then show "region p 8 \<inter> region q 8 = {}"
    using pva8_disjoint rep_member(3) [OF rep k] by simp
qed

lemma toggled_list:
  assumes rep: "rep N P c F" and k: "k \<le> MAX_ORDER" and j: "j \<le> last_pair N k"
  shows "lst (toggle_bit (bitmap (bins c ! k)) (of_nat j) (cmem c)) (head (bins c ! k)) (map pva (F k))"
proof -
  let ?m1 = "toggle_bit (bitmap (bins c ! k)) (of_nat j) (cmem c)"
  have "ld64 ?m1 p = ld64 (cmem c) p" if p: "p \<in> set (map pva (F k))" for p
  proof -
    obtain i where "i \<in> set (F k)" "p = pva i" using p by auto
    then show ?thesis using toggle_keeps [OF rep_lay [OF rep] k j rep_member(1) [OF rep k]] by simp
  qed
  from lst_cong [of "map pva (F k)", OF this] show ?thesis using rep_list [OF rep k] by (simp add: list_ok_def)
qed

lemma s_free_step_merge:
  assumes rep: "rep N P c F" and k: "k < MAX_ORDER" and i: "2 ^ k dvd i" "i + 2 ^ k \<le> N"
    and fresh: "blk k i \<inter> pages F = {}" and b: "buddy k i \<in> set (F k)"
  shows "\<exists>c'. s_free_step (of_nat i) k c = Merge (of_nat (parent k i)) c'
           \<and> rep N P c' (F(k := remove1 (buddy k i) (F k))) \<and> evolves N (pages F) c c'"
proof -
  note lay = rep_lay [OF rep]
  have k': "k \<le> MAX_ORDER" using k by simp
  have iN: "i < N" using i(2) by (rule blk_bound)
  have il: "i < page_limit" by (rule lay_limit [OF lay iN])
  let ?b = "buddy k i" and ?j = "i div 2 ^ Suc k" and ?bin = "bins c ! k"
  let ?m1 = "toggle_bit (bitmap ?bin) (of_nat ?j) (cmem c)"
  note bm = rep_member [OF rep k' b]
  have jb: "?b div 2 ^ Suc k = ?j"
    using i(1) by (cases rule: aligned_cases) (simp_all add: buddy_parent_even buddy_parent_odd)
  obtain xs ys where xy: "F k = xs @ ?b # ys" "?b \<notin> set xs" using split_list_first [OF b] by auto
  have sz: "lsize ?bin = of_nat (length (F k))" using rep_list [OF rep k'] by (simp add: list_ok_def)
  have mp: "map pva xs @ pva ?b # map pva ys = map pva (F k)" using xy(1) by simp
  note lst1 = toggled_list [OF rep k' pair_in_range [OF iN], folded mp]
  note ptrs = rep_ptrs [OF rep k', folded mp]
  obtain l bin' m' p where u: "find_link ?bin ?m1 (pva ?b) Head = Some l" "deref ?bin ?m1 l = pva ?b"
      "assign_link l (ld64 ?m1 (pva ?b)) (?bin, ?m1) = (bin', m')" "bitmap bin' = bitmap ?bin"
      "lsize bin' = lsize ?bin" "lst m' (head bin') (map pva xs @ map pva ys)"
      "p \<in> set (map pva xs @ pva ?b # map pva ys)" "eq_on (- region p 8) ?m1 m'"
    using unlink_lst [OF lst1 ptrs] by blast
  obtain a where a: "a \<in> set (F k)" "p = pva a" using u(7) xy(1) by auto
  let ?c = "\<lparr>bins = (bins c)[k := bin'\<lparr>lsize := lsize bin' - 1\<rparr>], cmem = m'\<rparr>"
  have step: "s_free_step (of_nat i) k c = Merge (of_nat (parent k i)) ?c"
    using free_step_test [OF rep k' i(1) iN fresh_not_member [OF fresh k']] b k aligned_test [OF il, of k] i(1) u
    by (simp add: s_free_step_def Let_def MAX_ORDER_def drop_bit_of_page [OF il] xor_buddy [OF i(1), simplified]
        pva_def [symmetric] unlink_def align_down_parent [OF il])
  have rm: "remove1 ?b (F k) = xs @ ys" using xy by (simp add: remove1_append)
  have fl: "set (F k) - {?b} = set (xs @ ys) - {?b}" "(?b \<in> set (F k)) \<noteq> (?b \<in> set (xs @ ys))"
    using xy wf_distinct [OF rep_wf [OF rep] k'] by auto
  have aP: "a \<in> P" by (rule rep_member(1) [OF rep k' a(1)])
  have aF: "a \<notin> set (F l)" if "l \<le> MAX_ORDER" "l \<noteq> k" for l
    by (rule wf_other_order [OF rep_wf [OF rep] k' that a(1)])
  have eqm: "eq_on (- region (pva a) 8) (toggle_bit (bitmap ?bin) (of_nat (?b div 2 ^ Suc k)) (cmem c)) m'"
    using u(8) unfolding jb a(2) .
  have wf: "buddy_wf N (F(k := xs @ ys))" using buddy_wf_remove [OF rep_wf [OF rep] k', of ?b] rm by simp
  have pgs: "pages (F(k := xs @ ys)) \<subseteq> P"
    using pages_remove [OF rep_wf [OF rep] k' b] rep_pages [OF rep] rm by auto
  have bin: "bitmap (bin'\<lparr>lsize := lsize bin' - 1\<rparr>) = bitmap ?bin"
      "lsize (bin'\<lparr>lsize := lsize bin' - 1\<rparr>) = of_nat (length (xs @ ys))"
      "lst m' (head (bin'\<lparr>lsize := lsize bin' - 1\<rparr>)) (map pva (xs @ ys))"
    using u sz xy(1) by simp_all
  note fin = rep_flip [OF rep k' bm(4) bm(2) fl aP aF eqm bin(1) bin(3) bin(2) wf pgs]
  have "evolves N {a} c ?c" using fin(2) bin(1) by (simp add: evolves_def map_bitmap_upd)
  moreover have "a \<in> pages F" using pagesI [of k a F a] k' a(1) by simp
  ultimately have "evolves N (pages F) c ?c" by (auto intro: evolves_mono)
  then show ?thesis using step fin(1) rm by auto
qed

section \<open>Refinement of the core routines\<close>

lemma s_free_block_refines:
  assumes "rep N P c F" and "k \<le> MAX_ORDER" and "2 ^ k dvd i" and "i + 2 ^ k \<le> N"
    and "blk k i \<inter> pages F = {}" and "blk k i \<subseteq> P"
  shows "\<exists>c'. s_free_block (of_nat i) k c = Ret ((), c') \<and> rep N P c' (a_free k i F)
           \<and> evolves N (pages F \<union> blk k i) c c'"
  using assms
proof (induction k i F arbitrary: c rule: a_free.induct)
  case (1 k i F)
  note rep = "1.prems"(1) and k = "1.prems"(2) and al = "1.prems"(3)
  show ?case
  proof (cases "k < MAX_ORDER \<and> buddy k i \<in> set (F k)")
    case False
    obtain c' where c': "s_free_step (of_nat i) k c = Finish (Ret ((), c'))" "rep N P c' (F(k := i # F k))"
        "evolves N {i} c c'"
      using s_free_step_finish [OF "1.prems" False] by blast
    have "evolves N (pages F \<union> blk k i) c c'" by (rule evolves_mono [OF c'(3)]) simp
    moreover have "a_free k i F = F(k := i # F k)" using False by (subst a_free.simps) (rule if_not_P)
    ultimately show ?thesis using c' by (simp add: s_free_block.simps [of "of_nat i"] del: fun_upd_apply)
  next
    case True
    let ?F = "F(k := remove1 (buddy k i) (F k))"
    obtain c1 where c1: "s_free_step (of_nat i) k c = Merge (of_nat (parent k i)) c1" "rep N P c1 ?F"
        "evolves N (pages F) c c1"
      using s_free_step_merge [OF rep _ al "1.prems"(4,5)] True by blast
    have b: "buddy k i \<in> set (F k)" using True by simp
    have bp: "blk k (buddy k i) \<subseteq> pages F" using k b by (auto intro: pagesI)
    have pg: "pages ?F = pages F - blk k (buddy k i)" by (rule pages_remove [OF rep_wf [OF rep] k b])
    note mg = blk_merge [OF al]
    have dj: "blk (Suc k) (parent k i) \<inter> pages ?F = {}"
      unfolding pg mg [symmetric] using "1.prems"(5) by blast
    have sub: "blk (Suc k) (parent k i) \<subseteq> P"
      unfolding mg [symmetric] using "1.prems"(6) bp rep_pages [OF rep] by blast
    have bd: "parent k i + 2 ^ Suc k \<le> N"
      by (rule parent_bound [OF al "1.prems"(4) wf_bound [OF rep_wf [OF rep] k b]])
    have "Suc k \<le> MAX_ORDER" using True by simp
    from "1.IH" [OF True c1(2) this parent_aligned [OF al] bd dj sub]
    obtain c2 where c2: "s_free_block (of_nat (parent k i)) (Suc k) c1 = Ret ((), c2)"
        "rep N P c2 (a_free (Suc k) (parent k i) ?F)"
        "evolves N (pages ?F \<union> blk (Suc k) (parent k i)) c1 c2"
      by blast
    have "pages ?F \<union> blk (Suc k) (parent k i) = pages F \<union> blk k i"
      unfolding pg mg [symmetric] using bp by blast
    then have "evolves N (pages F \<union> blk k i) c c2"
      using evolves_trans [OF rep_lay [OF rep] evolves_mono [OF c1(3)]] c2(3) by auto
    moreover have "a_free k i F = a_free (Suc k) (parent k i) ?F"
      using True by (subst a_free.simps) (rule if_P)
    ultimately show ?thesis using c1(1) c2 by (simp add: s_free_block.simps [of "of_nat i"])
  qed
qed

lemma rep_lsize:
  assumes rep: "rep N P c F" and k: "k \<le> MAX_ORDER"
  shows "lsize (bins c ! k) = 0 \<longleftrightarrow> F k = []"
proof -
  have "set (F k) \<subseteq> {..<N}" using rep_member(2) [OF rep k] by blast
  then have "length (F k) \<le> N"
    using wf_distinct [OF rep_wf [OF rep] k] by (metis card_lessThan card_mono distinct_card finite_lessThan)
  then have "unat (lsize (bins c ! k)) = length (F k)"
    using rep_list [OF rep k] rep_lay [OF rep]
    by (simp add: list_ok_def lay_ok_def page_limit_num unat_of_nat)
  then show ?thesis by (metis length_0_conv unat_eq_zero)
qed

lemma alloc_head:
  assumes rep: "rep N P c F" and k: "k \<le> MAX_ORDER" and F: "F k = i # is"
  shows "\<exists>c'. s_alloc_block (int k) c = Ret (pva i, c') \<and> rep N P c' (F(k := is)) \<and> evolves N (pages F) c c'"
proof -
  have iF: "i \<in> set (F k)" using F by simp
  note im = rep_member [OF rep k iF]
  have sz: "lsize (bins c ! k) \<noteq> 0" using rep_lsize [OF rep k] F by simp
  have l0: "head (bins c ! k) = pva i" "lsize (bins c ! k) = of_nat (Suc (length is))"
    using rep_list [OF rep k] F by (simp_all add: list_ok_def)
  let ?m = "toggle_bit (bitmap (bins c ! k)) (of_nat (i div 2 ^ Suc k)) (cmem c)"
  let ?bin = "(bins c ! k)\<lparr>lsize := lsize (bins c ! k) - 1, head := ld64 (cmem c) (pva i)\<rparr>"
  let ?c = "\<lparr>bins = (bins c)[k := ?bin], cmem = ?m\<rparr>"
  have run: "s_alloc_block (int k) c = Ret (pva i, ?c)"
    using k sz l0(1) by (subst s_alloc_block.simps)
      (simp add: Let_def PG_INDEX_pva im drop_bit_of_page)
  have lst: "lst ?m (head ?bin) (map pva is)"
    using toggled_list [OF rep k im(5)] F toggle_keeps [OF rep_lay [OF rep] k im(5) im(1)] by simp
  have fl: "set (F k) - {i} = set is - {i}" "(i \<in> set (F k)) \<noteq> (i \<in> set is)"
    using wf_distinct [OF rep_wf [OF rep] k] F by auto
  have "eq_on (- region (pva i) 8) ?m ?m" by simp
  note fin = rep_flip [OF rep k im(4) im(2) fl im(1) wf_other_order [OF rep_wf [OF rep] k _ _ iF] this,
      of ?bin]
  have "rep N P ?c (F(k := is)) \<and> eq_on (- touched N c {i}) (cmem c) ?m"
    using fin pages_tail [OF rep_wf [OF rep] k F] rep_pages [OF rep] lst l0(2) by auto
  moreover have "i \<in> pages F" using pagesI [of k i F i] k iF by simp
  ultimately show ?thesis
    using run evolves_mono [of N "{i}" c ?c "pages F"]
    by (intro exI [of _ ?c]) (auto simp: evolves_def map_bitmap_upd)
qed

lemma s_alloc_block_refines:
  assumes "rep N P c F"
  shows "case a_alloc k F of
      None \<Rightarrow> s_alloc_block (int k) c = Ret (NULL, c)
    | Some (i, F') \<Rightarrow> \<exists>c'. s_alloc_block (int k) c = Ret (pva i, c') \<and> rep N P c' F'
        \<and> evolves N (pages F) c c'"
  using assms
proof (induction k F rule: a_alloc.induct)
  case (1 k F)
  note rep = "1.prems"
  consider "MAX_ORDER < k" | i "is" where "k \<le> MAX_ORDER" "F k = i # is"
    | "k \<le> MAX_ORDER" "F k = []"
    by (metis list.exhaust not_less)
  then show ?case
  proof cases
    case 1
    then show ?thesis by (subst s_alloc_block.simps) (simp add: a_alloc.simps [of k F])
  next
    case 2
    then show ?thesis using alloc_head [OF rep 2] by (simp add: a_alloc.simps [of k F])
  next
    case 3
    have sz: "lsize (bins c ! k) = 0" using rep_lsize [OF rep 3(1)] 3(2) by simp
    have IH: "case a_alloc (Suc k) F of
        None \<Rightarrow> s_alloc_block (int (Suc k)) c = Ret (NULL, c)
      | Some (i, F') \<Rightarrow> \<exists>c'. s_alloc_block (int (Suc k)) c = Ret (pva i, c') \<and> rep N P c' F'
          \<and> evolves N (pages F) c c'"
      using "1.IH" [OF _ 3(2) rep] 3(1) by simp
    show ?thesis
    proof (cases "a_alloc (Suc k) F")
      case None
      then show ?thesis using IH 3 sz
        by (subst s_alloc_block.simps) (simp add: a_alloc.simps [of k F] Let_def add.commute)
    next
      case (Some r)
      obtain i F' where r: "r = (i, F')" by (cases r)
      obtain c1 where c1: "s_alloc_block (int (Suc k)) c = Ret (pva i, c1)" "rep N P c1 F'"
          "evolves N (pages F) c c1"
        using IH Some r by auto
      have ok: "Suc k \<le> MAX_ORDER" "2 ^ Suc k dvd i" "i + 2 ^ Suc k \<le> N" "blk (Suc k) i \<subseteq> pages F"
          "pages F' = pages F - blk (Suc k) i"
        using a_alloc_correct [OF rep_wf [OF rep], of "Suc k"] Some r by auto
      let ?h = "i + 2 ^ k"
      have up: "blk k ?h \<subseteq> blk (Suc k) i" by (auto simp: blk_def)
      have "2 ^ k dvd ?h" using ok(2) by (auto dest: dvd_mult_left)
      moreover have "?h + 2 ^ k \<le> N" using ok(3) by simp
      moreover have "blk k ?h \<inter> pages F' = {}" using up ok(5) by blast
      moreover have "blk k ?h \<subseteq> P" using up ok(4) rep_pages [OF rep] by blast
      ultimately obtain c2 where c2: "s_free_block (of_nat ?h) k c1 = Ret ((), c2)"
          "rep N P c2 (a_free k ?h F')" "evolves N (pages F' \<union> blk k ?h) c1 c2"
        using s_free_block_refines [OF c1(2) 3(1)] by blast
      have "evolves N (pages F) c1 c2" by (rule evolves_mono [OF c2(3)]) (use up ok(4,5) in blast)
      then have ev: "evolves N (pages F) c c2" by (rule evolves_trans [OF rep_lay [OF rep] c1(3)])
      have hN: "?h < N" using \<open>?h + 2 ^ k \<le> N\<close> by (rule blk_bound)
      have hl: "?h < page_limit" by (rule lay_limit [OF rep_lay [OF rep] hN])
      have "pva i + push_bit k PG_SIZE = pva ?h"
        using pva_add [of i "2 ^ k"] by (simp add: push_bit_eq_mult PG_SIZE_def mult.commute)
      moreover have "pva i \<noteq> 0" by (rule pva_nonzero) (use hl in simp)
      ultimately have "s_alloc_block (int k) c = Ret (pva i, c2)"
        using 3(1) sz c1(1) c2(1)
        by (subst s_alloc_block.simps) (simp add: Let_def PG_INDEX_pva [OF hl] add.commute)
      then show ?thesis using Some r 3 c2(2) ev by (simp add: a_alloc.simps [of k F])
    qed
  qed
qed

lemma of_nat_push: "of_nat a + push_bit k 1 = (of_nat (a + 2 ^ k) :: u64)"
  by (simp add: push_bit_eq_mult)

lemma fits_test:
  assumes "a < b" and "b \<le> page_limit" and "k \<le> MAX_ORDER"
  shows "of_nat a + push_bit k 1 \<le> (of_nat b :: u64) \<longleftrightarrow> a + 2 ^ k \<le> b"
proof -
  have "(2::nat) ^ k \<le> 2 ^ 10" using assms(3) unfolding MAX_ORDER_def by (intro power_increasing) simp_all
  then have "unat (of_nat (a + 2 ^ k) :: u64) = a + 2 ^ k" "unat (of_nat b :: u64) = b"
    using assms(1,2) by (intro unat_of_nat_lt; simp add: page_limit_num)+
  then show ?thesis unfolding of_nat_push word_le_nat_alt by simp
qed

lemma fit_order_spec:
  assumes "a < b" and "b \<le> page_limit" and "K \<le> MAX_ORDER"
  shows "\<exists>k \<le> K. fit_order (of_nat a) (of_nat b) K = Some k \<and> 2 ^ k dvd a \<and> a + 2 ^ k \<le> b"
  using assms(3)
proof (induction K)
  case 0
  have "of_nat a + push_bit 0 1 \<le> (of_nat b :: u64)" using fits_test [OF assms(1,2) 0] assms(1) by simp
  then show ?case using assms(1) by simp
next
  case (Suc K)
  have al: "a < page_limit" using assms by simp
  show ?case
  proof (cases "2 ^ Suc K dvd a \<and> a + 2 ^ Suc K \<le> b")
    case True
    then have "fit_order (of_nat a) (of_nat b) (Suc K) = Some (Suc K)"
      unfolding fit_order.simps using aligned_test [OF al] fits_test [OF assms(1,2) Suc.prems] by metis
    then show ?thesis using True by blast
  next
    case False
    then have "fit_order (of_nat a) (of_nat b) (Suc K) = fit_order (of_nat a) (of_nat b) K"
      unfolding fit_order.simps using aligned_test [OF al] fits_test [OF assms(1,2) Suc.prems] by metis
    then show ?thesis using Suc by (metis Suc_leD le_SucI)
  qed
qed

lemma range_split: "a + 2 ^ k \<le> b \<Longrightarrow> {a..<b} = blk k a \<union> {a + 2 ^ k..<b}"
  unfolding blk_def by auto

lemma free_range_refines:
  assumes "rep N P c F" and "b \<le> N" and "{a..<b} \<subseteq> P" and "{a..<b} \<inter> pages F = {}" and "a \<le> b"
  shows "\<exists>c' F'. free_range_loop (of_nat a) (of_nat b) c = Some (Ret ((), c')) \<and> rep N P c' F'
           \<and> pages F' = pages F \<union> {a..<b} \<and> evolves N (pages F \<union> {a..<b}) c c'"
  using assms
proof (induction "b - a" arbitrary: a c F rule: less_induct)
  case less
  note rep = less.prems(1)
  have bl: "b \<le> page_limit" using rep_lay [OF rep] less.prems(2) by (simp add: lay_ok_def)
  have u: "unat (of_nat a :: u64) = a" "unat (of_nat b :: u64) = b"
    using bl less.prems(5) by (simp_all add: unat_of_nat page_limit_num)
  show ?case
  proof (cases "a < b")
    case False
    then have "free_range_loop (of_nat a) (of_nat b) c = Some (Ret ((), c))"
      by (subst free_range_loop.simps) (simp add: word_less_nat_alt u)
    then show ?thesis using False rep by (auto simp: evolves_refl)
  next
    case True
    obtain k where k: "k \<le> MAX_ORDER" "fit_order (of_nat a) (of_nat b) MAX_ORDER = Some k"
        "2 ^ k dvd a" "a + 2 ^ k \<le> b"
      using fit_order_spec [OF True bl order_refl] by blast
    note sp = range_split [OF k(4)]
    obtain c1 where c1: "s_free_block (of_nat a) k c = Ret ((), c1)" "rep N P c1 (a_free k a F)"
        "evolves N (pages F \<union> blk k a) c c1"
      using s_free_block_refines [OF rep k(1,3)] k(4) less.prems(2,3,4) sp by (metis Int_Un_distrib2 Un_empty le_trans sup.bounded_iff)
    have pg: "pages (a_free k a F) = pages F \<union> blk k a"
      using a_free_correct [OF rep_wf [OF rep] k(1,3)] k(4) less.prems(2,4) sp by auto
    have pos: "0 < (2::nat) ^ k" by simp
    have lt: "b - (a + 2 ^ k) < b - a" using k(4) pos by linarith
    have sub: "{a + 2 ^ k..<b} \<subseteq> P" using less.prems(3) sp by blast
    have dj: "{a + 2 ^ k..<b} \<inter> pages (a_free k a F) = {}"
      unfolding pg using less.prems(4) sp by (auto simp: blk_def)
    obtain c2 F2 where c2: "free_range_loop (of_nat (a + 2 ^ k)) (of_nat b) c1 = Some (Ret ((), c2))" "rep N P c2 F2"
        "pages F2 = pages (a_free k a F) \<union> {a + 2 ^ k..<b}"
        "evolves N (pages (a_free k a F) \<union> {a + 2 ^ k..<b}) c1 c2"
      using less.hyps [OF lt c1(2) less.prems(2) sub dj k(4)] by blast
    have "evolves N (pages F \<union> {a..<b}) c c2"
      by (rule evolves_trans [OF rep_lay [OF rep]])
        (rule evolves_mono [OF c1(3)], use sp in blast, rule evolves_mono [OF c2(4)], use sp pg in blast)
    moreover have "free_range_loop (of_nat a) (of_nat b) c = Some (Ret ((), c2))"
      using True k(2) c1(1) c2(1)
      by (subst free_range_loop.simps) (simp add: word_less_nat_alt u)
    ultimately show ?thesis using c2(2,3) sp pg by blast
  qed
qed

section \<open>The implementation as a page pool\<close>

lemma lst_unique: "lst m p as \<Longrightarrow> lst m p bs \<Longrightarrow> as = bs"
proof (induction as arbitrary: p bs)
  case Nil
  then show ?case by (cases bs) auto
next
  case (Cons a as)
  then show ?case by (cases bs) auto
qed

lemma rep_unique:
  assumes "rep N P c F" and "rep N P c G"
  shows "pages F = pages G"
proof -
  have "F k = G k" if k: "k \<le> MAX_ORDER" for k
  proof -
    have "map pva (F k) = map pva (G k)"
      using lst_unique rep_list [OF assms(1) k] rep_list [OF assms(2) k] unfolding list_ok_def by blast
    moreover have "inj_on pva (set (F k) \<union> set (G k))"
      using rep_member(3) [OF assms(1) k] rep_member(3) [OF assms(2) k] pva_inject by (auto intro!: inj_onI)
    ultimately show ?thesis by (simp add: map_inj_on)
  qed
  then show ?thesis by (simp add: pages_def)
qed

text \<open>The free pages, as the lists in memory show them; allocation and free as functions of the state.\<close>

definition c_avail :: "nat \<Rightarrow> nat set \<Rightarrow> pg_core \<Rightarrow> nat set" where
  "c_avail N P c = \<Union> {pages F | F. rep N P c F}"

definition c_alloc :: "nat \<Rightarrow> pg_core \<Rightarrow> (nat \<times> pg_core) option" where
  "c_alloc k c = (case s_alloc_block (int k) c of
      Ret (p, c') \<Rightarrow> if p = NULL then None else Some (unat (PG_INDEX (KV2P p)), c')
    | _ \<Rightarrow> None)"

definition c_free :: "nat \<Rightarrow> nat \<Rightarrow> pg_core \<Rightarrow> pg_core" where
  "c_free k i c = (case s_free_block (of_nat i) k c of Ret (_, c') \<Rightarrow> c' | _ \<Rightarrow> c)"

lemma c_avail_rep: "rep N P c F \<Longrightarrow> c_avail N P c = pages F"
  unfolding c_avail_def using rep_unique by blast

interpretation cp: page_pool P "\<lambda>c. \<exists>F. rep N P c F" "c_avail N P" c_alloc c_free
  for N P
proof
  fix c k i c'
  assume inv: "\<exists>F. rep N P c F" and eq: "c_alloc k c = Some (i, c')"
  then obtain F where rep: "rep N P c F" by blast
  obtain j F' where a: "a_alloc k F = Some (j, F')" 
    using s_alloc_block_refines [OF rep, of k] eq
    by (cases "a_alloc k F") (auto simp: c_alloc_def)
  then obtain c1 where c1: "s_alloc_block (int k) c = Ret (pva j, c1)" "rep N P c1 F'"
    using s_alloc_block_refines [OF rep, of k] by auto
  have ac: "k \<le> MAX_ORDER" "2 ^ k dvd j" "j + 2 ^ k \<le> N" "blk k j \<subseteq> pages F" "pages F' = pages F - blk k j"
    using a_alloc_correct [OF rep_wf [OF rep], of k] a by auto
  have jl: "j < page_limit" by (rule lay_limit [OF rep_lay [OF rep] blk_bound [OF ac(3)]])
  have "i = j" "c' = c1"
    using eq c1(1) pva_nonzero [OF jl] by (auto simp: c_alloc_def PG_INDEX_pva [OF jl] unat_of_page [OF jl])
  then show "k \<le> MAX_ORDER \<and> (\<exists>F. rep N P c' F) \<and> 2 ^ k dvd i \<and> blk k i \<subseteq> c_avail N P c
      \<and> c_avail N P c' = c_avail N P c - blk k i"
    using ac c1(2) rep by (auto simp: c_avail_rep)
next
  fix c
  assume "\<exists>F. rep N P c F"
  then show "c_avail N P c \<subseteq> P" unfolding c_avail_def using rep_pages by blast
next
  fix c k i
  assume inv: "\<exists>F. rep N P c F" and k: "k \<le> MAX_ORDER" and al: "2 ^ k dvd i" and sub: "blk k i \<subseteq> P"
    and dj: "blk k i \<inter> c_avail N P c = {}"
  then obtain F where rep: "rep N P c F" by blast
  have bd: "i + 2 ^ k \<le> N" using sub lay_bound [OF rep_lay [OF rep]] blk_le by blast
  have dj': "blk k i \<inter> pages F = {}" using dj rep by (simp add: c_avail_rep)
  obtain c1 where "s_free_block (of_nat i) k c = Ret ((), c1)" "rep N P c1 (a_free k i F)"
    using s_free_block_refines [OF rep k al bd dj' sub] by blast
  then show "(\<exists>F. rep N P (c_free k i c) F) \<and> c_avail N P (c_free k i c) = c_avail N P c \<union> blk k i"
    using a_free_correct [OF rep_wf [OF rep] k al bd dj'] rep by (auto simp: c_free_def c_avail_rep)
qed

section \<open>Locked entry points\<close>

definition core :: "'z pg_sys_scheme \<Rightarrow> pg_core" where
  "core s = \<lparr>bins = pgalloc_bins s, cmem = mem s\<rparr>"

lemma core_simps [simp]: "bins (core s) = pgalloc_bins s" "cmem (core s) = mem s"
  by (simp_all add: core_def)

lemma core_upd [simp]: "core (s\<lparr>mem := cmem c, pgalloc_bins := bins c, cpus := x\<rparr>) = c"
  by (cases c) (simp add: core_def)

lemma locked_core:
  assumes "cpu_ready (Suc (Suc d)) c s" and "lock_free lk s" and f: "f (core s) = Ret (r, c')"
  shows "locked_call lk (on_core f) s
       = Ret (r, s\<lparr>mem := cmem c', pgalloc_bins := bins c', cpus := settled c s\<rparr>)"
proof -
  let ?a = "acquired c lk s"
  let ?t = "?a\<lparr>pgalloc_bins := bins c', mem := cmem c'\<rparr>"
  have "on_core f ?a = Ret (r, ?t)"
    using f by (simp add: on_core_def core_def acquired_def entered_def)
  from locked_call_Ret [of _ _ _ _ "on_core f", OF assms(1,2) this]
  have "locked_call lk (on_core f) s
      = Ret (r, ?t\<lparr>cpus := settled c s, rflags := rflags s, locks := (locks ?t)(lk := locks s lk)\<rparr>)"
    by (simp add: same_cpu_def)
  then show ?thesis by (simp add: acquired_def entered_def)
qed

lemma pgalloc_allocate_refines:
  assumes "rep N P (core s) F" and "cpu_ready 2 c s" and "lock_free Pgalloc_lock s"
  shows "case a_alloc k F of
      None \<Rightarrow> pgalloc_allocate (int k) s = Ret (NULL, s\<lparr>cpus := settled c s\<rparr>)
    | Some (i, F') \<Rightarrow> \<exists>t. pgalloc_allocate (int k) s = Ret (pva i, t) \<and> rep N P (core t) F'
        \<and> evolves N (pages F) (core s) (core t)
        \<and> t = s\<lparr>mem := mem t, pgalloc_bins := pgalloc_bins t, cpus := settled c s\<rparr>"
proof -
  have rd: "cpu_ready (Suc (Suc 0)) c s" using assms(2) by (simp add: numeral_2_eq_2)
  note lc = locked_core [OF rd assms(3), of "s_alloc_block (int k)"]
  show ?thesis
  proof (cases "a_alloc k F")
    case None
    then have "s_alloc_block (int k) (core s) = Ret (NULL, core s)"
      using s_alloc_block_refines [OF assms(1), of k] by simp
    from lc [OF this] show ?thesis using None by (simp add: pgalloc_allocate_def)
  next
    case (Some r)
    obtain i F' where r: "r = (i, F')" by (cases r)
    obtain c' where c': "s_alloc_block (int k) (core s) = Ret (pva i, c')" "rep N P c' F'"
        "evolves N (pages F) (core s) c'"
      using s_alloc_block_refines [OF assms(1), of k] Some r by auto
    from lc [OF c'(1)] show ?thesis
      using c' Some r by (simp add: pgalloc_allocate_def)
  qed
qed

lemma pgalloc_free_refines:
  assumes "rep N P (core s) F" and "cpu_ready 2 c s" and "lock_free Pgalloc_lock s"
    and "k \<le> MAX_ORDER" and "2 ^ k dvd i" and "blk k i \<inter> pages F = {}" and "blk k i \<subseteq> P"
  shows "\<exists>t. pgalloc_free (pva i) (int k) s = Ret ((), t) \<and> rep N P (core t) (a_free k i F)
        \<and> evolves N (pages F \<union> blk k i) (core s) (core t)
        \<and> t = s\<lparr>mem := mem t, pgalloc_bins := pgalloc_bins t, cpus := settled c s\<rparr>"
proof -
  have rd: "cpu_ready (Suc (Suc 0)) c s" using assms(2) by (simp add: numeral_2_eq_2)
  have bd: "i + 2 ^ k \<le> N"
    using assms(7) lay_bound [OF rep_lay [OF assms(1)]] blk_le by blast
  have il: "i < page_limit" by (rule lay_limit [OF rep_lay [OF assms(1)] blk_bound [OF bd]])
  obtain c' where c': "s_free_block (of_nat i) k (core s) = Ret ((), c')" "rep N P c' (a_free k i F)"
      "evolves N (pages F \<union> blk k i) (core s) c'"
    using s_free_block_refines [OF assms(1,4,5) bd assms(6,7)] by blast
  from locked_core [of _ _ _ _ "s_free_block (of_nat i) k", OF rd assms(3) c'(1)] show ?thesis
    using c' by (simp add: pgalloc_free_def PG_INDEX_pva [OF il])
qed

lemma page_index_round:
  assumes "a < page_limit"
  shows "PGROUNDUP (KV2P (pva a)) div PG_SIZE = of_nat a"
    and "PGROUNDDOWN (KV2P (pva a)) div PG_SIZE = of_nat a"
proof -
  let ?x = "KV2P (pva a)"
  have "?x = of_nat (4096 * a)" by (simp add: KV2P_def pva_def P2KV_def PG_SIZE_def)
  then have x: "unat ?x = 4096 * a" using assms by (simp only:) (rule unat_of_nat_lt, simp add: page_limit_num)
  have up: "PGROUNDUP ?x = ROUNDUP_PWR2 ?x PG_SIZE"
    by (simp add: PGROUNDUP_def ROUNDUP_PWR2_def add_diff_eq)
  have "unat (PGROUNDUP ?x) = 4096 * a"
    unfolding up using assms by (subst unat_roundup) (simp_all add: x page_limit_num)
  then have "unat (PGROUNDUP ?x div PG_SIZE) = unat (of_nat a :: u64)"
    using assms by (simp add: unat_div PG_SIZE_def unat_of_page)
  then show "PGROUNDUP ?x div PG_SIZE = of_nat a" by (rule unsigned_word_eqI)
  have "unat (PGROUNDDOWN ?x) = 4096 * a"
    using and_not_mask_mod [of ?x 12]
    by (simp add: PGROUNDDOWN_def PG_SIZE_def mask_4095 x del: mask_numeral)
  then have "unat (PGROUNDDOWN ?x div PG_SIZE) = unat (of_nat a :: u64)"
    using assms by (simp add: unat_div PG_SIZE_def unat_of_page)
  then show "PGROUNDDOWN ?x div PG_SIZE = of_nat a" by (rule unsigned_word_eqI)
qed

lemma pgalloc_free_range_refines:
  assumes "rep N P (core s) F" and "cpu_ready 2 c s" and "lock_free Pgalloc_lock s"
    and "a \<le> b" and "b \<le> N" and "b < page_limit" and "{a..<b} \<subseteq> P" and "{a..<b} \<inter> pages F = {}"
  shows "\<exists>t F'. pgalloc_free_range (pva a) (pva b) s = Ret ((), t) \<and> rep N P (core t) F'
        \<and> pages F' = pages F \<union> {a..<b} \<and> evolves N (pages F \<union> {a..<b}) (core s) (core t)
        \<and> t = s\<lparr>mem := mem t, pgalloc_bins := pgalloc_bins t, cpus := settled c s\<rparr>"
proof -
  have rd: "cpu_ready (Suc (Suc 0)) c s" using assms(2) by (simp add: numeral_2_eq_2)
  have al: "a < page_limit" using assms(4,6) by simp
  obtain c' F' where c': "free_range_loop (of_nat a) (of_nat b) (core s) = Some (Ret ((), c'))" "rep N P c' F'"
      "pages F' = pages F \<union> {a..<b}" "evolves N (pages F \<union> {a..<b}) (core s) c'"
    using free_range_refines [OF assms(1,5,7,8,4)] by blast
  let ?f = "\<lambda>c. case free_range_loop (of_nat a) (of_nat b) c of None \<Rightarrow> Hang | Some r \<Rightarrow> r"
  have "?f (core s) = Ret ((), c')" using c'(1) by simp
  from locked_core [OF rd assms(3), of ?f, OF this] show ?thesis
    using c' by (auto simp: pgalloc_free_range_def Let_def page_index_round [OF al] page_index_round [OF assms(6)])
qed

section \<open>Initialisation\<close>

text \<open>\<open>bm_bytes b k\<close>: the size computed for the bitmap of order \<open>k\<close> from \<open>b = num_pages / 8\<close>.\<close>

primrec bm_bytes :: "nat \<Rightarrow> nat \<Rightarrow> nat" where
  "bm_bytes b 0 = (b + 1) div 2"
| "bm_bytes b (Suc k) = bm_bytes ((b + 1) div 2) k"

lemma bm_bytes_closed: "bm_bytes b k = (b + 2 ^ Suc k - 1) div 2 ^ Suc k"
proof (induction k arbitrary: b)
  case 0
  then show ?case by simp
next
  case (Suc k)
  obtain q where q: "(2::nat) ^ Suc k = Suc q" by (metis Suc_pred zero_less_numeral zero_less_power)
  have "bm_bytes b (Suc k) = ((b + 1) div 2 + q) div Suc q" using Suc.IH [of "(b + 1) div 2"] q by simp
  also have "(b + 1) div 2 + q = (b + 1 + 2 * q) div 2" by simp
  also have "\<dots> div Suc q = (b + 1 + 2 * q) div (2 * Suc q)" by (rule div_mult2_eq [symmetric])
  also have "b + 1 + 2 * q = b + 2 * Suc q - 1" by simp
  finally show ?case using q by simp
qed

lemma div_add_mult: "0 < d \<Longrightarrow> (x + c * d) div d = x div d + (c :: nat)"
  by simp

lemma bm_bytes_enough:
  assumes "8 dvd N" and "0 < N"
  shows "4 * bm_words N k \<le> 4 * ((bm_bytes (N div 8) k + 3) div 4)"
proof -
  obtain M where N: "N = 8 * M" using assms(1) by (elim dvdE)
  have M: "0 < M" using assms(2) N by simp
  have "last_pair N k div 32 = (N - 1) div (2 ^ Suc k * 32)" unfolding last_pair_def by (rule div_mult2_eq [symmetric])
  also have "\<dots> = (N - 1) div (8 * (2 ^ Suc k * 4))" by simp
  also have "\<dots> = (N - 1) div 8 div (2 ^ Suc k * 4)" by (rule div_mult2_eq)
  also have "(N - 1) div 8 = M - 1" using N M by linarith
  finally have w: "bm_words N k = (M - 1) div (2 ^ Suc k * 4) + 1" by (simp add: bm_words_def)
  let ?d = "(2::nat) ^ Suc k"
  have d: "0 < ?d" by simp
  have "bm_bytes M k + 3 = (M + ?d - 1 + 3 * ?d) div ?d" using d unfolding bm_bytes_closed by (simp only: div_add_mult)
  also have "M + ?d - 1 + 3 * ?d = M - 1 + 4 * ?d" using M d by linarith
  also have "(M - 1 + 4 * ?d) div ?d = (M - 1) div ?d + 4" using d by (simp only: div_add_mult)
  finally have "(bm_bytes M k + 3) div 4 = (M - 1) div ?d div 4 + 1" by simp
  also have "\<dots> = (M - 1) div (?d * 4) + 1" by (simp only: div_mult2_eq)
  finally show ?thesis using w N by simp
qed

lemma bm_bytes_le: "bm_bytes b k \<le> b"
proof (induction k arbitrary: b)
  case (Suc k)
  have "bm_bytes ((b + 1) div 2) k \<le> (b + 1) div 2" by (rule Suc.IH)
  also have "(b + 1) div 2 \<le> b" by (cases b) auto
  finally show ?case by simp
qed (cases b, auto)

definition round4 :: "nat \<Rightarrow> nat" where "round4 n = 4 * ((n + 3) div 4)"

lemma round4_fit:
  assumes "4096 dvd a" and "4096 dvd b" and "a + n \<le> (b :: nat)"
  shows "a + round4 n \<le> b"
proof -
  have "4 dvd b - a" using assms(1,2) by (intro dvd_diff_nat) (elim dvd_trans [rotated], simp)+
  then obtain z where "b - a = 4 * z" by (elim dvdE)
  moreover have "n \<le> b - a" "a \<le> b" using assms(3) by linarith+
  ultimately have "(n + 3) div 4 \<le> z" "b = a + 4 * z" by linarith+
  then show ?thesis unfolding round4_def by linarith
qed

definition bm_at :: "'z pg_sys_scheme \<Rightarrow> nat \<Rightarrow> nat" where
  "bm_at s k = unat (bitmap (pgalloc_bins s ! k))"

lemma half_up: "unat (b :: u64) < max_request \<Longrightarrow> unat ((b + 1) div 2) = (unat b + 1) div 2"
  by (simp add: unat_div max_request_def unat_add_numeral unat_add_of_nat [of b 1, simplified])

lemma init_bitmaps_ok:
  assumes "boot_zone s" and "unat b < max_request" and "length (pgalloc_bins s) = i + n"
    and "init_bitmaps n i b s = Ret ((), t)"
  shows "boot_zone t \<and> length (pgalloc_bins t) = i + n \<and> unat (begin_kva s) \<le> unat (begin_kva t)
     \<and> (\<forall>k < i. pgalloc_bins t ! k = pgalloc_bins s ! k)
     \<and> (\<forall>k. i \<le> k \<and> k < i + n \<longrightarrow> head (pgalloc_bins t ! k) = head (pgalloc_bins s ! k)
          \<and> lsize (pgalloc_bins t ! k) = lsize (pgalloc_bins s ! k)
          \<and> unat (begin_kva s) \<le> bm_at t k
          \<and> bm_at t k + round4 (bm_bytes (unat b) (k - i)) \<le> unat (begin_kva t)
          \<and> (\<forall>l. k < l \<and> l < i + n \<longrightarrow> bm_at t k + round4 (bm_bytes (unat b) (k - i)) \<le> bm_at t l))
     \<and> mem t = mem s \<and> locks t = locks s \<and> end_kva t = end_kva s \<and> max_addr t = max_addr s
     \<and> (unat (begin_kva s) < unat (end_kva s) \<longrightarrow> unat (begin_kva t) < unat (end_kva s))
     \<and> t = s\<lparr>begin_kva := begin_kva t, pgalloc_bins := pgalloc_bins t\<rparr>"
  using assms
proof (induction n arbitrary: i b s)
  case 0
  then show ?case by simp
next
  case (Suc n)
  let ?b = "(b + 1) div 2"
  obtain p s1 where p: "boot_alloc ?b s = (p, s1)" by fastforce
  let ?s2 = "s1\<lparr>pgalloc_bins := (pgalloc_bins s1)[i := (pgalloc_bins s1 ! i)\<lparr>bitmap := p\<rparr>]\<rparr>"
  have ub: "unat ?b = (unat b + 1) div 2" by (rule half_up [OF Suc.prems(2)])
  have bl: "unat ?b < max_request" "unat ?b \<le> max_request" using Suc.prems(2) unfolding ub max_request_def by simp_all
  have run: "p \<noteq> 0" "init_bitmaps n (Suc i) ?b ?s2 = Ret ((), t)"
    using Suc.prems(4) p by (auto simp: Let_def panic_def split: if_splits)
  have st: "p = begin_kva s" "granted_in s p ?b" "boot_zone s1" "unat p + unat ?b \<le> unat (begin_kva s1)"
    using boot_alloc_step [OF Suc.prems(1) bl(2) p] run(1) by auto
  have s1: "pgalloc_bins s1 = pgalloc_bins s" "mem s1 = mem s" "locks s1 = locks s" "end_kva s1 = end_kva s" "max_addr s1 = max_addr s"
      "unat (begin_kva s1) < unat (end_kva s1)"
    using p run(1) by (auto simp: boot_alloc_def Let_def word_less_nat_alt split: if_splits)
  have z2: "boot_zone ?s2" using st(3) by (simp add: boot_zone_def)
  have IH: "boot_zone t" "length (pgalloc_bins t) = Suc i + n" "unat (begin_kva s1) \<le> unat (begin_kva t)"
      "\<forall>k < Suc i. pgalloc_bins t ! k = pgalloc_bins ?s2 ! k" "mem t = mem s" "locks t = locks s"
      "end_kva t = end_kva s" "max_addr t = max_addr s" "unat (begin_kva t) < unat (end_kva s)"
      "t = ?s2\<lparr>begin_kva := begin_kva t, pgalloc_bins := pgalloc_bins t\<rparr>"
    and IHk: "\<And>k. Suc i \<le> k \<and> k < Suc i + n \<Longrightarrow> head (pgalloc_bins t ! k) = head (pgalloc_bins s ! k)
          \<and> lsize (pgalloc_bins t ! k) = lsize (pgalloc_bins s ! k)
          \<and> unat (begin_kva s1) \<le> bm_at t k
          \<and> bm_at t k + round4 (bm_bytes (unat ?b) (k - Suc i)) \<le> unat (begin_kva t)
          \<and> (\<forall>l. k < l \<and> l < Suc i + n \<longrightarrow> bm_at t k + round4 (bm_bytes (unat ?b) (k - Suc i)) \<le> bm_at t l)"
    using Suc.IH [OF z2 bl(1) _ run(2)] Suc.prems(3) s1 by simp_all
  have al: "4096 dvd unat p" "4096 dvd unat (begin_kva s1)"
    using st(2,3) by (simp_all add: granted_in_def boot_zone_def)
  have fit: "unat p + round4 (bm_bytes (unat b) 0) \<le> unat (begin_kva s1)"
    using round4_fit [OF al st(4)] by (simp add: ub)
  have ti: "pgalloc_bins t ! i = (pgalloc_bins s ! i)\<lparr>bitmap := p\<rparr>" using IH(4) s1 Suc.prems(3) by simp
  have here: "bm_at t i = unat p" by (simp add: bm_at_def ti)
  have le: "unat (begin_kva s) \<le> unat (begin_kva s1)" using st(1,4) by simp
  have step: "bm_bytes (unat b) (k - i) = bm_bytes (unat ?b) (k - Suc i)" if "Suc i \<le> k" for k
    using that Suc_diff_Suc [of i k] unfolding ub by (metis Suc_le_lessD bm_bytes.simps(2))
  have body: "head (pgalloc_bins t ! k) = head (pgalloc_bins s ! k)
          \<and> lsize (pgalloc_bins t ! k) = lsize (pgalloc_bins s ! k)
          \<and> unat (begin_kva s) \<le> bm_at t k
          \<and> bm_at t k + round4 (bm_bytes (unat b) (k - i)) \<le> unat (begin_kva t)
          \<and> (\<forall>l. k < l \<and> l < i + Suc n \<longrightarrow> bm_at t k + round4 (bm_bytes (unat b) (k - i)) \<le> bm_at t l)"
    if k: "i \<le> k" "k < i + Suc n" for k
  proof (cases "k = i")
    case True
    have "bm_at t i + round4 (bm_bytes (unat b) 0) \<le> bm_at t l" if "i < l \<and> l < i + Suc n" for l
      using fit here IHk [of l] that by simp
    then show ?thesis using True fit here st(1) IH(3) ti by simp
  next
    case False
    then show ?thesis using IHk [of k] step [of k] k le by simp
  qed
  have "s1 = s\<lparr>begin_kva := begin_kva s1\<rparr>" using p by (auto simp: boot_alloc_def Let_def split: if_splits)
  moreover have "t = s1\<lparr>begin_kva := begin_kva t, pgalloc_bins := pgalloc_bins t\<rparr>" by (subst IH(10)) simp
  ultimately have "t = s\<lparr>begin_kva := begin_kva t, pgalloc_bins := pgalloc_bins t\<rparr>"
    by (cases s; cases s1; cases t) simp
  then show ?case using IH(1-9) body le s1 by simp
qed

lemma init_bitmaps_at:
  assumes "boot_zone s" and "unat b < max_request" and "length (pgalloc_bins s) = i + n"
    and "init_bitmaps n i b s = Ret ((), t)" and "i \<le> k" and "k < i + n"
  shows "head (pgalloc_bins t ! k) = head (pgalloc_bins s ! k)"
    and "lsize (pgalloc_bins t ! k) = lsize (pgalloc_bins s ! k)"
    and "unat (begin_kva s) \<le> bm_at t k"
    and "bm_at t k + round4 (bm_bytes (unat b) (k - i)) \<le> unat (begin_kva t)"
    and "k < l \<Longrightarrow> l < i + n \<Longrightarrow> bm_at t k + round4 (bm_bytes (unat b) (k - i)) \<le> bm_at t l"
  using init_bitmaps_ok [OF assms(1-4)] assms(5,6) by blast+

lemma init_bitmaps_returns:
  assumes "boot_zone s" and "unat b < max_request"
    and "unat (begin_kva s) + n * (unat b + 4096) < unat (end_kva s)"
  shows "\<exists>t. init_bitmaps n i b s = Ret ((), t) \<and> same_cpu s t \<and> unat (begin_kva t) \<le> unat (begin_kva s) + n * (unat b + 4096)"
  using assms
proof (induction n arbitrary: i b s)
  case 0
  then show ?case by (simp add: same_cpu_def)
next
  case (Suc n)
  let ?b = "(b + 1) div 2" and ?r = "ROUNDUP_PWR2 ((b + 1) div 2) PG_SIZE"
  have ub: "unat ?b = (unat b + 1) div 2" by (rule half_up [OF Suc.prems(2)])
  have le: "unat ?b \<le> unat b" unfolding ub by (cases "unat b") auto
  have bl: "unat ?b < max_request" "unat ?b \<le> max_request" using Suc.prems(2) le by simp_all
  have n4: "unat ?b + 4095 < 2 ^ 64" using bl by (simp add: max_request_def)
  have r: "unat ?r < unat b + 4096" using roundup_bounds(2) [OF n4] le by linarith
  have add: "unat (begin_kva s + ?r) = unat (begin_kva s) + unat ?r"
    using Suc.prems(1,2) r by (intro unat_add_nowrap) (simp add: boot_zone_def max_request_def)
  have lt: "unat (begin_kva s) + unat ?r < unat (end_kva s)" using Suc.prems(3) r by simp
  let ?s1 = "s\<lparr>begin_kva := begin_kva s + ?r\<rparr>" and ?p = "begin_kva s"
  have p: "boot_alloc ?b s = (?p, ?s1)" using lt add by (simp add: boot_alloc_def Let_def word_less_nat_alt)
  have nz: "?p \<noteq> 0" using Suc.prems(1) by (auto simp: boot_zone_def)
  have z1: "boot_zone ?s1" using boot_alloc_step [OF Suc.prems(1) bl(2) p] nz by auto
  let ?s2 = "?s1\<lparr>pgalloc_bins := (pgalloc_bins ?s1)[i := (pgalloc_bins ?s1 ! i)\<lparr>bitmap := ?p\<rparr>]\<rparr>"
  have z2: "boot_zone ?s2" using z1 by (simp add: boot_zone_def)
  have mono: "n * (unat ?b + 4096) \<le> n * (unat b + 4096)" using le by simp
  have "unat (begin_kva s + ?r) + n * (unat ?b + 4096) < unat (end_kva s)"
    using Suc.prems(3) add r mono unfolding mult_Suc by linarith
  then have "unat (begin_kva ?s2) + n * (unat ?b + 4096) < unat (end_kva ?s2)" by simp
  from Suc.IH [OF z2 bl(1) this, of "Suc i"]
  obtain t where t: "init_bitmaps n (Suc i) ?b ?s2 = Ret ((), t)" "same_cpu ?s2 t"
    "unat (begin_kva t) \<le> unat (begin_kva ?s2) + n * (unat ?b + 4096)" by blast
  have "unat (begin_kva t) \<le> unat (begin_kva s) + Suc n * (unat b + 4096)"
  proof -
    have "unat (begin_kva t) \<le> unat (begin_kva s + ?r) + n * (unat ?b + 4096)" using t(3) by simp
    then show ?thesis using add r mono unfolding mult_Suc by linarith
  qed
  then show ?case using t(1,2) p nz by (simp add: Let_def same_cpu_def)
qed

lemma ld32_zero_region:
  assumes "\<And>x. x \<in> R \<Longrightarrow> m x = 0" and "region a 4 \<subseteq> R"
  shows "ld32 m a = 0"
  using ld32_cong [of a m "\<lambda>_. 0"] assms by (auto simp: eq_on_def)

lemma empty_wf: "buddy_wf N (\<lambda>_. [])" "pages (\<lambda>_. []) = {}"
  by (simp_all add: buddy_wf_def pages_def)

text \<open>What \<^verbatim>\<open>pgalloc_init\<close> needs: a boot zone with room for the bitmaps and cleared memory there; the pages to
  manage must then lie outside of what the bitmaps took (\<open>init_ready\<close>: outside of the whole zone).\<close>

definition zone_ready :: "nat \<Rightarrow> 'z pg_sys_scheme \<Rightarrow> bool" where
  "zone_ready N s \<longleftrightarrow> boot_zone s \<and> max_addr s = 0 \<and> 8 dvd N \<and> 0 < N \<and> N \<le> page_limit
     \<and> unat (begin_kva s) + 11 * (N div 8 + 4096) < unat (end_kva s)
     \<and> (\<forall>x. unat (begin_kva s) \<le> unat x \<and> unat x < unat (end_kva s) \<longrightarrow> mem s x = 0)"

definition init_ready :: "nat \<Rightarrow> nat set \<Rightarrow> 'z pg_sys_scheme \<Rightarrow> bool" where
  "init_ready N P s \<longleftrightarrow> zone_ready N s \<and> P \<subseteq> {..<N}
     \<and> (\<forall>i \<in> P. unat (end_kva s) \<le> unat (pva i) \<or> unat (pva i) + 4096 \<le> unat (begin_kva s))"

lemma pgalloc_init_zone:
  assumes ready: "zone_ready N s" and N: "unat (PGROUNDUP m div PG_SIZE) = N"
  shows "\<exists>t. pgalloc_init m s = Ret ((), t) \<and> lock_free Pgalloc_lock t \<and> max_addr t = PGROUNDUP m \<and> boot_zone t
           \<and> unat (begin_kva s) \<le> unat (begin_kva t) \<and> unat (begin_kva t) < unat (end_kva s)
           \<and> unat (begin_kva t) \<le> unat (begin_kva s) + 11 * (N div 8 + 4096)
           \<and> (\<forall>P. P \<subseteq> {..<N} \<and> (\<forall>i \<in> P. unat (begin_kva t) \<le> unat (pva i) \<or> unat (pva i) + 4096 \<le> unat (begin_kva s))
                \<longrightarrow> rep N P (core t) (\<lambda>_. []))
           \<and> (\<forall>k \<le> MAX_ORDER. \<forall>x \<in> bm_region N (core t) k. unat (begin_kva s) \<le> unat x \<and> unat x < unat (begin_kva t))
           \<and> t = s\<lparr>begin_kva := begin_kva t, pgalloc_bins := pgalloc_bins t, max_addr := PGROUNDUP m,
                locks := (locks s)(Pgalloc_lock := \<lparr>locked = 0, lk_name = ''pgalloc'', lk_cpu = None\<rparr>)\<rparr>"
proof -
  let ?s1 = "s\<lparr>locks := (locks s)(Pgalloc_lock := \<lparr>locked = 0, lk_name = ''pgalloc'', lk_cpu = None\<rparr>),
      max_addr := PGROUNDUP m, pgalloc_bins := replicate (Suc MAX_ORDER) \<lparr>head = 0, lsize = 0, bitmap = 0\<rparr>\<rparr>"
  let ?b = "PGROUNDUP m div PG_SIZE div 8"
  have z: "boot_zone ?s1" and N8: "8 dvd N" "0 < N" "N \<le> page_limit"
    and room: "unat (begin_kva s) + 11 * (N div 8 + 4096) < unat (end_kva s)"
    using ready by (auto simp: zone_ready_def boot_zone_def)
  have ub: "unat ?b = N div 8" using N by (simp add: unat_div)
  have bl: "unat ?b < max_request" unfolding ub using N8(3) by (simp add: max_request_def page_limit_num)
  have "unat (begin_kva ?s1) + Suc MAX_ORDER * (unat ?b + 4096) < unat (end_kva ?s1)"
    using room by (simp only: ub) (simp add: MAX_ORDER_def)
  from init_bitmaps_returns [OF z bl this, of 0]
  obtain t where t: "init_bitmaps (Suc MAX_ORDER) 0 ?b ?s1 = Ret ((), t)" "same_cpu ?s1 t"
    "unat (begin_kva t) \<le> unat (begin_kva s) + Suc MAX_ORDER * (unat ?b + 4096)" by auto
  have run: "pgalloc_init m s = Ret ((), t)"
    using ready t(1) by (simp add: pgalloc_init_def zone_ready_def bindk_def init_lock_def Let_def del: init_bitmaps.simps replicate.simps)
  have l1: "length (pgalloc_bins ?s1) = 0 + Suc MAX_ORDER" by simp
  note ok = init_bitmaps_ok [OF z bl l1 t(1)]
  have len: "length (pgalloc_bins t) = Suc MAX_ORDER" and fin: "unat (begin_kva t) < unat (end_kva s)"
    and fr: "mem t = mem s" "max_addr t = PGROUNDUP m" "lock_free Pgalloc_lock t"
    using ok room by (simp_all add: lock_free_def)
  have ek: "head (pgalloc_bins t ! k) = 0" "lsize (pgalloc_bins t ! k) = 0"
      "unat (begin_kva s) \<le> bm_at t k" "bm_at t k + 4 * bm_words N k \<le> unat (begin_kva t)"
      "k < l \<Longrightarrow> l \<le> MAX_ORDER \<Longrightarrow> bm_at t k + 4 * bm_words N k \<le> bm_at t l" if k: "k \<le> MAX_ORDER" for k l
  proof -
    have k': "0 \<le> k" "k < 0 + Suc MAX_ORDER" using k by simp_all
    note at = init_bitmaps_at [OF z bl l1 t(1) k']
    have le: "4 * bm_words N k \<le> round4 (bm_bytes (unat ?b) (k - 0))"
      using bm_bytes_enough [OF N8(1,2), of k] unfolding round4_def ub by simp
    show "head (pgalloc_bins t ! k) = 0" "lsize (pgalloc_bins t ! k) = 0"
      using at(1,2) k by (simp_all add: nth_replicate del: replicate.simps)
    show "unat (begin_kva s) \<le> bm_at t k" using at(3) by simp
    show "bm_at t k + 4 * bm_words N k \<le> unat (begin_kva t)" using at(4) le by linarith
    show "bm_at t k + 4 * bm_words N k \<le> bm_at t l" if "k < l" "l \<le> MAX_ORDER"
      using at(5) [of l] that le by linarith
  qed
  have nw: "unat (bitmap (pgalloc_bins t ! k)) + 4 * bm_words N k \<le> 2 ^ 64" if "k \<le> MAX_ORDER" for k
    using ek(4) [OF that] unat_lt_2_64 [of "begin_kva t"] unfolding bm_at_def by simp
  have inz: "x \<in> bm_region N (core t) k \<Longrightarrow> unat (begin_kva s) \<le> unat x \<and> unat x < unat (begin_kva t)"
    if "k \<le> MAX_ORDER" for k x
    using ek(3,4) [OF that] nw [OF that] unfolding bm_region_def core_simps in_region_nat [OF nw [OF that]] bm_at_def by linarith
  have pairs: "bm_region N (core t) k \<inter> bm_region N (core t) l = {}"
    if "k \<le> MAX_ORDER" "l \<le> MAX_ORDER" "k < l" for k l
    unfolding bm_region_def core_simps
    by (intro region_disjoint_nat nw that) (use ek(5) [OF that(1) that(3,2)] in \<open>simp add: bm_at_def\<close>)
  have frame: "t = s\<lparr>begin_kva := begin_kva t, pgalloc_bins := pgalloc_bins t, max_addr := PGROUNDUP m,
      locks := (locks s)(Pgalloc_lock := \<lparr>locked = 0, lk_name = ''pgalloc'', lk_cpu = None\<rparr>)\<rparr>"
  proof -
    have "t = ?s1\<lparr>begin_kva := begin_kva t, pgalloc_bins := pgalloc_bins t\<rparr>" using ok by blast
    then show ?thesis by (cases s; cases t) simp
  qed
  have rp: "rep N P (core t) (\<lambda>_. [])"
    if P: "P \<subseteq> {..<N}" and out: "\<forall>i \<in> P. unat (begin_kva t) \<le> unat (pva i) \<or> unat (pva i) + 4096 \<le> unat (begin_kva s)" for P
  proof -
  have pgs: "bm_region N (core t) k \<inter> pg_region i = {}" if k: "k \<le> MAX_ORDER" and i: "i \<in> P" for k i
  proof -
    have "unat (begin_kva t) \<le> unat (pva i) \<or> unat (pva i) + 4096 \<le> unat (begin_kva s)" using out i by blast
    moreover have "unat (pva i) + 4096 \<le> 2 ^ 64" using P N8(3) i by (intro pva_end) auto
    ultimately show ?thesis using inz [OF k] by (fastforce simp: pg_region_def in_region_nat)
  qed
  have lay: "lay_ok N P (core t)"
    unfolding lay_ok_def using N8(3) P len nw pgs pairs by (auto simp: Int_commute) (metis disjoint_iff linorder_neqE_nat)
  have "bitv (mem t) (bitmap (pgalloc_bins t ! k)) j = pair_bit [] k j"
    if k: "k \<le> MAX_ORDER" and j: "j \<le> last_pair N k" for k j
  proof -
    have "mem t x = 0" if "x \<in> bm_region N (core t) k" for x
      using inz [OF k that] ready fin fr(1) by (simp add: zone_ready_def)
    then have "ld32 (mem t) (bitmap (pgalloc_bins t ! k) + of_nat (4 * (j div 32))) = 0"
      using bit_region_subset [OF lay k j] by (intro ld32_zero_region) auto
    then show ?thesis by (simp add: bitv_def pair_bit_def)
  qed
  then show ?thesis using lay ek empty_wf by (auto simp: rep_def list_ok_def bits_ok_def)
  qed
  have "boot_zone t" "unat (begin_kva s) \<le> unat (begin_kva t)" using ok by simp_all
  moreover have "unat (begin_kva t) \<le> unat (begin_kva s) + 11 * (N div 8 + 4096)"
    using t(3) unfolding ub by (simp add: MAX_ORDER_def)
  ultimately show ?thesis using run fr fin rp inz frame by (intro exI [of _ t]) blast
qed

lemma pgalloc_init_rep:
  assumes ready: "init_ready N P s" and N: "unat (PGROUNDUP m div PG_SIZE) = N"
  shows "\<exists>t. pgalloc_init m s = Ret ((), t) \<and> rep N P (core t) (\<lambda>_. []) \<and> lock_free Pgalloc_lock t
           \<and> max_addr t = PGROUNDUP m \<and> mem t = mem s \<and> same_cpu s t"
proof -
  have z: "zone_ready N s" and P: "P \<subseteq> {..<N}" using ready by (simp_all add: init_ready_def)
  obtain t where t: "pgalloc_init m s = Ret ((), t)" "lock_free Pgalloc_lock t" "max_addr t = PGROUNDUP m" "unat (begin_kva t) < unat (end_kva s)"
      "\<And>P. P \<subseteq> {..<N} \<and> (\<forall>i \<in> P. unat (begin_kva t) \<le> unat (pva i) \<or> unat (pva i) + 4096 \<le> unat (begin_kva s)) \<Longrightarrow> rep N P (core t) (\<lambda>_. [])"
      "t = s\<lparr>begin_kva := begin_kva t, pgalloc_bins := pgalloc_bins t, max_addr := PGROUNDUP m,
                locks := (locks s)(Pgalloc_lock := \<lparr>locked = 0, lk_name = ''pgalloc'', lk_cpu = None\<rparr>)\<rparr>"
    using pgalloc_init_zone [OF z N] by blast
  have "\<forall>i \<in> P. unat (begin_kva t) \<le> unat (pva i) \<or> unat (pva i) + 4096 \<le> unat (begin_kva s)"
    using ready t(4) unfolding init_ready_def by (meson less_imp_le order_trans)
  then have "rep N P (core t) (\<lambda>_. [])" using t(5) P by blast
  moreover have "mem t = mem s" "cpus t = cpus s" "rflags t = rflags s" "ncpu t = ncpu s" "lapic_id_reg t = lapic_id_reg s"
    by (subst t(6), simp)+
  ultimately show ?thesis using t(1-3) by (auto simp: same_cpu_def)
qed

section \<open>Properties\<close>

text \<open>A machine before \<^verbatim>\<open>pgalloc_init\<close>: cleared memory, a boot zone of one megabyte at 2 MB.\<close>

definition demo_pg :: pg_sys where
  "demo_pg = boot_sys.extend (demo_boot\<lparr>end_kva := 0xFFFF800000300000\<rparr>) \<lparr>pgalloc_bins = [], max_addr = 0\<rparr>"

lemma demo_pg_simps:
  "begin_kva demo_pg = 0xFFFF800000200000" "end_kva demo_pg = 0xFFFF800000300000"
  "mem demo_pg = (\<lambda>_. 0)" "max_addr demo_pg = 0"
  by (simp_all add: demo_pg_def demo_boot_def demo_machine_def machine.extend_def boot_sys.extend_def)

lemma demo_pg_ready: "cpu_ready 9 0 demo_pg"
  by (simp add: demo_pg_def demo_boot_def demo_machine_def machine.extend_def boot_sys.extend_def
      cpu_ready_def demo_cpu_def cpu_lookup_def lapic_id_def)

lemma demo_init_ready: "init_ready 4096 {1024..<4096} demo_pg"
proof -
  have "unat (pva i) = 18446603336221196288 + 4096 * i" if "i < 4096" for i
    using that by (subst unat_pva) (simp_all add: page_limit_num KERNBASE_def)
  then show ?thesis
    by (simp add: init_ready_def zone_ready_def demo_pg_simps boot_zone_def max_request_def page_limit_num subset_iff)
qed

lemma demo_pages: "unat (PGROUNDUP 0x1000000 div PG_SIZE) = 4096"
  by (simp add: PGROUNDUP_def PG_SIZE_def)

lemma cpu_ready_after:
  "cpu_ready d c s \<Longrightarrow> t = s\<lparr>mem := m, pgalloc_bins := b, cpus := settled c s\<rparr> \<Longrightarrow> cpu_ready d c t"
  by (erule cpu_ready_settled) simp_all

lemma lock_free_after:
  "lock_free lk s \<Longrightarrow> t = s\<lparr>mem := m, pgalloc_bins := b, cpus := x\<rparr> \<Longrightarrow> lock_free lk t"
  by (simp add: lock_free_def)

text \<open>The machine after initialisation, with one megabyte at page 1024 handed to the allocator.\<close>

lemma demo_started:
  obtains s where "pgalloc_init 0x1000000 demo_pg = Ret ((), s)" and "rep 4096 {1024..<4096} (core s) (\<lambda>_. [])"
    and "cpu_ready 9 0 s" and "lock_free Pgalloc_lock s"
  using pgalloc_init_rep [OF demo_init_ready demo_pages] cpu_ready_same demo_pg_ready by blast

lemma demo_fed:
  obtains s t where "pgalloc_init 0x1000000 demo_pg = Ret ((), s)"
    and "pgalloc_free (pva 1024) 3 s = Ret ((), t)"
    and "rep 4096 {1024..<4096} (core t) ((\<lambda>_. [])(3 := [1024]))"
    and "cpu_ready 9 0 t" and "lock_free Pgalloc_lock t"
proof -
  obtain s where s: "pgalloc_init 0x1000000 demo_pg = Ret ((), s)"
      "rep 4096 {1024..<4096} (core s) (\<lambda>_. [])" "cpu_ready 9 0 s" "lock_free Pgalloc_lock s"
    by (rule demo_started)
  have rd: "cpu_ready 2 0 s" by (rule cpu_ready_mono [OF s(3)]) simp
  have "blk 3 1024 \<subseteq> {1024..<4096}" by (auto simp: blk_def)
  then obtain t where t: "pgalloc_free (pva 1024) (int 3) s = Ret ((), t)"
      "rep 4096 {1024..<4096} (core t) (a_free 3 1024 (\<lambda>_. []))"
      "t = s\<lparr>mem := mem t, pgalloc_bins := pgalloc_bins t, cpus := settled 0 s\<rparr>"
    using pgalloc_free_refines [OF s(2) rd s(4), of 3 1024] by (auto simp: MAX_ORDER_def empty_wf)
  have "a_free 3 1024 (\<lambda>_. []) = (\<lambda>_. [])(3 := [1024])" by (subst a_free.simps) simp
  moreover have "lock_free Pgalloc_lock t" by (rule lock_free_after [OF s(4) t(3)])
  ultimately show thesis using that s(1) t cpu_ready_after [OF s(3) t(3)] by simp
qed

lemma demo_alloc0: "\<exists>F. a_alloc 0 ((\<lambda>_. [])(3 := [1024])) = Some (1024, F)"
proof -
  have "a_alloc 3 ((\<lambda>_. [])(3 := [1024])) = Some (1024, (\<lambda>_. []))"
    by (subst a_alloc.simps) (simp add: MAX_ORDER_def fun_eq_iff)
  then have "\<exists>F. a_alloc 2 ((\<lambda>_. [])(3 := [1024])) = Some (1024, F)"
    by (subst a_alloc.simps) (simp add: MAX_ORDER_def)
  then have "\<exists>F. a_alloc 1 ((\<lambda>_. [])(3 := [1024])) = Some (1024, F)"
    by (subst a_alloc.simps) (auto simp: MAX_ORDER_def numeral_2_eq_2)
  then show ?thesis by (subst a_alloc.simps) (auto simp: MAX_ORDER_def)
qed

text \<open>C2: an allocation of order \<open>k\<close> either returns NULL, exactly when no list of order \<open>k\<close> or above has a
  block, and then changes nothing but the saved interrupt flag; or it returns the address of an aligned
  block of free pages, which leave the pool. The free lists, sizes and bitmaps stay consistent, and no
  byte outside the bitmaps and the formerly free pages changes.\<close>

theorem pgalloc_allocate_correct:
  assumes "rep N P (core s) F" and "cpu_ready 2 c s" and "lock_free Pgalloc_lock s"
  shows "pgalloc_allocate (int k) s = Ret (NULL, s\<lparr>cpus := settled c s\<rparr>)
         \<and> (\<forall>l. k \<le> l \<and> l \<le> MAX_ORDER \<longrightarrow> F l = [])
       \<or> (\<exists>i t F'. pgalloc_allocate (int k) s = Ret (pva i, t) \<and> pva i \<noteq> NULL \<and> k \<le> MAX_ORDER
            \<and> 2 ^ k dvd i \<and> blk k i \<subseteq> pages F \<and> rep N P (core t) F' \<and> pages F' = pages F - blk k i
            \<and> evolves N (pages F) (core s) (core t)
            \<and> t = s\<lparr>mem := mem t, pgalloc_bins := pgalloc_bins t, cpus := settled c s\<rparr>)"
proof (cases "a_alloc k F")
  case None
  then show ?thesis
    using pgalloc_allocate_refines [OF assms, of k] a_alloc_correct [OF rep_wf [OF assms(1)], of k] by simp
next
  case (Some r)
  obtain i F' where r: "r = (i, F')" by (cases r)
  have ac: "k \<le> MAX_ORDER" "2 ^ k dvd i" "i + 2 ^ k \<le> N" "blk k i \<subseteq> pages F" "pages F' = pages F - blk k i"
    using a_alloc_correct [OF rep_wf [OF assms(1)], of k] Some r by auto
  have "pva i \<noteq> NULL"
    by (rule pva_nonzero [OF lay_limit [OF rep_lay [OF assms(1)] blk_bound [OF ac(3)]]])
  moreover obtain t where "pgalloc_allocate (int k) s = Ret (pva i, t)" "rep N P (core t) F'"
      "evolves N (pages F) (core s) (core t)"
      "t = s\<lparr>mem := mem t, pgalloc_bins := pgalloc_bins t, cpus := settled c s\<rparr>"
    using pgalloc_allocate_refines [OF assms, of k] Some r by auto
  ultimately show ?thesis using ac by (intro disjI2 exI [of _ i] exI [of _ t] exI [of _ F']) simp
qed

theorem pgalloc_allocate_correct_witness:
  "\<exists>s t u. pgalloc_init 0x1000000 demo_pg = Ret ((), s) \<and> pgalloc_free (pva 1024) 3 s = Ret ((), t)
     \<and> pgalloc_allocate (int 0) t = Ret u \<and> fst u \<noteq> NULL"
proof -
  obtain s t where st: "pgalloc_init 0x1000000 demo_pg = Ret ((), s)" "pgalloc_free (pva 1024) 3 s = Ret ((), t)"
    "rep 4096 {1024..<4096} (core t) ((\<lambda>_. [])(3 := [1024]))" "cpu_ready 9 0 t" "lock_free Pgalloc_lock t"
    by (rule demo_fed)
  have rd: "cpu_ready 2 0 t" by (rule cpu_ready_mono [OF st(4)]) simp
  have ne: "\<not> (\<forall>l. 0 \<le> l \<and> l \<le> MAX_ORDER \<longrightarrow> ((\<lambda>_. [])(3 := [1024 :: nat])) l = [])"
    by (auto simp: MAX_ORDER_def intro!: exI [of _ 3])
  from pgalloc_allocate_correct [OF st(3) rd st(5), of 0] ne st(1,2) show ?thesis by fastforce
qed

text \<open>C3: freeing a block that is aligned, owned and not free always returns (it never reports a missing
  buddy and never loops), puts exactly its pages back into the pool, keeps lists and bitmaps consistent and
  writes nothing outside the bitmaps, the free pages and the block itself.\<close>

theorem pgalloc_free_correct:
  assumes "rep N P (core s) F" and "cpu_ready 2 c s" and "lock_free Pgalloc_lock s"
    and "k \<le> MAX_ORDER" and "2 ^ k dvd i" and "blk k i \<inter> pages F = {}" and "blk k i \<subseteq> P"
  shows "\<exists>t F'. pgalloc_free (pva i) (int k) s = Ret ((), t) \<and> rep N P (core t) F'
        \<and> pages F' = pages F \<union> blk k i \<and> evolves N (pages F \<union> blk k i) (core s) (core t)
        \<and> t = s\<lparr>mem := mem t, pgalloc_bins := pgalloc_bins t, cpus := settled c s\<rparr>"
proof -
  have "i + 2 ^ k \<le> N" using assms(7) lay_bound [OF rep_lay [OF assms(1)]] blk_le by blast
  then show ?thesis
    using pgalloc_free_refines [OF assms] a_free_correct [OF rep_wf [OF assms(1)] assms(4,5) _ assms(6)] by blast
qed

theorem pgalloc_free_correct_witness:
  "\<exists>s t. pgalloc_init 0x1000000 demo_pg = Ret ((), s) \<and> pgalloc_free (pva 1024) (int 3) s = Ret ((), t)"
proof -
  obtain s where s: "pgalloc_init 0x1000000 demo_pg = Ret ((), s)"
      "rep 4096 {1024..<4096} (core s) (\<lambda>_. [])" "cpu_ready 9 0 s" "lock_free Pgalloc_lock s"
    by (rule demo_started)
  have rd: "cpu_ready 2 0 s" by (rule cpu_ready_mono [OF s(3)]) simp
  have "blk 3 1024 \<subseteq> {1024..<4096}" by (auto simp: blk_def)
  then show ?thesis
    using pgalloc_free_correct [OF s(2) rd s(4), of 3 1024] s(1) by (auto simp: MAX_ORDER_def empty_wf)
qed

text \<open>C4: the core routines implement the buddy system exactly: on memory that represents free lists \<open>F\<close>,
  \<^verbatim>\<open>s_free_block\<close> produces the lists \<open>a_free k i F\<close> (merging with the buddy as often as possible), and
  \<^verbatim>\<open>s_alloc_block\<close> the block and the lists of \<open>a_alloc k F\<close> (splitting the smallest block that fits).\<close>

theorem page_alloc_implements_buddy:
  assumes "rep N P c F"
  shows "(k \<le> MAX_ORDER \<and> 2 ^ k dvd i \<and> i + 2 ^ k \<le> N \<and> blk k i \<inter> pages F = {} \<and> blk k i \<subseteq> P
           \<longrightarrow> (\<exists>c'. s_free_block (of_nat i) k c = Ret ((), c') \<and> rep N P c' (a_free k i F)))
       \<and> (case a_alloc k F of
            None \<Rightarrow> s_alloc_block (int k) c = Ret (NULL, c)
          | Some (j, F') \<Rightarrow> (\<exists>c'. s_alloc_block (int k) c = Ret (pva j, c') \<and> rep N P c' F'))"
proof (intro conjI impI)
  assume "k \<le> MAX_ORDER \<and> 2 ^ k dvd i \<and> i + 2 ^ k \<le> N \<and> blk k i \<inter> pages F = {} \<and> blk k i \<subseteq> P"
  then show "\<exists>c'. s_free_block (of_nat i) k c = Ret ((), c') \<and> rep N P c' (a_free k i F)"
    using s_free_block_refines [OF assms] by blast
next
  show "case a_alloc k F of
            None \<Rightarrow> s_alloc_block (int k) c = Ret (NULL, c)
          | Some (j, F') \<Rightarrow> (\<exists>c'. s_alloc_block (int k) c = Ret (pva j, c') \<and> rep N P c' F')"
    using s_alloc_block_refines [OF assms, of k] by (cases "a_alloc k F") auto
qed

theorem page_alloc_implements_buddy_witness:
  "\<exists>s t c. pgalloc_init 0x1000000 demo_pg = Ret ((), s) \<and> pgalloc_free (pva 1024) 3 s = Ret ((), t)
     \<and> s_alloc_block (int 0) (core t) = Ret (pva 1024, c)"
proof -
  obtain s t where st: "pgalloc_init 0x1000000 demo_pg = Ret ((), s)" "pgalloc_free (pva 1024) 3 s = Ret ((), t)"
    "rep 4096 {1024..<4096} (core t) ((\<lambda>_. [])(3 := [1024]))"
    by (rule demo_fed)
  obtain F where "a_alloc 0 ((\<lambda>_. [])(3 := [1024])) = Some (1024, F)" using demo_alloc0 by blast
  then show ?thesis using page_alloc_implements_buddy [OF st(3), of 0 0] st(1,2) by auto
qed

text \<open>C6: giving a page range to the allocator returns, and exactly the pages of the range become free.\<close>

theorem pgalloc_free_range_correct:
  assumes "rep N P (core s) F" and "cpu_ready 2 c s" and "lock_free Pgalloc_lock s"
    and "a \<le> b" and "b \<le> N" and "b < page_limit" and "{a..<b} \<subseteq> P" and "{a..<b} \<inter> pages F = {}"
  shows "\<exists>t F'. pgalloc_free_range (pva a) (pva b) s = Ret ((), t) \<and> rep N P (core t) F'
        \<and> pages F' = pages F \<union> {a..<b}"
  using pgalloc_free_range_refines [OF assms] by blast

theorem pgalloc_free_range_correct_witness:
  "\<exists>s t. pgalloc_init 0x1000000 demo_pg = Ret ((), s)
     \<and> pgalloc_free_range (pva 1027) (pva 4096) s = Ret ((), t)"
proof -
  obtain s where s: "pgalloc_init 0x1000000 demo_pg = Ret ((), s)"
      "rep 4096 {1024..<4096} (core s) (\<lambda>_. [])" "cpu_ready 9 0 s" "lock_free Pgalloc_lock s"
    by (rule demo_started)
  have rd: "cpu_ready 2 0 s" by (rule cpu_ready_mono [OF s(3)]) simp
  show ?thesis
    using pgalloc_free_range_correct [OF s(2) rd s(4), of 1027 4096] s(1)
    by (auto simp: page_limit_num empty_wf)
qed

text \<open>C8: \<^verbatim>\<open>pgalloc_init\<close> on a boot zone with room for the bitmaps returns with a consistent, empty page pool,
  provided that the zone is cleared memory (the code does not clear it) and that the number of pages is a
  multiple of eight (the bitmap size is rounded down).\<close>

theorem pgalloc_init_establishes:
  assumes "init_ready N P s" and "unat (PGROUNDUP m div PG_SIZE) = N"
  shows "\<exists>t. pgalloc_init m s = Ret ((), t) \<and> rep N P (core t) (\<lambda>_. []) \<and> lock_free Pgalloc_lock t
           \<and> max_addr t = PGROUNDUP m \<and> mem t = mem s"
  using pgalloc_init_rep [OF assms] by blast

theorem pgalloc_init_establishes_witness:
  "\<exists>t. pgalloc_init 0x1000000 demo_pg = Ret ((), t) \<and> rep 4096 {1024..<4096} (core t) (\<lambda>_. [])"
  using pgalloc_init_establishes [OF demo_init_ready demo_pages] by blast

text \<open>C5: any run of allocations hands out blocks that are aligned, taken from the free pages and pairwise
  disjoint; freeing the last one again restores the pool.\<close>

theorem page_allocations_disjoint:
  assumes "rep N P c F" and "page_pool.allocs c_alloc ks c = Some (bs, d)"
  shows "map fst bs = ks \<and> sorted_wrt (\<lambda>(k, i) (l, j). blk k i \<inter> blk l j = {}) bs
       \<and> (\<forall>(k, i) \<in> set bs. 2 ^ k dvd i \<and> blk k i \<subseteq> pages F - c_avail N P d)
       \<and> (c_alloc k d = Some (i, e) \<longrightarrow> c_avail N P (c_free k i e) = c_avail N P d)"
proof -
  have inv: "\<exists>F. rep N P c F" using assms(1) by blast
  note a = cp.allocs_sound [OF inv assms(2)]
  then have "\<exists>F. rep N P d F" by blast
  then show ?thesis using a cp.alloc_free_restores [of N P d k i e] c_avail_rep [OF assms(1)] by auto
qed

theorem page_allocations_disjoint_witness:
  "\<exists>s t d. pgalloc_init 0x1000000 demo_pg = Ret ((), s) \<and> pgalloc_free (pva 1024) 3 s = Ret ((), t)
     \<and> page_pool.allocs c_alloc [0] (core t) = Some ([(0, 1024)], d)
     \<and> blk 0 1024 \<inter> c_avail 4096 {1024..<4096} d = {}"
proof -
  obtain s t where st: "pgalloc_init 0x1000000 demo_pg = Ret ((), s)" "pgalloc_free (pva 1024) 3 s = Ret ((), t)"
    "rep 4096 {1024..<4096} (core t) ((\<lambda>_. [])(3 := [1024]))"
    by (rule demo_fed)
  obtain F where "a_alloc 0 ((\<lambda>_. [])(3 := [1024])) = Some (1024, F)" using demo_alloc0 by blast
  then obtain d where d: "s_alloc_block 0 (core t) = Ret (pva 1024, d)"
    using s_alloc_block_refines [OF st(3), of 0] by auto
  have small: "1024 < page_limit" by (simp add: page_limit_num)
  have "c_alloc 0 (core t) = Some (1024, d)"
    using d pva_nonzero [OF small] by (simp add: c_alloc_def PG_INDEX_pva [OF small])
  then have run: "page_pool.allocs c_alloc [0] (core t) = Some ([(0, 1024)], d)"
    by (simp add: cp.allocs.simps)
  from page_allocations_disjoint [OF st(3) run] have "blk 0 1024 \<inter> c_avail 4096 {1024..<4096} d = {}"
    by (simp add: disjoint_eq_subset_Compl subset_iff)
  then show ?thesis using st(1,2) run by blast
qed

text \<open>errors: an order outside 0..10 yields NULL and changes nothing; a free whose page index is not
  aligned to the order panics; a second \<^verbatim>\<open>pgalloc_init\<close> panics.\<close>

theorem pgalloc_errors:
  assumes "cpu_ready 2 c s" and "lock_free Pgalloc_lock s"
  shows "(order < 0 \<or> 10 < order \<longrightarrow> pgalloc_allocate order s = Ret (NULL, s\<lparr>cpus := settled c s\<rparr>))
       \<and> (k \<le> 10 \<and> i < page_limit \<and> \<not> 2 ^ k dvd i \<longrightarrow> pgalloc_free (pva i) (int k) s = Panic ''s_free_block'')
       \<and> (max_addr s \<noteq> 0 \<longrightarrow> pgalloc_init m s = Panic ''pgalloc_init double init'')"
proof -
  have rd: "cpu_ready (Suc (Suc 0)) c s" using assms(1) by (simp add: numeral_2_eq_2)
  have "pgalloc_allocate order s = Ret (NULL, s\<lparr>cpus := settled c s\<rparr>)" if "order < 0 \<or> 10 < order"
  proof -
    have "s_alloc_block order (core s) = Ret (NULL, core s)"
      using that by (subst s_alloc_block.simps) (auto simp: MAX_ORDER_def)
    from locked_core [of _ _ _ _ "s_alloc_block order", OF rd assms(2) this] show ?thesis
      by (simp add: pgalloc_allocate_def)
  qed
  moreover have "pgalloc_free (pva i) (int k) s = Panic ''s_free_block''"
    if "k \<le> 10" "i < page_limit" "\<not> 2 ^ k dvd i"
  proof -
    have "s_free_block (of_nat i) k d = Panic ''s_free_block''" for d
      using that aligned_test [OF that(2), of k]
      by (subst s_free_block.simps) (simp add: s_free_step_def)
    then show ?thesis
      using acquire_free [OF rd assms(2)]
      by (simp add: pgalloc_free_def locked_call_def bindk_def on_core_def PG_INDEX_pva [OF that(2)])
  qed
  moreover have "pgalloc_init m s = Panic ''pgalloc_init double init''" if "max_addr s \<noteq> 0"
    using that by (simp add: pgalloc_init_def panic_def)
  ultimately show ?thesis by blast
qed

theorem pgalloc_errors_witness:
  "\<exists>s. pgalloc_init 0x1000000 demo_pg = Ret ((), s)
     \<and> pgalloc_allocate 11 s = Ret (NULL, s\<lparr>cpus := settled 0 s\<rparr>)
     \<and> pgalloc_free (pva 3) (int 1) s = Panic ''s_free_block''"
proof -
  obtain s where s: "pgalloc_init 0x1000000 demo_pg = Ret ((), s)" "cpu_ready 9 0 s" "lock_free Pgalloc_lock s"
    by (rule demo_started)
  have rd: "cpu_ready 2 0 s" by (rule cpu_ready_mono [OF s(2)]) simp
  show ?thesis using pgalloc_errors [OF rd s(3), of 11 1 3] s(1) by (auto simp: page_limit_num)
qed

end
