(* ===== verification/Kmalloc.thy ===== *)
theory Kmalloc
  imports Page_Refine Cstring
begin

text \<open>
  The kernel heap \<^verbatim>\<open>kernel/src/mem/kmalloc.c\<close>: a free list of blocks ordered by size, kept in the headers
  of the blocks, fed one page at a time by the page allocator. This theory holds the definitions; the theory
  \<open>Kheap\<close> has the proofs.
\<close>

section \<open>State\<close>

definition TOTAL_METADATA_SIZE :: u64 where "TOTAL_METADATA_SIZE = 16"
definition MIN_BLOCK_SIZE :: u64 where "MIN_BLOCK_SIZE = TOTAL_METADATA_SIZE + 8"

record km_sys = pg_sys +
  size_list :: ptr

text \<open>What the list routines work on: the head of the free list and the memory.\<close>

record km_core =
  slist :: ptr
  kmem :: memory

text \<open>\<^verbatim>\<open>struct metadata\<close>: the field \<^verbatim>\<open>next\<close> at offset 0, \<^verbatim>\<open>size\<close> at offset 8.\<close>

definition get_next :: "km_core \<Rightarrow> ptr \<Rightarrow> ptr" where "get_next c b = ld64 (kmem c) b"
definition get_size :: "km_core \<Rightarrow> ptr \<Rightarrow> u64" where "get_size c b = ld64 (kmem c) (b + 8)"
definition set_next :: "ptr \<Rightarrow> ptr \<Rightarrow> km_core \<Rightarrow> km_core" where
  "set_next b v c = c\<lparr>kmem := st64 (kmem c) b v\<rparr>"
definition set_size :: "ptr \<Rightarrow> u64 \<Rightarrow> km_core \<Rightarrow> km_core" where
  "set_size b v c = c\<lparr>kmem := st64 (kmem c) (b + 8) v\<rparr>"

section \<open>Free list\<close>

definition merge_with_front :: "ptr \<Rightarrow> ptr \<Rightarrow> u64 \<Rightarrow> km_core \<Rightarrow> ptr \<times> km_core" where
  "merge_with_front front front_parent empty_Size c =
     (let c1 = (if front_parent = NULL then c\<lparr>slist := get_next c front\<rparr>
                else set_next front_parent (get_next c front) c)
      in (front, set_size front (get_size c1 front + empty_Size) c1))"

definition merge_with_back :: "ptr \<Rightarrow> ptr \<Rightarrow> ptr \<Rightarrow> km_core \<Rightarrow> ptr \<times> km_core" where
  "merge_with_back back back_parent original c =
     (let c1 = (if back_parent = NULL then c\<lparr>slist := get_next c back\<rparr>
                else set_next back_parent (get_next c back) c)
      in (original, set_size original (get_size c1 original + (get_size c1 back + TOTAL_METADATA_SIZE)) c1))"

text \<open>One round of the merge loop of \<^verbatim>\<open>add_block\<close>: the new \<^verbatim>\<open>metaBlock\<close>, \<^verbatim>\<open>parentBlock\<close> and state.\<close>

definition merge_step :: "ptr \<Rightarrow> ptr \<Rightarrow> ptr \<Rightarrow> ptr \<Rightarrow> ptr \<Rightarrow> km_core \<Rightarrow> ptr \<times> ptr \<times> km_core" where
  "merge_step block endAddr current par meta c =
     (if current + get_size c current + TOTAL_METADATA_SIZE = block then
        (case merge_with_front current par (get_size c meta + TOTAL_METADATA_SIZE) c of
           (meta', c') \<Rightarrow> (meta', par, c'))
      else if endAddr = current then
        (case merge_with_back current par meta c of (meta', c') \<Rightarrow> (meta', par, c'))
      else (meta, current, c))"

partial_function (option) merge_loop ::
  "ptr \<Rightarrow> ptr \<Rightarrow> ptr \<Rightarrow> ptr \<Rightarrow> ptr \<Rightarrow> km_core \<Rightarrow> (ptr \<times> km_core) option" where
  "merge_loop block endAddr current par meta c =
     (if current = NULL then Some (meta, c)
      else case merge_step block endAddr current par meta c of
          (meta', par', c') \<Rightarrow> merge_loop block endAddr (get_next c' current) par' meta' c')"

definition link_after :: "ptr \<Rightarrow> ptr \<Rightarrow> km_core \<Rightarrow> km_core" where
  "link_after loopBlock meta c =
     (let c1 = set_next meta (get_next c loopBlock) c in set_next loopBlock meta c1)"

partial_function (option) insert_loop :: "ptr \<Rightarrow> ptr \<Rightarrow> km_core \<Rightarrow> km_core option" where
  "insert_loop meta loopBlock c =
     (if loopBlock \<noteq> NULL \<and> get_next c loopBlock \<noteq> NULL then
        if get_size c meta \<le> get_size c (get_next c loopBlock) then Some (link_after loopBlock meta c)
        else insert_loop meta (get_next c loopBlock) c
      else if loopBlock \<noteq> NULL then Some (link_after loopBlock meta c)
      else Some c)"

definition add_block :: "ptr \<Rightarrow> u64 \<Rightarrow> km_core \<Rightarrow> (ptr \<times> km_core) outcome" where
  "add_block block raw_size c =
     (if raw_size < MIN_BLOCK_SIZE then Ret (NULL, c)
      else
        let c1 = set_size block (raw_size - TOTAL_METADATA_SIZE) c;
            endAddr = block + TOTAL_METADATA_SIZE + get_size c1 block
        in case merge_loop block endAddr (slist c1) NULL block c1 of
             None \<Rightarrow> Hang
           | Some (meta, c2) \<Rightarrow>
               if slist c2 \<noteq> NULL \<and> get_size c2 (slist c2) < get_size c2 meta then
                 (case insert_loop meta (slist c2) c2 of
                    None \<Rightarrow> Hang
                  | Some c3 \<Rightarrow> Ret (meta, c3))
               else Ret (meta, (set_next meta (slist c2) c2)\<lparr>slist := meta\<rparr>))"

definition remove_block :: "ptr \<Rightarrow> ptr \<Rightarrow> u64 \<Rightarrow> km_core \<Rightarrow> (ptr \<times> km_core) outcome" where
  "remove_block block par request_size c =
     (let c1 = (if par \<noteq> NULL then set_next par (get_next c block) c
                else c\<lparr>slist := get_next c block\<rparr>)
      in if get_size c1 block = request_size then Ret (block + 16, c1)
         else
           let oldBlockSize = get_size c1 block - (request_size + TOTAL_METADATA_SIZE)
           in bindk (add_block block (oldBlockSize + TOTAL_METADATA_SIZE)) (\<lambda>_ c2.
                let newBlock = block + TOTAL_METADATA_SIZE + oldBlockSize
                in Ret (newBlock + 16, set_size newBlock request_size c2)) c1)"

partial_function (option) find_fit_loop ::
  "u64 \<Rightarrow> ptr \<Rightarrow> ptr \<Rightarrow> km_core \<Rightarrow> (ptr \<times> km_core) outcome option" where
  "find_fit_loop request_size current par c =
     (if current = NULL then Some (Ret (NULL, c))
      else if get_size c current = request_size \<or> request_size + MIN_BLOCK_SIZE \<le> get_size c current
      then Some (remove_block current par request_size c)
      else find_fit_loop request_size (get_next c current) current c)"

definition find_fit_block :: "u64 \<Rightarrow> km_core \<Rightarrow> (ptr \<times> km_core) outcome" where
  "find_fit_block request_size c =
     (case find_fit_loop request_size (slist c) NULL c of None \<Rightarrow> Hang | Some r \<Rightarrow> r)"

section \<open>Entry points\<close>

definition on_list :: "(km_core \<Rightarrow> ('a \<times> km_core) outcome) \<Rightarrow> 'z km_sys_scheme \<Rightarrow> ('a \<times> 'z km_sys_scheme) outcome" where
  "on_list f s = (case f \<lparr>slist = size_list s, kmem = mem s\<rparr> of
      Ret (r, c) \<Rightarrow> Ret (r, s\<lparr>size_list := slist c, mem := kmem c\<rparr>)
    | Panic e \<Rightarrow> Panic e | Hang \<Rightarrow> Hang | Undef e \<Rightarrow> Undef e)"

definition kmalloc_init :: "'z km_sys_scheme \<Rightarrow> (unit \<times> 'z km_sys_scheme) outcome" where
  "kmalloc_init s = init_lock Kmalloc_lock ''kmalloc'' (s\<lparr>size_list := NULL\<rparr>)"

text \<open>The locked part of \<^verbatim>\<open>kmalloc\<close>.\<close>

definition kmalloc_body :: "u64 \<Rightarrow> 'z km_sys_scheme \<Rightarrow> (ptr \<times> 'z km_sys_scheme) outcome" where
  "kmalloc_body sz =
     (if sz = 0 then retk NULL
      else if PG_SIZE - TOTAL_METADATA_SIZE < sz then retk NULL
      else bindk (on_list (find_fit_block sz)) (\<lambda>rtn.
        if rtn \<noteq> NULL then retk rtn
        else bindk (pgalloc_allocate 0) (\<lambda>newRam.
          if newRam \<noteq> NULL then
            bindk (on_list (add_block newRam PG_SIZE)) (\<lambda>_. on_list (find_fit_block sz))
          else panic ''malloc: OOM'')))"

definition kmalloc :: "u64 \<Rightarrow> 'z km_sys_scheme \<Rightarrow> (ptr \<times> 'z km_sys_scheme) outcome" where
  "kmalloc sz = locked_call Kmalloc_lock (kmalloc_body sz)"

definition kfree :: "ptr \<Rightarrow> 'z km_sys_scheme \<Rightarrow> (unit \<times> 'z km_sys_scheme) outcome" where
  "kfree p =
     (if p = NULL then retk ()
      else
        let block = p - 16
        in locked_call Kmalloc_lock
             (on_list (\<lambda>c. bindk (add_block block (get_size c block + TOTAL_METADATA_SIZE)) (\<lambda>_. retk ()) c)))"

text \<open>\<^verbatim>\<open>krealloc\<close> does not test the result of \<^verbatim>\<open>kmalloc\<close> before copying.\<close>

definition krealloc :: "ptr \<Rightarrow> u64 \<Rightarrow> 'z km_sys_scheme \<Rightarrow> (ptr \<times> 'z km_sys_scheme) outcome" where
  "krealloc p sz =
     (if p = NULL then kmalloc sz
      else if sz = 0 then bindk (kfree p) (\<lambda>_. retk NULL)
      else
        let block = p - 16
        in bindk (kmalloc sz) (\<lambda>newBlk.
           bindk (\<lambda>s. let n = min sz (ld64 (mem s) (block + 8))
                      in if newBlk = NULL \<and> n \<noteq> 0 then Undef ''memcpy to NULL''
                         else Ret ((), s\<lparr>mem := memcpy newBlk p n (mem s)\<rparr>)) (\<lambda>_.
           bindk (kfree p) (\<lambda>_. retk newBlk))))"

definition kcalloc :: "u64 \<Rightarrow> u64 \<Rightarrow> 'z km_sys_scheme \<Rightarrow> (ptr \<times> 'z km_sys_scheme) outcome" where
  "kcalloc nmemb sz =
     bindk (kmalloc (nmemb * sz)) (\<lambda>memory s.
       if memory \<noteq> NULL then Ret (memory, s\<lparr>mem := memset memory 0 (sz * nmemb) (mem s)\<rparr>)
       else Ret (memory, s))"

end
