(* ===== verification/Kheap.thy ===== *)
theory Kheap
  imports Kmalloc
begin

text \<open>
  Correctness of the kernel heap. \<open>hrep c L\<close> says that the size list in memory holds the free blocks \<open>L\<close>.
  \<^verbatim>\<open>add_block\<close> adds exactly the bytes of its block to the free bytes, whatever it merges;
  \<^verbatim>\<open>find_fit_block\<close> takes exactly the bytes it hands out; both write to free bytes only. With the page
  allocator below this gives the contract of \<^verbatim>\<open>kmalloc\<close> and \<^verbatim>\<open>kfree\<close>.
\<close>

section \<open>Blocks\<close>

text \<open>The bytes of a block: the 16-byte header at \<open>a\<close> and the user part behind it.\<close>

type_synonym block = "ptr \<times> u64"

definition ext :: "block \<Rightarrow> nat set" where
  "ext b = {unat (fst b)..<unat (fst b) + unat (snd b) + 16}"

definition blk_ok :: "block \<Rightarrow> bool" where
  "blk_ok b \<longleftrightarrow> 0 < unat (fst b) \<and> unat (fst b) + unat (snd b) + 16 < 2 ^ 64 \<and> 8 \<le> unat (snd b)"

definition heap :: "block list \<Rightarrow> bool" where
  "heap L \<longleftrightarrow> (\<forall>b \<in> set L. blk_ok b) \<and> sorted_wrt (\<lambda>b d. ext b \<inter> ext d = {}) L"

definition fr :: "block list \<Rightarrow> nat set" where
  "fr L = (\<Union>b \<in> set L. ext b)"

definition same_out :: "nat set \<Rightarrow> memory \<Rightarrow> memory \<Rightarrow> bool" where
  "same_out R m m' \<longleftrightarrow> (\<forall>x. unat x \<notin> R \<longrightarrow> m' x = m x)"

definition by_size :: "block list \<Rightarrow> bool" where
  "by_size L \<longleftrightarrow> sorted (map (\<lambda>b. unat (snd b)) L)"

lemma fr_simps [simp]: "fr [] = {}" "fr (b # L) = ext b \<union> fr L" "fr (L @ M) = fr L \<union> fr M"
  by (auto simp: fr_def)

lemma heap_simps:
  "heap []" "heap (b # L) \<longleftrightarrow> blk_ok b \<and> ext b \<inter> fr L = {} \<and> heap L"
  "heap (L @ M) \<longleftrightarrow> heap L \<and> heap M \<and> fr L \<inter> fr M = {}"
  by (auto simp: heap_def fr_def sorted_wrt_append)

lemma same_out_refl [simp]: "same_out R m m"
  by (simp add: same_out_def)

lemma same_out_trans: "same_out R m m1 \<Longrightarrow> same_out R m1 m2 \<Longrightarrow> same_out R m m2"
  by (simp add: same_out_def)

lemma same_out_mono: "same_out R m m' \<Longrightarrow> R \<subseteq> S \<Longrightarrow> same_out S m m'"
  by (auto simp: same_out_def)

lemma same_out_st64:
  assumes "unat a + 8 \<le> 2 ^ 64" and "{unat a..<unat a + 8} \<subseteq> R"
  shows "same_out R m (st64 m a v)"
proof -
  have "x \<notin> region a 8" if "unat x \<notin> R" for x
    using assms that by (auto simp: in_region_nat)
  then show ?thesis by (simp add: same_out_def st64_def st_bytes_outside)
qed

text \<open>Headers at pairwise distinct places: reading one field is not affected by writing another.\<close>

definition apart :: "ptr set \<Rightarrow> bool" where
  "apart A \<longleftrightarrow> (\<forall>a \<in> A. 0 < unat a \<and> unat a + 16 < 2 ^ 64)
     \<and> (\<forall>a \<in> A. \<forall>b \<in> A. a \<noteq> b \<longrightarrow> unat a + 16 \<le> unat b \<or> unat b + 16 \<le> unat a)"

lemma unat_add8: "unat (a :: ptr) + 16 < 2 ^ 64 \<Longrightarrow> unat (a + 8) = unat a + 8"
  by (rule unat_add_numeral) simp

lemma apart_regions:
  assumes "apart A" "a \<in> A" "b \<in> A"
  shows "region (a + 8) 8 \<inter> region b 8 = {}" "region b 8 \<inter> region (a + 8) 8 = {}"
    and "a \<noteq> b \<Longrightarrow> region a 8 \<inter> region b 8 = {}"
    and "a \<noteq> b \<Longrightarrow> region (a + 8) 8 \<inter> region (b + 8) 8 = {}"
proof -
  have bd: "unat a + 16 < 2 ^ 64" "unat b + 16 < 2 ^ 64"
    and dj: "a \<noteq> b \<Longrightarrow> unat a + 16 \<le> unat b \<or> unat b + 16 \<le> unat a"
    using assms by (auto simp: apart_def)
  note u = unat_add8 [OF bd(1)] unat_add8 [OF bd(2)]
  show *: "region (a + 8) 8 \<inter> region b 8 = {}"
    by (rule region_disjoint_nat) (use bd dj u in \<open>cases "a = b"; auto\<close>)+
  then show "region b 8 \<inter> region (a + 8) 8 = {}" by blast
  show "region a 8 \<inter> region b 8 = {}" if "a \<noteq> b"
    by (rule region_disjoint_nat) (use bd dj [OF that] in auto)
  show "region (a + 8) 8 \<inter> region (b + 8) 8 = {}" if "a \<noteq> b"
    by (rule region_disjoint_nat) (use bd dj [OF that] u in auto)
qed

lemma get_set:
  assumes "apart A" "a \<in> A" "b \<in> A"
  shows "get_next (set_size a v c) b = get_next c b"
    and "get_size (set_next a v c) b = get_size c b"
    and "a \<noteq> b \<Longrightarrow> get_next (set_next a v c) b = get_next c b"
    and "a \<noteq> b \<Longrightarrow> get_size (set_size a v c) b = get_size c b"
    and "get_next (set_next a v c) a = v" "get_size (set_size a v c) a = v"
  using apart_regions [OF assms] apart_regions [OF assms(1,3,2)]
  by (auto simp: get_next_def get_size_def set_next_def set_size_def ld64_st64_other)

lemma slist_set [simp]: "slist (set_next a v c) = slist c" "slist (set_size a v c) = slist c"
  by (simp_all add: set_next_def set_size_def)

lemma get_slist [simp]: "get_next (slist_update f c) = get_next c" "get_size (slist_update f c) = get_size c"
  by (simp_all add: get_next_def get_size_def fun_eq_iff)

lemma set_frame:
  assumes "blk_ok b"
  shows "same_out (ext b) (kmem c) (kmem (set_next (fst b) v c))"
    and "same_out (ext b) (kmem c) (kmem (set_size (fst b) v c))"
proof -
  have bd: "unat (fst b) + 16 < 2 ^ 64" using assms by (simp add: blk_ok_def)
  show "same_out (ext b) (kmem c) (kmem (set_next (fst b) v c))"
    unfolding set_next_def using bd by (auto simp: ext_def intro!: same_out_st64)
  show "same_out (ext b) (kmem c) (kmem (set_size (fst b) v c))"
    unfolding set_size_def using bd by (auto simp: ext_def unat_add8 intro!: same_out_st64)
qed

lemma heap_disjoint:
  assumes "heap L" and "b \<in> set L" and "d \<in> set L" and "b \<noteq> d"
  shows "ext b \<inter> ext d = {}"
  using assms
proof (induction L)
  case (Cons x L)
  have "ext x \<inter> ext y = {}" if "y \<in> set L" for y
    using that Cons.prems(1) by (auto simp: heap_simps fr_def)
  moreover have "heap L" using Cons.prems(1) by (simp add: heap_simps)
  ultimately show ?case using Cons.IH Cons.prems(2-4) by (metis Int_commute set_ConsD)
qed simp

lemma heap_apart:
  assumes "heap L"
  shows "apart (fst ` set L)"
proof -
  have ok: "blk_ok b" if "b \<in> set L" for b using assms that by (auto simp: heap_def)
  have "unat a + 16 \<le> unat b \<or> unat b + 16 \<le> unat a" if "(a, s) \<in> set L" "(b, t) \<in> set L" "a \<noteq> b" for a b s t
  proof -
    have "ext (a, s) \<inter> ext (b, t) = {}" using heap_disjoint [OF assms that(1,2)] that(3) by blast
    then have "unat b \<notin> ext (a, s)" "unat a \<notin> ext (b, t)" by (auto simp: ext_def)
    then show ?thesis by (auto simp: ext_def)
  qed
  then show ?thesis using ok by (fastforce simp: apart_def blk_ok_def)
qed

section \<open>List segments\<close>

primrec lseg :: "km_core \<Rightarrow> ptr \<Rightarrow> ptr list \<Rightarrow> ptr \<Rightarrow> bool" where
  "lseg c p [] q \<longleftrightarrow> p = q"
| "lseg c p (a # as) q \<longleftrightarrow> p = a \<and> a \<noteq> 0 \<and> lseg c (get_next c a) as q"

lemma lseg_append: "lseg c p (xs @ ys) q \<longleftrightarrow> (\<exists>r. lseg c p xs r \<and> lseg c r ys q)"
  by (induction xs arbitrary: p) auto

lemma lseg_cong: "(\<And>a. a \<in> set as \<Longrightarrow> get_next c' a = get_next c a) \<Longrightarrow> lseg c' p as q = lseg c p as q"
  by (induction as arbitrary: p) auto

text \<open>The free list of \<open>c\<close> holds the blocks \<open>L\<close>, in this order.\<close>

definition hrep :: "km_core \<Rightarrow> block list \<Rightarrow> bool" where
  "hrep c L \<longleftrightarrow> lseg c (slist c) (map fst L) NULL \<and> (\<forall>b \<in> set L. get_size c (fst b) = snd b) \<and> heap L"

lemma heap_distinct: "heap L \<Longrightarrow> distinct (map fst L)"
proof (induction L)
  case (Cons b L)
  have "fst d \<noteq> fst b" if "d \<in> set L" for d
  proof
    assume eq: "fst d = fst b"
    have "unat (fst b) \<in> ext b" by (simp add: ext_def)
    moreover have "unat (fst b) \<in> ext d" by (simp add: ext_def eq)
    ultimately show False using that Cons.prems by (auto simp: heap_simps fr_def)
  qed
  then have "fst b \<notin> fst ` set L" by force
  then show ?case using Cons by (simp add: heap_simps)
qed simp

definition prev_of :: "block list \<Rightarrow> ptr" where
  "prev_of pre = (if pre = [] then NULL else fst (last pre))"

definition relink :: "ptr \<Rightarrow> ptr \<Rightarrow> km_core \<Rightarrow> km_core" where
  "relink par v c = (if par = NULL then c\<lparr>slist := v\<rparr> else set_next par v c)"

lemma prev_of_NULL:
  assumes "apart A" and "fst ` set pre \<subseteq> A"
  shows "prev_of pre = NULL \<longleftrightarrow> pre = []" and "pre \<noteq> [] \<Longrightarrow> prev_of pre \<in> A"
proof -
  have in_A: "fst (last pre) \<in> A" if "pre \<noteq> []" using assms(2) that by auto
  then show "pre \<noteq> [] \<Longrightarrow> prev_of pre \<in> A" by (simp add: prev_of_def)
  have "0 \<notin> A" using assms(1) by (auto simp: apart_def dest!: bspec [of A _ 0])
  then show "prev_of pre = NULL \<longleftrightarrow> pre = []"
    using in_A by (cases "pre = []") (simp_all add: prev_of_def, metis)
qed

lemma relink_fields:
  assumes A: "apart A" "fst ` set pre \<subseteq> A" and a: "a \<in> A"
  shows "get_size (relink (prev_of pre) v c) a = get_size c a"
    and "a \<noteq> prev_of pre \<Longrightarrow> get_next (relink (prev_of pre) v c) a = get_next c a"
  using prev_of_NULL [OF A] get_set [OF A(1) _ a, of "prev_of pre"]
  by (cases "pre = []"; simp add: relink_def)+

lemma relink_lseg:
  assumes A: "apart A" "fst ` set (pre @ post) \<subseteq> A" and d: "distinct (map fst (pre @ post))"
    and l: "lseg c (slist c) (map fst pre) q" "lseg c v (map fst post) NULL"
  shows "lseg (relink (prev_of pre) v c) (slist (relink (prev_of pre) v c)) (map fst (pre @ post)) NULL"
proof (cases pre rule: rev_cases)
  case Nil
  have "lseg (c\<lparr>slist := v\<rparr>) v (map fst post) NULL" using l(2) by (subst lseg_cong [of _ _ c]) simp_all
  then show ?thesis using Nil by (simp add: relink_def prev_of_def)
next
  case (snoc xs x)
  have x: "fst x \<noteq> 0" "fst x \<in> A" and lx: "lseg c (slist c) (map fst xs) (fst x)"
    using l(1) A snoc by (auto simp: lseg_append)
  let ?c = "set_next (fst x) v c"
  have keep: "get_next ?c a = get_next c a" if "a \<in> A" "a \<noteq> fst x" for a
    using get_set(3) [OF A(1) x(2) that(1)] that(2) by simp
  have in1: "a \<in> A \<and> a \<noteq> fst x" if "a \<in> set (map fst xs) \<or> a \<in> set (map fst post)" for a
    using that A(2) d unfolding snoc by (simp, blast)
  have "lseg ?c (slist c) (map fst xs) (fst x)"
    using lx by (subst lseg_cong [of _ _ c]) (simp_all add: keep in1)
  moreover have "lseg ?c v (map fst post) NULL"
    using l(2) by (subst lseg_cong [of _ _ c]) (simp_all add: keep in1)
  moreover have "get_next ?c (fst x) = v" using get_set(5) [OF A(1) x(2) x(2)] .
  ultimately show ?thesis using snoc x(1) by (auto simp: relink_def prev_of_def lseg_append)
qed

lemma relink_frame:
  assumes "heap pre"
  shows "same_out (fr pre) (kmem c) (kmem (relink (prev_of pre) v c))"
proof (cases pre rule: rev_cases)
  case (snoc xs x)
  have "same_out (ext x) (kmem c) (kmem (set_next (fst x) v c))"
    using assms snoc by (intro set_frame) (auto simp: heap_simps)
  then show ?thesis using snoc by (auto simp: relink_def prev_of_def elim!: same_out_mono)
qed (simp add: relink_def prev_of_def)

section \<open>Merging\<close>

definition first_of :: "block list \<Rightarrow> ptr" where
  "first_of L = (case L of [] \<Rightarrow> NULL | b # _ \<Rightarrow> fst b)"

lemma first_of_Cons: "first_of (b # L) = fst b"
  by (simp add: first_of_def)

text \<open>
  State of the merge loop: the list consists of the visited part \<open>pre\<close> and the rest \<open>suf\<close>, the block being
  added is \<open>mt\<close>, off the list; it has grown from the range from \<open>B\<close> to \<open>E\<close>.
\<close>

definition merging :: "km_core \<Rightarrow> block list \<Rightarrow> block list \<Rightarrow> block \<Rightarrow> nat \<Rightarrow> nat \<Rightarrow> bool" where
  "merging c pre suf mt B E \<longleftrightarrow> hrep c (pre @ suf) \<and> heap (mt # pre @ suf)
     \<and> get_size c (fst mt) = snd mt \<and> unat (fst mt) \<le> B \<and> B < E \<and> E \<le> unat (fst mt) + unat (snd mt) + 16"

lemma lseg_first: "lseg c p (map fst L) NULL \<Longrightarrow> p = first_of L"
  by (cases L) (auto simp: first_of_def)

text \<open>Unlinking a block from the middle of the list and writing the size of the block that absorbs it.\<close>

lemma absorb:
  assumes rep: "hrep c (pre @ b # rest)" and hp: "heap (mt # pre @ b # rest)"
    and t: "t = fst mt \<or> t = fst b" and c': "c' = set_size t v (relink (prev_of pre) (get_next c (fst b)) c)"
  shows "lseg c' (slist c') (map fst (pre @ rest)) NULL" and "get_next c' (fst b) = first_of rest"
    and "\<And>d. d \<in> set (pre @ rest) \<Longrightarrow> get_size c' (fst d) = snd d" and "get_size c' t = v"
    and "same_out (fr (mt # pre @ b # rest)) (kmem c) (kmem c')"
proof -
  let ?A = "fst ` set (mt # pre @ b # rest)" and ?c1 = "relink (prev_of pre) (get_next c (fst b)) c"
  note A = heap_apart [OF hp] and dist = heap_distinct [OF hp]
  have sub: "fst ` set pre \<subseteq> ?A" "fst ` set (pre @ rest) \<subseteq> ?A" by auto
  have tA: "t \<in> ?A" and bA: "fst b \<in> ?A" using t by auto
  obtain q where l: "lseg c (slist c) (map fst pre) q" "lseg c (get_next c (fst b)) (map fst rest) NULL"
    using rep by (auto simp: hrep_def lseg_append)
  have "lseg ?c1 (slist ?c1) (map fst (pre @ rest)) NULL"
    by (rule relink_lseg [OF A sub(2) _ l]) (use dist in auto)
  then show "lseg c' (slist c') (map fst (pre @ rest)) NULL"
    unfolding c' using get_set(1) [OF A tA] sub(2) by (subst lseg_cong [of _ _ ?c1]) (simp_all, blast)
  have bp: "fst b \<noteq> prev_of pre"
    using dist prev_of_NULL [OF A sub(1)] hp by (auto simp: prev_of_def heap_simps blk_ok_def)
  show "get_next c' (fst b) = first_of rest"
    unfolding c' using get_set(1) [OF A tA bA] relink_fields(2) [OF A sub(1) bA bp] lseg_first [OF l(2)] by simp
  show "get_size c' t = v" unfolding c' using get_set(6) [OF A tA tA] .
  show "get_size c' (fst d) = snd d" if d: "d \<in> set (pre @ rest)" for d
  proof -
    have dA: "fst d \<in> ?A" using d by auto
    have "fst d \<in> fst ` set pre \<union> fst ` set rest" using d by auto
    moreover have "fst mt \<notin> fst ` set pre \<union> fst ` set rest" "fst b \<notin> fst ` set pre \<union> fst ` set rest"
      using dist by simp_all
    ultimately have "t \<noteq> fst d" using t by metis
    then show ?thesis
      unfolding c' using get_set(4) [OF A tA dA] relink_fields(1) [OF A sub(1) dA] rep d by (auto simp: hrep_def)
  qed
  obtain e where e': "e = mt \<or> e = b" "t = fst e" using t by blast
  then have e: "e \<in> set (mt # pre @ b # rest)" "t = fst e" by auto
  have "blk_ok e" using hp e(1) by (auto simp: heap_def)
  then have "same_out (ext e) (kmem ?c1) (kmem c')" unfolding c' e(2) by (rule set_frame)
  moreover have "ext e \<subseteq> fr (mt # pre @ b # rest)" using e(1) by (auto simp: fr_def)
  moreover have "same_out (fr pre) (kmem c) (kmem ?c1)" by (rule relink_frame) (use hp in \<open>simp add: heap_simps\<close>)
  moreover have "fr pre \<subseteq> fr (mt # pre @ b # rest)" by auto
  ultimately show "same_out (fr (mt # pre @ b # rest)) (kmem c) (kmem c')"
    by (meson same_out_mono same_out_trans)
qed

lemma join_blocks:
  assumes "blk_ok b" and "blk_ok d" and "unat (fst b) + unat (snd b) + 16 = unat (fst d)"
  shows "unat (snd b + (snd d + 16)) = unat (snd b) + (unat (snd d) + 16)"
    and "blk_ok (fst b, snd b + (snd d + 16))" and "ext (fst b, snd b + (snd d + 16)) = ext b \<union> ext d"
proof -
  have lt: "unat (snd b) + (unat (snd d) + 16) < 2 ^ 64" "unat (snd d) + 16 < 2 ^ 64"
    using assms by (simp_all add: blk_ok_def)
  have "unat (snd d + 16) = unat (snd d) + 16" by (rule unat_add_numeral [OF lt(2)])
  then show u: "unat (snd b + (snd d + 16)) = unat (snd b) + (unat (snd d) + 16)"
    using lt(1) by (subst unat_add_nowrap) simp_all
  show "blk_ok (fst b, snd b + (snd d + 16))" using assms by (simp add: blk_ok_def u)
  show "ext (fst b, snd b + (snd d + 16)) = ext b \<union> ext d"
    using assms(3) by (auto simp: ext_def u)
qed

lemma end_addr:
  assumes "blk_ok b"
  shows "fst b + snd b + 16 = p \<longleftrightarrow> unat (fst b) + unat (snd b) + 16 = unat p"
proof -
  have "unat (fst b + snd b) = unat (fst b) + unat (snd b)"
    using assms by (intro unat_add_nowrap) (simp add: blk_ok_def)
  moreover have "unat (fst b + snd b + 16) = unat (fst b + snd b) + 16"
    using assms calculation by (intro unat_add_numeral) (simp add: blk_ok_def)
  ultimately show ?thesis by (metis word_unat_eq_iff)
qed

lemma blk_ok_nonzero: "blk_ok b \<Longrightarrow> fst b \<noteq> 0"
  by (rule notI) (simp add: blk_ok_def)

lemma overlap_start:
  assumes "ext b \<inter> ext d = {}" and "unat (fst b) + unat (snd b) + 16 = B" and "unat (fst d) \<le> B"
    and "B < unat (fst d) + unat (snd d) + 16"
  shows "unat (fst d) = B"
proof (rule ccontr)
  assume "unat (fst d) \<noteq> B"
  then have "B - 1 \<in> ext b" "B - 1 \<in> ext d" using assms(2-4) by (auto simp: ext_def)
  then show False using assms(1) by blast
qed

lemma overlap_end:
  assumes "ext b \<inter> ext d = {}" and "unat (fst b) = E" and "unat (fst d) < E"
    and "E \<le> unat (fst d) + unat (snd d) + 16"
  shows "unat (fst d) + unat (snd d) + 16 = E"
proof (rule ccontr)
  assume "unat (fst d) + unat (snd d) + 16 \<noteq> E"
  then have "E \<in> ext b" "E \<in> ext d" using assms(2-4) by (auto simp: ext_def)
  then show False using assms(1) by blast
qed

lemma merge_step_ok:
  assumes mg: "merging c pre (b # rest) mt (unat block) (unat endA)"
  shows "\<exists>mt' pre' c'. merge_step block endA (fst b) (prev_of pre) (fst mt) c = (fst mt', prev_of pre', c')
     \<and> merging c' pre' rest mt' (unat block) (unat endA) \<and> get_next c' (fst b) = first_of rest
     \<and> (pre' = pre \<or> pre' = pre @ [b])
     \<and> fr (mt' # pre' @ rest) = fr (mt # pre @ b # rest)
     \<and> same_out (fr (mt # pre @ b # rest)) (kmem c) (kmem c')"
proof -
  have rep: "hrep c (pre @ b # rest)" and hp: "heap (mt # pre @ b # rest)" and ms: "get_size c (fst mt) = snd mt"
    and B: "unat (fst mt) \<le> unat block" "unat block < unat endA" "unat endA \<le> unat (fst mt) + unat (snd mt) + 16"
    using mg by (auto simp: merging_def)
  have ok: "blk_ok b" "blk_ok mt" and dj: "ext b \<inter> ext mt = {}" "heap (pre @ rest)"
      "ext mt \<inter> fr (pre @ rest) = {}" "ext b \<inter> fr (pre @ rest) = {}"
    using hp by (auto simp: heap_simps)
  have bs: "get_size c (fst b) = snd b" using rep by (simp add: hrep_def)
  let ?c1 = "relink (prev_of pre) (get_next c (fst b)) c"
  let ?A = "fst ` set (mt # pre @ b # rest)"
  note A = heap_apart [OF hp]
  have pre: "fst ` set pre \<subseteq> ?A" and bA: "fst b \<in> ?A" "fst mt \<in> ?A" by auto
  note sz = relink_fields(1) [OF A pre bA(1)] relink_fields(1) [OF A pre bA(2)]
  consider (fm) "fst b + snd b + 16 = block" | (bm) "fst b + snd b + 16 \<noteq> block" "endA = fst b"
    | (none) "fst b + snd b + 16 \<noteq> block" "endA \<noteq> fst b" by blast
  then show ?thesis
  proof cases
    case fm
    then have e: "unat (fst b) + unat (snd b) + 16 = unat block" using end_addr [OF ok(1)] by simp
    then have st: "unat (fst mt) = unat block" using overlap_start [OF dj(1) e B(1)] B by simp
    note j = join_blocks [OF ok, unfolded st, OF e]
    let ?mt = "(fst b, snd b + (snd mt + 16))" and ?c = "set_size (fst b) (snd b + (snd mt + 16)) ?c1"
    note ab = absorb [OF rep hp disjI2 [OF refl] refl, where v = "snd b + (snd mt + 16)"]
    have step: "merge_step block endA (fst b) (prev_of pre) (fst mt) c = (fst b, prev_of pre, ?c)"
      using fm bs ms sz(1)
      by (simp add: merge_step_def merge_with_front_def Let_def relink_def TOTAL_METADATA_SIZE_def)
    have "heap (?mt # pre @ rest)" using j(2,3) dj by (auto simp: heap_simps)
    then have "merging ?c pre rest ?mt (unat block) (unat endA)"
      using ab dj(2) B e j(1) st by (auto simp: merging_def hrep_def)
    moreover have "fr (?mt # pre @ rest) = fr (mt # pre @ b # rest)" using j(3) by auto
    ultimately show ?thesis using step ab(2,5) by (intro exI [of _ ?mt] exI [of _ pre] exI [of _ ?c]) simp
  next
    case bm
    then have eb: "unat (fst b) = unat endA" by simp
    have lt: "unat (fst mt) < unat endA" using B by simp
    have e: "unat (fst mt) + unat (snd mt) + 16 = unat (fst b)" using overlap_end [OF dj(1) eb lt B(3)] eb by simp
    note j = join_blocks [OF ok(2,1) e]
    let ?mt = "(fst mt, snd mt + (snd b + 16))" and ?c = "set_size (fst mt) (snd mt + (snd b + 16)) ?c1"
    note ab = absorb [OF rep hp disjI1 [OF refl] refl, where v = "snd mt + (snd b + 16)"]
    have step: "merge_step block endA (fst b) (prev_of pre) (fst mt) c = (fst mt, prev_of pre, ?c)"
      using bm bs ms sz
      by (simp add: merge_step_def merge_with_back_def Let_def relink_def TOTAL_METADATA_SIZE_def)
    have "heap (?mt # pre @ rest)" using j(2,3) dj by (auto simp: heap_simps)
    then have "merging ?c pre rest ?mt (unat block) (unat endA)"
      using ab dj(2) B j(1) by (auto simp: merging_def hrep_def)
    moreover have "fr (?mt # pre @ rest) = fr (mt # pre @ b # rest)" using j(3) by auto
    ultimately show ?thesis using step ab(2,5) by (intro exI [of _ ?mt] exI [of _ pre] exI [of _ ?c]) simp
  next
    case none
    have step: "merge_step block endA (fst b) (prev_of pre) (fst mt) c = (fst mt, prev_of (pre @ [b]), c)"
      using none bs by (simp add: merge_step_def TOTAL_METADATA_SIZE_def prev_of_def)
    have "get_next c (fst b) = first_of rest"
      using rep lseg_first [of c "get_next c (fst b)" rest] by (auto simp: hrep_def lseg_append)
    then show ?thesis
      using step mg by (intro exI [of _ mt] exI [of _ "pre @ [b]"] exI [of _ c]) (simp add: merging_def)
  qed
qed

lemma merge_loop_ok:
  assumes "merging c pre suf mt (unat block) (unat endA)"
  shows "\<exists>mt' suf' c'. merge_loop block endA (first_of suf) (prev_of pre) (fst mt) c = Some (fst mt', c')
     \<and> merging c' (pre @ suf') [] mt' (unat block) (unat endA) \<and> set suf' \<subseteq> set suf
     \<and> (by_size suf \<longrightarrow> by_size suf')
     \<and> fr (mt' # pre @ suf') = fr (mt # pre @ suf) \<and> same_out (fr (mt # pre @ suf)) (kmem c) (kmem c')"
  using assms
proof (induction suf arbitrary: c pre mt)
  case Nil
  have "merge_loop block endA (first_of []) (prev_of pre) (fst mt) c = Some (fst mt, c)"
    by (subst merge_loop.simps) (simp add: first_of_def)
  then show ?case using Nil by (intro exI [of _ mt] exI [of _ "[]"] exI [of _ c]) simp
next
  case (Cons b rest)
  obtain mt1 pre1 c1 where st: "merge_step block endA (fst b) (prev_of pre) (fst mt) c = (fst mt1, prev_of pre1, c1)"
      "merging c1 pre1 rest mt1 (unat block) (unat endA)" "get_next c1 (fst b) = first_of rest"
      "pre1 = pre \<or> pre1 = pre @ [b]" "fr (mt1 # pre1 @ rest) = fr (mt # pre @ b # rest)"
      "same_out (fr (mt # pre @ b # rest)) (kmem c) (kmem c1)"
    using merge_step_ok [OF Cons.prems] by blast
  obtain mt2 suf2 c2 where IH: "merge_loop block endA (first_of rest) (prev_of pre1) (fst mt1) c1 = Some (fst mt2, c2)"
      "merging c2 (pre1 @ suf2) [] mt2 (unat block) (unat endA)" "set suf2 \<subseteq> set rest"
      "by_size rest \<longrightarrow> by_size suf2" "fr (mt2 # pre1 @ suf2) = fr (mt1 # pre1 @ rest)"
      "same_out (fr (mt1 # pre1 @ rest)) (kmem c1) (kmem c2)"
    using Cons.IH [OF st(2)] by blast
  have "blk_ok b" using Cons.prems by (simp add: merging_def heap_simps)
  then have nz: "fst b \<noteq> 0" by (rule blk_ok_nonzero)
  have run: "merge_loop block endA (first_of (b # rest)) (prev_of pre) (fst mt) c = Some (fst mt2, c2)"
    using st(1,3) IH(1) nz by (subst merge_loop.simps) (simp only: first_of_Cons if_False prod.case)
  have so: "same_out (fr (mt # pre @ b # rest)) (kmem c) (kmem c2)"
    using same_out_trans [OF st(6) IH(6) [unfolded st(5)]] .
  have frs: "fr (mt2 # pre1 @ suf2) = fr (mt # pre @ b # rest)" using st(5) IH(5) by simp
  show ?case
  proof (cases "pre1 = pre")
    case True
    then show ?thesis using run IH so frs
      by (intro exI [of _ mt2] exI [of _ suf2] exI [of _ c2]) (auto simp: by_size_def)
  next
    case False
    then have p1: "pre1 = pre @ [b]" using st(4) by blast
    have "by_size (b # rest) \<longrightarrow> by_size (b # suf2)" using IH(3,4) by (auto simp: by_size_def)
    then show ?thesis using run IH so frs unfolding p1
      by (intro exI [of _ mt2] exI [of _ "b # suf2"] exI [of _ c2]) auto
  qed
qed

section \<open>Insertion by size\<close>

lemma hrep_heap: "hrep c L \<Longrightarrow> heap L"
  by (simp add: hrep_def)

lemma heap_perm_insert: "heap (mt # pre @ post) \<longleftrightarrow> heap (pre @ mt # post)"
  by (auto simp: heap_simps)

lemma link_after_ok:
  assumes rep: "hrep c (pre @ x # post)" and hp: "heap (mt # pre @ x # post)" and ms: "get_size c (fst mt) = snd mt"
  shows "hrep (link_after (fst x) (fst mt) c) (pre @ x # mt # post)"
    and "same_out (fr (mt # pre @ x # post)) (kmem c) (kmem (link_after (fst x) (fst mt) c))"
proof -
  let ?A = "fst ` set (mt # pre @ x # post)"
  let ?c1 = "set_next (fst mt) (get_next c (fst x)) c" and ?c2 = "link_after (fst x) (fst mt) c"
  note A = heap_apart [OF hp] and dist = heap_distinct [OF hp]
  have mA: "fst mt \<in> ?A" "fst x \<in> ?A" by auto
  have nz: "fst mt \<noteq> 0" "fst x \<noteq> 0" by (rule blk_ok_nonzero, use hp in \<open>simp add: heap_simps\<close>)+
  have mx: "fst mt \<noteq> fst x" using dist by auto
  have sz: "get_size ?c2 a = get_size c a" if "a \<in> ?A" for a
    using get_set(2) [OF A mA(1) that] get_set(2) [OF A mA(2) that] by (simp add: link_after_def Let_def)
  have nx: "get_next ?c2 a = get_next c a" if "a \<in> ?A" "a \<noteq> fst mt" "a \<noteq> fst x" for a
    using get_set(3) [OF A mA(1) that(1)] get_set(3) [OF A mA(2) that(1)] that
    by (auto simp: link_after_def Let_def)
  have nm: "get_next ?c2 (fst mt) = get_next c (fst x)" "get_next ?c2 (fst x) = fst mt"
    using get_set(3) [OF A mA(2) mA(1)] get_set(5) [OF A mA(1) mA(1)] get_set(5) [OF A mA(2) mA(2)] mx
    by (auto simp: link_after_def Let_def)
  have l: "lseg c (slist c) (map fst pre) (fst x)" "lseg c (get_next c (fst x)) (map fst post) NULL"
    using rep by (auto simp: hrep_def lseg_append)
  have other: "a \<in> ?A \<and> a \<noteq> fst mt \<and> a \<noteq> fst x" if "a \<in> set (map fst pre) \<or> a \<in> set (map fst post)" for a
    using that dist by (simp, blast)
  then have nx1: "get_next ?c2 a = get_next c a" if "a \<in> set (map fst pre) \<or> a \<in> set (map fst post)" for a
    using nx that by blast
  have "lseg ?c2 (slist c) (map fst pre) (fst x)"
    using l(1) lseg_cong [of "map fst pre" ?c2 c] nx1 by blast
  moreover have "lseg ?c2 (get_next c (fst x)) (map fst post) NULL"
    using l(2) lseg_cong [of "map fst post" ?c2 c] nx1 by blast
  moreover have "slist ?c2 = slist c" by (simp add: link_after_def Let_def)
  ultimately have lst: "lseg ?c2 (slist ?c2) (map fst (pre @ x # mt # post)) NULL"
    using nz nm by (auto simp: lseg_append)
  have "get_size ?c2 (fst d) = snd d" if "d \<in> set (pre @ x # mt # post)" for d
    using sz [of "fst d"] that rep ms by (auto simp: hrep_def)
  then show "hrep ?c2 (pre @ x # mt # post)" using lst hp by (auto simp: hrep_def heap_simps)
  have "blk_ok mt" "blk_ok x" using hp by (simp_all add: heap_simps)
  then have "same_out (ext mt) (kmem c) (kmem ?c1)" "same_out (ext x) (kmem ?c1) (kmem ?c2)"
    by (simp_all add: set_frame link_after_def Let_def)
  then show "same_out (fr (mt # pre @ x # post)) (kmem c) (kmem ?c2)"
    by (elim same_out_trans [OF same_out_mono same_out_mono]) auto
qed

lemma insert_loop_ok:
  assumes "hrep c (pre @ x # post)" and "heap (mt # pre @ x # post)" and "get_size c (fst mt) = snd mt"
  shows "\<exists>u v c'. insert_loop (fst mt) (fst x) c = Some c' \<and> post = u @ v \<and> hrep c' (pre @ x # u @ mt # v)
     \<and> (\<forall>d \<in> set u. snd d < snd mt) \<and> (v \<noteq> [] \<longrightarrow> snd mt \<le> snd (hd v))
     \<and> same_out (fr (mt # pre @ x # post)) (kmem c) (kmem c')"
  using assms
proof (induction post arbitrary: pre x)
  case Nil
  have nz: "fst x \<noteq> 0" by (rule blk_ok_nonzero) (use Nil in \<open>simp add: heap_simps\<close>)
  have "get_next c (fst x) = 0" using Nil(1) by (auto simp: hrep_def lseg_append)
  then have "insert_loop (fst mt) (fst x) c = Some (link_after (fst x) (fst mt) c)"
    using nz by (subst insert_loop.simps) simp
  then show ?case using link_after_ok [OF Nil]
    by (intro exI [of _ "[]"] exI [of _ "link_after (fst x) (fst mt) c"]) simp
next
  case (Cons y post)
  have nz: "fst x \<noteq> 0" "fst y \<noteq> 0" by (rule blk_ok_nonzero, use Cons.prems in \<open>simp add: heap_simps\<close>)+
  have nx: "get_next c (fst x) = fst y" using Cons.prems(1) by (auto simp: hrep_def lseg_append)
  have sy: "get_size c (fst y) = snd y" using Cons.prems(1) by (simp add: hrep_def)
  show ?case
  proof (cases "snd mt \<le> snd y")
    case True
    then have "insert_loop (fst mt) (fst x) c = Some (link_after (fst x) (fst mt) c)"
      using nz nx sy Cons.prems(3) by (subst insert_loop.simps) simp
    then show ?thesis using link_after_ok [OF Cons.prems] True
      by (intro exI [of _ "[]"] exI [of _ "y # post"] exI [of _ "link_after (fst x) (fst mt) c"]) simp
  next
    case False
    then have step: "insert_loop (fst mt) (fst x) c = insert_loop (fst mt) (fst y) c"
      using nz nx sy Cons.prems(3) by (subst insert_loop.simps) simp
    have p: "hrep c ((pre @ [x]) @ y # post)" "heap (mt # (pre @ [x]) @ y # post)" using Cons.prems by simp_all
    obtain u v c' where "insert_loop (fst mt) (fst y) c = Some c'" "post = u @ v"
        "hrep c' ((pre @ [x]) @ y # u @ mt # v)" "\<forall>d \<in> set u. snd d < snd mt" "v \<noteq> [] \<longrightarrow> snd mt \<le> snd (hd v)"
        "same_out (fr (mt # (pre @ [x]) @ y # post)) (kmem c) (kmem c')"
      using Cons.IH [OF p Cons.prems(3)] by blast
    then show ?thesis using step False
      by (intro exI [of _ "y # u"] exI [of _ v] exI [of _ c']) auto
  qed
qed

lemma push_front_ok:
  assumes rep: "hrep c L" and hp: "heap (mt # L)" and ms: "get_size c (fst mt) = snd mt"
  defines "c' \<equiv> (set_next (fst mt) (slist c) c)\<lparr>slist := fst mt\<rparr>"
  shows "hrep c' (mt # L)" and "same_out (fr (mt # L)) (kmem c) (kmem c')"
proof -
  let ?A = "fst ` set (mt # L)"
  note A = heap_apart [OF hp] and dist = heap_distinct [OF hp]
  have mA: "fst mt \<in> ?A" by simp
  have ok: "blk_ok mt" using hp by (simp add: heap_simps)
  have nx: "get_next c' a = get_next c a" if "a \<in> set (map fst L)" for a
  proof -
    have "a \<in> ?A" using that by simp
    moreover have "fst mt \<noteq> a" using that dist by (simp, blast)
    ultimately show ?thesis using get_set(3) [OF A mA] by (simp add: c'_def)
  qed
  have sz: "get_size c' (fst d) = snd d" if "d \<in> set (mt # L)" for d
  proof -
    have "fst d \<in> ?A" using that by auto
    then show ?thesis using get_set(2) [OF A mA, of "fst d"] that rep ms by (auto simp: c'_def hrep_def)
  qed
  have "lseg c' (slist c) (map fst L) NULL"
    using rep nx by (subst lseg_cong [of _ _ c]) (simp_all add: hrep_def)
  moreover have "get_next c' (fst mt) = slist c" using get_set(5) [OF A mA mA] by (simp add: c'_def)
  moreover have "slist c' = fst mt" by (simp add: c'_def)
  ultimately show "hrep c' (mt # L)" using sz hp blk_ok_nonzero [OF ok] by (simp add: hrep_def)
  have "same_out (ext mt) (kmem c) (kmem c')" using set_frame(1) [OF ok] by (simp add: c'_def)
  then show "same_out (fr (mt # L)) (kmem c) (kmem c')" by (elim same_out_mono) simp
qed

lemma by_size_append:
  "by_size (L @ M) \<longleftrightarrow> by_size L \<and> by_size M \<and> (\<forall>a \<in> set L. \<forall>b \<in> set M. snd a \<le> snd b)"
  by (simp add: by_size_def sorted_append word_le_nat_alt)

lemma by_size_Cons: "by_size (a # L) \<longleftrightarrow> (\<forall>b \<in> set L. snd a \<le> snd b) \<and> by_size L"
  by (simp add: by_size_def word_le_nat_alt)

lemma by_size_hd: "by_size v \<Longrightarrow> v \<noteq> [] \<longrightarrow> s \<le> snd (hd v) \<Longrightarrow> d \<in> set v \<Longrightarrow> s \<le> snd d"
  by (cases v) (auto simp: by_size_Cons intro: order_trans)

text \<open>
  \<^verbatim>\<open>add_block\<close> always returns; it adds exactly the bytes of the block to the free list, whatever merging takes
  place, and writes to free bytes only.
\<close>

lemma add_block_ok:
  assumes rep: "hrep c L" and ok: "blk_ok (p, raw - 16)" and raw: "24 \<le> raw" and dj: "ext (p, raw - 16) \<inter> fr L = {}"
  shows "\<exists>q c' L'. add_block p raw c = Ret (q, c') \<and> hrep c' L' \<and> fr L' = fr L \<union> ext (p, raw - 16)
     \<and> (by_size L \<longrightarrow> by_size L') \<and> same_out (fr L') (kmem c) (kmem c') \<and> (\<exists>d \<in> set L'. ext (p, raw - 16) \<subseteq> ext d)"
proof -
  let ?mt = "(p, raw - 16)" and ?c1 = "set_size p (raw - 16) c"
  have hp: "heap (?mt # L)" using hrep_heap [OF rep] ok dj by (simp add: heap_simps)
  note A = heap_apart [OF hp]
  have pA: "p \<in> fst ` set (?mt # L)" by simp
  have g1: "get_size ?c1 p = raw - 16" using get_set(6) [OF A pA pA] .
  have dist: "p \<notin> set (map fst L)" using heap_distinct [OF hp] by simp
  have rep1: "hrep ?c1 L"
  proof -
    have "get_size ?c1 (fst d) = snd d" if "d \<in> set L" for d
    proof -
      have dA: "fst d \<in> fst ` set (?mt # L)" and "p \<noteq> fst d" using that dist by auto
      then show ?thesis using get_set(4) [OF A pA dA] rep that by (simp add: hrep_def)
    qed
    moreover have "lseg ?c1 (slist c) (map fst L) NULL"
      using rep get_set(1) [OF A pA] by (subst lseg_cong [of _ _ c]) (simp_all add: hrep_def)
    ultimately show ?thesis using hrep_heap [OF rep] by (simp add: hrep_def)
  qed
  let ?E = "p + 16 + (raw - 16)"
  have "p + (raw - 16) + 16 = ?E" by simp
  then have E: "unat ?E = unat p + unat (raw - 16) + 16" using end_addr [OF ok] by (metis fst_conv snd_conv)
  have "merging ?c1 [] L ?mt (unat p) (unat ?E)"
    using rep1 hp g1 E by (simp add: merging_def)
  from merge_loop_ok [OF this] obtain mt M c2 where
    run: "merge_loop p ?E (slist ?c1) NULL p ?c1 = Some (fst mt, c2)"
    and mg: "merging c2 M [] mt (unat p) (unat ?E)"
    and srt: "by_size L \<longrightarrow> by_size M" and frs: "fr (mt # M) = fr (?mt # L)"
    and so2: "same_out (fr (?mt # L)) (kmem ?c1) (kmem c2)"
    using lseg_first rep1 by (fastforce simp: prev_of_def hrep_def)
  have cover: "ext ?mt \<subseteq> ext mt" using mg E by (auto simp: merging_def ext_def)
  have rep2: "hrep c2 M" and hp2: "heap (mt # M)" and g2: "get_size c2 (fst mt) = snd mt"
    using mg by (simp_all add: merging_def)
  have "same_out (ext ?mt) (kmem c) (kmem ?c1)" using set_frame(2) [OF ok] by simp
  then have so: "same_out (fr (mt # M)) (kmem c) (kmem c2)"
    unfolding frs by (intro same_out_trans [OF same_out_mono so2]) auto
  have lt: "\<not> raw < MIN_BLOCK_SIZE" using raw by (simp add: MIN_BLOCK_SIZE_def TOTAL_METADATA_SIZE_def)
  have pre: "add_block p raw c = (if slist c2 \<noteq> NULL \<and> get_size c2 (slist c2) < get_size c2 (fst mt)
      then case insert_loop (fst mt) (slist c2) c2 of None \<Rightarrow> Hang | Some c3 \<Rightarrow> Ret (fst mt, c3)
      else Ret (fst mt, (set_next (fst mt) (slist c2) c2)\<lparr>slist := fst mt\<rparr>))"
    using lt run g1 by (simp add: add_block_def Let_def TOTAL_METADATA_SIZE_def)
  have first: "slist c2 = first_of M" using rep2 lseg_first by (auto simp: hrep_def)
  show ?thesis
  proof (cases "M \<noteq> [] \<and> snd (hd M) < snd mt")
    case True
    then obtain x post where M: "M = x # post" by (cases M) auto
    have nz: "fst x \<noteq> 0" by (rule blk_ok_nonzero) (use hp2 M in \<open>simp add: heap_simps\<close>)
    have gx: "get_size c2 (fst x) = snd x" using rep2 M by (simp add: hrep_def)
    have pp: "hrep c2 ([] @ x # post)" "heap (mt # [] @ x # post)" using rep2 hp2 M by simp_all
    from insert_loop_ok [OF pp g2] obtain u v c3 where
      i: "insert_loop (fst mt) (fst x) c2 = Some c3" "post = u @ v" "hrep c3 (x # u @ mt # v)"
        "\<forall>d \<in> set u. snd d < snd mt" "v \<noteq> [] \<longrightarrow> snd mt \<le> snd (hd v)"
        "same_out (fr (mt # x # post)) (kmem c2) (kmem c3)"
      unfolding append_Nil by blast
    have "add_block p raw c = Ret (fst mt, c3)"
      using pre first M nz gx g2 True i(1) by (simp add: first_of_Cons)
    moreover have "fr (x # u @ mt # v) = fr L \<union> ext ?mt" using frs M i(2) by auto
    moreover have "by_size L \<longrightarrow> by_size (x # u @ mt # v)"
      using srt True i(2,4,5) M by_size_hd [of v "snd mt"]
      by (auto simp: by_size_append by_size_Cons less_imp_le)
    moreover have "same_out (fr (x # u @ mt # v)) (kmem c) (kmem c3)"
      using same_out_trans [OF so i(6) [folded M]] M i(2) by (elim same_out_mono) auto
    moreover have "mt \<in> set (x # u @ mt # v)" by simp
    ultimately show ?thesis using i(3) cover by blast
  next
    case False
    let ?c3 = "(set_next (fst mt) (slist c2) c2)\<lparr>slist := fst mt\<rparr>"
    have ge: "\<not> (slist c2 \<noteq> NULL \<and> get_size c2 (slist c2) < get_size c2 (fst mt))"
      using False first g2 rep2 by (cases M) (auto simp: first_of_def hrep_def)
    have "add_block p raw c = Ret (fst mt, ?c3)" using pre ge by (simp only: if_False)
    moreover have "M \<noteq> [] \<longrightarrow> snd mt \<le> snd (hd M)" using False by auto
    then have "by_size L \<longrightarrow> by_size (mt # M)"
      using srt by_size_hd [of M "snd mt"] unfolding by_size_Cons by blast
    moreover have "same_out (fr (mt # M)) (kmem c) (kmem ?c3)"
      using push_front_ok(2) [OF rep2 hp2 g2] same_out_trans [OF so] by blast
    ultimately show ?thesis using push_front_ok(1) [OF rep2 hp2 g2] frs cover by (metis Un_commute fr_simps(2) list.set_intros(1))
  qed
qed

section \<open>Allocation from the list\<close>

lemma ld64_same_out:
  assumes "same_out R m m'" and "{unat a..<unat a + 8} \<inter> R = {}" and "unat a + 8 \<le> 2 ^ 64"
  shows "ld64 m' a = ld64 m a"
proof -
  have "eq_on (region a 8) m m'"
    unfolding eq_on_def
  proof
    fix x assume "x \<in> region a 8"
    then have "unat x \<in> {unat a..<unat a + 8}" using in_region_nat [OF assms(3)] by simp
    then have "unat x \<notin> R" using assms(2) by blast
    then show "m x = m' x" using assms(1) by (simp add: same_out_def)
  qed
  then show ?thesis by (rule ld64_cong [symmetric])
qed

lemma header_same_out:
  assumes "same_out R (kmem c) (kmem c')" and "{unat a..<unat a + 16} \<inter> R = {}" and "unat a + 16 < 2 ^ 64"
  shows "get_next c' a = get_next c a" and "get_size c' a = get_size c a"
proof -
  have u: "unat (a + 8) = unat a + 8" by (rule unat_add8 [OF assms(3)])
  have "{unat a..<unat a + 8} \<subseteq> {unat a..<unat a + 16}" "{unat a + 8..<unat a + 8 + 8} \<subseteq> {unat a..<unat a + 16}"
    by auto
  then have d: "{unat a..<unat a + 8} \<inter> R = {}" "{unat a + 8..<unat a + 8 + 8} \<inter> R = {}" using assms(2) by blast+
  show "get_next c' a = get_next c a"
    unfolding get_next_def by (rule ld64_same_out [OF assms(1)]) (use d assms(3) in auto)
  show "get_size c' a = get_size c a"
    unfolding get_size_def by (rule ld64_same_out [OF assms(1)]) (use d assms(3) in \<open>auto simp: u\<close>)
qed

lemma ext_header: "blk_ok b \<Longrightarrow> {unat (fst b)..<unat (fst b) + 16} \<subseteq> ext b" "blk_ok b \<Longrightarrow> unat (fst b) + 16 < 2 ^ 64"
  by (auto simp: ext_def blk_ok_def)

lemma hrep_frame:
  assumes rep: "hrep c L" and so: "same_out R (kmem c) (kmem c')" and dj: "R \<inter> fr L = {}" and sl: "slist c' = slist c"
  shows "hrep c' L"
proof -
  have f: "get_next c' (fst b) = get_next c (fst b)" "get_size c' (fst b) = get_size c (fst b)" if "b \<in> set L" for b
  proof -
    have ok: "blk_ok b" using rep that by (auto simp: hrep_def heap_def)
    have "ext b \<subseteq> fr L" using that by (auto simp: fr_def)
    then have "{unat (fst b)..<unat (fst b) + 16} \<inter> R = {}" using ext_header(1) [OF ok] dj by blast
    then show "get_next c' (fst b) = get_next c (fst b)" "get_size c' (fst b) = get_size c (fst b)"
      using header_same_out [OF so _ ext_header(2) [OF ok]] by blast+
  qed
  have "get_next c' a = get_next c a" if "a \<in> set (map fst L)" for a using that f(1) by auto
  from lseg_cong [of "map fst L", OF this] show ?thesis using rep f(2) sl by (simp add: hrep_def)
qed

text \<open>A block satisfies a request when it matches exactly or can be split into two blocks.\<close>

definition fits :: "u64 \<Rightarrow> block \<Rightarrow> bool" where
  "fits req b \<longleftrightarrow> unat (snd b) = unat req \<or> unat req + 24 \<le> unat (snd b)"

text \<open>
  \<open>granted c L req q c' L'\<close>: the user pointer \<open>q\<close> heads a block of \<open>req\<close> bytes that was free before and is not
  free any more; its header holds the size, and only free bytes were written.
\<close>

definition granted :: "km_core \<Rightarrow> block list \<Rightarrow> u64 \<Rightarrow> ptr \<Rightarrow> km_core \<Rightarrow> block list \<Rightarrow> bool" where
  "granted c L req q c' L' \<longleftrightarrow> unat q = unat (q - 16) + 16 \<and> 0 < unat (q - 16) \<and> unat q + unat req < 2 ^ 64
     \<and> hrep c' L' \<and> ext (q - 16, req) \<subseteq> fr L \<and> fr L' = fr L - ext (q - 16, req)
     \<and> get_size c' (q - 16) = req \<and> same_out (fr L) (kmem c) (kmem c') \<and> (by_size L \<longrightarrow> by_size L')"

lemma unlink_ok:
  assumes rep: "hrep c (pre @ b # post)"
  defines "c1 \<equiv> relink (prev_of pre) (get_next c (fst b)) c"
  shows "hrep c1 (pre @ post)" and "get_size c1 (fst b) = snd b"
    and "same_out (fr (pre @ b # post)) (kmem c) (kmem c1)"
proof -
  have hp: "heap (pre @ b # post)" by (rule hrep_heap [OF rep])
  note A = heap_apart [OF hp] and dist = heap_distinct [OF hp]
  let ?A = "fst ` set (pre @ b # post)"
  have sub: "fst ` set pre \<subseteq> ?A" "fst ` set (pre @ post) \<subseteq> ?A" "fst b \<in> ?A" by auto
  obtain q where l: "lseg c (slist c) (map fst pre) q" "lseg c (get_next c (fst b)) (map fst post) NULL"
    using rep by (auto simp: hrep_def lseg_append)
  have "lseg c1 (slist c1) (map fst (pre @ post)) NULL"
    unfolding c1_def by (rule relink_lseg [OF A sub(2) _ l]) (use dist in auto)
  moreover have sz: "get_size c1 (fst d) = snd d" if "d \<in> set (pre @ b # post)" for d
  proof -
    have "fst d \<in> ?A" using that by auto
    from relink_fields(1) [OF A sub(1) this] show ?thesis using rep that by (auto simp: c1_def hrep_def)
  qed
  ultimately show "hrep c1 (pre @ post)" using hp by (auto simp: hrep_def heap_simps)
  show "get_size c1 (fst b) = snd b" by (rule sz) simp
  have "same_out (fr pre) (kmem c) (kmem c1)" unfolding c1_def by (rule relink_frame) (use hp in \<open>simp add: heap_simps\<close>)
  then show "same_out (fr (pre @ b # post)) (kmem c) (kmem c1)" by (elim same_out_mono) simp
qed

lemma remove_block_eq:
  "remove_block b (prev_of pre) req c =
     (let c1 = relink (prev_of pre) (get_next c b) c
      in if get_size c1 b = req then Ret (b + 16, c1)
         else let old = get_size c1 b - (req + 16)
              in bindk (add_block b (old + 16)) (\<lambda>_ c2. Ret (b + 16 + old + 16, set_size (b + 16 + old) req c2)) c1)"
  by (simp add: remove_block_def relink_def TOTAL_METADATA_SIZE_def Let_def)

lemma remove_block_ok:
  assumes rep: "hrep c (pre @ b # post)" and req: "unat req \<le> 4080" and fit: "fits req b"
  shows "\<exists>q c' L'. remove_block (fst b) (prev_of pre) req c = Ret (q, c') \<and> granted c (pre @ b # post) req q c' L'"
proof -
  let ?L = "pre @ b # post" and ?c1 = "relink (prev_of pre) (get_next c (fst b)) c"
  note u = unlink_ok [OF rep]
  have hp: "heap ?L" by (rule hrep_heap [OF rep])
  have ok: "blk_ok b" and dj: "ext b \<inter> fr (pre @ post) = {}" using hp by (auto simp: heap_simps)
  have srt: "by_size ?L \<longrightarrow> by_size (pre @ post)" by (simp add: by_size_append by_size_Cons)
  have frL: "fr ?L = fr (pre @ post) \<union> ext b" by auto
  show ?thesis
  proof (cases "snd b = req")
    case True
    have q16: "unat (fst b + 16) = unat (fst b) + 16"
      using ok by (intro unat_add_numeral) (simp add: blk_ok_def)
    have eb: "ext (fst b + 16 - 16, req) = ext b" using True by (simp add: ext_def)
    have "fr (pre @ post) = fr ?L - ext b" "ext b \<subseteq> fr ?L" using frL dj by blast+
    then have "granted c ?L req (fst b + 16) ?c1 (pre @ post)"
      using u True ok srt q16 unfolding granted_def eb by (simp add: blk_ok_def)
    then show ?thesis using u(2) True by (auto simp: remove_block_eq Let_def)
  next
    case False
    then have big: "unat req + 24 \<le> unat (snd b)" using fit by (auto simp: fits_def word_unat_eq_iff)
    let ?old = "snd b - (req + 16)" and ?nb = "fst b + 16 + (snd b - (req + 16))"
    have r16: "unat (req + 16) = unat req + 16" using req by (intro unat_add_numeral) simp
    have old: "unat ?old = unat (snd b) - (unat req + 16)"
      using big r16 by (subst unat_sub_le) (simp_all add: word_le_nat_alt)
    have b16: "unat (fst b + 16) = unat (fst b) + 16"
      using ok by (intro unat_add_numeral) (simp add: blk_ok_def)
    have nb: "unat ?nb = unat (fst b) + 16 + unat ?old"
    proof -
      have "unat (fst b + 16) + unat ?old < 2 ^ 64" using ok old b16 unfolding blk_ok_def by linarith
      from unat_add_nowrap [OF this] show ?thesis using b16 by simp
    qed
    have lt: "unat ?nb + unat req + 16 < 2 ^ 64" using ok old nb big unfolding blk_ok_def by linarith
    have nb16: "unat (?nb + 16) = unat ?nb + 16" using lt by (intro unat_add_numeral) linarith
    have raw: "?old + 16 - 16 = ?old" "24 \<le> ?old + 16"
    proof -
      have "unat ?old + 16 < 2 ^ 64" using old ok unfolding blk_ok_def by linarith
      from unat_add_numeral [OF this] have "unat (?old + 16) = unat ?old + 16" .
      then show "24 \<le> ?old + 16" using old big by (simp add: word_le_nat_alt)
    qed simp
    have okb: "blk_ok (fst b, ?old)" using ok old big unfolding blk_ok_def fst_conv snd_conv by linarith
    have parts: "ext b = ext (fst b, ?old) \<union> ext (?nb, req)" "ext (fst b, ?old) \<inter> ext (?nb, req) = {}"
      using nb old big by (auto simp: ext_def)
    have dje: "ext (fst b, ?old) \<inter> fr (pre @ post) = {}" using dj parts by blast
    obtain q c2 L2 where a: "add_block (fst b) (?old + 16) ?c1 = Ret (q, c2)" "hrep c2 L2"
        "fr L2 = fr (pre @ post) \<union> ext (fst b, ?old)" "by_size (pre @ post) \<longrightarrow> by_size L2"
        "same_out (fr L2) (kmem ?c1) (kmem c2)"
      using add_block_ok [OF u(1), where p = "fst b" and raw = "?old + 16", unfolded raw(1), OF okb raw(2) dje] by blast
    let ?c3 = "set_size ?nb req c2"
    have w: "same_out (ext (?nb, req)) (kmem c2) (kmem ?c3)"
      unfolding set_size_def using nb16 nb ok old big
      by (auto simp: ext_def unat_add8 blk_ok_def intro!: same_out_st64)
    have dj2: "ext (?nb, req) \<inter> fr L2 = {}" using a(3) parts dj by blast
    have "hrep ?c3 L2" by (rule hrep_frame [OF a(2) w dj2]) simp
    moreover have "fr L2 = fr ?L - ext (?nb, req)" using a(3) parts dj frL by blast
    moreover have "get_size ?c3 ?nb = req" by (simp add: get_size_def set_size_def)
    moreover have "same_out (fr ?L) (kmem c) (kmem ?c3)"
    proof -
      have "fr L2 \<subseteq> fr ?L" "ext (?nb, req) \<subseteq> fr ?L" using a(3) parts frL by blast+
      then show ?thesis
        by (intro same_out_trans [OF same_out_trans [OF u(3) same_out_mono [OF a(5)]] same_out_mono [OF w]])
    qed
    moreover have "ext (?nb, req) \<subseteq> fr ?L" using parts frL by blast
    ultimately have "granted c ?L req (?nb + 16) ?c3 L2"
      using nb16 nb ok old big srt a(4) by (auto simp: granted_def blk_ok_def)
    moreover have "remove_block (fst b) (prev_of pre) req c = Ret (?nb + 16, ?c3)"
      using u(2) False a(1) by (simp add: remove_block_eq Let_def bindk_def)
    ultimately show ?thesis by blast
  qed
qed

lemma fits_iff:
  assumes "unat req \<le> 4080"
  shows "(snd b = req \<or> req + MIN_BLOCK_SIZE \<le> snd b) \<longleftrightarrow> fits req b"
proof -
  have "unat (req + 24) = unat req + 24" using assms by (intro unat_add_numeral) simp
  then show ?thesis
    by (simp add: fits_def word_le_nat_alt word_unat_eq_iff MIN_BLOCK_SIZE_def TOTAL_METADATA_SIZE_def)
qed

lemma find_fit_loop_ok:
  assumes "hrep c (pre @ post)" and "unat req \<le> 4080" and "\<forall>d \<in> set pre. \<not> fits req d"
  shows "(\<forall>d \<in> set post. \<not> fits req d) \<and> find_fit_loop req (first_of post) (prev_of pre) c = Some (Ret (NULL, c))
     \<or> (\<exists>pre' b post' q c' L'. pre @ post = pre' @ b # post' \<and> fits req b \<and> (\<forall>d \<in> set pre'. \<not> fits req d)
          \<and> find_fit_loop req (first_of post) (prev_of pre) c = Some (Ret (q, c')) \<and> granted c (pre @ post) req q c' L')"
  using assms(1,3)
proof (induction post arbitrary: pre)
  case Nil
  have "find_fit_loop req (first_of []) (prev_of pre) c = Some (Ret (NULL, c))"
    by (subst find_fit_loop.simps) (simp add: first_of_def)
  then show ?case by simp
next
  case (Cons b post)
  have ok: "blk_ok b" using Cons.prems(1) by (simp add: hrep_def heap_simps)
  have sz: "get_size c (fst b) = snd b" using Cons.prems(1) by (simp add: hrep_def)
  have nx: "get_next c (fst b) = first_of post"
    using Cons.prems(1) lseg_first [of c "get_next c (fst b)" post] by (auto simp: hrep_def lseg_append)
  have run: "find_fit_loop req (first_of (b # post)) (prev_of pre) c =
      (if fits req b then Some (remove_block (fst b) (prev_of pre) req c)
       else find_fit_loop req (first_of post) (prev_of (pre @ [b])) c)"
    using blk_ok_nonzero [OF ok] nx
    by (subst find_fit_loop.simps) (simp only: first_of_Cons sz fits_iff [OF assms(2)] if_False, simp add: prev_of_def)
  show ?case
  proof (cases "fits req b")
    case True
    obtain q c' L' where "remove_block (fst b) (prev_of pre) req c = Ret (q, c')"
        "granted c (pre @ b # post) req q c' L'"
      using remove_block_ok [OF Cons.prems(1) assms(2) True] by blast
    then have "find_fit_loop req (first_of (b # post)) (prev_of pre) c = Some (Ret (q, c'))"
      "granted c (pre @ b # post) req q c' L'" using run True by simp_all
    then show ?thesis using True Cons.prems(2) by blast
  next
    case False
    have p: "hrep c ((pre @ [b]) @ post)" "\<forall>d \<in> set (pre @ [b]). \<not> fits req d"
      using Cons.prems False by simp_all
    from Cons.IH [OF this] show ?thesis using run False by (simp only: append_assoc append_Cons append_Nil if_False set_simps ball_simps) simp
  qed
qed

lemma find_fit_block_ok:
  assumes "hrep c L" and "unat req \<le> 4080"
  shows "(\<forall>d \<in> set L. \<not> fits req d) \<and> find_fit_block req c = Ret (NULL, c)
     \<or> (\<exists>b \<in> set L. fits req b \<and> (by_size L \<longrightarrow> (\<forall>d \<in> set L. fits req d \<longrightarrow> snd b \<le> snd d))
          \<and> (\<exists>q c' L'. find_fit_block req c = Ret (q, c') \<and> granted c L req q c' L'))"
proof -
  have sl: "slist c = first_of L" using assms(1) lseg_first by (auto simp: hrep_def)
  have rep: "hrep c ([] @ L)" and none: "\<forall>d \<in> set ([] :: block list). \<not> fits req d" using assms(1) by simp_all
  from find_fit_loop_ok [OF rep assms(2) none] consider
      "\<forall>d \<in> set L. \<not> fits req d" "find_fit_loop req (first_of L) NULL c = Some (Ret (NULL, c))"
    | pre b post q c' L' where "L = pre @ b # post" "fits req b" "\<forall>d \<in> set pre. \<not> fits req d"
        "find_fit_loop req (first_of L) NULL c = Some (Ret (q, c'))" "granted c L req q c' L'"
    by (auto simp: prev_of_def)
  then show ?thesis
  proof cases
    case 1
    then show ?thesis by (simp add: find_fit_block_def sl)
  next
    case 2
    have "by_size L \<longrightarrow> (\<forall>d \<in> set L. fits req d \<longrightarrow> snd b \<le> snd d)"
      using 2(1,3) by (auto simp: by_size_append by_size_Cons)
    moreover have "b \<in> set L" using 2(1) by simp
    moreover have "find_fit_block req c = Ret (q, c')" using 2(4) by (simp add: find_fit_block_def sl)
    ultimately show ?thesis using 2(2,5) by blast
  qed
qed

section \<open>Pages of the heap\<close>

definition pg_bytes :: "nat \<Rightarrow> nat set" where
  "pg_bytes i = {unat (pva i)..<unat (pva i) + 4096}"

definition kcore :: "'z km_sys_scheme \<Rightarrow> km_core" where
  "kcore s = \<lparr>slist = size_list s, kmem = mem s\<rparr>"

text \<open>
  The heap invariant: the page allocator's memory represents the free lists \<open>F\<close>, the size list holds the free
  blocks \<open>L\<close> ordered by size, and all of them lie in pages that were taken from the page allocator.
\<close>

definition kinv :: "nat \<Rightarrow> nat set \<Rightarrow> free_lists \<Rightarrow> block list \<Rightarrow> 'z km_sys_scheme \<Rightarrow> bool" where
  "kinv N P F L s \<longleftrightarrow> rep N P (core s) F \<and> N < page_limit \<and> hrep (kcore s) L \<and> by_size L
     \<and> fr L \<subseteq> (\<Union>i \<in> P - pages F. pg_bytes i)"

text \<open>The bytes the two allocators may write: bitmaps, free pages and free blocks.\<close>

definition pfoot :: "nat \<Rightarrow> free_lists \<Rightarrow> 'z km_sys_scheme \<Rightarrow> nat set" where
  "pfoot N F s = unat ` touched N (core s) (pages F)"

definition kfoot :: "nat \<Rightarrow> free_lists \<Rightarrow> block list \<Rightarrow> 'z km_sys_scheme \<Rightarrow> nat set" where
  "kfoot N F L s = pfoot N F s \<union> fr L"

lemma kcore_simps [simp]: "slist (kcore s) = size_list s" "kmem (kcore s) = mem s"
  by (simp_all add: kcore_def)

lemma pg_bytes_region: "i < page_limit \<Longrightarrow> unat x \<in> pg_bytes i \<longleftrightarrow> x \<in> pg_region i"
  using in_region_nat [OF pva_end, of i x] by (simp add: pg_bytes_def pg_region_def)

lemma pg_bytes_image: "i < page_limit \<Longrightarrow> unat ` pg_region i = pg_bytes i"
proof -
  assume i: "i < page_limit"
  have "y \<in> unat ` pg_region i" if y: "y \<in> pg_bytes i" for y
  proof -
    have "y < 2 ^ 64" using y pva_end [OF i] by (simp add: pg_bytes_def)
    then have u: "unat (of_nat y :: u64) = y" by (rule unat_of_nat_lt)
    then have "of_nat y \<in> pg_region i" using pg_bytes_region [OF i, of "of_nat y"] y by simp
    then show ?thesis using u by (metis image_eqI)
  qed
  then show ?thesis using pg_bytes_region [OF i] by auto
qed

lemma pg_bytes_disjoint:
  assumes "i < page_limit" "j < page_limit" "i \<noteq> j"
  shows "pg_bytes i \<inter> pg_bytes j = {}"
  using assms by (auto simp: pg_bytes_def unat_pva)

lemma evolves_same_out:
  assumes "evolves N Q (core s) (core t)"
  shows "same_out (unat ` touched N (core s) Q) (mem s) (mem t)"
  using assms by (auto simp: evolves_def same_out_def eq_on_def image_iff)

lemma pfoot_pages:
  assumes rep: "rep N P (core s) F" and i: "i \<in> P - pages F"
  shows "pfoot N F s \<inter> pg_bytes i = {}"
proof -
  note lay = rep_lay [OF rep]
  have il: "i < page_limit" using lay_limit [OF lay lay_bound [OF lay]] i by blast
  have "touched N (core s) (pages F) \<inter> pg_region i = {}"
  proof -
    have "bm_region N (core s) k \<inter> pg_region i = {}" if "k \<le> MAX_ORDER" for k
      using lay_pages [OF lay that] i by blast
    moreover have "pg_region j \<inter> pg_region i = {}" if j: "j \<in> pages F" for j
    proof -
      have "j < page_limit" using lay_limit [OF lay lay_bound [OF lay]] rep_pages [OF rep] j by blast
      then show ?thesis using pva_region_disjoint [OF _ il] i j by (auto simp: pg_region_def)
    qed
    ultimately show ?thesis by (auto simp: touched_def)
  qed
  then show ?thesis using pg_bytes_region [OF il] by (auto simp: pfoot_def)
qed

lemma kinv_disjoint:
  assumes "kinv N P F L s"
  shows "pfoot N F s \<inter> fr L = {}"
  using assms pfoot_pages unfolding kinv_def by blast

lemma pfoot_cong:
  assumes "rep N P (core s) F" and "map bitmap (pgalloc_bins t) = map bitmap (pgalloc_bins s)"
  shows "pfoot N F t = pfoot N F s"
  using lay_ok_cong(2) [OF rep_lay [OF assms(1)], of "core t" "pages F"] assms(2) by (simp add: pfoot_def)

lemma rep_frame:
  assumes rep: "rep N P c F" and eq: "eq_on (touched N c (pages F)) (cmem c) m"
  shows "rep N P (c\<lparr>cmem := m\<rparr>) F"
proof -
  note lay = rep_lay [OF rep]
  let ?c = "c\<lparr>cmem := m\<rparr>"
  have lay': "lay_ok N P ?c" using lay by (simp add: lay_ok_def bm_region_def)
  have "list_ok ?c (F k) k \<and> bits_ok N ?c (F k) k" if k: "k \<le> MAX_ORDER" for k
  proof -
    have "ld64 m p = ld64 (cmem c) p" if p: "p \<in> set (map pva (F k))" for p
    proof -
      obtain i where i: "i \<in> set (F k)" "p = pva i" using p by auto
      have "i \<in> pages F" using pagesI [of k i F i] k i(1) by simp
      then have "region p 8 \<subseteq> touched N c (pages F)"
        using i(2) region_8_page [of p] by (auto simp: touched_def pg_region_def)
      from ld64_cong [OF eq_on_mono [OF eq this]] show ?thesis by simp
    qed
    from lst_cong [of "map pva (F k)", OF this] have "list_ok ?c (F k) k"
      using rep_list [OF rep k] by (simp add: list_ok_def)
    moreover have "bitv m (bitmap (bins c ! k)) j = bitv (cmem c) (bitmap (bins c ! k)) j"
      if "j \<le> last_pair N k" for j
      using bit_region_subset [OF lay k that] k by (intro bitv_cong [OF eq]) (auto simp: touched_def)
    then have "bits_ok N ?c (F k) k" using rep_bits [OF rep k] by (simp add: bits_ok_def)
    ultimately show ?thesis ..
  qed
  then show ?thesis using lay' rep_wf [OF rep] rep_pages [OF rep] by (simp add: rep_def)
qed

lemma core_rep_frame:
  assumes rep: "rep N P (core s) F" and so: "same_out R (mem s) (mem t)" and dj: "R \<inter> pfoot N F s = {}"
    and bins: "pgalloc_bins t = pgalloc_bins s"
  shows "rep N P (core t) F"
proof -
  have "eq_on (touched N (core s) (pages F)) (mem s) (mem t)"
    unfolding eq_on_def
  proof
    fix x assume "x \<in> touched N (core s) (pages F)"
    then have "unat x \<notin> R" using dj by (auto simp: pfoot_def)
    then show "mem s x = mem t x" using so by (simp add: same_out_def)
  qed
  then have "rep N P ((core s)\<lparr>cmem := mem t\<rparr>) F" using rep_frame [OF rep] by simp
  moreover have "(core s)\<lparr>cmem := mem t\<rparr> = core t" using bins by (simp add: core_def)
  ultimately show ?thesis by simp
qed

section \<open>The contract of \<^verbatim>\<open>kmalloc\<close> and \<^verbatim>\<open>kfree\<close>\<close>

definition arena :: "nat set \<Rightarrow> nat set" where
  "arena P = (\<Union>i \<in> P. pg_bytes i)"

text \<open>
  \<open>kgrant N P F L n s q t F' L'\<close>: the heap hands out \<open>n\<close> bytes at \<open>q\<close>. The block with its header leaves the
  bytes the allocators may write, its header records the size, only such bytes were written and at most one page was taken from the page allocator.
\<close>

definition kgrant :: "nat \<Rightarrow> nat set \<Rightarrow> free_lists \<Rightarrow> block list \<Rightarrow> u64 \<Rightarrow> 'z km_sys_scheme \<Rightarrow> ptr
    \<Rightarrow> 'z km_sys_scheme \<Rightarrow> free_lists \<Rightarrow> block list \<Rightarrow> bool" where
  "kgrant N P F L n s q t F' L' \<longleftrightarrow> kinv N P F' L' t \<and> unat q = unat (q - 16) + 16 \<and> 0 < unat (q - 16)
     \<and> unat q + unat n < 2 ^ 64 \<and> ext (q - 16, n) \<subseteq> kfoot N F L s \<inter> arena P
     \<and> kfoot N F' L' t = kfoot N F L s - ext (q - 16, n) \<and> ld64 (mem t) (q - 8) = n
     \<and> same_out (kfoot N F L s) (mem s) (mem t) \<and> (\<exists>i. pages F - {i} \<subseteq> pages F')"

lemma on_list_Ret:
  "f (kcore s) = Ret (r, c) \<Longrightarrow> on_list f s = Ret (r, s\<lparr>size_list := slist c, mem := kmem c\<rparr>)"
  by (simp add: on_list_def kcore_def)

lemma kcore_upd [simp]: "kcore (s\<lparr>size_list := slist c, mem := kmem c\<rparr>) = c"
  by (simp add: kcore_def)

text \<open>A grant from the list, with the page allocator untouched.\<close>

lemma list_grant:
  assumes inv: "kinv N P F L s" and g: "granted (kcore s) L n q c L'"
  shows "kgrant N P F L n s q (s\<lparr>size_list := slist c, mem := kmem c\<rparr>) F L'"
proof -
  let ?t = "s\<lparr>size_list := slist c, mem := kmem c\<rparr>"
  have rep: "rep N P (core s) F" and sz: "by_size L" and sub: "fr L \<subseteq> (\<Union>i \<in> P - pages F. pg_bytes i)"
    using inv by (auto simp: kinv_def)
  have so: "same_out (fr L) (mem s) (mem ?t)" using g by (simp add: granted_def)
  have "rep N P (core ?t) F"
    by (rule core_rep_frame [OF rep so]) (use kinv_disjoint [OF inv] in auto)
  then have inv': "kinv N P F L' ?t" using inv g sz by (auto simp: kinv_def granted_def)
  have pf: "pfoot N F ?t = pfoot N F s" by (rule pfoot_cong [OF rep]) simp
  have dj: "pfoot N F s \<inter> ext (q - 16, n) = {}" using kinv_disjoint [OF inv] g by (auto simp: granted_def)
  have "same_out (kfoot N F L s) (mem s) (mem ?t)" using so by (rule same_out_mono) (simp add: kfoot_def)
  moreover have "kfoot N F L' ?t = kfoot N F L s - ext (q - 16, n)" using g dj pf by (auto simp: kfoot_def granted_def)
  moreover have "ext (q - 16, n) \<subseteq> kfoot N F L s \<inter> arena P"
    using g sub by (fastforce simp: kfoot_def granted_def arena_def)
  moreover have "ld64 (mem ?t) (q - 8) = n" using g by (simp add: granted_def get_size_def)
  ultimately show ?thesis using g inv' by (auto simp: kgrant_def granted_def)
qed

lemma page_block:
  assumes "i < N" and "N < page_limit"
  shows "blk_ok (pva i, 4096 - 16)" and "ext (pva i, 4096 - 16) = pg_bytes i"
proof -
  have il: "i < page_limit" using assms by simp
  show "blk_ok (pva i, 4096 - 16)"
    using assms unat_KERNBASE by (simp add: blk_ok_def unat_pva [OF il])
  have "unat (4096 - 16 :: u64) = 4080" by simp
  then show "ext (pva i, 4096 - 16) = pg_bytes i" unfolding ext_def pg_bytes_def fst_conv snd_conv by (simp add: add.commute)
qed

text \<open>Taking a page from the page allocator: its bytes leave the footprint of that allocator.\<close>

lemma page_taken:
  assumes inv: "kinv N P F L s" and rep': "rep N P (core t) F'" and ev: "evolves N (pages F) (core s) (core t)"
    and pg: "pages F' = pages F - {i}" and i: "i \<in> pages F" and sl: "size_list t = size_list s"
  shows "kinv N P F' L t" and "pfoot N F s = pfoot N F' t \<union> pg_bytes i" and "pg_bytes i \<inter> fr L = {}"
    and "i \<in> P - pages F'" and "same_out (pfoot N F s) (mem s) (mem t)"
proof -
  have rep: "rep N P (core s) F" and N: "N < page_limit" and hr: "hrep (kcore s) L"
    and sub: "fr L \<subseteq> (\<Union>i \<in> P - pages F. pg_bytes i)"
    using inv by (auto simp: kinv_def)
  show so: "same_out (pfoot N F s) (mem s) (mem t)" unfolding pfoot_def by (rule evolves_same_out [OF ev])
  have "hrep (kcore t) L"
    by (rule hrep_frame [OF hr _ kinv_disjoint [OF inv]]) (use so sl in simp_all)
  moreover have "P - pages F \<subseteq> P - pages F'" using pg by blast
  ultimately show "kinv N P F' L t" using inv rep' sub unfolding kinv_def by blast
  have iP: "i \<in> P" using i rep_pages [OF rep] by blast
  then show "i \<in> P - pages F'" using pg by blast
  have il: "i < page_limit" using iP lay_limit [OF rep_lay [OF rep] lay_bound [OF rep_lay [OF rep]]] by blast
  have bm: "map bitmap (pgalloc_bins t) = map bitmap (pgalloc_bins s)" using ev by (simp add: evolves_def)
  have "touched N (core t) (pages F) = touched N (core t) (pages F') \<union> pg_region i"
    using pg i unfolding touched_def by blast
  then have "pfoot N F t = pfoot N F' t \<union> unat ` pg_region i"
    unfolding pfoot_def by (simp only: image_Un)
  then show u: "pfoot N F s = pfoot N F' t \<union> pg_bytes i"
    using pfoot_cong [OF rep bm] pg_bytes_image [OF il] by simp
  then show "pg_bytes i \<inter> fr L = {}" using kinv_disjoint [OF inv] by blast
qed

text \<open>Adding such a page to the list: the footprint of both allocators together is unchanged.\<close>

lemma page_added:
  assumes inv: "kinv N P F L t" and i: "i \<in> P - pages F" and dj: "pg_bytes i \<inter> fr L = {}"
  shows "\<exists>r u L'. on_list (add_block (pva i) PG_SIZE) t = Ret (r, u) \<and> kinv N P F L' u
     \<and> kfoot N F L' u = kfoot N F L t \<union> pg_bytes i \<and> same_out (kfoot N F L' u) (mem t) (mem u)
     \<and> (\<exists>d \<in> set L'. 4080 \<le> unat (snd d)) \<and> u = t\<lparr>size_list := size_list u, mem := mem u\<rparr>"
proof -
  have rep: "rep N P (core t) F" and N: "N < page_limit" and hr: "hrep (kcore t) L" and sz: "by_size L"
    and sub: "fr L \<subseteq> (\<Union>i \<in> P - pages F. pg_bytes i)"
    using inv by (auto simp: kinv_def)
  have "i < N" using i lay_bound [OF rep_lay [OF rep]] by blast
  note pb = page_block [OF this N]
  have raw: "24 \<le> (4096 :: u64)" by simp
  obtain r c L' where a: "add_block (pva i) 4096 (kcore t) = Ret (r, c)" "hrep c L'" "fr L' = fr L \<union> pg_bytes i"
      "by_size L'" "same_out (fr L') (mem t) (kmem c)" "\<exists>d \<in> set L'. pg_bytes i \<subseteq> ext d"
    using add_block_ok [OF hr pb(1) raw, unfolded pb(2), OF dj] sz unfolding kcore_simps by blast
  let ?u = "t\<lparr>size_list := slist c, mem := kmem c\<rparr>"
  have sub': "fr L' \<subseteq> (\<Union>i \<in> P - pages F. pg_bytes i)" using a(3) sub i by blast
  have djp: "fr L' \<inter> pfoot N F t = {}" using sub' pfoot_pages [OF rep] by blast
  have "rep N P (core ?u) F" by (rule core_rep_frame [OF rep _ djp]) (use a(5) in simp_all)
  then have inv': "kinv N P F L' ?u" using a(2,4) sub' N by (simp add: kinv_def)
  have pf: "pfoot N F ?u = pfoot N F t" by (rule pfoot_cong [OF rep]) simp
  have "same_out (kfoot N F L' ?u) (mem t) (mem ?u)" using same_out_mono [OF a(5), of "kfoot N F L' ?u"] by (simp add: kfoot_def)
  moreover have "kfoot N F L' ?u = kfoot N F L t \<union> pg_bytes i" using pf a(3) by (auto simp: kfoot_def)
  moreover have "4080 \<le> unat (snd d)" if "pg_bytes i \<subseteq> ext d" for d
  proof -
    have "{unat (pva i)..<unat (pva i) + 4096} \<subseteq> {unat (fst d)..<unat (fst d) + unat (snd d) + 16}"
      using that by (simp only: pg_bytes_def ext_def)
    then show ?thesis by simp
  qed
  then have "\<exists>d \<in> set L'. 4080 \<le> unat (snd d)" using a(6) by blast
  moreover have "on_list (add_block (pva i) PG_SIZE) t = Ret (r, ?u)"
    using on_list_Ret [of "add_block (pva i) PG_SIZE" t] a(1) by (simp add: PG_SIZE_def)
  ultimately show ?thesis using inv' by (intro exI [of _ r] exI [of _ ?u] exI [of _ L']) simp
qed

text \<open>The refill of the heap by one page.\<close>

lemma refill:
  assumes inv: "kinv N P F L s" and rd: "cpu_ready 2 c s" and lk: "lock_free Pgalloc_lock s"
  shows "pages F = {} \<and> pgalloc_allocate 0 s = Ret (NULL, s\<lparr>cpus := settled c s\<rparr>)
     \<or> (\<exists>p t F' r u L'. pgalloc_allocate 0 s = Ret (p, t) \<and> p \<noteq> NULL
          \<and> on_list (add_block p PG_SIZE) t = Ret (r, u) \<and> kinv N P F' L' u
          \<and> kfoot N F' L' u = kfoot N F L s \<and> same_out (kfoot N F L s) (mem s) (mem u)
          \<and> (\<exists>d \<in> set L'. 4080 \<le> unat (snd d)) \<and> (\<exists>i. pages F - {i} \<subseteq> pages F')
          \<and> u = s\<lparr>mem := mem u, pgalloc_bins := pgalloc_bins u, size_list := size_list u, cpus := settled c s\<rparr>)"
proof (cases "a_alloc 0 F")
  case None
  have rep: "rep N P (core s) F" using inv by (simp add: kinv_def)
  have "\<forall>l. l \<le> MAX_ORDER \<longrightarrow> F l = []" using a_alloc_correct [OF rep_wf [OF rep], of 0] None by simp
  then have "pages F = {}" by (simp add: pages_def)
  then show ?thesis using pgalloc_allocate_refines [OF rep rd lk, of 0] None by simp
next
  case (Some a)
  obtain i F' where a: "a = (i, F')" by (cases a)
  have rep: "rep N P (core s) F" using inv by (simp add: kinv_def)
  have al: "blk 0 i \<subseteq> pages F" "pages F' = pages F - blk 0 i"
    using a_alloc_correct [OF rep_wf [OF rep], of 0] Some a by simp_all
  then have i: "i \<in> pages F" "pages F' = pages F - {i}" by (auto simp: blk_def)
  obtain t where t: "pgalloc_allocate 0 s = Ret (pva i, t)" "rep N P (core t) F'" "evolves N (pages F) (core s) (core t)"
      "t = s\<lparr>mem := mem t, pgalloc_bins := pgalloc_bins t, cpus := settled c s\<rparr>"
    using pgalloc_allocate_refines [OF rep rd lk, of 0] Some a by auto
  have "size_list t = size_list s" by (subst t(4)) simp
  note tk = page_taken [OF inv t(2,3) i(2,1) this]
  obtain r u L' where u: "on_list (add_block (pva i) PG_SIZE) t = Ret (r, u)" "kinv N P F' L' u"
      "kfoot N F' L' u = kfoot N F' L t \<union> pg_bytes i" "same_out (kfoot N F' L' u) (mem t) (mem u)"
      "\<exists>d \<in> set L'. 4080 \<le> unat (snd d)" "u = t\<lparr>size_list := size_list u, mem := mem u\<rparr>"
    using page_added [OF tk(1,4,3)] by blast
  have f: "kfoot N F' L' u = kfoot N F L s" using u(3) tk(2) by (auto simp: kfoot_def)
  have so: "same_out (kfoot N F L s) (mem s) (mem u)"
    using same_out_mono [OF tk(5), of "kfoot N F L s"] u(4) f by (auto simp: kfoot_def elim: same_out_trans)
  have il: "i < page_limit" using tk(4) lay_limit [OF rep_lay [OF rep] lay_bound [OF rep_lay [OF rep]]] by blast
  have "u = s\<lparr>mem := mem u, pgalloc_bins := pgalloc_bins u, size_list := size_list u, cpus := settled c s\<rparr>"
  proof -
    have "pgalloc_bins u = pgalloc_bins t" by (subst u(6)) simp
    then show ?thesis by (subst u(6), subst t(4)) simp
  qed
  moreover have "\<exists>i. pages F - {i} \<subseteq> pages F'" using i(2) by auto
  ultimately show ?thesis using t(1) pva_nonzero [OF il] u(1,2,5) f so by blast
qed


text \<open>The invariant and the footprint see only the allocators' globals and the memory.\<close>

definition heap_view :: "'z km_sys_scheme \<Rightarrow> pg_core \<times> km_core" where
  "heap_view s = (core s, kcore s)"

lemma heap_view_eq: "heap_view t = heap_view s \<longleftrightarrow>
    mem t = mem s \<and> pgalloc_bins t = pgalloc_bins s \<and> size_list t = size_list s"
  by (auto simp: heap_view_def core_def kcore_def)

lemma heap_view_upd [simp]:
  "heap_view (s\<lparr>cpus := x\<rparr>) = heap_view s" "heap_view (s\<lparr>rflags := y\<rparr>) = heap_view s"
  "heap_view (s\<lparr>locks := z\<rparr>) = heap_view s" "heap_view (acquired c lk s) = heap_view s"
  by (simp_all add: heap_view_def core_def kcore_def acquired_def entered_def)

lemma view_cong:
  assumes "heap_view s' = heap_view s" and "heap_view t' = heap_view t"
  shows "kinv N P F L s' \<longleftrightarrow> kinv N P F L s" and "kfoot N F L s' = kfoot N F L s"
    and "kgrant N P F L n s' q t' F' L' \<longleftrightarrow> kgrant N P F L n s q t F' L'"
    and "same_out R (mem s') (mem t') \<longleftrightarrow> same_out R (mem s) (mem t)"
  using assms by (simp_all add: heap_view_def kinv_def kfoot_def pfoot_def kgrant_def core_def kcore_def)

text \<open>How a heap routine may end: the states differ only in the allocators' globals and the memory.\<close>

definition heap_step :: "'z km_sys_scheme \<Rightarrow> 'z km_sys_scheme \<Rightarrow> bool" where
  "heap_step s t \<longleftrightarrow> t = s\<lparr>mem := mem t, pgalloc_bins := pgalloc_bins t, size_list := size_list t\<rparr>"

lemma kmalloc_body_ok:
  assumes inv: "kinv N P F L s" and rd: "cpu_ready 2 c s" and lk: "lock_free Pgalloc_lock s"
    and st: "settled c s = cpus s" and n: "0 < unat n" "unat n \<le> 4080"
  shows "(\<exists>q t F' L'. kmalloc_body n s = Ret (q, t) \<and> heap_step s t \<and> kgrant N P F L n s q t F' L')
     \<or> kmalloc_body n s = Panic ''malloc: OOM'' \<and> pages F = {} \<and> (\<forall>d \<in> set L. \<not> fits n d)
     \<or> (\<exists>t F' L'. kmalloc_body n s = Ret (NULL, t) \<and> heap_step s t \<and> 4056 < unat n \<and> kinv N P F' L' t
          \<and> kfoot N F' L' t = kfoot N F L s \<and> same_out (kfoot N F L s) (mem s) (mem t))"
proof -
  have hr: "hrep (kcore s) L" using inv by (simp add: kinv_def)
  have n': "n \<noteq> 0" "\<not> PG_SIZE - TOTAL_METADATA_SIZE < n"
    using n by (auto simp: PG_SIZE_def TOTAL_METADATA_SIZE_def word_less_nat_alt)
  let ?rest = "\<lambda>rtn. if rtn \<noteq> NULL then retk rtn
        else bindk (pgalloc_allocate 0) (\<lambda>newRam.
          if newRam \<noteq> NULL then bindk (on_list (add_block newRam PG_SIZE)) (\<lambda>_. on_list (find_fit_block n))
          else panic ''malloc: OOM'')"
  have body: "kmalloc_body n s = bindk (on_list (find_fit_block n)) ?rest s"
    using n' by (simp add: kmalloc_body_def)
  have gnull: "q \<noteq> NULL" if "granted k M n q k' M'" for k M q k' M'
    using that by (auto simp: granted_def)
  from find_fit_block_ok [OF hr n(2)] consider
      (none) "\<forall>d \<in> set L. \<not> fits n d" "find_fit_block n (kcore s) = Ret (NULL, kcore s)"
    | (some) q k L' where "find_fit_block n (kcore s) = Ret (q, k)" "granted (kcore s) L n q k L'"
    by blast
  then show ?thesis
  proof cases
    case some
    let ?t = "s\<lparr>size_list := slist k, mem := kmem k\<rparr>"
    have "kmalloc_body n s = Ret (q, ?t)"
      using on_list_Ret [of "find_fit_block n", OF some(1)] gnull [OF some(2)] by (simp add: body bindk_def retk_def)
    moreover have "heap_step s ?t" by (simp add: heap_step_def)
    ultimately show ?thesis using list_grant [OF inv some(2)] by blast
  next
    case none
    have f: "on_list (find_fit_block n) s = Ret (NULL, s)"
      using on_list_Ret [of "find_fit_block n", OF none(2)] by simp
    from refill [OF inv rd lk] show ?thesis
    proof (elim disjE exE conjE)
      assume "pages F = {}" "pgalloc_allocate 0 s = Ret (NULL, s\<lparr>cpus := settled c s\<rparr>)"
      then have "kmalloc_body n s = Panic ''malloc: OOM''"
        using f by (simp add: body bindk_def panic_def)
      then show ?thesis using none(1) \<open>pages F = {}\<close> by blast
    next
      fix p t F1 r u L1 i
      assume pgs: "pages F - {i} \<subseteq> pages F1" and a: "pgalloc_allocate 0 s = Ret (p, t)" "p \<noteq> NULL" "on_list (add_block p PG_SIZE) t = Ret (r, u)"
        and inv1: "kinv N P F1 L1 u" and foot: "kfoot N F1 L1 u = kfoot N F L s"
        and so: "same_out (kfoot N F L s) (mem s) (mem u)" and big: "\<exists>d \<in> set L1. 4080 \<le> unat (snd d)"
        and u: "u = s\<lparr>mem := mem u, pgalloc_bins := pgalloc_bins u, size_list := size_list u, cpus := settled c s\<rparr>"
      have hs: "heap_step s u" using st by (subst u) (simp add: heap_step_def)
      have hr1: "hrep (kcore u) L1" using inv1 by (simp add: kinv_def)
      have run: "kmalloc_body n s = on_list (find_fit_block n) u"
        using f a by (simp add: body bindk_def)
      from find_fit_block_ok [OF hr1 n(2)] show ?thesis
      proof (elim disjE bexE exE conjE)
        assume no: "\<forall>d \<in> set L1. \<not> fits n d" and e: "find_fit_block n (kcore u) = Ret (NULL, kcore u)"
        have "4056 < unat n" using no big unfolding fits_def by force
        moreover have "kmalloc_body n s = Ret (NULL, u)" using on_list_Ret [of "find_fit_block n", OF e] by (simp add: run)
        ultimately show ?thesis using hs inv1 foot so by blast
      next
        fix q k L'
        assume e: "find_fit_block n (kcore u) = Ret (q, k)" and g: "granted (kcore u) L1 n q k L'"
        let ?w = "u\<lparr>size_list := slist k, mem := kmem k\<rparr>"
        have "kmalloc_body n s = Ret (q, ?w)" using on_list_Ret [of "find_fit_block n", OF e] by (simp add: run)
        moreover have "heap_step s ?w" using hs by (cases u, cases s) (simp add: heap_step_def)
        moreover have "kgrant N P F L n s q ?w F1 L'"
        proof -
          have "kgrant N P F1 L1 n u q ?w F1 L'" by (rule list_grant [OF inv1 g])
          then show ?thesis using so pgs unfolding kgrant_def foot by (blast intro: same_out_trans)
        qed
        ultimately show ?thesis by blast
      qed
    qed
  qed
qed

end
