(* ===== verification/Kheap_Calls.thy ===== *)
theory Kheap_Calls
  imports Kheap
begin

text \<open>
  The entry points of the kernel heap as their callers see them: \<^verbatim>\<open>kmalloc\<close> and \<^verbatim>\<open>kfree\<close> with their lock, the
  derived calls \<^verbatim>\<open>kcalloc\<close> and \<^verbatim>\<open>krealloc\<close>, and the interface \<open>kernel_heap\<close> that a client of the heap relies on.
\<close>

section \<open>Locked calls\<close>

text \<open>\<open>kstep c s t\<close>: a completed call changed the allocators' globals, the memory and the saved interrupt flag.\<close>

definition kstep :: "nat \<Rightarrow> 'z km_sys_scheme \<Rightarrow> 'z km_sys_scheme \<Rightarrow> bool" where
  "kstep c s t \<longleftrightarrow> t = s\<lparr>mem := mem t, pgalloc_bins := pgalloc_bins t, size_list := size_list t, cpus := settled c s\<rparr>"

lemma kstep_keeps:
  assumes "kstep c s t"
  shows "cpu_ready d c s \<Longrightarrow> cpu_ready d c t" and "lock_free lk t \<longleftrightarrow> lock_free lk s" and "locks t = locks s"
    and "km_sys.more t = km_sys.more s"
proof -
  have e: "cpus t = settled c s" "rflags t = rflags s" "ncpu t = ncpu s" "lapic_id_reg t = lapic_id_reg s" "locks t = locks s"
    "km_sys.more t = km_sys.more s"
    by (subst assms [unfolded kstep_def], simp)+
  show "cpu_ready d c s \<Longrightarrow> cpu_ready d c t" by (rule cpu_ready_settled) (simp_all add: e)
  show "lock_free lk t \<longleftrightarrow> lock_free lk s" "locks t = locks s" "km_sys.more t = km_sys.more s"
    using e by (simp_all add: lock_free_def)
qed

lemma settled_acquired:
  assumes "cpu_ready (Suc d) c s"
  shows "settled c (acquired c lk s) = cpus (acquired c lk s)" and "cpu_ready d c (acquired c lk s)"
proof -
  have c: "c < length (cpus s)" and l: "unat (int_disable_layer (cpus s ! c)) + 1 < 2 ^ 32"
    using assms by (simp_all add: cpu_ready_def)
  show "settled c (acquired c lk s) = cpus (acquired c lk s)"
    using c pushed_layer(2) [OF l, of "rflags s"] by (simp add: settled_def acquired_def entered_def)
  show "cpu_ready d c (acquired c lk s)"
    using cpu_ready_entered [OF assms] cpu_ready_same [OF same_cpu_acquired] by blast
qed

lemma locked_heap:
  assumes rd: "cpu_ready (Suc (Suc d)) c s" and lk: "lock_free lk s"
    and body: "body (acquired c lk s) = Ret (r, t)" and hs: "heap_step (acquired c lk s) t"
  shows "\<exists>u. locked_call lk body s = Ret (r, u) \<and> kstep c s u \<and> heap_view u = heap_view t"
proof -
  obtain m b l where e: "t = (acquired c lk s)\<lparr>mem := m, pgalloc_bins := b, size_list := l\<rparr>"
    using hs unfolding heap_step_def by blast
  have same: "same_cpu (acquired c lk s) t" "locks t lk = locks (acquired c lk s) lk"
    by (simp_all add: e same_cpu_def)
  let ?u = "t\<lparr>cpus := settled c s, rflags := rflags s, locks := (locks t)(lk := locks s lk)\<rparr>"
  have "kstep c s ?u"
    by (simp add: kstep_def e acquired_def entered_def)
  then show ?thesis using locked_call_Ret [where body = body, OF rd lk body same] by (intro exI [of _ ?u]) simp
qed

lemma locked_heap_fail:
  assumes rd: "cpu_ready (Suc (Suc d)) c s" and lk: "lock_free lk s" and body: "body (acquired c lk s) = Panic e"
  shows "locked_call lk body s = Panic e"
  using acquire_free [OF rd lk] body by (simp add: locked_call_def bindk_def acquired_def)


section \<open>Live blocks\<close>

text \<open>
  \<open>live P N F L s q n\<close>: \<open>q\<close> is a block of \<open>n\<close> bytes in the hands of a client: its header records the size and
  neither header nor contents are among the bytes the allocators may write.
\<close>

definition live :: "nat \<Rightarrow> nat set \<Rightarrow> free_lists \<Rightarrow> block list \<Rightarrow> 'z km_sys_scheme \<Rightarrow> ptr \<Rightarrow> u64 \<Rightarrow> bool" where
  "live N P F L s q n \<longleftrightarrow> unat q = unat (q - 16) + 16 \<and> 0 < unat (q - 16) \<and> unat q + unat n < 2 ^ 64
     \<and> ld64 (mem s) (q - 8) = n \<and> ext (q - 16, n) \<subseteq> arena P \<and> ext (q - 16, n) \<inter> kfoot N F L s = {}"

lemma kgrant_live: "kgrant N P F L n s q t F' L' \<Longrightarrow> live N P F' L' t q n"
  by (auto simp: kgrant_def live_def)

text \<open>A write inside \<open>R\<close> keeps every live block outside \<open>R\<close> and the allocators' footprint.\<close>

lemma live_frame:
  assumes l: "live N P F L s p k" and so: "same_out R (mem s) (mem t)" and dj: "ext (p - 16, k) \<inter> R = {}"
    and ft: "kfoot N F' L' t \<inter> ext (p - 16, k) = {}"
  shows "live N P F' L' t p k"
proof -
  have p: "unat p = unat (p - 16) + 16" "unat p + unat k < 2 ^ 64" using l by (simp_all add: live_def)
  have "8 \<le> p" using p by (simp add: word_le_nat_alt)
  then have p8: "unat (p - 8) = unat (p - 16) + 8" using p by (simp add: unat_sub_le)
  have "{unat (p - 8)..<unat (p - 8) + 8} \<subseteq> ext (p - 16, k)" unfolding p8 by (auto simp: ext_def)
  then have d8: "{unat (p - 8)..<unat (p - 8) + 8} \<inter> R = {}" using dj by blast
  have "unat (p - 8) + 8 \<le> 2 ^ 64" using p p8 by linarith
  from ld64_same_out [OF so d8 this] show ?thesis using l ft by (auto simp: live_def)
qed

lemma kgrant_keeps_live:
  assumes g: "kgrant N P F L n s q t F' L'" and l: "live N P F L s p k"
  shows "live N P F' L' t p k" and "ext (p - 16, k) \<inter> ext (q - 16, n) = {}"
    and "\<forall>x. unat x \<in> ext (p - 16, k) \<longrightarrow> mem t x = mem s x"
proof -
  have so: "same_out (kfoot N F L s) (mem s) (mem t)" and sub: "ext (q - 16, n) \<subseteq> kfoot N F L s"
    and ft: "kfoot N F' L' t = kfoot N F L s - ext (q - 16, n)" using g by (simp_all add: kgrant_def)
  have dj: "ext (p - 16, k) \<inter> kfoot N F L s = {}" using l by (simp add: live_def)
  show "ext (p - 16, k) \<inter> ext (q - 16, n) = {}" using sub dj by blast
  show "\<forall>x. unat x \<in> ext (p - 16, k) \<longrightarrow> mem t x = mem s x" using so dj by (auto simp: same_out_def)
  show "live N P F' L' t p k" by (rule live_frame [OF l so dj]) (use dj ft in auto)
qed

lemma kmalloc_ok:
  assumes inv: "kinv N P F L s" and rd: "cpu_ready 4 c s"
    and lk: "lock_free Kmalloc_lock s" "lock_free Pgalloc_lock s" and n: "0 < unat n" "unat n \<le> 4080"
  shows "(\<exists>q t F' L'. kmalloc n s = Ret (q, t) \<and> kstep c s t \<and> kgrant N P F L n s q t F' L')
     \<or> kmalloc n s = Panic ''malloc: OOM'' \<and> pages F = {} \<and> (\<forall>d \<in> set L. \<not> fits n d)
     \<or> (\<exists>t F' L'. kmalloc n s = Ret (NULL, t) \<and> kstep c s t \<and> 4056 < unat n \<and> kinv N P F' L' t
          \<and> kfoot N F' L' t = kfoot N F L s \<and> same_out (kfoot N F L s) (mem s) (mem t))"
proof -
  let ?a = "acquired c Kmalloc_lock s"
  have rd2: "cpu_ready (Suc (Suc 2)) c s" and rd3: "cpu_ready (Suc 3) c s" using rd by simp_all
  note v = view_cong [of ?a s, simplified]
  have inv': "kinv N P F L ?a" using inv v(1) [of s s] by simp
  have rda: "cpu_ready 2 c ?a" by (rule cpu_ready_mono [OF settled_acquired(2) [OF rd3]]) simp
  have lka: "lock_free Pgalloc_lock ?a" using lk(2) by (simp add: lock_free_def acquired_def)
  from kmalloc_body_ok [OF inv' rda lka settled_acquired(1) [OF rd3] n] show ?thesis
  proof (elim disjE exE conjE)
    fix q t F' L'
    assume b: "kmalloc_body n ?a = Ret (q, t)" "heap_step ?a t" "kgrant N P F L n ?a q t F' L'"
    obtain u where u: "kmalloc n s = Ret (q, u)" "kstep c s u" "heap_view u = heap_view t"
      using locked_heap [where body = "kmalloc_body n", OF rd2 lk(1) b(1,2)] by (auto simp: kmalloc_def)
    have "kgrant N P F L n s q u F' L'" using b(3) view_cong(3) [of s ?a u t N P F L n q F' L'] u(3) by simp
    then show ?thesis using u(1,2) by blast
  next
    assume b: "kmalloc_body n ?a = Panic ''malloc: OOM''" "pages F = {}" "\<forall>d \<in> set L. \<not> fits n d"
    then show ?thesis using locked_heap_fail [where body = "kmalloc_body n", OF rd2 lk(1) b(1)] by (simp add: kmalloc_def)
  next
    fix t F' L'
    assume b: "kmalloc_body n ?a = Ret (NULL, t)" "heap_step ?a t" "4056 < unat n" "kinv N P F' L' t"
      "kfoot N F' L' t = kfoot N F L ?a" "same_out (kfoot N F L ?a) (mem ?a) (mem t)"
    obtain u where u: "kmalloc n s = Ret (NULL, u)" "kstep c s u" "heap_view u = heap_view t"
      using locked_heap [where body = "kmalloc_body n", OF rd2 lk(1) b(1,2)] by (auto simp: kmalloc_def)
    have "kinv N P F' L' u" "kfoot N F' L' u = kfoot N F L s" "same_out (kfoot N F L s) (mem s) (mem u)"
      using b(4-6) view_cong(1,2) [OF u(3) u(3)] view_cong(2) [of ?a s u t] view_cong(4) [of ?a s t u] u(3) by simp_all
    then show ?thesis using u(1,2) b(3) by blast
  qed
qed


lemma kmalloc_refuses:
  assumes rd: "cpu_ready 4 c s" and lk: "lock_free Kmalloc_lock s" and n: "n = 0 \<or> 4080 < unat n"
  shows "kmalloc n s = Ret (NULL, s\<lparr>cpus := settled c s\<rparr>)"
proof -
  let ?a = "acquired c Kmalloc_lock s"
  have rd2: "cpu_ready (Suc (Suc 2)) c s" using rd by simp
  have "kmalloc_body n ?a = Ret (NULL, ?a)"
    using n by (auto simp: kmalloc_body_def retk_def PG_SIZE_def TOTAL_METADATA_SIZE_def word_less_nat_alt)
  from locked_call_Ret [where body = "kmalloc_body n", OF rd2 lk this] show ?thesis
    by (simp add: kmalloc_def same_cpu_def acquired_def entered_def)
qed

lemma live_blk:
  assumes "live N P F L s p n" and "8 \<le> unat n"
  shows "p \<noteq> NULL" and "blk_ok (p - 16, n)" and "n + 16 - 16 = n" and "24 \<le> n + 16"
    and "ld64 (mem s) (p - 16 + 8) = n"
proof -
  have p: "unat p = unat (p - 16) + 16" "0 < unat (p - 16)" "unat p + unat n < 2 ^ 64" "ld64 (mem s) (p - 8) = n"
    using assms(1) by (simp_all add: live_def)
  show "p \<noteq> NULL" using p(1) by auto
  show "blk_ok (p - 16, n)" using p assms(2) by (simp add: blk_ok_def)
  have "unat (n + 16) = unat n + 16" by (rule unat_add_numeral) (use p in linarith)
  then show "24 \<le> n + 16" using assms(2) by (simp add: word_le_nat_alt)
  have "p - 16 + 8 = p - 8" by simp
  then show "ld64 (mem s) (p - 16 + 8) = n" using p(4) by simp
qed simp

lemma kfree_ok:
  assumes inv: "kinv N P F L s" and rd: "cpu_ready 2 c s" and lk: "lock_free Kmalloc_lock s"
    and lv: "live N P F L s p n" and n: "8 \<le> unat n"
  shows "\<exists>t L'. kfree p s = Ret ((), t) \<and> kstep c s t \<and> kinv N P F L' t
     \<and> kfoot N F L' t = kfoot N F L s \<union> ext (p - 16, n) \<and> same_out (kfoot N F L' t) (mem s) (mem t)"
proof -
  let ?a = "acquired c Kmalloc_lock s" and ?e = "ext (p - 16, n)"
  let ?f = "\<lambda>k. bindk (add_block (p - 16) (get_size k (p - 16) + TOTAL_METADATA_SIZE)) (\<lambda>_. retk ()) k"
  note lb = live_blk [OF lv n]
  have rd2: "cpu_ready (Suc (Suc 0)) c s" using rd by (simp add: numeral_2_eq_2)
  have va: "heap_view ?a = heap_view s" by simp
  have rep: "rep N P (core s) F" and hr: "hrep (kcore s) L" and sz: "by_size L" and N: "N < page_limit"
    and sub: "fr L \<subseteq> (\<Union>i \<in> P - pages F. pg_bytes i)" using inv by (auto simp: kinv_def)
  have dj: "?e \<inter> fr L = {}" and djp: "?e \<inter> pfoot N F s = {}" and ar: "?e \<subseteq> arena P"
    using lv by (auto simp: live_def kfoot_def)
  have gs: "get_size (kcore s) (p - 16) = n" using lb(5) by (simp add: get_size_def)
  obtain r k L' where a: "add_block (p - 16) (n + 16) (kcore s) = Ret (r, k)" "hrep k L'" "fr L' = fr L \<union> ?e"
      "by_size L'" "same_out (fr L') (mem s) (kmem k)"
    using add_block_ok [OF hr, where p = "p - 16" and raw = "n + 16", unfolded lb(3), OF lb(2,4) dj] sz
    unfolding kcore_simps by blast
  let ?t = "?a\<lparr>size_list := slist k, mem := kmem k\<rparr>"
  have "?f (kcore ?a) = Ret ((), k)"
    using a(1) gs va by (simp add: heap_view_def bindk_def retk_def TOTAL_METADATA_SIZE_def)
  then have "on_list ?f ?a = Ret ((), ?t)" by (rule on_list_Ret [of ?f])
  moreover have "heap_step ?a ?t" by (simp add: heap_step_def)
  ultimately obtain u where u: "locked_call Kmalloc_lock (on_list ?f) s = Ret ((), u)" "kstep c s u"
      "heap_view u = heap_view ?t"
    using locked_heap [where body = "on_list ?f", OF rd2 lk] by blast
  have "kcore u = kcore ?t" "core u = core ?t" using u(3) by (simp_all only: heap_view_def prod.inject)
  then have ku: "kcore u = k" and bu: "bins (core u) = bins (core ?t)" by (simp_all only: kcore_upd)
  have uv: "mem u = kmem k" "pgalloc_bins u = pgalloc_bins s" "kcore u = k"
    unfolding ku [symmetric] using bu by (simp_all add: acquired_def entered_def)
  have pp: "pg_bytes i \<subseteq> pfoot N F s" if i: "i \<in> pages F" for i
  proof -
    have "i < page_limit" using i rep_pages [OF rep] lay_limit [OF rep_lay [OF rep] lay_bound [OF rep_lay [OF rep]]] by blast
    moreover have "pg_region i \<subseteq> touched N (core s) (pages F)" using i by (auto simp: touched_def)
    ultimately show ?thesis using pg_bytes_image image_mono unfolding pfoot_def by metis
  qed
  have "?e \<subseteq> (\<Union>i \<in> P - pages F. pg_bytes i)"
  proof
    fix x assume x: "x \<in> ?e"
    then obtain i where i: "i \<in> P" "x \<in> pg_bytes i" using ar unfolding arena_def by blast
    moreover have "i \<notin> pages F" using pp [of i] i(2) x djp by blast
    ultimately show "x \<in> (\<Union>i \<in> P - pages F. pg_bytes i)" by blast
  qed
  then have sub': "fr L' \<subseteq> (\<Union>i \<in> P - pages F. pg_bytes i)" using sub a(3) by blast
  have "fr L' \<inter> pfoot N F s = {}" using sub' pfoot_pages [OF rep] by blast
  then have "rep N P (core u) F" by (intro core_rep_frame [OF rep _ _ uv(2)]) (use a(5) uv(1) in simp_all)
  then have inv': "kinv N P F L' u" using a(2,4) sub' N uv(3) by (simp add: kinv_def)
  have pf: "pfoot N F u = pfoot N F s" by (rule pfoot_cong [OF rep]) (simp add: uv)
  have ft: "kfoot N F L' u = kfoot N F L s \<union> ?e" using pf a(3) by (auto simp: kfoot_def)
  have "same_out (kfoot N F L' u) (mem s) (mem u)"
    using same_out_mono [OF a(5), of "kfoot N F L' u"] uv(1) by (simp add: kfoot_def)
  moreover have "kfree p s = Ret ((), u)" using u(1) lb(1) by (simp add: kfree_def Let_def)
  ultimately show ?thesis using u(2) inv' ft by blast
qed


text \<open>Blocks of fewer than eight bytes are too small for the list: \<^verbatim>\<open>kfree\<close> returns and drops them.\<close>

lemma kfree_small:
  assumes rd: "cpu_ready 2 c s" and lk: "lock_free Kmalloc_lock s"
    and lv: "live N P F L s p n" and n: "unat n < 8"
  shows "kfree p s = Ret ((), s\<lparr>cpus := settled c s\<rparr>)"
proof -
  let ?a = "acquired c Kmalloc_lock s"
  let ?f = "\<lambda>k. bindk (add_block (p - 16) (get_size k (p - 16) + TOTAL_METADATA_SIZE)) (\<lambda>_. retk ()) k"
  have rd2: "cpu_ready (Suc (Suc 0)) c s" using rd by (simp add: numeral_2_eq_2)
  have p: "unat p = unat (p - 16) + 16" "ld64 (mem s) (p - 8) = n" using lv by (simp_all add: live_def)
  have "p \<noteq> NULL" using p(1) by auto
  have "unat (n + 16) = unat n + 16" by (rule unat_add_numeral) (use n in simp)
  then have small: "n + 16 < 24" using n by (simp add: word_less_nat_alt)
  have "p - 16 + 8 = p - 8" by simp
  then have "get_size (kcore ?a) (p - 16) = n"
    using p(2) by (simp add: get_size_def kcore_def acquired_def entered_def)
  then have "?f (kcore ?a) = Ret ((), kcore ?a)"
    using small by (simp add: bindk_def retk_def add_block_def MIN_BLOCK_SIZE_def TOTAL_METADATA_SIZE_def)
  then have "on_list ?f ?a = Ret ((), ?a)" using on_list_Ret [of ?f ?a] by simp
  from locked_call_Ret [where body = "on_list ?f", OF rd2 lk this] show ?thesis
    using \<open>p \<noteq> NULL\<close> by (simp add: kfree_def Let_def same_cpu_def acquired_def entered_def)
qed

lemma lseg_unique: "lseg c p xs NULL \<Longrightarrow> lseg c p ys NULL \<Longrightarrow> xs = ys"
proof (induction xs arbitrary: p ys)
  case Nil
  then show ?case by (cases ys) auto
next
  case (Cons x xs)
  then show ?case by (cases ys) auto
qed

lemma graph_image: "\<forall>b \<in> set L. g (fst b) = snd b \<Longrightarrow> set L = (\<lambda>a. (a, g a)) ` set (map fst L)"
  by (induction L) auto

lemma kinv_unique:
  assumes "kinv N P F L s" and "kinv N P G M s"
  shows "kfoot N F L s = kfoot N G M s"
proof -
  have "pages F = pages G" using rep_unique assms unfolding kinv_def by blast
  moreover have "map fst L = map fst M"
    by (rule lseg_unique [of "kcore s" "size_list s"]) (use assms in \<open>simp_all add: kinv_def hrep_def\<close>)
  then have "fr L = fr M"
    using graph_image [of L "get_size (kcore s)"] graph_image [of M "get_size (kcore s)"] assms
    by (simp add: fr_def kinv_def hrep_def)
  ultimately show ?thesis by (simp add: kfoot_def pfoot_def)
qed

lemma kinv_poke:
  assumes inv: "kinv N P F L s" and so: "same_out R (mem s) m" and dj: "R \<inter> kfoot N F L s = {}"
  shows "kinv N P F L (s\<lparr>mem := m\<rparr>)" and "kfoot N F L (s\<lparr>mem := m\<rparr>) = kfoot N F L s"
proof -
  let ?t = "s\<lparr>mem := m\<rparr>"
  have rep: "rep N P (core s) F" and hr: "hrep (kcore s) L" using inv by (auto simp: kinv_def)
  have "rep N P (core ?t) F" by (rule core_rep_frame [OF rep]) (use so dj in \<open>auto simp: kfoot_def\<close>)
  moreover have "hrep (kcore ?t) L" by (rule hrep_frame [OF hr]) (use so dj in \<open>auto simp: kfoot_def\<close>)
  ultimately show "kinv N P F L ?t" using inv by (simp add: kinv_def)
  show "kfoot N F L ?t = kfoot N F L s" using pfoot_cong [OF rep, of ?t] by (simp add: kfoot_def)
qed


section \<open>The interface of a heap\<close>

text \<open>
  What clients rely on: a granted block is theirs (\<open>owned\<close>), its extent meets no other owned block, allocation
  and release leave the other owned blocks alone, releasing an owned block always returns, and writing into
  one's own block (\<open>room\<close> are its user bytes) harms nobody.
\<close>

locale kernel_heap =
  fixes alloc :: "u64 \<Rightarrow> 's \<Rightarrow> (ptr \<times> 's) outcome" and dealloc :: "ptr \<Rightarrow> 's \<Rightarrow> (unit \<times> 's) outcome"
    and poke :: "ptr \<Rightarrow> u8 \<Rightarrow> 's \<Rightarrow> 's" and inv :: "'s \<Rightarrow> bool" and owned :: "'s \<Rightarrow> ptr \<Rightarrow> u64 \<Rightarrow> bool"
    and extent :: "ptr \<Rightarrow> u64 \<Rightarrow> nat set" and room :: "ptr \<Rightarrow> u64 \<Rightarrow> ptr set"
  assumes alloc_law: "inv s \<Longrightarrow> alloc n s = Ret (q, t) \<Longrightarrow> inv t \<and> (q \<noteq> NULL \<longrightarrow> owned t q n)
      \<and> (\<forall>p k. owned s p k \<longrightarrow> owned t p k \<and> (q \<noteq> NULL \<longrightarrow> extent p k \<inter> extent q n = {}))"
    and dealloc_law: "inv s \<Longrightarrow> owned s p n \<Longrightarrow> \<exists>t. dealloc p s = Ret ((), t) \<and> inv t
      \<and> (\<forall>q k. owned s q k \<and> extent q k \<inter> extent p n = {} \<longrightarrow> owned t q k)"
    and poke_law: "inv s \<Longrightarrow> owned s p n \<Longrightarrow> x \<in> room p n \<Longrightarrow> inv (poke x b s) \<and> owned (poke x b s) p n
      \<and> (\<forall>q k. owned s q k \<and> extent q k \<inter> extent p n = {} \<longrightarrow> owned (poke x b s) q k)"
    and extent_head: "extent p n \<inter> extent p k \<noteq> {}"
begin

text \<open>A client session: the state and the blocks the client holds, with their sizes.\<close>

inductive session :: "'s \<Rightarrow> (ptr \<rightharpoonup> u64) \<Rightarrow> 's \<Rightarrow> (ptr \<rightharpoonup> u64) \<Rightarrow> bool" for s0 M0 where
  start: "session s0 M0 s0 M0"
| grant: "session s0 M0 s M \<Longrightarrow> alloc n s = Ret (q, t) \<Longrightarrow> q \<noteq> NULL \<Longrightarrow> session s0 M0 t (M(q \<mapsto> n))"
| refuse: "session s0 M0 s M \<Longrightarrow> alloc n s = Ret (NULL, t) \<Longrightarrow> session s0 M0 t M"
| give_back: "session s0 M0 s M \<Longrightarrow> M p = Some n \<Longrightarrow> dealloc p s = Ret ((), t) \<Longrightarrow> session s0 M0 t (M(p := None))"
| store: "session s0 M0 s M \<Longrightarrow> M p = Some n \<Longrightarrow> x \<in> room p n \<Longrightarrow> session s0 M0 (poke x b s) M"

definition sound :: "'s \<Rightarrow> (ptr \<rightharpoonup> u64) \<Rightarrow> bool" where
  "sound s M \<longleftrightarrow> inv s \<and> (\<forall>p n. M p = Some n \<longrightarrow> owned s p n)
     \<and> (\<forall>p q n k. M p = Some n \<and> M q = Some k \<and> p \<noteq> q \<longrightarrow> extent p n \<inter> extent q k = {})"

lemma sound_grant:
  assumes "sound s M" and "alloc n s = Ret (q, t)" and "q \<noteq> NULL"
  shows "sound t (M(q \<mapsto> n))"
proof -
  have inv: "inv s" and own: "\<And>p k. M p = Some k \<Longrightarrow> owned s p k"
    and dj: "\<And>p p' k k'. M p = Some k \<Longrightarrow> M p' = Some k' \<Longrightarrow> p \<noteq> p' \<Longrightarrow> extent p k \<inter> extent p' k' = {}"
    using assms(1) by (auto simp: sound_def)
  note a = alloc_law [OF inv assms(2)]
  have new: "extent p k \<inter> extent q n = {}" "owned t p k" if "M p = Some k" for p k
    using a assms(3) own [OF that] by blast+
  show ?thesis
    unfolding sound_def
  proof (intro conjI allI impI)
    show "inv t" using a by blast
    show "owned t p k" if "(M(q \<mapsto> n)) p = Some k" for p k
      using that new(2) a assms(3) by (auto split: if_splits)
    show "extent p k \<inter> extent p' k' = {}"
      if "(M(q \<mapsto> n)) p = Some k \<and> (M(q \<mapsto> n)) p' = Some k' \<and> p \<noteq> p'" for p p' k k'
      using that new(1) dj by (fastforce split: if_splits)
  qed
qed

lemma session_sound: "session s0 M0 s M \<Longrightarrow> sound s0 M0 \<Longrightarrow> sound s M"
proof (induction rule: session.induct)
  case (grant s M n q t)
  then show ?case using sound_grant by blast
next
  case (refuse s M n t)
  then have s: "sound s M" by simp
  then have "inv s" by (simp add: sound_def)
  note a = alloc_law [OF this refuse(2)]
  have "owned t p k" if "M p = Some k" for p k using a s that unfolding sound_def by blast
  then show ?case using a s unfolding sound_def by blast
next
  case (give_back s M p n t)
  then have s: "sound s M" by simp
  obtain u where u: "dealloc p s = Ret ((), u)" "inv u"
      "\<forall>q k. owned s q k \<and> extent q k \<inter> extent p n = {} \<longrightarrow> owned u q k"
    using dealloc_law [of s p n] s give_back(2) unfolding sound_def by blast
  have "u = t" using u(1) give_back(3) by simp
  then show ?case using u(2,3) s give_back(2) unfolding sound_def fun_upd_apply by (metis option.distinct(1))
next
  case (store s M p n x b)
  then have s: "sound s M" by simp
  have "owned s p n" "inv s" using s store(2) by (auto simp: sound_def)
  from poke_law [OF this(2,1) store(3), of b] show ?case
    using s store(2) unfolding sound_def by (metis option.inject)
qed simp

text \<open>Whatever a client holds it can release, and it never holds a block twice.\<close>

lemma sound_release: "sound s M \<Longrightarrow> M p = Some n \<Longrightarrow> \<exists>t. dealloc p s = Ret ((), t)"
  using dealloc_law [of s p n] unfolding sound_def by blast

lemma sound_fresh:
  assumes s: "sound s M" and a: "alloc k s = Ret (q, t)" "q \<noteq> NULL"
  shows "M q = None"
proof (rule ccontr)
  assume "M q \<noteq> None"
  then obtain j where j: "M q = Some j" by blast
  then have o: "owned s q j" and i: "inv s" using s by (auto simp: sound_def)
  then have "extent q j \<inter> extent q k = {}" using alloc_law [OF i a(1)] a(2) by blast
  then show False using extent_head by blast
qed

end


section \<open>\<^verbatim>\<open>kmalloc\<close> and \<^verbatim>\<open>kfree\<close> provide the interface\<close>

definition heap_ok :: "nat \<Rightarrow> nat set \<Rightarrow> nat \<Rightarrow> 'z km_sys_scheme \<Rightarrow> bool" where
  "heap_ok N P c s \<longleftrightarrow> (\<exists>F L. kinv N P F L s) \<and> cpu_ready 4 c s
     \<and> lock_free Kmalloc_lock s \<and> lock_free Pgalloc_lock s"

definition held :: "nat \<Rightarrow> nat set \<Rightarrow> 'z km_sys_scheme \<Rightarrow> ptr \<Rightarrow> u64 \<Rightarrow> bool" where
  "held N P s p n \<longleftrightarrow> (\<exists>F L. kinv N P F L s \<and> live N P F L s p n)"

definition poke_byte :: "ptr \<Rightarrow> u8 \<Rightarrow> 'z km_sys_scheme \<Rightarrow> 'z km_sys_scheme" where
  "poke_byte x b s = s\<lparr>mem := (mem s)(x := b)\<rparr>"

definition user_bytes :: "ptr \<Rightarrow> u64 \<Rightarrow> ptr set" where
  "user_bytes p n = {x. unat p \<le> unat x \<and> unat x < unat p + unat n}"

lemma held_live: "held N P s p n \<Longrightarrow> kinv N P F L s \<Longrightarrow> live N P F L s p n"
  using kinv_unique unfolding held_def live_def by metis

lemma heap_ok_step: "heap_ok N P c s \<Longrightarrow> kstep c s t \<Longrightarrow> kinv N P F L t \<Longrightarrow> heap_ok N P c t"
  using kstep_keeps unfolding heap_ok_def by blast

lemma kmalloc_law:
  assumes ok: "heap_ok N P c s" and run: "kmalloc n s = Ret (q, t)"
  shows "heap_ok N P c t \<and> (q \<noteq> NULL \<longrightarrow> held N P t q n)
      \<and> (\<forall>p k. held N P s p k \<longrightarrow> held N P t p k \<and> (q \<noteq> NULL \<longrightarrow> ext (p - 16, k) \<inter> ext (q - 16, n) = {}))"
proof -
  obtain F L where inv: "kinv N P F L s" using ok by (auto simp: heap_ok_def)
  have rd: "cpu_ready 4 c s" and lk: "lock_free Kmalloc_lock s" "lock_free Pgalloc_lock s"
    using ok by (auto simp: heap_ok_def)
  show ?thesis
  proof (cases "n = 0 \<or> 4080 < unat n")
    case True
    then have t: "q = NULL" "t = s\<lparr>cpus := settled c s\<rparr>" using kmalloc_refuses [OF rd lk(1)] run by auto
    have "kstep c s t" by (simp add: kstep_def t(2))
    moreover have "kinv N P F' L' t \<longleftrightarrow> kinv N P F' L' s" "live N P F' L' t p k \<longleftrightarrow> live N P F' L' s p k" for F' L' p k
      using view_cong(1,2) [of t s t s] by (simp_all add: t(2) live_def)
    ultimately show ?thesis using heap_ok_step [OF ok _, of t F L] inv t(1) by (auto simp: held_def)
  next
    case False
    then have n: "0 < unat n" "unat n \<le> 4080" by (auto simp: unat_gt_0)
    from kmalloc_ok [OF inv rd lk n] run
    consider (grant) F' L' where "kstep c s t" "kgrant N P F L n s q t F' L'"
      | (null) F' L' where "q = NULL" "kstep c s t" "kinv N P F' L' t" "kfoot N F' L' t = kfoot N F L s"
          "same_out (kfoot N F L s) (mem s) (mem t)"
      by fastforce
    then show ?thesis
    proof cases
      case grant
      have inv': "kinv N P F' L' t" using grant(2) by (simp add: kgrant_def)
      have "held N P t q n" using kgrant_live [OF grant(2)] inv' by (auto simp: held_def)
      moreover have "held N P t p k \<and> ext (p - 16, k) \<inter> ext (q - 16, n) = {}" if "held N P s p k" for p k
        using kgrant_keeps_live(1,2) [OF grant(2) held_live [OF that inv]] inv' by (auto simp: held_def)
      ultimately show ?thesis using heap_ok_step [OF ok grant(1) inv'] by blast
    next
      case null
      have "held N P t p k" if h: "held N P s p k" for p k
      proof -
        have l: "live N P F L s p k" by (rule held_live [OF h inv])
        then have dj: "ext (p - 16, k) \<inter> kfoot N F L s = {}" by (simp add: live_def)
        have "live N P F' L' t p k" by (rule live_frame [OF l null(5) dj]) (use dj null(4) in auto)
        then show ?thesis using null(3) by (auto simp: held_def)
      qed
      then show ?thesis using heap_ok_step [OF ok null(2,3)] null(1) by simp
    qed
  qed
qed

lemma kfree_law:
  assumes ok: "heap_ok N P c s" and h: "held N P s p n"
  shows "\<exists>t. kfree p s = Ret ((), t) \<and> heap_ok N P c t
      \<and> (\<forall>q k. held N P s q k \<and> ext (q - 16, k) \<inter> ext (p - 16, n) = {} \<longrightarrow> held N P t q k)"
proof -
  obtain F L where inv: "kinv N P F L s" using ok by (auto simp: heap_ok_def)
  have rd: "cpu_ready 2 c s" and lk: "lock_free Kmalloc_lock s"
    using ok cpu_ready_mono [of 4 c s 2] by (auto simp: heap_ok_def)
  note l = held_live [OF h inv]
  show ?thesis
  proof (cases "unat n < 8")
    case True
    let ?t = "s\<lparr>cpus := settled c s\<rparr>"
    have "kstep c s ?t" by (simp add: kstep_def)
    moreover have "kinv N P F' L' ?t \<longleftrightarrow> kinv N P F' L' s" "live N P F' L' ?t q k \<longleftrightarrow> live N P F' L' s q k" for F' L' q k
      using view_cong(1,2) [of ?t s ?t s] by (simp_all add: live_def)
    ultimately show ?thesis
      using kfree_small [OF rd lk l True] heap_ok_step [OF ok _, of ?t F L] inv by (auto simp: held_def)
  next
    case False
    then obtain t L' where t: "kfree p s = Ret ((), t)" "kstep c s t" "kinv N P F L' t"
        "kfoot N F L' t = kfoot N F L s \<union> ext (p - 16, n)" "same_out (kfoot N F L' t) (mem s) (mem t)"
      using kfree_ok [OF inv rd lk l] by auto
    have "held N P t q k" if "held N P s q k \<and> ext (q - 16, k) \<inter> ext (p - 16, n) = {}" for q k
    proof -
      have lq: "live N P F L s q k" using that held_live inv by blast
      then have dj: "ext (q - 16, k) \<inter> kfoot N F L' t = {}" using that t(4) by (auto simp: live_def)
      have "live N P F L' t q k" by (rule live_frame [OF lq t(5) dj]) (use dj in auto)
      then show ?thesis using t(3) by (auto simp: held_def)
    qed
    then show ?thesis using t(1) heap_ok_step [OF ok t(2,3)] by blast
  qed
qed

lemma poke_law_km:
  assumes ok: "heap_ok N P c s" and h: "held N P s p n" and x: "x \<in> user_bytes p n"
  shows "heap_ok N P c (poke_byte x b s) \<and> held N P (poke_byte x b s) p n
      \<and> (\<forall>q k. held N P s q k \<and> ext (q - 16, k) \<inter> ext (p - 16, n) = {} \<longrightarrow> held N P (poke_byte x b s) q k)"
proof -
  let ?t = "poke_byte x b s"
  obtain F L where inv: "kinv N P F L s" using ok by (auto simp: heap_ok_def)
  note l = held_live [OF h inv]
  have p: "unat p = unat (p - 16) + 16" and dj: "ext (p - 16, n) \<inter> kfoot N F L s = {}" using l by (simp_all add: live_def)
  have xe: "unat x \<in> ext (p - 16, n)" using x p by (auto simp: user_bytes_def ext_def)
  have so: "same_out {unat x} (mem s) (mem ?t)" by (auto simp: same_out_def poke_byte_def word_unat_eq_iff)
  have "{unat x} \<inter> kfoot N F L s = {}" using xe dj by blast
  note k = kinv_poke [OF inv so this]
  have t: "s\<lparr>mem := mem ?t\<rparr> = ?t" by (simp add: poke_byte_def)
  have keep: "held N P ?t q k" if q: "held N P s q k" "ext (q - 16, k) \<inter> ext (p - 16, n) = {}" for q k
  proof -
    have lq: "live N P F L s q k" using q held_live inv by blast
    have "live N P F L ?t q k"
      by (rule live_frame [OF lq so]) (use lq q xe k t in \<open>auto simp: live_def\<close>)
    then show ?thesis using k t by (auto simp: held_def)
  qed
  have hd: "ld64 (mem ?t) (p - 8) = ld64 (mem s) (p - 8)"
  proof (rule ld64_same_out [OF so])
    have "8 \<le> p" using p by (simp add: word_le_nat_alt)
    then have p8: "unat (p - 8) = unat p - 8" by (simp add: unat_sub_le)
    show "{unat (p - 8)..<unat (p - 8) + 8} \<inter> {unat x} = {}" using x p8 p by (auto simp: user_bytes_def)
    show "unat (p - 8) + 8 \<le> 2 ^ 64" using p8 p l by (auto simp: live_def)
  qed
  have "live N P F L ?t p n" using l hd k(2) t by (simp add: live_def)
  then have "held N P ?t p n" using k(1) t by (auto simp: held_def)
  moreover have "heap_ok N P c ?t"
  proof -
    have "cpu_ready 4 c ?t" using ok cpu_ready_same [of s ?t] by (simp add: heap_ok_def same_cpu_def poke_byte_def)
    then show ?thesis using ok k t by (auto simp: heap_ok_def poke_byte_def lock_free_def)
  qed
  ultimately show ?thesis using keep by blast
qed

interpretation kh: kernel_heap kmalloc kfree poke_byte "heap_ok N P c" "held N P" "\<lambda>p n. ext (p - 16, n)" user_bytes
  for N P c
proof
  show "ext (p - 16, n) \<inter> ext (p - 16, k) \<noteq> {}" for p n k
  proof -
    have "unat (p - 16) \<in> ext (p - 16, n) \<inter> ext (p - 16, k)" by (simp add: ext_def)
    then show ?thesis by blast
  qed
qed (fact kmalloc_law kfree_law poke_law_km)+


section \<open>A heap for the concrete instances\<close>

text \<open>The kernel after \<^verbatim>\<open>pgalloc_init\<close>, \<^verbatim>\<open>kmalloc_init\<close> and the release of eight pages to the page allocator.\<close>

definition demo_km :: km_sys where
  "demo_km = pg_sys.extend demo_pg \<lparr>size_list = 0\<rparr>"

definition boot_heap :: "km_sys \<Rightarrow> (unit \<times> km_sys) outcome" where
  "boot_heap = bindk (pgalloc_init 0x1000000) (\<lambda>_. bindk kmalloc_init (\<lambda>_. pgalloc_free (pva 1024) 3))"

lemma demo_km_init_ready: "init_ready 4096 {1024..<4096} demo_km"
  using demo_init_ready unfolding init_ready_def zone_ready_def boot_zone_def demo_km_def
  by (simp add: pg_sys.extend_def)

lemma demo_km_ready: "cpu_ready 9 0 demo_km"
  by (simp add: demo_km_def demo_pg_def demo_boot_def demo_machine_def machine.extend_def boot_sys.extend_def
      pg_sys.extend_def cpu_ready_def demo_cpu_def cpu_lookup_def lapic_id_def)

lemma demo_heap:
  obtains s where "boot_heap demo_km = Ret ((), s)" and "kinv 4096 {1024..<4096} ((\<lambda>_. [])(3 := [1024])) [] s"
    and "cpu_ready 9 0 s" and "lock_free Kmalloc_lock s" and "lock_free Pgalloc_lock s"
proof -
  obtain s where s: "pgalloc_init 0x1000000 demo_km = Ret ((), s)" "rep 4096 {1024..<4096} (core s) (\<lambda>_. [])"
      "lock_free Pgalloc_lock s" "same_cpu demo_km s"
    using pgalloc_init_rep [OF demo_km_init_ready demo_pages] by blast
  obtain t where t: "kmalloc_init s = Ret ((), t)" "t = s\<lparr>size_list := NULL, locks := (locks s)
      (Kmalloc_lock := \<lparr>locked = 0, lk_name = ''kmalloc'', lk_cpu = None\<rparr>)\<rparr>"
    by (simp add: kmalloc_init_def init_lock_def)
  have rd: "cpu_ready 9 0 t"
    using demo_km_ready cpu_ready_same [OF s(4)] cpu_ready_same [of s t] by (simp add: t(2) same_cpu_def)
  have lk: "lock_free Pgalloc_lock t" "lock_free Kmalloc_lock t" using s(3) by (simp_all add: t(2) lock_free_def)
  have rep: "rep 4096 {1024..<4096} (core t) (\<lambda>_. [])" using s(2) by (simp add: t(2) core_def)
  have sub: "blk 3 1024 \<subseteq> {1024..<4096}" by (auto simp: blk_def)
  obtain u where u: "pgalloc_free (pva 1024) (int 3) t = Ret ((), u)"
      "rep 4096 {1024..<4096} (core u) (a_free 3 1024 (\<lambda>_. []))"
      "u = t\<lparr>mem := mem u, pgalloc_bins := pgalloc_bins u, cpus := settled 0 t\<rparr>"
    using pgalloc_free_refines [OF rep cpu_ready_mono [OF rd] lk(1), of 3 1024] sub by (auto simp: MAX_ORDER_def empty_wf)
  have fr: "a_free 3 1024 (\<lambda>_. []) = (\<lambda>_. [])(3 := [1024])" by (subst a_free.simps) simp
  have "size_list u = NULL" by (subst u(3)) (simp add: t(2))
  then have "kinv 4096 {1024..<4096} ((\<lambda>_. [])(3 := [1024])) [] u"
    using u(2) fr by (simp add: kinv_def hrep_def heap_def by_size_def page_limit_num)
  moreover have "boot_heap demo_km = Ret ((), u)" using s(1) t(1) u(1) by (simp add: boot_heap_def bindk_def)
  moreover have "lock_free Kmalloc_lock u" "lock_free Pgalloc_lock u" using lk lock_free_after [OF _ u(3)] by blast+
  ultimately show thesis using that cpu_ready_after [OF rd u(3)] by blast
qed

lemma demo_pages_nonempty: "pages ((\<lambda>_. [])(3 := [1024 :: nat])) \<noteq> {}"
  using pagesI [of 3 1024 "(\<lambda>_. [])(3 := [1024])" 1024] by (auto simp: MAX_ORDER_def)

text \<open>C9: \<^verbatim>\<open>kmalloc\<close>. A request of 0 or more than 4080 bytes returns NULL. Any other request either gets a block:
  its bytes and header were free or in a free page and leave the allocators' footprint, the header records the
  size, only bytes of the footprint (free blocks, free pages and the page allocator's bitmaps) were written, and every block already handed out keeps its contents and is
  disjoint from the new one; or it panics, only when no page is free and no block of the list fits; or it
  returns NULL, only for sizes above 4056 (which a whole page cannot always serve).\<close>

theorem kmalloc_correct:
  assumes "kinv N P F L s" and "cpu_ready 4 c s" and "lock_free Kmalloc_lock s" and "lock_free Pgalloc_lock s"
  shows "if n = 0 \<or> 4080 < unat n then kmalloc n s = Ret (NULL, s\<lparr>cpus := settled c s\<rparr>)
     else (\<exists>q t F' L'. kmalloc n s = Ret (q, t) \<and> q \<noteq> NULL \<and> kstep c s t \<and> kgrant N P F L n s q t F' L'
            \<and> (\<forall>p k. live N P F L s p k \<longrightarrow> live N P F' L' t p k \<and> ext (p - 16, k) \<inter> ext (q - 16, n) = {}
                 \<and> (\<forall>x. unat x \<in> ext (p - 16, k) \<longrightarrow> mem t x = mem s x)))
       \<or> kmalloc n s = Panic ''malloc: OOM'' \<and> pages F = {} \<and> (\<forall>d \<in> set L. \<not> fits n d)
       \<or> (\<exists>t F' L'. kmalloc n s = Ret (NULL, t) \<and> kstep c s t \<and> 4056 < unat n \<and> kinv N P F' L' t
            \<and> kfoot N F' L' t = kfoot N F L s)"
proof (cases "n = 0 \<or> 4080 < unat n")
  case True
  then show ?thesis using kmalloc_refuses [OF assms(2,3)] by simp
next
  case False
  then have n: "0 < unat n" "unat n \<le> 4080" by (auto simp: unat_gt_0)
  have "q \<noteq> NULL" if "kgrant N P F L n s q t F' L'" for q t F' L' using that by (auto simp: kgrant_def)
  moreover have "\<forall>p k. live N P F L s p k \<longrightarrow> live N P F' L' t p k \<and> ext (p - 16, k) \<inter> ext (q - 16, n) = {}
                 \<and> (\<forall>x. unat x \<in> ext (p - 16, k) \<longrightarrow> mem t x = mem s x)"
    if "kgrant N P F L n s q t F' L'" for q t F' L'
    using kgrant_keeps_live [OF that] by blast
  ultimately show ?thesis using kmalloc_ok [OF assms n] False by (simp only: if_False) meson
qed

theorem kmalloc_correct_witness:
  "\<exists>s t q. boot_heap demo_km = Ret ((), s) \<and> kmalloc 100 s = Ret (q, t) \<and> q \<noteq> NULL"
proof -
  obtain s where s: "boot_heap demo_km = Ret ((), s)" "kinv 4096 {1024..<4096} ((\<lambda>_. [])(3 := [1024])) [] s"
      "cpu_ready 9 0 s" "lock_free Kmalloc_lock s" "lock_free Pgalloc_lock s"
    by (rule demo_heap)
  have "cpu_ready 4 0 s" by (rule cpu_ready_mono [OF s(3)]) simp
  from kmalloc_correct [OF s(2) this s(4,5), of 100] show ?thesis
    using s(1) demo_pages_nonempty by (simp, blast)
qed

text \<open>C10: \<^verbatim>\<open>kfree\<close> of a block of at least eight bytes in a client's hands returns: header and contents become
  free bytes again, the free list stays ordered by size with pairwise disjoint blocks, and nothing outside the allocators' own
  bytes (free blocks, free pages and bitmaps) is written. A block of fewer than eight bytes stays lost: the call changes nothing.\<close>

theorem kfree_correct:
  assumes "kinv N P F L s" and "cpu_ready 2 c s" and "lock_free Kmalloc_lock s" and "live N P F L s p n"
  shows "if unat n < 8 then kfree p s = Ret ((), s\<lparr>cpus := settled c s\<rparr>)
     else (\<exists>t L'. kfree p s = Ret ((), t) \<and> kstep c s t \<and> kinv N P F L' t
            \<and> kfoot N F L' t = kfoot N F L s \<union> ext (p - 16, n) \<and> same_out (kfoot N F L' t) (mem s) (mem t))"
  using kfree_ok [OF assms] kfree_small [OF assms(2-4)] by simp

theorem kfree_correct_witness:
  "\<exists>s t q u. boot_heap demo_km = Ret ((), s) \<and> kmalloc 100 s = Ret (q, t) \<and> kfree q t = Ret ((), u)"
proof -
  obtain s where s: "boot_heap demo_km = Ret ((), s)" "kinv 4096 {1024..<4096} ((\<lambda>_. [])(3 := [1024])) [] s"
      "cpu_ready 9 0 s" "lock_free Kmalloc_lock s" "lock_free Pgalloc_lock s"
    by (rule demo_heap)
  have rd: "cpu_ready 4 0 s" by (rule cpu_ready_mono [OF s(3)]) simp
  obtain q t F' L' where g: "kmalloc 100 s = Ret (q, t)" "kstep 0 s t"
      "kgrant 4096 {1024..<4096} ((\<lambda>_. [])(3 := [1024])) [] 100 s q t F' L'"
    using kmalloc_ok [OF s(2) rd s(4,5), of 100] demo_pages_nonempty by (simp, blast)
  have "cpu_ready 2 0 t" "lock_free Kmalloc_lock t" "kinv 4096 {1024..<4096} F' L' t"
    using kstep_keeps(1) [OF g(2) cpu_ready_mono [OF rd, of 2]] kstep_keeps(2) [OF g(2)] s(4) g(3)
    by (simp_all add: kgrant_def)
  from kfree_correct [OF this(3,1,2) kgrant_live [OF g(3)]] show ?thesis using s(1) g(1) by (simp, blast)
qed

text \<open>C11: in every session of a client that allocates, stores into the blocks it holds and frees them, from any
  consistent heap: the blocks held are pairwise disjoint including their headers, a grant never returns a block
  that is still held, and \<^verbatim>\<open>kfree\<close> of a held block returns (it never panics or loops).\<close>

theorem heap_sessions_safe:
  assumes "heap_ok N P c s0" and "kernel_heap.session kmalloc kfree poke_byte user_bytes s0 Map.empty s M"
  shows "heap_ok N P c s
     \<and> (\<forall>p q n k. M p = Some n \<and> M q = Some k \<and> p \<noteq> q \<longrightarrow> ext (p - 16, n) \<inter> ext (q - 16, k) = {})
     \<and> (\<forall>p n. M p = Some n \<longrightarrow> (\<exists>t. kfree p s = Ret ((), t)))
     \<and> (\<forall>n q t. kmalloc n s = Ret (q, t) \<and> q \<noteq> NULL \<longrightarrow> M q = None)"
proof -
  have s0: "kernel_heap.sound (heap_ok N P c) (held N P) (\<lambda>p n. ext (p - 16, n)) s0 Map.empty"
    using assms(1) by (simp add: kh.sound_def)
  note s = kh.session_sound [OF assms(2) s0]
  have "\<exists>t. kfree p s = Ret ((), t)" if "M p = Some n" for p n by (rule kh.sound_release [OF s that])
  moreover have "M q = None" if "kmalloc n s = Ret (q, t)" "q \<noteq> NULL" for n q t by (rule kh.sound_fresh [OF s that])
  ultimately show ?thesis using s unfolding kh.sound_def by blast
qed


theorem heap_sessions_safe_witness:
  "\<exists>s t q u. boot_heap demo_km = Ret ((), s) \<and> kmalloc 100 s = Ret (q, t)
     \<and> kernel_heap.session kmalloc kfree poke_byte user_bytes s Map.empty t [q \<mapsto> 100] \<and> kfree q t = Ret ((), u)"
proof -
  obtain s where s: "boot_heap demo_km = Ret ((), s)" "kinv 4096 {1024..<4096} ((\<lambda>_. [])(3 := [1024])) [] s"
      "cpu_ready 9 0 s" "lock_free Kmalloc_lock s" "lock_free Pgalloc_lock s"
    by (rule demo_heap)
  have rd: "cpu_ready 4 0 s" by (rule cpu_ready_mono [OF s(3)]) simp
  obtain q t F' L' where g: "kmalloc 100 s = Ret (q, t)"
      "kgrant 4096 {1024..<4096} ((\<lambda>_. [])(3 := [1024])) [] 100 s q t F' L'"
    using kmalloc_ok [OF s(2) rd s(4,5), of 100] demo_pages_nonempty by (simp, blast)
  have "q \<noteq> NULL" using g(2) by (auto simp: kgrant_def)
  from kh.session.grant [OF kh.session.start g(1) this]
  have run: "kernel_heap.session kmalloc kfree poke_byte user_bytes s Map.empty t [q \<mapsto> 100]" .
  have "heap_ok 4096 {1024..<4096} 0 s" using s rd by (auto simp: heap_ok_def)
  note safe = heap_sessions_safe [OF this run]
  have "[q \<mapsto> 100] q = Some 100" by simp
  then obtain u where "kfree q t = Ret ((), u)" using safe by blast
  then show ?thesis using s(1) g(1) run by blast
qed

section \<open>\<^verbatim>\<open>kcalloc\<close> and \<^verbatim>\<open>krealloc\<close>\<close>

lemma user_write:
  assumes inv: "kinv N P F L s" and lv: "live N P F L s q n"
    and so: "same_out {unat q..<unat q + unat n} (mem s) m"
  shows "kinv N P F L (s\<lparr>mem := m\<rparr>)" and "kfoot N F L (s\<lparr>mem := m\<rparr>) = kfoot N F L s"
    and "live N P F L (s\<lparr>mem := m\<rparr>) q n"
proof -
  have q: "unat q = unat (q - 16) + 16" "unat q + unat n < 2 ^ 64" and dj: "ext (q - 16, n) \<inter> kfoot N F L s = {}"
    using lv by (simp_all add: live_def)
  have "{unat q..<unat q + unat n} \<subseteq> ext (q - 16, n)" using q by (auto simp: ext_def)
  then have "{unat q..<unat q + unat n} \<inter> kfoot N F L s = {}" using dj by blast
  note k = kinv_poke [OF inv so this]
  then show "kinv N P F L (s\<lparr>mem := m\<rparr>)" "kfoot N F L (s\<lparr>mem := m\<rparr>) = kfoot N F L s" by simp_all
  have "8 \<le> q" using q by (simp add: word_le_nat_alt)
  then have q8: "unat (q - 8) = unat q - 8" by (simp add: unat_sub_le)
  have "ld64 m (q - 8) = ld64 (mem s) (q - 8)"
    by (rule ld64_same_out [OF so]) (use q q8 in auto)
  then show "live N P F L (s\<lparr>mem := m\<rparr>) q n" using lv k(2) by (simp add: live_def)
qed

lemma same_out_region:
  assumes "unat q + k \<le> 2 ^ 64" and "\<And>x. x \<notin> region q k \<Longrightarrow> m' x = m x" and "unat q + k \<le> r"
  shows "same_out {unat q..<r} m m'"
  using assms by (auto simp: same_out_def in_region_nat)

text \<open>\<^verbatim>\<open>kcalloc\<close> hands out a block of the (wrapped) product of its arguments with every byte zero, under the
  conditions of \<^verbatim>\<open>kmalloc\<close>.\<close>

theorem kcalloc_correct:
  assumes "kinv N P F L s" and "cpu_ready 4 c s" and "lock_free Kmalloc_lock s" and "lock_free Pgalloc_lock s"
    and "unat (nmemb * sz) = n" and "0 < n" and "n \<le> 4080"
  shows "(\<exists>q t F' L'. kcalloc nmemb sz s = Ret (q, t) \<and> q \<noteq> NULL \<and> kinv N P F' L' t \<and> live N P F' L' t q (nmemb * sz)
            \<and> kfoot N F' L' t = kfoot N F L s - ext (q - 16, nmemb * sz)
            \<and> ld_bytes (mem t) q n = replicate n 0 \<and> same_out (kfoot N F L s) (mem s) (mem t))
       \<or> kcalloc nmemb sz s = Panic ''malloc: OOM'' \<and> pages F = {}
       \<or> 4056 < n \<and> (\<exists>t. kcalloc nmemb sz s = Ret (NULL, t))"
proof -
  have n: "0 < unat (nmemb * sz)" "unat (nmemb * sz) \<le> 4080" using assms(5-7) by simp_all
  from kmalloc_ok [OF assms(1-4) n] show ?thesis
  proof (elim disjE exE conjE)
    fix q t F' L'
    assume k: "kmalloc (nmemb * sz) s = Ret (q, t)" and g: "kgrant N P F L (nmemb * sz) s q t F' L'"
    let ?m = "memset q 0 (sz * nmemb) (mem t)"
    have q0: "q \<noteq> NULL" and qn: "unat q + n < 2 ^ 64" using g assms(5) by (auto simp: kgrant_def)
    have "unat (sz * nmemb) < 2 ^ 31" using n by (simp add: mult.commute)
    from memset_eq [OF this, of q 0 "mem t"] have m: "?m = (\<lambda>x. if x \<in> region q n then 0 else mem t x)"
      using assms(5) by (auto simp: mult.commute fun_eq_iff)
    have so: "same_out {unat q..<unat q + unat (nmemb * sz)} (mem t) ?m"
      using same_out_region [of q n ?m "mem t" "unat q + n"] qn m assms(5) by simp
    note w = user_write [OF _ kgrant_live [OF g] so]
    have inv: "kinv N P F' L' t" using g by (simp add: kgrant_def)
    have "kcalloc nmemb sz s = Ret (q, t\<lparr>mem := ?m\<rparr>)" using k q0 by (simp add: kcalloc_def bindk_def)
    moreover have "ld_bytes ?m q n = replicate n 0"
      using assms(7) m by (intro nth_equalityI) (simp_all add: ld_bytes_def mem_region_add)
    moreover have "same_out (kfoot N F L s) (mem s) ?m"
    proof -
      have "{unat q..<unat q + unat (nmemb * sz)} \<subseteq> ext (q - 16, nmemb * sz)"
        using g by (auto simp: kgrant_def ext_def)
      then have "{unat q..<unat q + unat (nmemb * sz)} \<subseteq> kfoot N F L s" using g unfolding kgrant_def by blast
      from same_out_mono [OF so this] show ?thesis using g unfolding kgrant_def by (blast intro: same_out_trans)
    qed
    ultimately show ?thesis using q0 w [OF inv] g
      by (intro disjI1 exI [of _ q] exI [of _ "t\<lparr>mem := ?m\<rparr>"] exI [of _ F'] exI [of _ L']) (simp add: kgrant_def)
  qed (use assms(5) in \<open>auto simp: kcalloc_def bindk_def\<close>)
qed

theorem kcalloc_correct_witness:
  "\<exists>s t q. boot_heap demo_km = Ret ((), s) \<and> kcalloc 10 8 s = Ret (q, t) \<and> ld_bytes (mem t) q 80 = replicate 80 0"
proof -
  obtain s where s: "boot_heap demo_km = Ret ((), s)" "kinv 4096 {1024..<4096} ((\<lambda>_. [])(3 := [1024])) [] s"
      "cpu_ready 9 0 s" "lock_free Kmalloc_lock s" "lock_free Pgalloc_lock s"
    by (rule demo_heap)
  have "cpu_ready 4 0 s" by (rule cpu_ready_mono [OF s(3)]) simp
  from kcalloc_correct [OF s(2) this s(4,5), of 10 8 80] show ?thesis
    using s(1) demo_pages_nonempty by (simp, blast)
qed

text \<open>What \<^verbatim>\<open>kfree\<close> gives back: nothing for a block of fewer than eight bytes.\<close>

definition freed :: "ptr \<Rightarrow> u64 \<Rightarrow> nat set" where
  "freed p k = (if 8 \<le> unat k then ext (p - 16, k) else {})"

lemma kfree_any:
  assumes inv: "kinv N P F L s" and rd: "cpu_ready 2 c s" and lk: "lock_free Kmalloc_lock s" and lv: "live N P F L s p k"
  shows "\<exists>t L'. kfree p s = Ret ((), t) \<and> kinv N P F L' t \<and> kfoot N F L' t = kfoot N F L s \<union> freed p k
     \<and> same_out (kfoot N F L' t) (mem s) (mem t)"
proof (cases "unat k < 8")
  case True
  let ?t = "s\<lparr>cpus := settled c s\<rparr>"
  have "kinv N P F L ?t" "kfoot N F L ?t = kfoot N F L s" using view_cong [of ?t s s s] inv by simp_all
  then show ?thesis using kfree_small [OF rd lk lv True] True by (intro exI [of _ ?t] exI [of _ L]) (simp add: freed_def)
next
  case False
  then show ?thesis using kfree_ok [OF inv rd lk lv] by (simp add: freed_def) blast
qed

text \<open>\<open>moved N P F L s p k n q t\<close>: the block \<open>q\<close> of \<open>n\<close> bytes has taken the place of the block \<open>p\<close> of \<open>k\<close> bytes.\<close>

definition moved :: "nat \<Rightarrow> nat set \<Rightarrow> free_lists \<Rightarrow> block list \<Rightarrow> 'z km_sys_scheme \<Rightarrow> ptr \<Rightarrow> u64 \<Rightarrow> u64 \<Rightarrow> ptr \<Rightarrow> 'z km_sys_scheme \<Rightarrow> bool" where
  "moved N P F L s p k n q t \<longleftrightarrow> q \<noteq> NULL \<and> ext (q - 16, n) \<subseteq> kfoot N F L s
     \<and> ld_bytes (mem t) q (unat (min n k)) = ld_bytes (mem s) p (unat (min n k))
     \<and> same_out (kfoot N F L s \<union> freed p k) (mem s) (mem t)
     \<and> (\<exists>F' L'. kinv N P F' L' t \<and> live N P F' L' t q n \<and> kfoot N F' L' t = (kfoot N F L s - ext (q - 16, n)) \<union> freed p k)"

lemma krealloc_moves:
  assumes inv: "kinv N P F L s" and rd: "cpu_ready 4 c s" and lk: "lock_free Kmalloc_lock s" "lock_free Pgalloc_lock s"
    and n: "n \<noteq> 0" and lv: "live N P F L s p k"
    and km: "kmalloc n s = Ret (q, t)" and ks: "kstep c s t" and g: "kgrant N P F L n s q t F' L'"
  shows "\<exists>v. krealloc p n s = Ret (q, v) \<and> moved N P F L s p k n q v"
proof -
  have inv1: "kinv N P F' L' t" and q0: "q \<noteq> NULL" and ft: "kfoot N F' L' t = kfoot N F L s - ext (q - 16, n)"
    and sub: "ext (q - 16, n) \<subseteq> kfoot N F L s" and so0: "same_out (kfoot N F L s) (mem s) (mem t)" using g by (auto simp: kgrant_def)
  note lq = kgrant_live [OF g] and lp = kgrant_keeps_live [OF g lv]
  let ?w = "min n k"
  have w: "unat ?w \<le> unat n" "unat ?w \<le> unat k" by (simp_all add: min_def word_le_nat_alt)
  have bp: "unat p + unat ?w < 2 ^ 64" "unat q + unat ?w < 2 ^ 64"
    using lq lp(1) w unfolding live_def by linarith+
  let ?m = "memcpy q p ?w (mem t)" and ?t = "t\<lparr>mem := memcpy q p ?w (mem t)\<rparr>"
  have m: "?m = (\<lambda>x. if x \<in> region q (unat ?w) then mem t (p + (x - q)) else mem t x)"
    unfolding memcpy_def by (rule memmove_eq [OF bp])
  have so: "same_out {unat q..<unat q + unat n} (mem t) ?m"
    by (rule same_out_region [of q "unat ?w"]) (use bp w m in auto)
  note u = user_write [OF inv1 lq so]
  have eq: "{unat q..<unat q + unat n} \<subseteq> ext (q - 16, n)" using lq by (auto simp: live_def ext_def)
  have "kfoot N F' L' ?t \<inter> ext (p - 16, k) = {}" using lp(1) unfolding u(2) live_def by blast
  then have lp': "live N P F' L' ?t p k"
    using live_frame [OF lp(1), of "ext (q - 16, n)" ?t] same_out_mono [OF so eq] lp(2) by simp
  have cp: "ld_bytes ?m q (unat ?w) = ld_bytes (mem s) p (unat ?w)"
  proof -
    have "?m (q + of_nat i) = mem s (p + of_nat i)" if i: "i < unat ?w" for i
    proof -
      have "unat (p + of_nat i) = unat p + i" using i bp(1) by (intro unat_add_of_nat) simp
      then have "unat (p + of_nat i) \<in> ext (p - 16, k)" using i w(2) lv by (auto simp: live_def ext_def)
      then have "mem t (p + of_nat i) = mem s (p + of_nat i)" using lp(3) by blast
      moreover have "unat ?w \<le> 2 ^ 64" using bp(2) by linarith
      ultimately show ?thesis using m mem_region_add [OF i, of q] by simp
    qed
    then show ?thesis by (simp add: ld_bytes_def)
  qed
  have rd2: "cpu_ready 2 c ?t" and lk2: "lock_free Kmalloc_lock ?t"
    using kstep_keeps(1) [OF ks cpu_ready_mono [OF rd, of 2]] kstep_keeps(2) [OF ks, of Kmalloc_lock] lk(1)
      cpu_ready_same [of t ?t 2 c] by (simp_all add: same_cpu_def lock_free_def)
  obtain v L'' where v: "kfree p ?t = Ret ((), v)" "kinv N P F' L'' v"
      "kfoot N F' L'' v = kfoot N F' L' ?t \<union> freed p k" "same_out (kfoot N F' L'' v) ?m (mem v)"
    using kfree_any [OF u(1) rd2 lk2 lp'] by auto
  have fr: "freed p k \<subseteq> ext (p - 16, k)" by (simp add: freed_def)
  have dj: "ext (q - 16, n) \<inter> kfoot N F' L'' v = {}" using v(3) u(3) lp(2) fr by (auto simp: live_def)
  have live: "live N P F' L'' v q n" by (rule live_frame [OF u(3)]) (use v(4) dj in auto)
  have same: "ld_bytes (mem v) q (unat ?w) = ld_bytes ?m q (unat ?w)"
  proof -
    have "mem v (q + of_nat i) = ?m (q + of_nat i)" if i: "i < unat ?w" for i
    proof -
      have "unat (q + of_nat i) = unat q + i" using i bp(2) by (intro unat_add_of_nat) simp
      then have "unat (q + of_nat i) \<in> ext (q - 16, n)" using i w(1) eq by (auto)
      then show ?thesis using v(4) dj by (auto simp: same_out_def)
    qed
    then show ?thesis by (simp add: ld_bytes_def)
  qed
  have foot: "kfoot N F' L'' v = (kfoot N F L s - ext (q - 16, n)) \<union> freed p k" using v(3) u(2) ft by simp
  have frame: "same_out (kfoot N F L s \<union> freed p k) (mem s) (mem v)"
  proof -
    have "same_out (kfoot N F L s \<union> freed p k) (mem s) (mem t)" by (rule same_out_mono [OF so0]) simp
    moreover have "same_out (kfoot N F L s \<union> freed p k) (mem t) ?m" by (rule same_out_mono [OF so]) (use eq sub in blast)
    moreover have "same_out (kfoot N F L s \<union> freed p k) ?m (mem v)" by (rule same_out_mono [OF v(4)]) (use foot in blast)
    ultimately show ?thesis by (blast intro: same_out_trans)
  qed
  have p0: "p \<noteq> NULL" "ld64 (mem t) (p - 16 + 8) = k" using lp(1) by (auto simp: live_def)
  have "krealloc p n s = Ret (q, v)"
    using km v(1) n p0 q0 by (simp add: krealloc_def bindk_def Let_def retk_def)
  then show ?thesis using q0 sub cp same frame v(2) live foot unfolding moved_def by auto
qed

text \<open>C18: \<^verbatim>\<open>krealloc\<close> of a block \<open>p\<close> of \<open>k\<close> bytes, for every new size. Size 0 frees the block and returns NULL. Up to
  4080 bytes there are three outcomes. Normally the call returns a block of the new size taken from free memory that starts with the
  old contents (as many bytes as both sizes have), the old block is free again (unless it has fewer than eight bytes,
  which \<^verbatim>\<open>kfree\<close> drops) and no other byte has changed. It panics only with no page left and no free block that fits. And above 4056 bytes, when \<^verbatim>\<open>kmalloc\<close> returns NULL, it copies to the null pointer, as it always does
  above 4080 bytes.\<close>

theorem krealloc_correct:
  assumes inv: "kinv N P F L s" and rd: "cpu_ready 4 c s" and lk: "lock_free Kmalloc_lock s" "lock_free Pgalloc_lock s"
    and lv: "live N P F L s p k" and k: "0 < unat k"
  shows "if n = 0 then
      (\<exists>t L'. krealloc p n s = Ret (NULL, t) \<and> kinv N P F L' t \<and> kfoot N F L' t = kfoot N F L s \<union> freed p k
         \<and> same_out (kfoot N F L' t) (mem s) (mem t))
    else if unat n \<le> 4080 then
      (\<exists>q t. krealloc p n s = Ret (q, t) \<and> moved N P F L s p k n q t)
      \<or> krealloc p n s = Panic ''malloc: OOM'' \<and> pages F = {} \<and> (\<forall>d \<in> set L. \<not> fits n d)
      \<or> krealloc p n s = Undef ''memcpy to NULL'' \<and> 4056 < unat n \<and> (\<exists>t. kmalloc n s = Ret (NULL, t))
    else krealloc p n s = Undef ''memcpy to NULL''"
proof -
  have p0: "p \<noteq> NULL" "ld64 (mem s) (p - 16 + 8) = k" using lv by (auto simp: live_def)
  have rd2: "cpu_ready 2 c s" by (rule cpu_ready_mono [OF rd]) simp
  consider "n = 0" | "n \<noteq> 0" "unat n \<le> 4080" | "4080 < unat n" by (cases "n = 0"; cases "unat n \<le> 4080") auto
  then show ?thesis
  proof cases
    case 1
    then show ?thesis using kfree_any [OF inv rd2 lk(1) lv] p0(1) by (auto simp: krealloc_def bindk_def retk_def)
  next
    case 2
    have n: "0 < unat n" using 2(1) by (simp add: unat_gt_0)
    have null: "krealloc p n s = Undef ''memcpy to NULL''" if t: "kmalloc n s = Ret (NULL, t)" and m: "ld64 (mem t) (p - 16 + 8) = k" for t
      using t m 2(1) p0(1) k n by (auto simp: krealloc_def bindk_def Let_def min_def unat_eq_0)
    from kmalloc_ok [OF inv rd lk n 2(2)] show ?thesis
    proof (elim disjE exE conjE)
      fix q t F' L'
      assume "kmalloc n s = Ret (q, t)" "kstep c s t" "kgrant N P F L n s q t F' L'"
      from krealloc_moves [OF inv rd lk 2(1) lv this] show ?thesis using 2 by auto
    next
      assume "kmalloc n s = Panic ''malloc: OOM''" "pages F = {}" "\<forall>d \<in> set L. \<not> fits n d"
      then show ?thesis using 2 p0 by (simp add: krealloc_def bindk_def Let_def)
    next
      fix t F' L'
      assume t: "kmalloc n s = Ret (NULL, t)" "4056 < unat n" "same_out (kfoot N F L s) (mem s) (mem t)"
        and ft: "kfoot N F' L' t = kfoot N F L s"
      have "ext (p - 16, k) \<inter> kfoot N F L s = {}" using lv by (simp add: live_def)
      then have "live N P F' L' t p k" by (intro live_frame [OF lv t(3)]) (use ft in auto)
      then have "ld64 (mem t) (p - 16 + 8) = k" by (auto simp: live_def)
      then show ?thesis using null [OF t(1)] t(1,2) 2 by auto
    qed
  next
    case 3
    then have "n \<noteq> 0" "\<not> unat n \<le> 4080" "min n k \<noteq> 0" using k by (auto simp: min_def)
    then show ?thesis using kmalloc_refuses [OF rd lk(1), of n] 3 p0 by (simp add: krealloc_def bindk_def Let_def)
  qed
qed

theorem krealloc_correct_witness:
  "\<exists>s t q u p. boot_heap demo_km = Ret ((), s) \<and> kmalloc 100 s = Ret (q, t) \<and> krealloc q 200 t = Ret (p, u) \<and> p \<noteq> NULL
     \<and> ld_bytes (mem u) p 100 = ld_bytes (mem t) q 100 \<and> krealloc q 5000 t = Undef ''memcpy to NULL''"
proof -
  obtain s where s: "boot_heap demo_km = Ret ((), s)" "kinv 4096 {1024..<4096} ((\<lambda>_. [])(3 := [1024])) [] s"
      "cpu_ready 9 0 s" "lock_free Kmalloc_lock s" "lock_free Pgalloc_lock s"
    by (rule demo_heap)
  have rd: "cpu_ready 4 0 s" by (rule cpu_ready_mono [OF s(3)]) simp
  obtain q t F' L' where g: "kmalloc 100 s = Ret (q, t)" "kstep 0 s t"
      "kgrant 4096 {1024..<4096} ((\<lambda>_. [])(3 := [1024])) [] 100 s q t F' L'"
    using kmalloc_ok [OF s(2) rd s(4,5), of 100] demo_pages_nonempty by (simp, blast)
  have t: "cpu_ready 4 0 t" "lock_free Kmalloc_lock t" "lock_free Pgalloc_lock t" "kinv 4096 {1024..<4096} F' L' t"
    using kstep_keeps(1) [OF g(2) rd] kstep_keeps(2) [OF g(2)] s(4,5) g(3) by (simp_all add: kgrant_def)
  obtain i where i: "pages ((\<lambda>_. [])(3 := [1024])) - {i} \<subseteq> pages F'" using g(3) by (auto simp: kgrant_def)
  have "1024 \<in> pages ((\<lambda>_. [])(3 := [1024]))" "1025 \<in> pages ((\<lambda>_. [])(3 := [1024]))"
    using pagesI [of 3 1024 "(\<lambda>_. [])(3 := [1024])"] by (auto simp: MAX_ORDER_def blk_def)
  then have pg: "pages F' \<noteq> {}" using i by (cases "i = 1024") auto
  have "0 < unat (100 :: u64)" by simp
  note r = krealloc_correct [OF t(4,1,2,3) kgrant_live [OF g(3)] this]
  obtain p u where u: "krealloc q 200 t = Ret (p, u)" "moved 4096 {1024..<4096} F' L' t q 100 200 p u"
    using r [of 200] pg by auto
  have "min (200 :: u64) 100 = 100" by (simp add: min_def)
  then have "p \<noteq> NULL" "ld_bytes (mem u) p 100 = ld_bytes (mem t) q 100" using u(2) by (simp_all add: moved_def)
  moreover have "krealloc q 5000 t = Undef ''memcpy to NULL''" using r [of 5000] by simp
  ultimately show ?thesis using s(1) g(1) u(1) by blast
qed

end
