(* ===== verification/Dequeue.thy ===== *)
theory Dequeue
  imports Kheap_Calls
begin

text \<open>
  The double-ended queue \<^verbatim>\<open>kernel/src/util/queue.c\<close>, whose nodes come from the kernel heap: its operations on
  byte memory, their behaviour on the represented list of items, and the loops and leaks of the code.
\<close>

section \<open>Structures\<close>

text \<open>
  \<^verbatim>\<open>dequeue_t\<close> has the words \<^verbatim>\<open>size\<close>, \<^verbatim>\<open>head\<close>, \<^verbatim>\<open>tail\<close> and \<^verbatim>\<open>struct dequeue_node\<close> the words \<^verbatim>\<open>data\<close>,
  \<^verbatim>\<open>next\<close>, \<^verbatim>\<open>prev\<close>: both are three 64-bit words at offsets 0, 8 and 16.
\<close>

definition word0 :: "memory \<Rightarrow> ptr \<Rightarrow> u64" where "word0 m p = ld64 m p"
definition word1 :: "memory \<Rightarrow> ptr \<Rightarrow> u64" where "word1 m p = ld64 m (p + 8)"
definition word2 :: "memory \<Rightarrow> ptr \<Rightarrow> u64" where "word2 m p = ld64 m (p + 16)"
definition set_word0 :: "ptr \<Rightarrow> u64 \<Rightarrow> memory \<Rightarrow> memory" where "set_word0 p v m = st64 m p v"
definition set_word1 :: "ptr \<Rightarrow> u64 \<Rightarrow> memory \<Rightarrow> memory" where "set_word1 p v m = st64 m (p + 8) v"
definition set_word2 :: "ptr \<Rightarrow> u64 \<Rightarrow> memory \<Rightarrow> memory" where "set_word2 p v m = st64 m (p + 16) v"

abbreviation "q_size \<equiv> word0"
abbreviation "q_head \<equiv> word1"
abbreviation "q_tail \<equiv> word2"
abbreviation "n_data \<equiv> word0"
abbreviation "n_next \<equiv> word1"
abbreviation "n_prev \<equiv> word2"

definition sizeof_dequeue :: u64 where "sizeof_dequeue = 24"
definition sizeof_node :: u64 where "sizeof_node = 24"

record dequeue_iter =
  it_q :: ptr
  current_node :: ptr

section \<open>Operations\<close>

definition dequeue_construct :: "ptr \<Rightarrow> 'z km_sys_scheme \<Rightarrow> (unit \<times> 'z km_sys_scheme) outcome" where
  "dequeue_construct q s =
     (if q = NULL then Ret ((), s) else Ret ((), s\<lparr>mem := memset q 0 sizeof_dequeue (mem s)\<rparr>))"

text \<open>The stores of \<^verbatim>\<open>dequeue_push_back\<close> once the node is allocated.\<close>

definition link_back :: "ptr \<Rightarrow> ptr \<Rightarrow> u64 \<Rightarrow> memory \<Rightarrow> memory" where
  "link_back q node item m =
     (let m1 = set_word1 node NULL (set_word0 node item m);
          m2 = (if q_size m1 q = 0 then set_word1 q node (set_word2 node NULL m1)
                else let m' = set_word2 node (q_tail m1 q) m1 in set_word1 (q_tail m' q) node m');
          m3 = set_word2 q node m2
      in set_word0 q (q_size m3 q + 1) m3)"

definition dequeue_push_back :: "ptr \<Rightarrow> u64 \<Rightarrow> 'z km_sys_scheme \<Rightarrow> (unit \<times> 'z km_sys_scheme) outcome" where
  "dequeue_push_back q item =
     bindk (kmalloc sizeof_node) (\<lambda>node s.
       if node = NULL then Undef ''null dequeue_node''
       else Ret ((), s\<lparr>mem := link_back q node item (mem s)\<rparr>))"

definition link_front :: "ptr \<Rightarrow> ptr \<Rightarrow> u64 \<Rightarrow> memory \<Rightarrow> memory" where
  "link_front q node item m =
     (let m1 = set_word2 node NULL (set_word0 node item m);
          m2 = set_word1 node (q_head m1 q) m1;
          m3 = set_word2 (q_head m2 q) node m2;
          m4 = set_word1 q node m3
      in set_word0 q (q_size m4 q + 1) m4)"

text \<open>On an empty queue \<^verbatim>\<open>dequeue_push_front\<close> calls itself with the same arguments.\<close>

partial_function (option) push_front_rec ::
  "ptr \<Rightarrow> u64 \<Rightarrow> 'z km_sys_scheme \<Rightarrow> (unit \<times> 'z km_sys_scheme) outcome option" where
  "push_front_rec q item s =
     (if q_size (mem s) q = 0 then push_front_rec q item s
      else Some (bindk (kmalloc sizeof_node) (\<lambda>node t.
        if node = NULL then Undef ''null dequeue_node''
        else Ret ((), t\<lparr>mem := link_front q node item (mem t)\<rparr>)) s))"

definition dequeue_push_front :: "ptr \<Rightarrow> u64 \<Rightarrow> 'z km_sys_scheme \<Rightarrow> (unit \<times> 'z km_sys_scheme) outcome" where
  "dequeue_push_front q item s = (case push_front_rec q item s of None \<Rightarrow> Hang | Some r \<Rightarrow> r)"

definition dequeue_peek_front :: "ptr \<Rightarrow> 'z km_sys_scheme \<Rightarrow> (u64 \<times> 'z km_sys_scheme) outcome" where
  "dequeue_peek_front q s =
     (if q_size (mem s) q = 0 then Ret (NULL, s) else Ret (n_data (mem s) (q_head (mem s) q), s))"

definition dequeue_pop_front :: "ptr \<Rightarrow> 'z km_sys_scheme \<Rightarrow> (u64 \<times> 'z km_sys_scheme) outcome" where
  "dequeue_pop_front q s =
     (if q_size (mem s) q = 0 then Ret (NULL, s)
      else
        let m = mem s; node = q_head m q;
            m1 = set_word1 q (n_next m (q_head m q)) m;
            m2 = set_word0 q (q_size m1 q - 1) m1;
            finish = (\<lambda>m3. bindk (kfree node) (\<lambda>_. retk (n_data m3 node)) (s\<lparr>mem := m3\<rparr>))
        in if q_size m2 q = 0 then finish (set_word2 q NULL m2)
           else if q_head m2 q = NULL then panic ''null head size > 0?'' (s\<lparr>mem := m2\<rparr>)
           else finish (set_word2 (q_head m2 q) NULL m2))"

definition dequeue_pop_back :: "ptr \<Rightarrow> 'z km_sys_scheme \<Rightarrow> (u64 \<times> 'z km_sys_scheme) outcome" where
  "dequeue_pop_back q = panic ''not implemented''"

definition dequeue_iterator :: "ptr \<Rightarrow> 'z km_sys_scheme \<Rightarrow> dequeue_iter" where
  "dequeue_iterator q s = \<lparr>it_q = q, current_node = q_head (mem s) q\<rparr>"

definition dequeue_iterator_next :: "dequeue_iter \<Rightarrow> 'z km_sys_scheme \<Rightarrow> u64 \<times> dequeue_iter" where
  "dequeue_iterator_next it s =
     (if current_node it \<noteq> NULL
      then (n_data (mem s) (current_node it), it\<lparr>current_node := n_next (mem s) (current_node it)\<rparr>)
      else (NULL, it))"

definition dequeue_iterator_has_next :: "dequeue_iter \<Rightarrow> bool" where
  "dequeue_iterator_has_next it \<longleftrightarrow> current_node it \<noteq> NULL"

text \<open>Taking \<open>target\<close> out of the list: the unlinked node is not given back to the heap.\<close>

definition unlink_node :: "ptr \<Rightarrow> ptr \<Rightarrow> memory \<Rightarrow> memory" where
  "unlink_node q target m =
     (let m1 = (if n_prev m target \<noteq> NULL then set_word1 (n_prev m target) (n_next m target) m
                else set_word1 q (n_next m target) m);
          m2 = (if n_next m1 target \<noteq> NULL then set_word2 (n_next m1 target) (n_prev m1 target) m1
                else set_word2 q (n_prev m1 target) m1);
          m3 = set_word2 target NULL (set_word1 target NULL m2)
      in set_word0 q (q_size m3 q - 1) m3)"

definition dequeue_iterator_delete ::
  "dequeue_iter \<Rightarrow> 'z km_sys_scheme \<Rightarrow> (dequeue_iter \<times> 'z km_sys_scheme) outcome" where
  "dequeue_iterator_delete it s =
     (let q = it_q it; m = mem s in
      if q_size m q = 0 then Ret (it, s)
      else if q_size m q = 1 then bindk (dequeue_pop_front q) (\<lambda>_. retk it) s
      else
        let target = (if current_node it = NULL then q_tail m q else n_prev m (current_node it));
            m' = (if target \<noteq> NULL then unlink_node q target m else m);
            it' = (if q_size m' q = 0 then it\<lparr>current_node := NULL\<rparr> else it)
        in Ret (it', s\<lparr>mem := m'\<rparr>))"

section \<open>Words of separate objects\<close>

text \<open>Objects of 24 bytes that do not overlap: each word of one is independent of the words of the others.\<close>

definition apart24 :: "ptr set \<Rightarrow> bool" where
  "apart24 A \<longleftrightarrow> (\<forall>a \<in> A. 0 < unat a \<and> unat a + 24 < 2 ^ 64)
     \<and> (\<forall>a \<in> A. \<forall>b \<in> A. a \<noteq> b \<longrightarrow> unat a + 24 \<le> unat b \<or> unat b + 24 \<le> unat a)"

lemma apart24_subset: "apart24 A \<Longrightarrow> B \<subseteq> A \<Longrightarrow> apart24 B"
  by (auto simp: apart24_def)

lemma apart24_nonzero: "apart24 A \<Longrightarrow> a \<in> A \<Longrightarrow> a \<noteq> NULL"
  by (auto simp: apart24_def)

lemma words_apart:
  assumes A: "apart24 A" "a \<in> A" "b \<in> A" and ij: "i \<in> {0, 8, 16}" "j \<in> {0, 8, 16}" and ne: "a \<noteq> b \<or> i \<noteq> j"
  shows "ld64 (st64 m (a + i) v) (b + j) = ld64 m (b + j)"
proof -
  have bd: "unat a + 24 < 2 ^ 64" "unat b + 24 < 2 ^ 64" using A by (auto simp: apart24_def)
  have u: "unat (a + i) = unat a + unat i" "unat (b + j) = unat b + unat j"
    using ij bd by (auto simp: unat_add_numeral)
  have k: "unat i \<in> {0, 8, 16}" "unat j \<in> {0, 8, 16}" using ij by auto
  have "unat (b + j) + 8 \<le> unat (a + i) \<or> unat (a + i) + 8 \<le> unat (b + j)"
  proof (cases "a = b")
    case True
    then show ?thesis using ne ij u by auto
  next
    case False
    then have "unat a + 24 \<le> unat b \<or> unat b + 24 \<le> unat a" using A by (auto simp: apart24_def)
    then show ?thesis using u k by auto
  qed
  then show ?thesis using u k bd by (intro ld64_st64_other region_disjoint_nat) auto
qed

lemmas words_defs = word0_def word1_def word2_def set_word0_def set_word1_def set_word2_def

lemma words_set:
  assumes "apart24 A" "a \<in> A" "b \<in> A"
  shows "word0 (set_word0 a v m) b = (if a = b then v else word0 m b)" "word0 (set_word1 a v m) b = word0 m b"
    "word0 (set_word2 a v m) b = word0 m b" "word1 (set_word0 a v m) b = word1 m b"
    "word1 (set_word1 a v m) b = (if a = b then v else word1 m b)" "word1 (set_word2 a v m) b = word1 m b"
    "word2 (set_word0 a v m) b = word2 m b" "word2 (set_word1 a v m) b = word2 m b"
    "word2 (set_word2 a v m) b = (if a = b then v else word2 m b)"
  using words_apart [OF assms, of 0 0 m v] words_apart [OF assms, of 0 8 m v] words_apart [OF assms, of 0 16 m v]
    words_apart [OF assms, of 8 0 m v] words_apart [OF assms, of 8 8 m v] words_apart [OF assms, of 8 16 m v]
    words_apart [OF assms, of 16 0 m v] words_apart [OF assms, of 16 8 m v] words_apart [OF assms, of 16 16 m v]
  by (simp_all add: words_defs)

lemma set_words_frame:
  assumes "unat a + 24 < 2 ^ 64" and "{unat a..<unat a + 24} \<subseteq> R"
  shows "same_out R m (set_word0 a v m)" "same_out R m (set_word1 a v m)" "same_out R m (set_word2 a v m)"
proof -
  have u: "unat (a + 8) = unat a + 8" "unat (a + 16) = unat a + 16" using assms(1) by (auto simp: unat_add_numeral)
  show "same_out R m (set_word0 a v m)" "same_out R m (set_word1 a v m)" "same_out R m (set_word2 a v m)"
    unfolding words_defs by (rule same_out_st64; use assms u in auto)+
qed

section \<open>Lists in memory\<close>

text \<open>\<open>dseg m pr p ns nx l\<close>: from \<open>p\<close>, whose predecessor is \<open>pr\<close>, the nodes \<open>ns\<close> lead to \<open>nx\<close>; \<open>l\<close> is the last one.\<close>

fun dseg :: "memory \<Rightarrow> ptr \<Rightarrow> ptr \<Rightarrow> ptr list \<Rightarrow> ptr \<Rightarrow> ptr \<Rightarrow> bool" where
  "dseg m pr p [] nx l \<longleftrightarrow> p = nx \<and> l = pr"
| "dseg m pr p (n # ns) nx l \<longleftrightarrow> p = n \<and> n_prev m n = pr \<and> dseg m n (n_next m n) ns nx l"

lemma dseg_append:
  "dseg m pr p (xs @ ys) nx l \<longleftrightarrow> (\<exists>r k. dseg m pr p xs r k \<and> dseg m k r ys nx l)"
  by (induction xs arbitrary: pr p) auto

lemma dseg_cong:
  "(\<And>n. n \<in> set ns \<Longrightarrow> n_next m' n = n_next m n \<and> n_prev m' n = n_prev m n)
    \<Longrightarrow> dseg m' pr p ns nx l \<longleftrightarrow> dseg m pr p ns nx l"
  by (induction ns arbitrary: pr p) auto

text \<open>\<open>dq m q ns ds\<close>: the queue at \<open>q\<close> consists of the nodes \<open>ns\<close> with the items \<open>ds\<close>.\<close>

definition dq :: "memory \<Rightarrow> ptr \<Rightarrow> ptr list \<Rightarrow> u64 list \<Rightarrow> bool" where
  "dq m q ns ds \<longleftrightarrow> unat (q_size m q) = length ns \<and> map (n_data m) ns = ds
     \<and> dseg m NULL (q_head m q) ns NULL (q_tail m q) \<and> distinct (q # ns)"

lemma dq_empty: "dq m q [] ds \<longleftrightarrow> ds = [] \<and> q_size m q = 0 \<and> q_head m q = NULL \<and> q_tail m q = NULL"
  by (auto simp: dq_def unat_eq_0)

lemma link_back_words:
  assumes A: "apart24 A" "q \<in> A" "node \<in> A" "q_tail m q \<in> A" and ne: "q_size m q \<noteq> 0" "node \<noteq> q" "q_tail m q \<noteq> node"
    and b: "b \<in> A"
  shows "word0 (link_back q node item m) b = (if b = q then q_size m q + 1 else if b = node then item else word0 m b)"
    and "q_tail m q \<noteq> q \<Longrightarrow> word1 (link_back q node item m) b
      = (if b = q_tail m q then node else if b = node then NULL else word1 m b)"
    and "word2 (link_back q node item m) b = (if b = q then node else if b = node then q_tail m q else word2 m b)"
  using assms by (simp_all add: link_back_def Let_def words_set [OF A(1)])

lemma link_back_words_empty:
  assumes A: "apart24 A" "q \<in> A" "node \<in> A" and ne: "q_size m q = 0" "node \<noteq> q" and b: "b \<in> A"
  shows "word0 (link_back q node item m) b = (if b = q then 1 else if b = node then item else word0 m b)"
    and "word1 (link_back q node item m) b = (if b = q then node else if b = node then NULL else word1 m b)"
    and "word2 (link_back q node item m) b = (if b = q then node else if b = node then NULL else word2 m b)"
  using assms by (simp_all add: link_back_def Let_def words_set [OF A(1)])

lemma dseg_last: "dseg m pr p (xs @ [k]) nx l \<longleftrightarrow> l = k \<and> n_next m k = nx \<and> (\<exists>r. dseg m pr p xs k r \<and> n_prev m k = r)"
  by (auto simp: dseg_append)

lemma unat_Suc: "unat (x :: u64) + 1 < 2 ^ 64 \<Longrightarrow> unat (x + 1) = unat x + 1"
  using unat_add_of_nat [of x 1] by simp

lemma link_back_ok:
  assumes d: "dq m q ns ds" and A: "apart24 (insert q (insert node (set ns)))" and node: "node \<notin> set (q # ns)"
    and len: "length ns + 1 < 2 ^ 64"
  shows "dq (link_back q node item m) q (ns @ [node]) (ds @ [item])"
proof (cases ns rule: rev_cases)
  case Nil
  then have z: "q_size m q = 0" using d by (simp add: dq_empty)
  have nz: "node \<noteq> q" "q \<noteq> NULL" using node apart24_nonzero [OF A, of q] by auto
  note w = link_back_words_empty [OF A _ _ z nz(1)]
  show ?thesis using Nil d nz w [of q] w [of node] by (simp add: dq_def)
next
  case (snoc xs k)
  have dist: "distinct (q # xs @ [k])" and sz: "unat (q_size m q) = length xs + 1"
    and dt: "map (n_data m) (xs @ [k]) = ds" and sg: "dseg m NULL (q_head m q) (xs @ [k]) NULL (q_tail m q)"
    using d snoc by (auto simp: dq_def)
  have tl: "q_tail m q = k" and seg: "dseg m NULL (q_head m q) xs k (n_prev m k)" using sg by (auto simp: dseg_last)
  have z: "q_size m q \<noteq> 0" using sz by auto
  have kn: "k \<noteq> q" "node \<noteq> q" "node \<noteq> k" "node \<notin> set xs" "k \<notin> set xs" "q \<notin> set xs" using node snoc dist by auto
  let ?m = "link_back q node item m"
  have w: "word0 ?m b = (if b = q then q_size m q + 1 else if b = node then item else word0 m b)"
    "word1 ?m b = (if b = k then node else if b = node then NULL else word1 m b)"
    "word2 ?m b = (if b = q then node else if b = node then k else word2 m b)"
    if "b \<in> insert q (insert node (set ns))" for b
    using link_back_words [OF A _ _ _ z, of node b item] that kn tl snoc by auto
  have "dseg ?m NULL (q_head m q) xs k (n_prev m k) \<longleftrightarrow> dseg m NULL (q_head m q) xs k (n_prev m k)"
    by (rule dseg_cong) (use w kn snoc in \<open>auto split: if_splits\<close>)
  then have "dseg ?m NULL (q_head m q) (xs @ [k, node]) NULL node"
    using seg w [of k] w [of node] kn snoc by (auto simp: dseg_append)
  moreover have "map (n_data ?m) (xs @ [k, node]) = ds @ [item]"
    using dt w kn snoc by (auto split: if_splits)
  moreover have "unat (q_size ?m q) = length xs + 2"
    using w [of q] sz len snoc unat_Suc [of "q_size m q"] by simp
  ultimately show ?thesis using w [of q] kn snoc dist by (auto simp: dq_def)
qed

definition span24 :: "ptr \<Rightarrow> nat set" where "span24 p = {unat p..<unat p + 24}"

lemma words_frame:
  assumes "apart24 A" "a \<in> A" "span24 a \<subseteq> R"
  shows "same_out R m (set_word0 a v m)" "same_out R m (set_word1 a v m)" "same_out R m (set_word2 a v m)"
  using set_words_frame [of a R] assms by (auto simp: apart24_def span24_def)

lemma link_back_frame:
  assumes A: "apart24 A" "q \<in> A" "node \<in> A" "q_size m q \<noteq> 0 \<longrightarrow> q_tail m q \<in> A \<and> q_tail m q \<noteq> node" "node \<noteq> q"
    and R: "\<And>a. a \<in> A \<Longrightarrow> span24 a \<subseteq> R"
  shows "same_out R m (link_back q node item m)"
proof -
  note f = words_frame [OF A(1)] and w = words_set [OF A(1)]
  show ?thesis
    unfolding link_back_def Let_def
    using A R
    by (auto simp: w intro!: same_out_trans [OF _ f(1)] same_out_trans [OF _ f(2)] same_out_trans [OF _ f(3)])
qed

lemma dq_cong:
  assumes "dq m q ns ds" and "\<And>b. b \<in> insert q (set ns) \<Longrightarrow> word0 m' b = word0 m b \<and> word1 m' b = word1 m b \<and> word2 m' b = word2 m b"
  shows "dq m' q ns ds"
proof -
  have "dseg m' NULL (q_head m q) ns NULL (q_tail m q) \<longleftrightarrow> dseg m NULL (q_head m q) ns NULL (q_tail m q)"
    by (rule dseg_cong) (use assms(2) in auto)
  then show ?thesis using assms by (auto simp: dq_def)
qed

lemma dq_head_tail:
  assumes "dq m q (n # ns) (d # ds)"
  shows "q_head m q = n" "n_prev m n = NULL" "n_data m n = d" "dseg m n (n_next m n) ns NULL (q_tail m q)"
    "map (n_data m) ns = ds" "distinct (q # n # ns)" "unat (q_size m q) = length ns + 1" "q_size m q \<noteq> 0"
  using assms by (auto simp: dq_def)

lemma unat_pred: "0 < unat (x :: u64) \<Longrightarrow> unat (x - 1) = unat x - 1"
  by (metis One_nat_def Suc_pred unat_minus_one unat_0 less_irrefl)

text \<open>
  \<^verbatim>\<open>unlink_node\<close> as a plain sequence of stores, with \<open>y\<close> the predecessor (or the queue itself) and \<open>x\<close> the
  successor (or the queue itself).
\<close>

lemma unlink_node_eq:
  assumes A: "apart24 A" "q \<in> A" "n \<in> A" "y \<in> A" "x \<in> A" and ne: "q \<noteq> n" "y \<noteq> n" "x \<noteq> n"
    and y: "y = (if n_prev m n = NULL then q else n_prev m n)" and x: "x = (if n_next m n = NULL then q else n_next m n)"
  shows "unlink_node q n m = set_word0 q (q_size m q - 1) (set_word2 n NULL (set_word1 n NULL
           (set_word2 x (n_prev m n) (set_word1 y (n_next m n) m))))"
proof -
  note ws = words_set [OF A(1)]
  have m1: "(if n_prev m n \<noteq> NULL then set_word1 (n_prev m n) (n_next m n) m else set_word1 q (n_next m n) m)
      = set_word1 y (n_next m n) m"
    by (simp add: y)
  have r: "n_next (set_word1 y (n_next m n) m) n = n_next m n" "n_prev (set_word1 y (n_next m n) m) n = n_prev m n"
    using ws(5,8) [of y n] A ne by simp_all
  have m2: "(if n_next m n \<noteq> NULL then set_word2 (n_next m n) (n_prev m n) m1 else set_word2 q (n_prev m n) m1)
      = set_word2 x (n_prev m n) m1" for m1
    by (simp add: x)
  have z: "q_size (set_word2 n NULL (set_word1 n NULL (set_word2 x v (set_word1 y w m)))) q = q_size m q" for v w
    using ws(2,3) A by simp
  show ?thesis by (simp only: unlink_node_def Let_def m1 r m2 z)
qed

lemma unlink_node_words:
  assumes A: "apart24 A" "q \<in> A" "n \<in> A" "y \<in> A" "x \<in> A" and ne: "q \<noteq> n" "y \<noteq> n" "x \<noteq> n"
    and y: "y = (if n_prev m n = NULL then q else n_prev m n)" and x: "x = (if n_next m n = NULL then q else n_next m n)"
    and b: "b \<in> A"
  shows "word0 (unlink_node q n m) b = (if b = q then q_size m q - 1 else word0 m b)"
    and "word1 (unlink_node q n m) b = (if b = n then NULL else if b = y then n_next m n else word1 m b)"
    and "word2 (unlink_node q n m) b = (if b = n then NULL else if b = x then n_prev m n else word2 m b)"
proof -
  note e = unlink_node_eq [OF A ne y x] and ws = words_set [OF A(1)]
  show "word0 (unlink_node q n m) b = (if b = q then q_size m q - 1 else word0 m b)"
    unfolding e using A b by (simp add: ws eq_commute [of b])
  show "word1 (unlink_node q n m) b = (if b = n then NULL else if b = y then n_next m n else word1 m b)"
    unfolding e using A b by (simp add: ws eq_commute [of b])
  show "word2 (unlink_node q n m) b = (if b = n then NULL else if b = x then n_prev m n else word2 m b)"
    unfolding e using A b by (simp add: ws eq_commute [of b])
qed

text \<open>Taking out the node \<open>n\<close>, whatever its position.\<close>

lemma unlink_node_ok:
  assumes d: "dq m q (xs @ n # ys) (as @ a # bs)" and len: "length xs = length as"
    and A: "apart24 (insert q (set (xs @ n # ys)))"
  shows "dq (unlink_node q n m) q (xs @ ys) (as @ bs)"
proof -
  let ?m = "unlink_node q n m"
  have dist: "distinct (q # xs @ n # ys)" and sz: "unat (q_size m q) = length xs + length ys + 1"
    and dt: "map (n_data m) xs = as" "n_data m n = a" "map (n_data m) ys = bs"
    and sg: "dseg m NULL (q_head m q) (xs @ n # ys) NULL (q_tail m q)"
    using d len by (auto simp: dq_def)
  have nz: "b \<noteq> NULL" if "b \<in> insert q (set (xs @ n # ys))" for b using apart24_nonzero [OF A that] .
  obtain sx: "dseg m NULL (q_head m q) xs n (n_prev m n)" and sy: "dseg m n (n_next m n) ys NULL (q_tail m q)"
    using sg by (auto simp: dseg_append)
  have pv: "n_prev m n = (if xs = [] then NULL else last xs)"
    using sx by (cases xs rule: rev_cases) (auto simp: dseg_last)
  have nx: "n_next m n = (if ys = [] then NULL else hd ys)" using sy by (cases ys) auto
  have w: "word0 ?m b = (if b = q then q_size m q - 1 else word0 m b)"
    "word1 ?m b = (if b = n then NULL else if b = (if xs = [] then q else last xs) then n_next m n else word1 m b)"
    "word2 ?m b = (if b = n then NULL else if b = (if ys = [] then q else hd ys) then n_prev m n else word2 m b)"
    if b: "b \<in> insert q (set (xs @ n # ys))" for b
  proof -
    let ?y = "if xs = [] then q else last xs" and ?x = "if ys = [] then q else hd ys"
    have i: "q \<in> insert q (set (xs @ n # ys))" "n \<in> insert q (set (xs @ n # ys))"
      "?y \<in> insert q (set (xs @ n # ys))" "?x \<in> insert q (set (xs @ n # ys))" by auto
    have ne: "q \<noteq> n" "?y \<noteq> n" "?x \<noteq> n" using dist last_in_set [of xs] hd_in_set [of ys] by (auto simp del: last_in_set hd_in_set)
    have yx: "?y = (if n_prev m n = NULL then q else n_prev m n)" "?x = (if n_next m n = NULL then q else n_next m n)"
      using pv nx nz [OF i(3)] nz [OF i(4)] by (auto split: if_splits)
    show "word0 ?m b = (if b = q then q_size m q - 1 else word0 m b)"
      "word1 ?m b = (if b = n then NULL else if b = ?y then n_next m n else word1 m b)"
      "word2 ?m b = (if b = n then NULL else if b = ?x then n_prev m n else word2 m b)"
      using unlink_node_words [OF A i ne yx b] by simp_all
  qed
  have "dseg ?m NULL (q_head ?m q) xs (n_next m n) (n_prev m n)"
  proof (cases xs rule: rev_cases)
    case Nil
    then show ?thesis using w [of q] pv dist by simp
  next
    case (snoc zs k)
    have s: "dseg m NULL (q_head m q) zs k (n_prev m k)" "n_prev m n = k" using sx snoc by (auto simp: dseg_last)
    have "dseg ?m NULL (q_head m q) zs k (n_prev m k)"
      using s(1) by (subst dseg_cong) (use w dist snoc in auto)
    then show ?thesis using w [of k] w [of q] dist snoc s(2) by (auto simp: dseg_last)
  qed
  moreover have "dseg ?m (n_prev m n) (n_next m n) ys NULL (q_tail ?m q)"
  proof (cases ys)
    case Nil
    then show ?thesis using w [of q] nx dist by simp
  next
    case (Cons k zs)
    have "dseg ?m k (n_next m k) zs NULL (q_tail m q) \<longleftrightarrow> dseg m k (n_next m k) zs NULL (q_tail m q)"
    proof (rule dseg_cong)
      fix b assume b: "b \<in> set zs"
      then have "b \<noteq> q" "b \<noteq> n" "b \<noteq> k" "xs \<noteq> [] \<longrightarrow> b \<noteq> last xs"
        using dist Cons last_in_set [of xs] by (auto simp del: last_in_set)
      then show "n_next ?m b = n_next m b \<and> n_prev ?m b = n_prev m b" using w [of b] b Cons by auto
    qed
    then have "dseg ?m k (n_next m k) zs NULL (q_tail m q)" using sy Cons by simp
    moreover have "q_tail ?m q = q_tail m q" using w [of q] dist Cons by auto
    moreover have "k \<noteq> q" "k \<noteq> n" "xs \<noteq> [] \<longrightarrow> k \<noteq> last xs" using dist Cons last_in_set [of xs] by auto
    ultimately show ?thesis using w [of k] sy Cons by auto
  qed
  ultimately have "dseg ?m NULL (q_head ?m q) (xs @ ys) NULL (q_tail ?m q)" by (auto simp: dseg_append)
  moreover have "map (n_data ?m) (xs @ ys) = as @ bs" using dt w dist by auto
  moreover have "unat (q_size ?m q) = length xs + length ys" using w [of q] sz unat_pred [of "q_size m q"] by simp
  ultimately show ?thesis using dist by (auto simp: dq_def)
qed

text \<open>The stores of \<^verbatim>\<open>dequeue_pop_front\<close> before the node is freed.\<close>

definition pop_links :: "ptr \<Rightarrow> memory \<Rightarrow> memory" where
  "pop_links q m = (let m1 = set_word1 q (n_next m (q_head m q)) m; m2 = set_word0 q (q_size m1 q - 1) m1
     in if q_size m2 q = 0 then set_word2 q NULL m2 else set_word2 (q_head m2 q) NULL m2)"

lemma pop_links_ok:
  assumes d: "dq m q (n # ns) (a # ds)" and A: "apart24 (insert q (set (n # ns)))"
  shows "dq (pop_links q m) q ns ds" and "n_data (pop_links q m) n = a"
    and "q_size (set_word0 q (q_size m q - 1) (set_word1 q (n_next m n) m)) q = 0 \<longleftrightarrow> ns = []"
    and "ns \<noteq> [] \<Longrightarrow> q_head (set_word0 q (q_size m q - 1) (set_word1 q (n_next m n) m)) q = hd ns"
proof -
  note h = dq_head_tail [OF d] and ws = words_set [OF A]
  have nz: "b \<noteq> NULL" if "b \<in> insert q (set (n # ns))" for b using apart24_nonzero [OF A that] .
  have nx: "n_next m n = (if ns = [] then NULL else hd ns)" using h(4) by (cases ns) auto
  have u: "unat (q_size m q - 1) = length ns" using h(7) unat_pred [of "q_size m q"] by simp
  have z: "q_size m q - 1 = 0 \<longleftrightarrow> ns = []" using u by (metis length_0_conv unat_eq_0)
  have i: "q \<in> insert q (set (n # ns))" "n \<in> insert q (set (n # ns))" "ns \<noteq> [] \<longrightarrow> hd ns \<in> insert q (set (n # ns))" by auto
  show "q_size (set_word0 q (q_size m q - 1) (set_word1 q (n_next m n) m)) q = 0 \<longleftrightarrow> ns = []"
    using z i by (simp add: ws)
  show "q_head (set_word0 q (q_size m q - 1) (set_word1 q (n_next m n) m)) q = hd ns" if "ns \<noteq> []"
    using that nx i by (simp add: ws)
  let ?m = "pop_links q m"
  have w: "word0 ?m b = (if b = q then q_size m q - 1 else word0 m b)"
    "word1 ?m b = (if b = q then n_next m n else word1 m b)"
    "word2 ?m b = (if ns = [] \<and> b = q \<or> ns \<noteq> [] \<and> b = hd ns then NULL else word2 m b)"
    if b: "b \<in> insert q (set (n # ns))" for b
    using i b h(1) nx z by (auto simp: pop_links_def Let_def ws)
  show "n_data ?m n = a" using w [of n] h(3,6) by auto
  have hq: "ns \<noteq> [] \<longrightarrow> hd ns \<noteq> q" using h(6) hd_in_set [of ns] by auto
  have "dseg ?m NULL (n_next m n) ns NULL (q_tail ?m q)"
  proof (cases ns)
    case Nil
    then show ?thesis using nx w [of q] by simp
  next
    case (Cons k zs)
    have "dseg ?m k (n_next m k) zs NULL (q_tail m q)"
      using h(4) Cons by (subst dseg_cong) (use w h(6) Cons in auto)
    then show ?thesis using Cons w [of k] w [of q] h(4,6) by auto
  qed
  then show "dq ?m q ns ds" using w u h(5,6) w [of q] by (auto simp: dq_def)
qed

lemma pop_front_eq:
  assumes d: "dq (mem s) q (n # ns) (a # ds)" and A: "apart24 (insert q (set (n # ns)))"
  shows "dequeue_pop_front q s = bindk (kfree n) (\<lambda>_. retk a) (s\<lparr>mem := pop_links q (mem s)\<rparr>)"
proof -
  note h = dq_head_tail [OF d] and p = pop_links_ok [OF d A]
  have qz: "q_size (set_word1 q (n_next (mem s) n) (mem s)) q = q_size (mem s) q"
    using words_set [OF A, of q q] by simp
  have "ns \<noteq> [] \<longrightarrow> hd ns \<noteq> NULL" using apart24_nonzero [OF A, of "hd ns"] by auto
  then show ?thesis
    using p h(1,8) qz unfolding dequeue_pop_front_def pop_links_def Let_def by auto
qed

lemma pop_links_frame:
  assumes d: "dq m q (n # ns) (a # ds)" and A: "apart24 (insert q (set (n # ns)))"
    and R: "\<And>b. b \<in> insert q (set ns) \<Longrightarrow> span24 b \<subseteq> R"
  shows "same_out R m (pop_links q m)"
proof -
  note h = dq_head_tail [OF d] and p = pop_links_ok [OF d A] and f = words_frame [OF A]
  have qz: "q_size (set_word1 q (n_next m n) m) q = q_size m q" using words_set [OF A, of q q] by simp
  have "ns \<noteq> [] \<longrightarrow> hd ns \<in> insert q (set (n # ns)) \<and> span24 (hd ns) \<subseteq> R" "span24 q \<subseteq> R" using R by auto
  then show ?thesis
    unfolding pop_links_def Let_def h(1) qz using p(3,4)
    by (auto intro!: same_out_trans [OF _ f(1)] same_out_trans [OF _ f(2)] same_out_trans [OF _ f(3)])
qed

lemma unlink_node_frame:
  assumes d: "dq m q (xs @ n # ys) ds" and A: "apart24 (insert q (set (xs @ n # ys)))"
    and R: "\<And>b. b \<in> insert q (set (xs @ n # ys)) \<Longrightarrow> span24 b \<subseteq> R"
  shows "same_out R m (unlink_node q n m)"
proof -
  have sg: "dseg m NULL (q_head m q) (xs @ n # ys) NULL (q_tail m q)" and dist: "distinct (q # xs @ n # ys)"
    using d by (auto simp: dq_def)
  have pv: "n_prev m n \<noteq> NULL \<longrightarrow> n_prev m n \<in> set xs \<and> n_prev m n \<noteq> n"
    using sg dist by (cases xs rule: rev_cases) (auto simp: dseg_append)
  have nx: "n_next m n \<noteq> NULL \<longrightarrow> n_next m n \<in> set ys \<and> n_next m n \<noteq> n"
    using sg dist by (cases ys) (auto simp: dseg_append)
  note f = words_frame [OF A]
  let ?y = "if n_prev m n = NULL then q else n_prev m n" and ?x = "if n_next m n = NULL then q else n_next m n"
  have i: "q \<in> insert q (set (xs @ n # ys))" "n \<in> insert q (set (xs @ n # ys))"
    "?y \<in> insert q (set (xs @ n # ys))" "?x \<in> insert q (set (xs @ n # ys))" using pv nx by auto
  have ne: "q \<noteq> n" "?y \<noteq> n" "?x \<noteq> n" using dist pv nx by auto
  note R' = R [OF i(1)] R [OF i(2)] R [OF i(3)] R [OF i(4)]
  show ?thesis
    unfolding unlink_node_eq [OF A i ne refl refl]
    by (intro same_out_trans [OF _ f(1) [OF i(1) R'(1)]] same_out_trans [OF _ f(3) [OF i(2) R'(2)]]
        same_out_trans [OF _ f(2) [OF i(2) R'(2)]] same_out_trans [OF _ f(3) [OF i(4) R'(4)]] f(2) [OF i(3) R'(3)])
qed

section \<open>Queues over the kernel heap\<close>

abbreviation node_ext :: "ptr \<Rightarrow> nat set" where "node_ext n \<equiv> ext (n - 16, 24)"

text \<open>
  \<open>qsep N P F L s H M\<close>: the queue structures \<open>H\<close> and the nodes \<open>M\<close> are separate objects outside the allocators'
  footprint, and the nodes are live heap blocks.
\<close>

definition fits24 :: "ptr \<Rightarrow> bool" where
  "fits24 p \<longleftrightarrow> 0 < unat p \<and> unat p + 24 < 2 ^ 64"

definition qsep :: "nat \<Rightarrow> nat set \<Rightarrow> free_lists \<Rightarrow> block list \<Rightarrow> 'z km_sys_scheme \<Rightarrow> ptr set \<Rightarrow> ptr set \<Rightarrow> bool" where
  "qsep N P F L s H M \<longleftrightarrow> (\<forall>h \<in> H. fits24 h \<and> span24 h \<inter> kfoot N F L s = {})
     \<and> (\<forall>h \<in> H. \<forall>h' \<in> H. h \<noteq> h' \<longrightarrow> span24 h \<inter> span24 h' = {})
     \<and> (\<forall>n \<in> M. live N P F L s n 24) \<and> (\<forall>h \<in> H. \<forall>n \<in> M. span24 h \<inter> node_ext n = {})
     \<and> (\<forall>n \<in> M. \<forall>n' \<in> M. n \<noteq> n' \<longrightarrow> node_ext n \<inter> node_ext n' = {})"

lemma qsepI:
  assumes "\<And>h. h \<in> H \<Longrightarrow> fits24 h" and "\<And>h. h \<in> H \<Longrightarrow> span24 h \<inter> kfoot N F L s = {}"
    and "\<And>h h'. h \<in> H \<Longrightarrow> h' \<in> H \<Longrightarrow> h \<noteq> h' \<Longrightarrow> span24 h \<inter> span24 h' = {}"
    and "\<And>n. n \<in> M \<Longrightarrow> live N P F L s n 24" and "\<And>h n. h \<in> H \<Longrightarrow> n \<in> M \<Longrightarrow> span24 h \<inter> node_ext n = {}"
    and "\<And>n n'. n \<in> M \<Longrightarrow> n' \<in> M \<Longrightarrow> n \<noteq> n' \<Longrightarrow> node_ext n \<inter> node_ext n' = {}"
  shows "qsep N P F L s H M"
  unfolding qsep_def using assms by simp

lemma qsepD:
  assumes "qsep N P F L s H M"
  shows "h \<in> H \<Longrightarrow> fits24 h" and "h \<in> H \<Longrightarrow> span24 h \<inter> kfoot N F L s = {}"
    and "h \<in> H \<Longrightarrow> h' \<in> H \<Longrightarrow> h \<noteq> h' \<Longrightarrow> span24 h \<inter> span24 h' = {}"
    and "n \<in> M \<Longrightarrow> live N P F L s n 24" and "h \<in> H \<Longrightarrow> n \<in> M \<Longrightarrow> span24 h \<inter> node_ext n = {}"
    and "n \<in> M \<Longrightarrow> n' \<in> M \<Longrightarrow> n \<noteq> n' \<Longrightarrow> node_ext n \<inter> node_ext n' = {}"
  using assms unfolding qsep_def by simp_all

lemma qsep_mono: "qsep N P F L s H M \<Longrightarrow> M' \<subseteq> M \<Longrightarrow> qsep N P F L s H M'"
  by (rule qsepI) (auto dest: qsepD subsetD simp del: not_gr_zero)

lemma live_span: "live N P F L s n 24 \<Longrightarrow> span24 n \<subseteq> node_ext n" "live N P F L s n 24 \<Longrightarrow> fits24 n"
  "live N P F L s n 24 \<Longrightarrow> node_ext n \<inter> kfoot N F L s = {}"
  by (auto simp: live_def span24_def ext_def fits24_def)

lemma span_ne: "span24 a \<inter> span24 b = {} \<Longrightarrow> unat a + 24 \<le> unat b \<or> unat b + 24 \<le> unat a"
  by (rule ccontr) (auto simp: span24_def disjoint_iff dest: spec [of _ "max (unat a) (unat b)"])

lemma qsep_spans:
  assumes q: "qsep N P F L s H M" and a: "a \<in> H \<union> M"
  shows "fits24 a" and "span24 a \<inter> kfoot N F L s = {}"
    and "n \<in> M \<Longrightarrow> a \<noteq> n \<Longrightarrow> span24 a \<inter> node_ext n = {}"
    and "b \<in> H \<union> M \<Longrightarrow> a \<noteq> b \<Longrightarrow> span24 a \<inter> span24 b = {}"
proof -
  note D = qsepD [OF q]
  show "fits24 a" using a D(1) live_span(2) [OF D(4)] by auto
  show "span24 a \<inter> kfoot N F L s = {}" using a D(2) live_span(1,3) [OF D(4)] by blast
  show n: "span24 a \<inter> node_ext n = {}" if "n \<in> M" "a \<noteq> n" for n
    using a D(5) D(6) [of a n] that live_span(1) [OF D(4), of a] by blast
  show "span24 a \<inter> span24 b = {}" if b: "b \<in> H \<union> M" "a \<noteq> b"
  proof (cases "b \<in> M")
    case True
    then show ?thesis using n [OF True b(2)] live_span(1) [OF D(4) [OF True]] by blast
  next
    case False
    then have "b \<in> H" using b(1) by blast
    then show ?thesis using a D(3) [of a b] D(5) [of b a] b(2) live_span(1) [OF D(4), of a] by blast
  qed
qed

lemma qsep_apart:
  assumes q: "qsep N P F L s H M"
  shows "apart24 (H \<union> M)" and "H \<inter> M = {}"
proof -
  note S = qsep_spans [OF q] and D = qsepD [OF q]
  show "apart24 (H \<union> M)"
    unfolding apart24_def using S(1) span_ne [OF S(4)] unfolding fits24_def by simp
  have "unat a \<in> span24 a" for a by (simp add: span24_def)
  then have "a \<notin> M" if "a \<in> H" for a using D(5) [OF that] live_span(1) [OF D(4), of a] by blast
  then show "H \<inter> M = {}" by blast
qed

lemma words_same_out:
  assumes so: "same_out R m m'" and dj: "span24 b \<inter> R = {}" and bd: "unat b + 24 < 2 ^ 64"
  shows "word0 m' b = word0 m b" "word1 m' b = word1 m b" "word2 m' b = word2 m b"
proof -
  have u: "unat (b + 8) = unat b + 8" "unat (b + 16) = unat b + 16" using bd by (auto simp: unat_add_numeral)
  have s: "{unat b..<unat b + 8} \<subseteq> span24 b" "{unat (b + 8)..<unat (b + 8) + 8} \<subseteq> span24 b"
    "{unat (b + 16)..<unat (b + 16) + 8} \<subseteq> span24 b" by (auto simp: span24_def u)
  have d: "{unat b..<unat b + 8} \<inter> R = {}" "{unat (b + 8)..<unat (b + 8) + 8} \<inter> R = {}"
    "{unat (b + 16)..<unat (b + 16) + 8} \<inter> R = {}" using dj s by blast+
  show "word0 m' b = word0 m b" "word1 m' b = word1 m b" "word2 m' b = word2 m b"
    using ld64_same_out [OF so d(1)] ld64_same_out [OF so d(2)] ld64_same_out [OF so d(3)] u bd
    by (simp_all add: words_defs)
qed

lemma dq_frame:
  assumes d: "dq m q ns ds" and so: "same_out R m m'" and A: "apart24 (insert q (set ns))"
    and dj: "\<And>b. b \<in> insert q (set ns) \<Longrightarrow> span24 b \<inter> R = {}"
  shows "dq m' q ns ds"
  by (rule dq_cong [OF d]) (use words_same_out [OF so dj] A in \<open>auto simp: apart24_def\<close>)

text \<open>Stores into the words of queue structures and nodes keep the heap and the separation.\<close>

lemma qsep_write:
  assumes inv: "kinv N P F L s" and q: "qsep N P F L s H M" and so: "same_out (\<Union>b \<in> H \<union> M. span24 b) (mem s) m"
  shows "kinv N P F L (s\<lparr>mem := m\<rparr>)" and "kfoot N F L (s\<lparr>mem := m\<rparr>) = kfoot N F L s"
    and "qsep N P F L (s\<lparr>mem := m\<rparr>) H M"
proof -
  let ?R = "\<Union>b \<in> H \<union> M. span24 b"
  note S = qsep_spans [OF q]
  have dj: "?R \<inter> kfoot N F L s = {}" using S(2) by blast
  note k = kinv_poke [OF inv so dj]
  then show "kinv N P F L (s\<lparr>mem := m\<rparr>)" "kfoot N F L (s\<lparr>mem := m\<rparr>) = kfoot N F L s" by simp_all
  have "live N P F L (s\<lparr>mem := m\<rparr>) n 24" if n: "n \<in> M" for n
  proof -
    have l: "live N P F L s n 24" by (rule qsepD(4) [OF q n])
    then have p: "unat n = unat (n - 16) + 16" "unat n + 24 < 2 ^ 64" by (auto simp: live_def)
    have "8 \<le> n" using p by (simp add: word_le_nat_alt)
    then have n8: "unat (n - 8) = unat n - 8" by (simp add: unat_sub_le)
    have h: "{unat (n - 8)..<unat (n - 8) + 8} \<subseteq> node_ext n" using n8 p by (auto simp: ext_def)
    have sp: "{unat (n - 8)..<unat (n - 8) + 8} \<inter> span24 b = {}" if b: "b \<in> H \<union> M" for b
    proof (cases "b = n")
      case True
      then show ?thesis using n8 p by (auto simp: span24_def)
    next
      case False
      then show ?thesis using h S(3) [OF b n] by blast
    qed
    have "{unat (n - 8)..<unat (n - 8) + 8} \<inter> ?R = {}"
    proof (rule equals0I)
      fix x assume "x \<in> {unat (n - 8)..<unat (n - 8) + 8} \<inter> ?R"
      then obtain b where "b \<in> H \<union> M" "x \<in> {unat (n - 8)..<unat (n - 8) + 8} \<inter> span24 b" by blast
      then show False using sp [of b] by blast
    qed
    moreover have "unat (n - 8) + 8 \<le> 2 ^ 64" using n8 p by simp
    ultimately have "ld64 m (n - 8) = ld64 (mem s) (n - 8)" using ld64_same_out [OF so] by blast
    then show ?thesis using l k(2) by (simp add: live_def)
  qed
  then show "qsep N P F L (s\<lparr>mem := m\<rparr>) H M" using qsepD [OF q] k(2) by (intro qsepI) simp_all
qed

text \<open>An allocation adds a node; a release removes one.\<close>

lemma qsep_grant:
  assumes q: "qsep N P F L s H M" and g: "kgrant N P F L 24 s node t F' L'"
  shows "qsep N P F' L' t H (insert node M)" and "node \<notin> M" and "node \<notin> H"
proof -
  note lv = kgrant_live [OF g] and kl = kgrant_keeps_live [OF g]
  have sub: "node_ext node \<subseteq> kfoot N F L s" and ft: "kfoot N F' L' t \<subseteq> kfoot N F L s" using g by (auto simp: kgrant_def)
  have ne: "node_ext p \<noteq> {}" for p by (auto simp: ext_def)
  note D = qsepD [OF q]
  have old: "live N P F' L' t n 24" "node_ext n \<inter> node_ext node = {}" if "n \<in> M" for n
    using kl(1,2) [OF D(4) [OF that]] by simp_all
  then show "node \<notin> M" using ne by blast
  have hs: "span24 h \<inter> node_ext node = {}" "span24 h \<inter> kfoot N F' L' t = {}" if "h \<in> H" for h
    using D(2) [OF that] sub ft by blast+
  have "unat node \<in> span24 node" by (simp add: span24_def)
  then show "node \<notin> H" using live_span(1) [OF lv] hs(1) by blast
  show "qsep N P F' L' t H (insert node M)"
  proof (rule qsepI)
    show "live N P F' L' t n 24" if "n \<in> insert node M" for n using that lv old(1) by blast
    show "span24 h \<inter> node_ext n = {}" if "h \<in> H" "n \<in> insert node M" for h n
      using that(2) hs(1) [OF that(1)] D(5) [OF that(1)] by blast
    show "node_ext n \<inter> node_ext n' = {}" if "n \<in> insert node M" "n' \<in> insert node M" "n \<noteq> n'" for n n'
      using that old(2) [of n] old(2) [of n'] D(6) [of n n'] by blast
  qed (use D(1,3) hs(2) in blast)+
qed

lemma qsep_release:
  assumes q: "qsep N P F L s H M" and n: "n \<in> M" and so: "same_out (kfoot N F L' t) (mem s) (mem t)"
    and ft: "kfoot N F L' t = kfoot N F L s \<union> node_ext n"
  shows "qsep N P F L' t H (M - {n})"
proof -
  note D = qsepD [OF q]
  have "live N P F L' t b 24" if b: "b \<in> M - {n}" for b
  proof -
    have l: "live N P F L s b 24" using D(4) b by blast
    have dj: "node_ext b \<inter> kfoot N F L' t = {}" using D(6) [of b n] b n ft live_span(3) [OF l] by blast
    show ?thesis by (rule live_frame [OF l so dj]) (use dj in blast)
  qed
  then show ?thesis
  proof (intro qsepI)
    show "span24 h \<inter> kfoot N F L' t = {}" if "h \<in> H" for h using D(2) [OF that] D(5) [OF that n] ft by blast
  qed (use D in blast)+
qed

text \<open>\<open>others m m' H M q ns\<close>: every queue that shares no node with \<open>q\<close> is unchanged.\<close>

definition others :: "memory \<Rightarrow> memory \<Rightarrow> ptr set \<Rightarrow> ptr set \<Rightarrow> ptr \<Rightarrow> ptr list \<Rightarrow> bool" where
  "others m m' H M q ns \<longleftrightarrow> (\<forall>b \<in> (H - {q}) \<union> (M - set ns).
     word0 m' b = word0 m b \<and> word1 m' b = word1 m b \<and> word2 m' b = word2 m b)"

lemma others_dq:
  assumes "others m m' H M q ns" and "q' \<in> H" "q' \<noteq> q" "set ns' \<subseteq> M - set ns" "dq m q' ns' ds'"
  shows "dq m' q' ns' ds'"
  by (rule dq_cong [OF assms(5)]) (use assms(1-4) in \<open>auto simp: others_def\<close>)

lemma othersI:
  assumes "same_out R m m'" and "apart24 (H \<union> M)" and "\<And>b. b \<in> (H - {q}) \<union> (M - set ns) \<Longrightarrow> span24 b \<inter> R = {}"
  shows "others m m' H M q ns"
  unfolding others_def using words_same_out [OF assms(1) assms(3)] assms(2) by (auto simp: apart24_def)

lemma others_trans: "others m m1 H M q ns \<Longrightarrow> others m1 m2 H M q ns \<Longrightarrow> others m m2 H M q ns"
  by (auto simp: others_def)

text \<open>A completed queue operation: like a heap call, or without one.\<close>

definition qstep :: "nat \<Rightarrow> 'z km_sys_scheme \<Rightarrow> 'z km_sys_scheme \<Rightarrow> bool" where
  "qstep c s t \<longleftrightarrow> kstep c s t \<or> heap_step s t"

section \<open>The operations on represented queues\<close>

lemma queue_length:
  assumes "distinct (a # b # (c :: ptr) # ns)"
  shows "length ns + 1 < 2 ^ 64"
proof -
  have "card (set (a # b # c # ns)) \<le> card (UNIV :: ptr set)" by (rule card_mono) simp_all
  then show ?thesis using assms distinct_card [OF assms] by (simp add: card_word)
qed

lemma settled_mem: "settled c (s\<lparr>mem := m\<rparr>) = settled c s"
  by (simp add: settled_def cong: if_cong)

lemma kstep_mem: "kstep c s t \<Longrightarrow> kstep c s (t\<lparr>mem := m\<rparr>)"
  by (cases s; cases t) (simp add: kstep_def)

lemma kgrant_frame_words:
  assumes q: "qsep N P F L s H M" and so: "same_out (kfoot N F L s) (mem s) (mem t)" and b: "b \<in> H \<union> M"
  shows "word0 (mem t) b = word0 (mem s) b" "word1 (mem t) b = word1 (mem s) b" "word2 (mem t) b = word2 (mem s) b"
  using words_same_out [OF so qsep_spans(2) [OF q b]] qsep_spans(1) [OF q b] by (simp_all add: fits24_def)

lemma push_back_ok:
  assumes inv: "kinv N P F L s" and rd: "cpu_ready 4 c s" and lk: "lock_free Kmalloc_lock s" "lock_free Pgalloc_lock s"
    and sep: "qsep N P F L s H M" and q: "q \<in> H" and d: "dq (mem s) q ns ds" and sub: "set ns \<subseteq> M"
  shows "(\<exists>t node F' L'. dequeue_push_back q item s = Ret ((), t) \<and> kstep c s t \<and> kinv N P F' L' t
            \<and> node \<notin> M \<and> qsep N P F' L' t H (insert node M) \<and> dq (mem t) q (ns @ [node]) (ds @ [item])
            \<and> others (mem s) (mem t) H M q ns \<and> (\<exists>i. pages F - {i} \<subseteq> pages F')
            \<and> same_out (kfoot N F L s \<union> (\<Union>b \<in> H \<union> M. span24 b)) (mem s) (mem t) \<and> kfoot N F' L' t \<subseteq> kfoot N F L s)
       \<or> dequeue_push_back q item s = Panic ''malloc: OOM'' \<and> pages F = {}"
proof -
  have n24: "0 < unat (24 :: u64)" "unat (24 :: u64) \<le> 4080" by simp_all
  from kmalloc_ok [OF inv rd lk n24] show ?thesis
  proof (elim disjE exE conjE)
    fix node t F' L'
    assume km: "kmalloc 24 s = Ret (node, t)" and ks: "kstep c s t" and g: "kgrant N P F L 24 s node t F' L'"
    have inv': "kinv N P F' L' t" and so: "same_out (kfoot N F L s) (mem s) (mem t)" and n0: "node \<noteq> NULL"
      using g by (auto simp: kgrant_def)
    note sep' = qsep_grant [OF sep g] and fw = kgrant_frame_words [OF sep so]
    have d': "dq (mem t) q ns ds" by (rule dq_cong [OF d]) (use fw q sub in blast)
    have A: "apart24 (H \<union> insert node M)" by (rule qsep_apart(1) [OF sep'(1)])
    have qM: "q \<notin> M" using qsep_apart(2) [OF sep] q by blast
    have ne: "node \<noteq> q" "node \<notin> set ns" using sep'(2,3) q sub by auto
    have A': "apart24 (insert q (insert node (set ns)))" by (rule apart24_subset [OF A]) (use q sub in auto)
    have "distinct (0 # node # q # ns)"
      using d' ne n0 apart24_nonzero [OF A'] by (auto simp: dq_def)
    then have len: "length ns + 1 < 2 ^ 64" by (rule queue_length)
    let ?m = "link_back q node item (mem t)" and ?t = "t\<lparr>mem := link_back q node item (mem t)\<rparr>"
    have dn: "dq ?m q (ns @ [node]) (ds @ [item])" by (rule link_back_ok [OF d' A' _ len]) (use ne in auto)
    let ?R = "\<Union>b \<in> insert q (insert node (set ns)). span24 b"
    have tl: "q_size (mem t) q \<noteq> 0 \<longrightarrow> q_tail (mem t) q \<in> insert q (insert node (set ns)) \<and> q_tail (mem t) q \<noteq> node"
      using d' ne by (cases ns rule: rev_cases) (auto simp: dq_def dseg_last unat_eq_0)
    have soR: "same_out ?R (mem t) ?m"
      by (rule link_back_frame [OF A' _ _ tl ne(1)]) auto
    have "same_out (\<Union>b \<in> H \<union> insert node M. span24 b) (mem t) ?m"
      by (rule same_out_mono [OF soR]) (use q sub in blast)
    note wr = qsep_write [OF inv' sep'(1) this]
    have "span24 b \<inter> ?R = {}" if b: "b \<in> (H - {q}) \<union> (M - set ns)" for b
    proof (rule equals0I)
      fix x assume "x \<in> span24 b \<inter> ?R"
      then obtain a where a: "a \<in> insert q (insert node (set ns))" "x \<in> span24 b \<inter> span24 a" by blast
      have "a \<in> H \<union> insert node M" "b \<in> H \<union> insert node M" "b \<noteq> a" using a(1) b q sub qM sep'(2,3) qsep_apart(2) [OF sep] by auto
      then show False using qsep_spans(4) [OF sep'(1), of b a] a(2) by blast
    qed
    then have "others (mem t) ?m H M q ns"
      using othersI [OF soR, of H M q ns] apart24_subset [OF A, of "H \<union> M"] by blast
    moreover have "others (mem s) (mem t) H M q ns" unfolding others_def using fw by blast
    ultimately have oth: "others (mem s) (mem ?t) H M q ns" using others_trans by auto
    have "span24 node \<subseteq> kfoot N F L s"
      using live_span(1) [OF kgrant_live [OF g]] g unfolding kgrant_def by blast
    then have "?R \<subseteq> kfoot N F L s \<union> (\<Union>b \<in> H \<union> M. span24 b)" using q sub by blast
    then have "same_out (kfoot N F L s \<union> (\<Union>b \<in> H \<union> M. span24 b)) (mem s) (mem ?t)"
      using same_out_trans [OF same_out_mono [OF so] same_out_mono [OF soR]] by auto
    moreover have "\<exists>i. pages F - {i} \<subseteq> pages F'" using g by (simp add: kgrant_def)
    moreover have "kfoot N F' L' ?t \<subseteq> kfoot N F L s" using g wr(2) by (auto simp: kgrant_def)
    moreover have "kstep c s ?t" by (rule kstep_mem [OF ks])
    moreover have "dequeue_push_back q item s = Ret ((), ?t)"
      using km n0 by (simp add: dequeue_push_back_def sizeof_node_def bindk_def)
    ultimately show ?thesis using wr sep'(2) dn oth
      by (intro disjI1 exI [of _ ?t] exI [of _ node] exI [of _ F'] exI [of _ L']) simp
  next
    assume "kmalloc 24 s = Panic ''malloc: OOM''" "pages F = {}"
    then show ?thesis by (simp add: dequeue_push_back_def sizeof_node_def bindk_def)
  qed simp
qed

lemma pop_front_ok:
  assumes inv: "kinv N P F L s" and rd: "cpu_ready 2 c s" and lk: "lock_free Kmalloc_lock s"
    and sep: "qsep N P F L s H M" and q: "q \<in> H" and d: "dq (mem s) q (n # ns) (a # ds)" and sub: "set (n # ns) \<subseteq> M"
  shows "\<exists>t L'. dequeue_pop_front q s = Ret (a, t) \<and> kstep c s t \<and> kinv N P F L' t
            \<and> qsep N P F L' t H (M - {n}) \<and> dq (mem t) q ns ds \<and> others (mem s) (mem t) H M q (n # ns)
            \<and> kfoot N F L' t = kfoot N F L s \<union> node_ext n"
proof -
  have A: "apart24 (H \<union> M)" by (rule qsep_apart(1) [OF sep])
  have A': "apart24 (insert q (set (n # ns)))" by (rule apart24_subset [OF A]) (use q sub in auto)
  have qM: "q \<notin> M" using qsep_apart(2) [OF sep] q by blast
  let ?m = "pop_links q (mem s)" and ?u = "s\<lparr>mem := pop_links q (mem s)\<rparr>"
  note p = pop_links_ok [OF d A']
  let ?R = "\<Union>b \<in> insert q (set ns). span24 b"
  have soR: "same_out ?R (mem s) ?m" by (rule pop_links_frame [OF d A']) auto
  have "same_out (\<Union>b \<in> H \<union> M. span24 b) (mem s) ?m" by (rule same_out_mono [OF soR]) (use q sub in auto)
  note wr = qsep_write [OF inv sep this]
  have nM: "n \<in> M" using sub by simp
  have lv: "live N P F L ?u n 24" by (rule qsepD(4) [OF wr(3) nM])
  have rd': "cpu_ready 2 c ?u" using rd cpu_ready_same [of s ?u] by (simp add: same_cpu_def)
  have lk': "lock_free Kmalloc_lock ?u" using lk by (simp add: lock_free_def)
  have n8: "8 \<le> unat (24 :: u64)" by simp
  obtain t L' where t: "kfree n ?u = Ret ((), t)" "kstep c ?u t" "kinv N P F L' t"
      "kfoot N F L' t = kfoot N F L ?u \<union> node_ext n" "same_out (kfoot N F L' t) (mem ?u) (mem t)"
    using kfree_ok [OF wr(1) rd' lk' lv n8] by blast
  have sep': "qsep N P F L' t H (M - {n})" by (rule qsep_release [OF wr(3) nM t(5,4)])
  have nd: "n \<notin> set ns" using d by (simp add: dq_def)
  have fw: "word0 (mem t) b = word0 ?m b \<and> word1 (mem t) b = word1 ?m b \<and> word2 (mem t) b = word2 ?m b"
    if b: "b \<in> H \<union> (M - {n})" for b
  proof -
    have "unat b + 24 < 2 ^ 64" using qsep_spans(1) [OF sep' b] by (simp add: fits24_def)
    then show ?thesis using words_same_out [OF t(5) qsep_spans(2) [OF sep' b]] by simp
  qed
  have "dq (mem t) q ns ds" by (rule dq_cong [OF p(1)]) (use fw q sub nd in auto)
  moreover have "others (mem s) (mem t) H M q (n # ns)"
  proof -
    have dj: "span24 b \<inter> ?R = {}" if b: "b \<in> (H - {q}) \<union> (M - set (n # ns))" for b
    proof (rule equals0I)
      fix x assume "x \<in> span24 b \<inter> ?R"
      then obtain z where z: "z \<in> insert q (set ns)" "x \<in> span24 b \<inter> span24 z" by blast
      have "z \<in> H \<union> M" "b \<in> H \<union> M" "b \<noteq> z" using z(1) b q sub qM qsep_apart(2) [OF sep] by auto
      then show False using qsep_spans(4) [OF sep, of b z] z(2) by blast
    qed
    have "others (mem s) ?m H M q (n # ns)" by (rule othersI [OF soR A dj])
    moreover have "others ?m (mem t) H M q (n # ns)" unfolding others_def using fw by auto
    ultimately show ?thesis by (rule others_trans)
  qed
  moreover have "kstep c s t" using t(2) by (simp add: kstep_def settled_mem)
  moreover have "dequeue_pop_front q s = Ret (a, t)"
    using pop_front_eq [OF d A'] t(1) by (simp add: bindk_def retk_def)
  moreover have "kfoot N F L' t = kfoot N F L s \<union> node_ext n" using t(4) wr(2) by simp
  ultimately show ?thesis using t(3) sep' by blast
qed


lemma iterator_delete_ok:
  assumes inv: "kinv N P F L s" and rd: "cpu_ready 2 c s" and lk: "lock_free Kmalloc_lock s"
    and sep: "qsep N P F L s H M" and q: "q \<in> H" and d: "dq (mem s) q (xs @ n # ys) (as @ a # bs)"
    and len: "length xs = length as" and sub: "set (xs @ n # ys) \<subseteq> M"
    and it: "it = \<lparr>it_q = q, current_node = n_next (mem s) n\<rparr>"
  shows "\<exists>t L'. dequeue_iterator_delete it s = Ret (it, t) \<and> qstep c s t \<and> kinv N P F L' t
            \<and> qsep N P F L' t H (M - {n}) \<and> dq (mem t) q (xs @ ys) (as @ bs) \<and> others (mem s) (mem t) H M q (xs @ n # ys)"
proof (cases "xs @ ys = []")
  case True
  then have e: "xs = []" "ys = []" "as = []" "bs = []" using len d by (auto simp: dq_def)
  have z: "q_size (mem s) q = 1" using d e by (auto simp: dq_def word_unat_eq_iff)
  obtain t L' where t: "dequeue_pop_front q s = Ret (a, t)" "kstep c s t" "kinv N P F L' t"
      "qsep N P F L' t H (M - {n})" "dq (mem t) q ys bs" "others (mem s) (mem t) H M q (n # ys)"
    using pop_front_ok [OF inv rd lk sep q, of n ys a bs] d sub e by auto
  have "dequeue_iterator_delete it s = Ret (it, t)"
    using z t(1) it by (simp add: dequeue_iterator_delete_def Let_def bindk_def retk_def)
  then show ?thesis using t(2-6) e by (auto simp: qstep_def)
next
  case False
  have A: "apart24 (H \<union> M)" by (rule qsep_apart(1) [OF sep])
  have A': "apart24 (insert q (set (xs @ n # ys)))" by (rule apart24_subset [OF A]) (use q sub in auto)
  have qM: "q \<notin> M" using qsep_apart(2) [OF sep] q by blast
  have sz: "unat (q_size (mem s) q) = length xs + length ys + 1" and dist: "distinct (q # xs @ n # ys)"
    and sg: "dseg (mem s) NULL (q_head (mem s) q) (xs @ n # ys) NULL (q_tail (mem s) q)"
    using d by (auto simp: dq_def)
  have big: "q_size (mem s) q \<noteq> 0" "q_size (mem s) q \<noteq> 1" using sz False by (auto simp: word_unat_eq_iff)
  have n0: "n \<noteq> NULL" using apart24_nonzero [OF A', of n] by simp
  have target: "(if n_next (mem s) n = NULL then q_tail (mem s) q else n_prev (mem s) (n_next (mem s) n)) = n"
    using sg apart24_nonzero [OF A'] by (cases ys) (auto simp: dseg_append)
  let ?m = "unlink_node q n (mem s)" and ?t = "s\<lparr>mem := unlink_node q n (mem s)\<rparr>"
  have dn: "dq ?m q (xs @ ys) (as @ bs)" by (rule unlink_node_ok [OF d len A'])
  have "q_size ?m q \<noteq> 0" using dn False by (auto simp: dq_def)
  then have run: "dequeue_iterator_delete it s = Ret (it, ?t)"
    using big n0 target it by (cases "n_next (mem s) n = NULL") (simp_all add: dequeue_iterator_delete_def Let_def)
  let ?R = "\<Union>b \<in> insert q (set (xs @ n # ys)). span24 b"
  have soR: "same_out ?R (mem s) ?m" by (rule unlink_node_frame [OF d A']) auto
  have "same_out (\<Union>b \<in> H \<union> M. span24 b) (mem s) ?m" by (rule same_out_mono [OF soR]) (use q sub in auto)
  note wr = qsep_write [OF inv sep this]
  have dj: "span24 b \<inter> ?R = {}" if b: "b \<in> (H - {q}) \<union> (M - set (xs @ n # ys))" for b
  proof (rule equals0I)
    fix x assume "x \<in> span24 b \<inter> ?R"
    then obtain z where z: "z \<in> insert q (set (xs @ n # ys))" "x \<in> span24 b \<inter> span24 z" by blast
    have "z \<in> H \<union> M" "b \<in> H \<union> M" "b \<noteq> z" using z(1) b q sub qM qsep_apart(2) [OF sep] by auto
    then show False using qsep_spans(4) [OF sep, of b z] z(2) by blast
  qed
  have "others (mem s) ?m H M q (xs @ n # ys)" by (rule othersI [OF soR A dj])
  then have "others (mem s) (mem ?t) H M q (xs @ n # ys)" by simp
  moreover have "qstep c s ?t" by (simp add: qstep_def heap_step_def)
  moreover have "qsep N P F L ?t H (M - {n})" by (rule qsep_mono [OF wr(3)]) blast
  ultimately show ?thesis using run wr(1) dn by (intro exI [of _ ?t] exI [of _ L]) simp
qed

text \<open>\<^verbatim>\<open>dequeue_push_front\<close> on an empty queue never returns.\<close>

lemma push_front_rec_nonempty: "push_front_rec q item s = Some r \<Longrightarrow> q_size (mem s) q \<noteq> 0"
  by (rule push_front_rec.raw_induct [of "\<lambda>q item s r. q_size (mem s) q \<noteq> 0"]) (auto split: if_splits)

lemma push_front_empty: "q_size (mem s) q = 0 \<Longrightarrow> dequeue_push_front q item s = Hang"
  using push_front_rec_nonempty [of q item s] unfolding dequeue_push_front_def by (cases "push_front_rec q item s") auto

lemma construct_ok:
  assumes "q \<noteq> NULL" and "unat q + 24 < 2 ^ 64"
  shows "\<exists>m. dequeue_construct q s = Ret ((), s\<lparr>mem := m\<rparr>) \<and> dq m q [] [] \<and> same_out (span24 q) (mem s) m"
proof -
  let ?m = "memset q 0 sizeof_dequeue (mem s)"
  have "unat sizeof_dequeue < 2 ^ 31" by (simp add: sizeof_dequeue_def)
  from memset_eq [OF this, of q 0 "mem s"] have m: "?m = (\<lambda>x. if x \<in> region q 24 then 0 else mem s x)"
    by (auto simp: sizeof_dequeue_def fun_eq_iff)
  have u: "unat (q + 8) = unat q + 8" "unat (q + 16) = unat q + 16" using assms(2) by (auto simp: unat_add_numeral)
  have z: "ld64 ?m p = 0" if "unat q \<le> unat p" "unat p + 8 \<le> unat q + 24" for p
  proof -
    have "region p 8 \<subseteq> region q 24" using that assms(2) by (intro region_subset_nat) auto
    then have "eq_on (region p 8) ?m (\<lambda>_. 0)" unfolding eq_on_def m by auto
    from ld64_cong [OF this] show ?thesis by simp
  qed
  have "dq ?m q [] []" using z [of q] z [of "q + 8"] z [of "q + 16"] u by (simp add: dq_empty words_defs)
  moreover have "same_out (span24 q) (mem s) ?m"
    unfolding m same_out_def span24_def using in_region_nat [of q 24] assms(2) by auto
  ultimately show ?thesis using assms(1) by (auto simp: dequeue_construct_def)
qed

text \<open>C16: the queue behaves as a list of items over the kernel heap. \<^verbatim>\<open>dequeue_push_back\<close> appends the item in a
  fresh node (or panics, only when no page is free); on an empty queue \<^verbatim>\<open>dequeue_pop_front\<close> and
  \<^verbatim>\<open>dequeue_peek_front\<close> return NULL and \<^verbatim>\<open>dequeue_push_front\<close> recurses for ever; otherwise peek returns the first
  item and pop removes it and frees its node: the 40 bytes of the node, which were in use, are part of the
  heap's free memory afterwards. Queues with other nodes keep their contents.\<close>

theorem dequeue_is_list_queue:
  assumes "kinv N P F L s" and "cpu_ready 4 c s" and "lock_free Kmalloc_lock s" and "lock_free Pgalloc_lock s"
    and "qsep N P F L s H M" and "q \<in> H" and "dq (mem s) q ns ds" and "set ns \<subseteq> M"
  shows "((\<exists>t node F' L'. dequeue_push_back q item s = Ret ((), t) \<and> kinv N P F' L' t \<and> node \<notin> M
             \<and> qsep N P F' L' t H (insert node M) \<and> dq (mem t) q (ns @ [node]) (ds @ [item])
             \<and> others (mem s) (mem t) H M q ns)
         \<or> dequeue_push_back q item s = Panic ''malloc: OOM'' \<and> pages F = {})
       \<and> (case ds of
            [] \<Rightarrow> dequeue_pop_front q s = Ret (NULL, s) \<and> dequeue_peek_front q s = Ret (NULL, s)
                  \<and> dequeue_push_front q item s = Hang
          | a # as \<Rightarrow> dequeue_peek_front q s = Ret (a, s)
              \<and> (\<exists>t L'. dequeue_pop_front q s = Ret (a, t) \<and> kinv N P F L' t \<and> qsep N P F L' t H (M - {hd ns})
                    \<and> dq (mem t) q (tl ns) as \<and> others (mem s) (mem t) H M q ns
                    \<and> kfoot N F L' t = kfoot N F L s \<union> node_ext (hd ns) \<and> node_ext (hd ns) \<inter> kfoot N F L s = {}))"
proof (rule conjI)
  show "(\<exists>t node F' L'. dequeue_push_back q item s = Ret ((), t) \<and> kinv N P F' L' t \<and> node \<notin> M
             \<and> qsep N P F' L' t H (insert node M) \<and> dq (mem t) q (ns @ [node]) (ds @ [item])
             \<and> others (mem s) (mem t) H M q ns)
         \<or> dequeue_push_back q item s = Panic ''malloc: OOM'' \<and> pages F = {}"
    using push_back_ok [OF assms, of item] by blast
  have rd: "cpu_ready 2 c s" by (rule cpu_ready_mono [OF assms(2)]) simp
  show "case ds of
            [] \<Rightarrow> dequeue_pop_front q s = Ret (NULL, s) \<and> dequeue_peek_front q s = Ret (NULL, s)
                  \<and> dequeue_push_front q item s = Hang
          | a # as \<Rightarrow> dequeue_peek_front q s = Ret (a, s)
              \<and> (\<exists>t L'. dequeue_pop_front q s = Ret (a, t) \<and> kinv N P F L' t \<and> qsep N P F L' t H (M - {hd ns})
                    \<and> dq (mem t) q (tl ns) as \<and> others (mem s) (mem t) H M q ns
                    \<and> kfoot N F L' t = kfoot N F L s \<union> node_ext (hd ns) \<and> node_ext (hd ns) \<inter> kfoot N F L s = {})"
  proof (cases ds)
    case Nil
    then have "q_size (mem s) q = 0" using assms(7) by (auto simp: dq_def unat_eq_0)
    then show ?thesis
      using Nil push_front_empty by (simp add: dequeue_pop_front_def dequeue_peek_front_def)
  next
    case (Cons a as)
    then obtain n ms where ns: "ns = n # ms" using assms(7) by (cases ns) (auto simp: dq_def)
    have d: "dq (mem s) q (n # ms) (a # as)" using assms(7) Cons ns by simp
    have "dequeue_peek_front q s = Ret (a, s)" using dq_head_tail [OF d] by (simp add: dequeue_peek_front_def)
    moreover have "node_ext n \<inter> kfoot N F L s = {}" by (rule live_span(3) [OF qsepD(4) [OF assms(5)]]) (use assms(8) ns in simp)
    ultimately show ?thesis using pop_front_ok [OF assms(1) rd assms(3,5,6) d] assms(8) Cons ns by (simp, blast)
  qed
qed

text \<open>A queue whose structure is itself a heap block, for the concrete instances.\<close>

lemma demo_queue:
  obtains s t u q F L where "boot_heap demo_km = Ret ((), s)" "kmalloc 24 s = Ret (q, t)" "dequeue_construct q t = Ret ((), u)"
    "kinv 4096 {1024..<4096} F L u" "cpu_ready 9 0 u" "lock_free Kmalloc_lock u" "lock_free Pgalloc_lock u"
    "qsep 4096 {1024..<4096} F L u {q} {}" "dq (mem u) q [] []" "pages F \<noteq> {}"
proof -
  obtain s where s: "boot_heap demo_km = Ret ((), s)" "kinv 4096 {1024..<4096} ((\<lambda>_. [])(3 := [1024])) [] s"
      "cpu_ready 9 0 s" "lock_free Kmalloc_lock s" "lock_free Pgalloc_lock s"
    by (rule demo_heap)
  have rd: "cpu_ready 4 0 s" by (rule cpu_ready_mono [OF s(3)]) simp
  obtain q t F L where g: "kmalloc 24 s = Ret (q, t)" "kstep 0 s t"
      "kgrant 4096 {1024..<4096} ((\<lambda>_. [])(3 := [1024])) [] 24 s q t F L"
    using kmalloc_ok [OF s(2) rd s(4,5), of 24] demo_pages_nonempty by (simp, blast)
  note lv = kgrant_live [OF g(3)]
  have q: "q \<noteq> NULL" "unat q + 24 < 2 ^ 64" using live_span(2) [OF lv] by (auto simp: fits24_def)
  obtain m where m: "dequeue_construct q t = Ret ((), t\<lparr>mem := m\<rparr>)" "dq m q [] []" "same_out (span24 q) (mem t) m"
    using construct_ok [OF q] by blast
  let ?u = "t\<lparr>mem := m\<rparr>"
  have inv: "kinv 4096 {1024..<4096} F L t" using g(3) by (simp add: kgrant_def)
  have dj: "span24 q \<inter> kfoot 4096 F L t = {}" using live_span(1,3) [OF lv] by blast
  note k = kinv_poke [OF inv m(3) dj]
  have sep: "qsep 4096 {1024..<4096} F L ?u {q} {}"
    by (rule qsepI) (use live_span(2) [OF lv] dj k(2) in auto)
  have rdu: "cpu_ready 9 0 ?u"
    using kstep_keeps(1) [OF g(2) s(3)] cpu_ready_same [of t ?u] by (simp add: same_cpu_def)
  have lk: "lock_free lk ?u \<longleftrightarrow> lock_free lk s" for lk
    using kstep_keeps(2) [OF g(2), of lk] by (simp add: lock_free_def)
  obtain i where "pages ((\<lambda>_. [])(3 := [1024])) - {i} \<subseteq> pages F" using g(3) by (auto simp: kgrant_def)
  moreover have "{1024, 1025} \<subseteq> pages ((\<lambda>_. [])(3 := [1024]))"
    using pagesI [of 3 1024 "(\<lambda>_. [])(3 := [1024])"] by (auto simp: MAX_ORDER_def blk_def)
  ultimately have "pages F \<noteq> {}" by (cases "i = 1024") auto
  then show thesis
    using that [OF s(1) g(1) m(1) k(1) rdu _ _ sep] m(2) s(4,5) lk by simp
qed

theorem dequeue_is_list_queue_witness:
  "\<exists>s t u v w q. boot_heap demo_km = Ret ((), s) \<and> kmalloc 24 s = Ret (q, t) \<and> dequeue_construct q t = Ret ((), u)
     \<and> dequeue_push_front q 7 u = Hang \<and> dequeue_push_back q 7 u = Ret ((), v) \<and> dequeue_pop_front q v = Ret (7, w)"
proof -
  obtain s t u q F L where d: "boot_heap demo_km = Ret ((), s)" "kmalloc 24 s = Ret (q, t)" "dequeue_construct q t = Ret ((), u)"
    "kinv 4096 {1024..<4096} F L u" "cpu_ready 9 0 u" "lock_free Kmalloc_lock u" "lock_free Pgalloc_lock u"
    "qsep 4096 {1024..<4096} F L u {q} {}" "dq (mem u) q [] []" "pages F \<noteq> {}"
    by (rule demo_queue)
  have rd: "cpu_ready 4 0 u" by (rule cpu_ready_mono [OF d(5)]) simp
  have qq: "q \<in> {q}" "set [] \<subseteq> ({} :: ptr set)" by simp_all
  from push_back_ok [OF d(4) rd d(6,7,8) qq(1) d(9) qq(2), of 7] d(10)
  obtain v node F' L' where v: "dequeue_push_back q 7 u = Ret ((), v)" "kstep 0 u v" "kinv 4096 {1024..<4096} F' L' v"
      "qsep 4096 {1024..<4096} F' L' v {q} {node}" "dq (mem v) q [node] [7]" by auto
  have rdv: "cpu_ready 4 0 v" "lock_free Kmalloc_lock v" "lock_free Pgalloc_lock v"
    using kstep_keeps [OF v(2)] rd d(6,7) by auto
  have nn: "set [node] \<subseteq> {node}" by simp
  from dequeue_is_list_queue [OF v(3) rdv v(4) qq(1) v(5) nn]
  obtain w where "dequeue_pop_front q v = Ret (7, w)" by (simp, blast)
  moreover from dequeue_is_list_queue [OF d(4) rd d(6,7,8) qq(1) d(9) qq(2), of 7]
  have "dequeue_push_front q 7 u = Hang" by simp
  ultimately show ?thesis using d(1-3) v(1) by blast
qed

end
