(* ===== verification/Vm.thy ===== *)
theory Vm
  imports Kheap_Calls
begin

text \<open>
  The kernel page table \<^verbatim>\<open>kernel/src/arch/x86/mem/vm.c\<close>: \<^verbatim>\<open>vmm_init\<close> builds a direct map of the first 512 GB of
  physical memory at \<^verbatim>\<open>KERNBASE\<close> out of 1 GB pages. The page walk of the processor is the specification: after
  \<^verbatim>\<open>vmm_init\<close> exactly the addresses of the map translate, each to its physical address.
\<close>

section \<open>Page table entries (\<^verbatim>\<open>arch/x86/vmm.h\<close>)\<close>

definition NPTENTRIES :: u64 where "NPTENTRIES = 512"
definition L2_HUGE_SIZE :: u64 where "L2_HUGE_SIZE = PG_SIZE * NPTENTRIES"
definition L3_HUGE_SIZE :: u64 where "L3_HUGE_SIZE = L2_HUGE_SIZE * NPTENTRIES"
definition KERN_PHYMAP_TOP :: u64 where "KERN_PHYMAP_TOP = KERNBASE + push_bit 30 512"

definition PTE_ADDR :: "u64 \<Rightarrow> u64" where "PTE_ADDR pte = pte AND 0xFFFFFFFFFFFFF000"
definition PTE_FLAG_P :: u64 where "PTE_FLAG_P = push_bit 0 1"
definition PTE_FLAG_WRITE :: u64 where "PTE_FLAG_WRITE = push_bit 1 1"
definition PTE_FLAG_SZ :: u64 where "PTE_FLAG_SZ = push_bit 7 1"

definition PG_L3_IDX :: "u64 \<Rightarrow> u64" where "PG_L3_IDX a = drop_bit 30 a AND 0x1FF"
definition PG_L4_IDX :: "u64 \<Rightarrow> u64" where "PG_L4_IDX a = drop_bit 39 a AND 0x1FF"

section \<open>State and operations\<close>

record vm_sys = km_sys +
  kern_pml4 :: ptr
  cr3 :: u64

definition lcr3 :: "u64 \<Rightarrow> 'z vm_sys_scheme \<Rightarrow> 'z vm_sys_scheme" where
  "lcr3 v s = s\<lparr>cr3 := v\<rparr>"

definition vmm_load_ktable :: "'z vm_sys_scheme \<Rightarrow> (unit \<times> 'z vm_sys_scheme) outcome" where
  "vmm_load_ktable s = Ret ((), lcr3 (KV2P (kern_pml4 s)) s)"

definition vmm_get_kernel_pgtable :: "'z vm_sys_scheme \<Rightarrow> ptr" where
  "vmm_get_kernel_pgtable s = kern_pml4 s"

text \<open>A page of zeros from the boot allocator, with the two checks that follow each request.\<close>

definition zeroed_page :: "string \<Rightarrow> 'z vm_sys_scheme \<Rightarrow> (ptr \<times> 'z vm_sys_scheme) outcome" where
  "zeroed_page oom s =
     (case boot_alloc PG_SIZE s of
        (p, s1) \<Rightarrow> if p = NULL then panic oom s1
                   else if p mod PG_SIZE \<noteq> 0 then panic ''align'' s1
                   else Ret (p, s1\<lparr>mem := memset p 0 PG_SIZE (mem s1)\<rparr>))"

text \<open>One round of the loop: a new table whenever the third-level index is 0, then one entry.\<close>

definition vmm_map_step :: "u64 \<Rightarrow> ptr \<Rightarrow> 'z vm_sys_scheme \<Rightarrow> (ptr \<times> 'z vm_sys_scheme) outcome" where
  "vmm_map_step va pdp =
     bindk (if PG_L3_IDX va = 0
            then bindk (zeroed_page ''vmm_init oom(l3)'') (\<lambda>t s.
                   Ret (t, s\<lparr>mem := st64 (mem s) (kern_pml4 s + 8 * PG_L4_IDX va)
                               (PTE_FLAG_P OR PTE_FLAG_WRITE OR PTE_ADDR (KV2P t))\<rparr>))
            else retk pdp) (\<lambda>pdp' s.
     if pdp' = NULL then panic ''vmm_init nullptr'' s
     else Ret (pdp', s\<lparr>mem := st64 (mem s) (pdp' + 8 * PG_L3_IDX va)
                 (PTE_FLAG_P OR PTE_FLAG_WRITE OR PTE_FLAG_SZ OR PTE_ADDR (KV2P va))\<rparr>))"

partial_function (option) vmm_map_loop :: "u64 \<Rightarrow> ptr \<Rightarrow> 'z vm_sys_scheme \<Rightarrow> (unit \<times> 'z vm_sys_scheme) outcome option" where
  "vmm_map_loop va pdp s =
     (if va < KERN_PHYMAP_TOP then
        (case vmm_map_step va pdp s of
           Ret (pdp', s') \<Rightarrow> vmm_map_loop (va + L3_HUGE_SIZE) pdp' s'
         | Panic e \<Rightarrow> Some (Panic e) | Hang \<Rightarrow> Some Hang | Undef e \<Rightarrow> Some (Undef e))
      else Some (Ret ((), s)))"

definition vmm_init :: "'z vm_sys_scheme \<Rightarrow> (unit \<times> 'z vm_sys_scheme) outcome" where
  "vmm_init =
     bindk (zeroed_page ''vmm_init oom'') (\<lambda>p s.
     bindk (\<lambda>s. case vmm_map_loop KERNBASE 0 s of None \<Rightarrow> Hang | Some r \<Rightarrow> r) (\<lambda>_. vmm_load_ktable)
       (s\<lparr>kern_pml4 := p\<rparr>))"

section \<open>The page walk of the processor\<close>

text \<open>
  Four-level translation as the processor does it, down to the third level: an entry is present when bit 0 is
  set; a third-level entry with bit 7 maps 1 GB. Tables are read through the direct map.
\<close>

definition entry :: "memory \<Rightarrow> u64 \<Rightarrow> u64 \<Rightarrow> u64" where
  "entry m table idx = ld64 m (P2KV table + 8 * idx)"

definition page_walk :: "memory \<Rightarrow> u64 \<Rightarrow> u64 \<Rightarrow> u64 option" where
  "page_walk m root va =
     (let e4 = entry m (PTE_ADDR root) (PG_L4_IDX va) in
      if \<not> bit e4 0 then None
      else let e3 = entry m (PTE_ADDR e4) (PG_L3_IDX va) in
        if \<not> bit e3 0 \<or> \<not> bit e3 7 then None
        else Some (PTE_ADDR e3 + va mod L3_HUGE_SIZE))"

section \<open>Tables of 512 entries\<close>

definition tab :: "memory \<Rightarrow> ptr \<Rightarrow> nat \<Rightarrow> u64" where
  "tab m t i = ld64 m (t + 8 * of_nat i)"

definition table_at :: "ptr \<Rightarrow> bool" where
  "table_at t \<longleftrightarrow> 4096 dvd unat t \<and> 0 < unat t \<and> unat t + 4096 < 2 ^ 64"

lemma unat_entry: "table_at t \<Longrightarrow> i < 512 \<Longrightarrow> unat (t + 8 * of_nat i) = unat t + 8 * i"
  using unat_add_of_nat [of t "8 * i"] by (simp add: table_at_def)

lemma tab_st64:
  assumes t: "table_at t" "i < 512" and u: "table_at u" "j < 512"
    and d: "t \<noteq> u \<Longrightarrow> unat t + 4096 \<le> unat u \<or> unat u + 4096 \<le> unat t"
  shows "tab (st64 m (t + 8 * of_nat i) v) u j = (if t = u \<and> i = j then v else tab m u j)"
proof (cases "t = u \<and> i = j")
  case True
  then show ?thesis by (simp add: tab_def)
next
  case False
  note a = unat_entry [OF t] unat_entry [OF u]
  have b: "unat t + 4096 < 2 ^ 64" "unat u + 4096 < 2 ^ 64" using t u by (auto simp: table_at_def)
  have "unat (u + 8 * of_nat j) + 8 \<le> unat (t + 8 * of_nat i) \<or> unat (t + 8 * of_nat i) + 8 \<le> unat (u + 8 * of_nat j)"
  proof (cases "t = u")
    case True
    then have "i < j \<or> j < i" using False by auto
    then show ?thesis using a True by auto
  next
    case False
    then show ?thesis using d a t(2) u(2) by auto
  qed
  then have "region (u + 8 * of_nat j) 8 \<inter> region (t + 8 * of_nat i) 8 = {}"
    using a b t(2) u(2) by (intro region_disjoint_nat) auto
  then show ?thesis using False unfolding tab_def by (simp only: ld64_st64_other if_False)
qed

lemma tab_memset:
  assumes t: "table_at t" and u: "table_at u" "j < 512"
    and d: "t \<noteq> u \<Longrightarrow> unat t + 4096 \<le> unat u \<or> unat u + 4096 \<le> unat t"
  shows "tab (memset t 0 PG_SIZE m) u j = (if t = u then 0 else tab m u j)"
proof -
  have "unat PG_SIZE < 2 ^ 31" by (simp add: PG_SIZE_def)
  from memset_eq [OF this, of t 0 m] have m: "memset t 0 PG_SIZE m = (\<lambda>x. if x \<in> region t 4096 then 0 else m x)"
    by (auto simp: PG_SIZE_def fun_eq_iff)
  have b: "unat t + 4096 < 2 ^ 64" "unat u + 4096 < 2 ^ 64" using t u by (auto simp: table_at_def)
  note a = unat_entry [OF u]
  show ?thesis
  proof (cases "t = u")
    case True
    have "region (u + 8 * of_nat j) 8 \<subseteq> region t 4096" using True a b u(2) by (intro region_subset_nat) auto
    then have "eq_on (region (u + 8 * of_nat j) 8) (memset t 0 PG_SIZE m) (\<lambda>_. 0)" unfolding eq_on_def m by auto
    from ld64_cong [OF this] show ?thesis using True by (simp add: tab_def)
  next
    case False
    have "region (u + 8 * of_nat j) 8 \<inter> region t 4096 = {}" using False d a b u(2) by (intro region_disjoint_nat) auto
    then have "eq_on (region (u + 8 * of_nat j) 8) (memset t 0 PG_SIZE m) m" unfolding eq_on_def m by auto
    from ld64_cong [OF this] show ?thesis using False by (simp add: tab_def)
  qed
qed


section \<open>Indices and entries\<close>

definition phymap_bytes :: nat where "phymap_bytes = 2 ^ 39"

lemma KB: "unat KERNBASE = 2 ^ 64 - 2 ^ 47" "unat KERN_PHYMAP_TOP = 2 ^ 64 - 2 ^ 47 + phymap_bytes"
  by (simp_all add: KERNBASE_def KERN_PHYMAP_TOP_def phymap_bytes_def)

lemma idx_mask: "unat (drop_bit n (a :: u64) AND 0x1FF) = unat a div 2 ^ n mod 512"
proof -
  have "(0x1FF :: u64) = mask 9" by (simp add: mask_eq_decr_exp)
  then show ?thesis using and_mask_mod [of "drop_bit n a" 9] by (simp add: drop_bit_div del: mask_numeral)
qed

lemma phymap_idx:
  assumes "unat va = 2 ^ 64 - 2 ^ 47 + x" and "x < 2 ^ 47"
  shows "unat (PG_L4_IDX va) = 256 + x div 2 ^ 39" and "x < phymap_bytes \<Longrightarrow> unat (PG_L3_IDX va) = x div 2 ^ 30"
proof -
  have "unat (PG_L4_IDX va) = (2 ^ 64 - 2 ^ 47 + x) div 2 ^ 39 mod 512" by (simp add: PG_L4_IDX_def idx_mask assms(1))
  also have "(2 ^ 64 - 2 ^ 47 + x) div 2 ^ 39 = 2 ^ 25 - 2 ^ 8 + x div 2 ^ 39" by simp
  also have "(2 ^ 25 - 2 ^ 8 + x div 2 ^ 39) mod 512 = 256 + x div 2 ^ 39"
  proof -
    have mod9: "(33554176 + y) mod 512 = 256 + y" if "y < 256" for y :: nat
      using that by (subst mod_add_eq [symmetric]) simp
    have "x div 2 ^ 39 < 256" using assms(2) by simp
    from mod9 [OF this] show ?thesis by simp
  qed
  finally show "unat (PG_L4_IDX va) = 256 + x div 2 ^ 39" .
  assume x: "x < phymap_bytes"
  have "unat (PG_L3_IDX va) = (2 ^ 64 - 2 ^ 47 + x) div 2 ^ 30 mod 512" by (simp add: PG_L3_IDX_def idx_mask assms(1))
  also have "(2 ^ 64 - 2 ^ 47 + x) div 2 ^ 30 = 2 ^ 34 - 2 ^ 17 + x div 2 ^ 30" by simp
  also have "(2 ^ 34 - 2 ^ 17 + x div 2 ^ 30) mod 512 = x div 2 ^ 30"
  proof -
    have mod9: "(17179738112 + y) mod 512 = y" if "y < 512" for y :: nat
      using that by (subst mod_add_eq [symmetric]) simp
    have "x div 2 ^ 30 < 512" using x by (simp add: phymap_bytes_def)
    from mod9 [OF this] show ?thesis by simp
  qed
  finally show "unat (PG_L3_IDX va) = x div 2 ^ 30" .
qed

lemma PTE_ADDR_mask: "PTE_ADDR a = a AND NOT (mask 12)"
proof -
  have "(0xFFFFFFFFFFFFF000 :: u64) = NOT 4095" by simp
  then show ?thesis by (simp only: PTE_ADDR_def mask_4095)
qed

lemma pte_parts:
  assumes a: "4096 dvd unat a" and f: "f = PTE_FLAG_P OR PTE_FLAG_WRITE \<or> f = PTE_FLAG_P OR PTE_FLAG_WRITE OR PTE_FLAG_SZ"
  shows "PTE_ADDR (f OR PTE_ADDR a) = a" and "bit (f OR PTE_ADDR a) 0"
    and "f = PTE_FLAG_P OR PTE_FLAG_WRITE OR PTE_FLAG_SZ \<Longrightarrow> bit (f OR PTE_ADDR a) 7"
proof -
  have "unat (a AND NOT (mask 12)) = unat a" using a by (simp only: and_not_mask_mod) (auto elim!: dvdE)
  then have al: "a AND NOT (mask 12) = a" by (simp only: word_unat_eq_iff)
  then have pa: "PTE_ADDR a = a" by (simp only: PTE_ADDR_mask)
  have fm: "f AND NOT (mask 12) = 0" using f
    by (auto simp: PTE_FLAG_P_def PTE_FLAG_WRITE_def PTE_FLAG_SZ_def mask_4095 [symmetric] simp del: mask_numeral)
  have "PTE_ADDR (f OR a) = (f AND NOT (mask 12)) OR (a AND NOT (mask 12))"
    unfolding PTE_ADDR_mask by (rule bit_word_eqI) (auto simp: bit_simps)
  then show "PTE_ADDR (f OR PTE_ADDR a) = a" using fm al pa by simp
  show "bit (f OR PTE_ADDR a) 0" using f by (auto simp: bit_or_iff PTE_FLAG_P_def)
  show "bit (f OR PTE_ADDR a) 7" if "f = PTE_FLAG_P OR PTE_FLAG_WRITE OR PTE_FLAG_SZ"
  proof -
    have "bit (push_bit 7 1 :: u64) 7" by (simp add: bit_push_bit_iff)
    then show ?thesis using that by (simp add: bit_or_iff PTE_FLAG_SZ_def)
  qed
qed

section \<open>The loop of \<^verbatim>\<open>vmm_init\<close>\<close>

definition va_of :: "nat \<Rightarrow> u64" where "va_of i = KERNBASE + of_nat (i * 2 ^ 30)"

definition huge_entry :: "nat \<Rightarrow> u64" where
  "huge_entry j = PTE_FLAG_P OR PTE_FLAG_WRITE OR PTE_FLAG_SZ OR PTE_ADDR (of_nat (j * 2 ^ 30))"

definition dir_entry :: "ptr \<Rightarrow> u64" where
  "dir_entry p3 = PTE_FLAG_P OR PTE_FLAG_WRITE OR PTE_ADDR (KV2P p3)"

text \<open>\<open>mapped m p4 p3 i\<close>: the root \<open>p4\<close> has the one entry for the map, whose table \<open>p3\<close> has its first \<open>i\<close> entries.\<close>

definition mapped :: "memory \<Rightarrow> ptr \<Rightarrow> ptr \<Rightarrow> nat \<Rightarrow> bool" where
  "mapped m p4 p3 i \<longleftrightarrow> (\<forall>j < 512. tab m p4 j = (if j = 256 then dir_entry p3 else 0))
     \<and> (\<forall>j < 512. tab m p3 j = (if j < i then huge_entry j else 0))"

lemma unat_va_of: "i \<le> 512 \<Longrightarrow> unat (va_of i) = 2 ^ 64 - 2 ^ 47 + i * 2 ^ 30"
  unfolding va_of_def by (subst unat_add_of_nat) (simp_all add: KB)

lemma va_of_props:
  assumes "i < 512"
  shows "va_of i < KERN_PHYMAP_TOP" and "PG_L3_IDX (va_of i) = of_nat i" and "PG_L4_IDX (va_of i) = of_nat 256"
    and "KV2P (va_of i) = of_nat (i * 2 ^ 30)" and "va_of i + L3_HUGE_SIZE = va_of (Suc i)"
proof -
  note u = unat_va_of [of i]
  have u': "unat (va_of i) = 2 ^ 64 - 2 ^ 47 + i * 2 ^ 30" using u assms by simp
  have x: "i * 2 ^ 30 < 2 ^ 47" "i * 2 ^ 30 < phymap_bytes" using assms by (simp_all add: phymap_bytes_def)
  show "va_of i < KERN_PHYMAP_TOP" using x by (simp add: word_less_nat_alt u' KB)
  show "PG_L3_IDX (va_of i) = of_nat i" using phymap_idx(2) [OF u' x] assms by (simp add: word_unat_eq_iff unat_of_nat_lt)
  show "PG_L4_IDX (va_of i) = of_nat 256" using phymap_idx(1) [OF u' x(1)] assms by (simp add: word_unat_eq_iff)
  show "KV2P (va_of i) = of_nat (i * 2 ^ 30)" by (simp add: KV2P_def va_of_def)
  show "va_of i + L3_HUGE_SIZE = va_of (Suc i)"
    by (simp add: va_of_def L3_HUGE_SIZE_def L2_HUGE_SIZE_def PG_SIZE_def NPTENTRIES_def algebra_simps)
qed

lemma va_of_512: "\<not> va_of 512 < KERN_PHYMAP_TOP"
  by (simp add: word_less_nat_alt unat_va_of KB phymap_bytes_def)

definition two_tables :: "ptr \<Rightarrow> ptr \<Rightarrow> bool" where
  "two_tables p4 p3 \<longleftrightarrow> table_at p4 \<and> table_at p3 \<and> unat p4 + 4096 = unat p3"

lemma two_tablesD:
  assumes "two_tables p4 p3"
  shows "table_at p4" "table_at p3" "p4 \<noteq> p3" "p3 \<noteq> NULL" "p3 \<noteq> p4"
    "\<And>t u. t \<in> {p4, p3} \<Longrightarrow> u \<in> {p4, p3} \<Longrightarrow> t \<noteq> u \<Longrightarrow> unat t + 4096 \<le> unat u \<or> unat u + 4096 \<le> unat t"
  using assms by (auto simp: two_tables_def table_at_def)

lemma st64_table_frame:
  assumes "table_at t" "i < 512" "{unat t..<unat t + 4096} \<subseteq> R"
  shows "same_out R m (st64 m (t + 8 * of_nat i) v)"
  using assms unat_entry [OF assms(1,2)] by (intro same_out_st64) (auto simp: table_at_def)

lemma map_step_ok:
  assumes t: "two_tables p4 p3" and m: "mapped (mem s) p4 p3 i" and i: "0 < i" "i < 512"
  shows "\<exists>m'. vmm_map_step (va_of i) p3 s = Ret (p3, s\<lparr>mem := m'\<rparr>) \<and> mapped m' p4 p3 (Suc i)
     \<and> same_out {unat p4..<unat p4 + 8192} (mem s) m'"
proof -
  note T = two_tablesD [OF t] and V = va_of_props [OF i(2)]
  let ?m = "st64 (mem s) (p3 + 8 * of_nat i) (huge_entry i)"
  have nz: "(of_nat i :: u64) \<noteq> 0" using i by (simp add: word_unat_eq_iff unat_of_nat_lt)
  have "vmm_map_step (va_of i) p3 s = Ret (p3, s\<lparr>mem := ?m\<rparr>)"
    using nz T(4) by (simp add: vmm_map_step_def V bindk_def retk_def huge_entry_def)
  moreover have "mapped ?m p4 p3 (Suc i)"
  proof -
    have a: "tab ?m p4 j = tab (mem s) p4 j" if "j < 512" for j
      using tab_st64 [OF T(2) i(2) T(1) that] T(6) [of p3 p4] T(5) by simp
    have b: "tab ?m p3 j = (if i = j then huge_entry i else tab (mem s) p3 j)" if "j < 512" for j
      using tab_st64 [OF T(2) i(2) T(2) that] by simp
    show ?thesis using m a b by (auto simp: mapped_def)
  qed
  moreover have "same_out {unat p4..<unat p4 + 8192} (mem s) ?m"
    by (rule st64_table_frame [OF T(2) i(2)]) (use t in \<open>auto simp: two_tables_def\<close>)
  ultimately show ?thesis by blast
qed

lemma map_loop_ok:
  assumes t: "two_tables p4 p3"
  shows "mapped (mem s) p4 p3 i \<Longrightarrow> 0 < i \<Longrightarrow> i \<le> 512 \<Longrightarrow>
    \<exists>m'. vmm_map_loop (va_of i) p3 s = Some (Ret ((), s\<lparr>mem := m'\<rparr>)) \<and> mapped m' p4 p3 512
      \<and> same_out {unat p4..<unat p4 + 8192} (mem s) m'"
proof (induction "512 - i" arbitrary: i s)
  case 0
  then have "i = 512" by simp
  then show ?case using 0 va_of_512 by (subst vmm_map_loop.simps) (auto intro!: exI [of _ "mem s"])
next
  case (Suc k)
  then have i: "0 < i" "i < 512" by simp_all
  obtain m1 where m1: "vmm_map_step (va_of i) p3 s = Ret (p3, s\<lparr>mem := m1\<rparr>)" "mapped m1 p4 p3 (Suc i)"
      "same_out {unat p4..<unat p4 + 8192} (mem s) m1"
    using map_step_ok [OF t Suc.prems(1) i] by blast
  let ?s = "s\<lparr>mem := m1\<rparr>"
  have "k = 512 - Suc i" "mapped (mem ?s) p4 p3 (Suc i)" "0 < Suc i" "Suc i \<le> 512" using Suc.hyps(2) m1(2) i by auto
  from Suc.hyps(1) [OF this] obtain m2 where m2: "vmm_map_loop (va_of (Suc i)) p3 ?s = Some (Ret ((), ?s\<lparr>mem := m2\<rparr>))"
      "mapped m2 p4 p3 512" "same_out {unat p4..<unat p4 + 8192} m1 m2" by auto
  have "vmm_map_loop (va_of i) p3 s = Some (Ret ((), s\<lparr>mem := m2\<rparr>))"
    using m1(1) m2(1) va_of_props(1,5) [OF i(2)] by (subst vmm_map_loop.simps) simp
  then show ?case using m2(2) same_out_trans [OF m1(3) m2(3)] by blast
qed

lemma zeroed_page_ok:
  assumes z: "boot_zone s" and room: "unat (begin_kva s) + 4096 < unat (end_kva s)"
  shows "zeroed_page e s = Ret (begin_kva s, s\<lparr>begin_kva := begin_kva s + 4096, mem := memset (begin_kva s) 0 PG_SIZE (mem s)\<rparr>)"
    and "table_at (begin_kva s)" and "unat (begin_kva s + 4096) = unat (begin_kva s) + 4096"
    and "boot_zone (s\<lparr>begin_kva := begin_kva s + 4096, mem := m\<rparr>)"
proof -
  have zb: "4096 dvd unat (begin_kva s)" "0 < unat (begin_kva s)" "unat (begin_kva s) + 2 * max_request < 2 ^ 64"
    using z by (auto simp: boot_zone_def word_less_nat_alt)
  show u: "unat (begin_kva s + 4096) = unat (begin_kva s) + 4096"
    by (rule unat_add_numeral) (use zb in \<open>simp add: max_request_def\<close>)
  have r: "ROUNDUP_PWR2 PG_SIZE PG_SIZE = 4096" by (simp add: ROUNDUP_PWR2_def PG_SIZE_def)
  have lt: "begin_kva s + 4096 < end_kva s" using u room by (simp add: word_less_nat_alt)
  have "unat (begin_kva s mod 4096) = 0" using zb(1) by (simp add: unat_mod)
  then have "begin_kva s mod PG_SIZE = 0" by (simp only: PG_SIZE_def unat_eq_0)
  then show "zeroed_page e s = Ret (begin_kva s, s\<lparr>begin_kva := begin_kva s + 4096, mem := memset (begin_kva s) 0 PG_SIZE (mem s)\<rparr>)"
    using r lt zb(2) by (auto simp: zeroed_page_def boot_alloc_def Let_def)
  show "table_at (begin_kva s)" using zb by (simp add: table_at_def max_request_def)
  have "2 ^ 39 dvd 2 * max_request" by (simp add: max_request_def)
  show "boot_zone (s\<lparr>begin_kva := begin_kva s + 4096, mem := m\<rparr>)"
  proof -
    have e: "unat (end_kva s) + 2 * max_request < 2 ^ 64" using z by (simp add: boot_zone_def)
    have "4096 dvd unat (begin_kva s) + 4096" using zb(1) by simp
    moreover have "0 < begin_kva s + 4096" using u by (simp add: word_less_nat_alt)
    moreover have "unat (begin_kva s) + 4096 + 2 * max_request < 2 ^ 64" using e room by linarith
    ultimately show ?thesis using u e by (simp add: boot_zone_def)
  qed
qed

lemma memset_page_frame:
  assumes "table_at t" "{unat t..<unat t + 4096} \<subseteq> R"
  shows "same_out R m (memset t 0 PG_SIZE m)"
proof -
  have "unat PG_SIZE < 2 ^ 31" by (simp add: PG_SIZE_def)
  from memset_eq [OF this, of t 0 m] have m: "memset t 0 PG_SIZE m = (\<lambda>x. if x \<in> region t 4096 then 0 else m x)"
    by (auto simp: PG_SIZE_def fun_eq_iff)
  have "unat t + 4096 \<le> 2 ^ 64" using assms(1) by (simp add: table_at_def)
  then show ?thesis unfolding same_out_def m using assms(2) by (auto simp: in_region_nat)
qed

lemma map_first_ok:
  assumes z: "boot_zone s" and room: "unat (begin_kva s) + 4096 < unat (end_kva s)"
    and p4: "table_at p4" "unat p4 + 4096 = unat (begin_kva s)" "kern_pml4 s = p4" and zero: "\<forall>j < 512. tab (mem s) p4 j = 0"
  shows "\<exists>m'. vmm_map_step KERNBASE NULL s = Ret (begin_kva s, s\<lparr>begin_kva := begin_kva s + 4096, mem := m'\<rparr>)
     \<and> two_tables p4 (begin_kva s) \<and> mapped m' p4 (begin_kva s) 1 \<and> same_out {unat p4..<unat p4 + 8192} (mem s) m'"
proof -
  let ?p = "begin_kva s"
  note zp = zeroed_page_ok [OF z room]
  have t: "two_tables p4 ?p" using p4 zp(2) by (simp add: two_tables_def)
  note T = two_tablesD [OF t]
  have K: "va_of 0 = KERNBASE" by (simp add: va_of_def)
  note V = va_of_props [of 0, unfolded K, simplified]
  have i: "(0::nat) < 512" "(256::nat) < 512" by simp_all
  let ?m0 = "memset ?p 0 PG_SIZE (mem s)"
  let ?m1 = "st64 ?m0 (p4 + 8 * of_nat 256) (dir_entry ?p)"
  let ?m2 = "st64 ?m1 (?p + 8 * of_nat 0) (huge_entry 0)"
  have "vmm_map_step KERNBASE NULL s = Ret (?p, s\<lparr>begin_kva := ?p + 4096, mem := ?m2\<rparr>)"
    using T(4) p4(3) zp(1) by (simp add: vmm_map_step_def V bindk_def retk_def huge_entry_def dir_entry_def)
  moreover have "mapped ?m2 p4 ?p 1"
  proof -
    have 4: "tab ?m2 p4 j = (if j = 256 then dir_entry ?p else 0)" if j: "j < 512" for j
      using tab_st64 [OF T(2) i(1) T(1) j, of ?m1 "huge_entry 0"] tab_st64 [OF T(1) i(2) T(1) j, of ?m0 "dir_entry ?p"]
        tab_memset [OF T(2) T(1) j, of "mem s"] T(6) [of ?p p4] T(5) zero j by auto
    have 3: "tab ?m2 ?p j = (if j < 1 then huge_entry j else 0)" if j: "j < 512" for j
      using tab_st64 [OF T(2) i(1) T(2) j, of ?m1 "huge_entry 0"] tab_st64 [OF T(1) i(2) T(2) j, of ?m0 "dir_entry ?p"]
        tab_memset [OF T(2) T(2) j, of "mem s"] T(6) [of p4 ?p] T(3) by auto
    show ?thesis using 3 4 by (simp add: mapped_def)
  qed
  moreover have "same_out {unat p4..<unat p4 + 8192} (mem s) ?m2"
  proof -
    have s: "{unat p4..<unat p4 + 4096} \<subseteq> {unat p4..<unat p4 + 8192}" "{unat ?p..<unat ?p + 4096} \<subseteq> {unat p4..<unat p4 + 8192}"
      using p4(2) by auto
    show ?thesis
      by (intro same_out_trans [OF same_out_trans [OF memset_page_frame [OF T(2) s(2)] st64_table_frame [OF T(1) i(2) s(1)]]
            st64_table_frame [OF T(2) i(1) s(2)]])
  qed
  ultimately show ?thesis using t by blast
qed

lemma vmm_init_ok:
  assumes z: "boot_zone s" and room: "unat (begin_kva s) + 8192 < unat (end_kva s)"
  shows "\<exists>m p3. vmm_init s = Ret ((), s\<lparr>begin_kva := begin_kva s + 8192, mem := m, kern_pml4 := begin_kva s,
             cr3 := KV2P (begin_kva s)\<rparr>)
     \<and> two_tables (begin_kva s) p3 \<and> mapped m (begin_kva s) p3 512
     \<and> same_out {unat (begin_kva s)..<unat (begin_kva s) + 8192} (mem s) m"
proof -
  let ?p = "begin_kva s"
  have r1: "unat ?p + 4096 < unat (end_kva s)" using room by simp
  note zp = zeroed_page_ok [OF z r1]
  let ?s1 = "s\<lparr>begin_kva := ?p + 4096, mem := memset ?p 0 PG_SIZE (mem s)\<rparr>"
  let ?s2 = "?s1\<lparr>kern_pml4 := ?p\<rparr>"
  have z2: "boot_zone ?s2" using zp(4) by (simp add: boot_zone_def)
  have r2: "unat (begin_kva ?s2) + 4096 < unat (end_kva ?s2)" using zp(3) room by simp
  have zero: "\<forall>j < 512. tab (mem ?s2) ?p j = 0" using tab_memset [OF zp(2) zp(2)] by simp
  obtain m1 where m1: "vmm_map_step KERNBASE NULL ?s2 = Ret (?p + 4096, ?s2\<lparr>begin_kva := ?p + 4096 + 4096, mem := m1\<rparr>)"
      "two_tables ?p (?p + 4096)" "mapped m1 ?p (?p + 4096) 1" "same_out {unat ?p..<unat ?p + 8192} (mem ?s2) m1"
    using map_first_ok [OF z2 r2 zp(2) _ _ zero] zp(3) by auto
  let ?s3 = "?s2\<lparr>begin_kva := ?p + 4096 + 4096, mem := m1\<rparr>"
  have "mapped (mem ?s3) ?p (?p + 4096) 1" using m1(3) by simp
  from map_loop_ok [OF m1(2) this] obtain m2 where m2:
      "vmm_map_loop (va_of 1) (?p + 4096) ?s3 = Some (Ret ((), ?s3\<lparr>mem := m2\<rparr>))" "mapped m2 ?p (?p + 4096) 512"
      "same_out {unat ?p..<unat ?p + 8192} m1 m2" by auto
  have K: "va_of 0 = KERNBASE" by (simp add: va_of_def)
  note V = va_of_props [of 0, unfolded K, simplified]
  have "vmm_map_loop KERNBASE NULL ?s2 = Some (Ret ((), ?s3\<lparr>mem := m2\<rparr>))"
    using m1(1) m2(1) V(1,5) by (subst vmm_map_loop.simps) simp
  then have "vmm_init s = Ret ((), s\<lparr>begin_kva := ?p + 8192, mem := m2, kern_pml4 := ?p, cr3 := KV2P ?p\<rparr>)"
    using zp(1) by (simp add: vmm_init_def bindk_def vmm_load_ktable_def lcr3_def)
  moreover have "same_out {unat ?p..<unat ?p + 8192} (mem s) m2"
  proof -
    have "same_out {unat ?p..<unat ?p + 8192} (mem s) (mem ?s2)" using memset_page_frame [OF zp(2)] by simp
    from same_out_trans [OF same_out_trans [OF this m1(4)] m2(3)] show ?thesis .
  qed
  ultimately show ?thesis using m1(2) m2(2) by blast
qed

section \<open>Translation\<close>

text \<open>Canonical addresses: bits 47 to 63 are equal.\<close>

definition canonical :: "u64 \<Rightarrow> bool" where
  "canonical va \<longleftrightarrow> unat va < 2 ^ 47 \<or> 2 ^ 64 - 2 ^ 47 \<le> unat va"

lemma entry_tab: "PTE_ADDR e = KV2P t \<Longrightarrow> unat i < 512 \<Longrightarrow> entry m (PTE_ADDR e) i = tab m t (unat i)"
  by (simp add: entry_def tab_def P2KV_def KV2P_def)

lemma KV2P_aligned:
  assumes "table_at t"
  shows "4096 dvd unat (KV2P t)"
proof -
  have "4096 dvd unat t" "4096 dvd unat KERNBASE" using assms by (simp_all add: table_at_def KERNBASE_def)
  moreover have "(4096 :: nat) dvd 2 ^ 64" by simp
  ultimately show ?thesis unfolding KV2P_def unat_sub_if' by (auto intro!: dvd_diff_nat dvd_add)
qed

lemma PTE_ADDR_aligned: "4096 dvd unat a \<Longrightarrow> PTE_ADDR a = a"
proof -
  assume a: "4096 dvd unat a"
  have "unat (a AND NOT (mask 12)) = unat a" using a by (simp only: and_not_mask_mod) auto
  then show ?thesis unfolding PTE_ADDR_mask by (simp only: word_unat_eq_iff)
qed

lemma walk_inside:
  assumes t: "two_tables p4 p3" and m: "mapped m p4 p3 512"
    and u: "unat va = 2 ^ 64 - 2 ^ 47 + x" and x: "x < phymap_bytes"
  shows "page_walk m (KV2P p4) va = Some (KV2P va)"
proof -
  note T = two_tablesD [OF t]
  have x47: "x < 2 ^ 47" using x by (simp add: phymap_bytes_def)
  have i4: "unat (PG_L4_IDX va) = 256" using phymap_idx(1) [OF u x47] x by (simp add: phymap_bytes_def)
  have i3: "unat (PG_L3_IDX va) = x div 2 ^ 30" by (rule phymap_idx(2) [OF u x47 x])
  have j: "x div 2 ^ 30 < 512" using x by (simp add: phymap_bytes_def)
  have r: "PTE_ADDR (KV2P p4) = KV2P p4" by (rule PTE_ADDR_aligned [OF KV2P_aligned [OF T(1)]])
  have e4: "entry m (PTE_ADDR (KV2P p4)) (PG_L4_IDX va) = dir_entry p3"
    using entry_tab [OF r, of "PG_L4_IDX va" m] m by (simp add: i4 mapped_def)
  note d = pte_parts [OF KV2P_aligned [OF T(2)], of "PTE_FLAG_P OR PTE_FLAG_WRITE"]
  have d4: "PTE_ADDR (dir_entry p3) = KV2P p3" "bit (dir_entry p3) 0" using d by (simp_all add: dir_entry_def or.assoc)
  have e3: "entry m (PTE_ADDR (dir_entry p3)) (PG_L3_IDX va) = huge_entry (x div 2 ^ 30)"
    using entry_tab [OF d4(1), of "PG_L3_IDX va" m] m j by (simp add: i3 mapped_def)
  have pa: "unat (of_nat (x div 2 ^ 30 * 2 ^ 30) :: u64) = x div 2 ^ 30 * 2 ^ 30"
    by (rule unat_of_nat_lt) (use j in simp)
  have al: "4096 dvd unat (of_nat (x div 2 ^ 30 * 2 ^ 30) :: u64)" unfolding pa by (rule dvd_mult) simp
  note h = pte_parts [OF al, of "PTE_FLAG_P OR PTE_FLAG_WRITE OR PTE_FLAG_SZ"]
  have d3: "PTE_ADDR (huge_entry (x div 2 ^ 30)) = of_nat (x div 2 ^ 30 * 2 ^ 30)"
    "bit (huge_entry (x div 2 ^ 30)) 0" "bit (huge_entry (x div 2 ^ 30)) 7"
    using h by (simp_all only: huge_entry_def or.assoc) simp_all
  have L: "unat L3_HUGE_SIZE = 2 ^ 30" by (simp add: L3_HUGE_SIZE_def L2_HUGE_SIZE_def PG_SIZE_def NPTENTRIES_def)
  have "unat (va mod L3_HUGE_SIZE) = x mod 2 ^ 30"
  proof -
    have "(2 ^ 64 - 2 ^ 47 + x) mod 2 ^ 30 = x mod 2 ^ 30" for x :: nat by (subst mod_add_eq [symmetric]) simp
    then show ?thesis by (simp only: unat_mod L u)
  qed
  moreover have "KV2P va = of_nat x"
  proof -
    have "va = KERNBASE + of_nat x"
      using u KB unat_add_of_nat [of KERNBASE x] x by (simp add: word_unat_eq_iff phymap_bytes_def)
    then show ?thesis by (simp add: KV2P_def)
  qed
  ultimately have sum: "of_nat (x div 2 ^ 30 * 2 ^ 30) + va mod L3_HUGE_SIZE = KV2P va"
  proof -
    assume md: "unat (va mod L3_HUGE_SIZE) = x mod 2 ^ 30" and kv: "KV2P va = of_nat x"
    have "va mod L3_HUGE_SIZE = of_nat (x mod 2 ^ 30)" using md by (metis of_nat_unat ucast_id)
    then have "of_nat (x div 2 ^ 30 * 2 ^ 30) + va mod L3_HUGE_SIZE = of_nat (x div 2 ^ 30 * 2 ^ 30 + x mod 2 ^ 30)"
      by (simp only: of_nat_add)
    then show ?thesis using kv by (simp only: div_mult_mod_eq)
  qed
  show ?thesis unfolding page_walk_def Let_def e4 e3 d3(1) sum using d4 d3 by simp
qed

lemma walk_outside:
  assumes t: "two_tables p4 p3" and m: "mapped m p4 p3 512" and i: "unat (PG_L4_IDX va) < 512" "unat (PG_L4_IDX va) \<noteq> 256"
  shows "page_walk m (KV2P p4) va = None"
proof -
  note T = two_tablesD [OF t]
  have r: "PTE_ADDR (KV2P p4) = KV2P p4" by (rule PTE_ADDR_aligned [OF KV2P_aligned [OF T(1)]])
  have "entry m (PTE_ADDR (KV2P p4)) (PG_L4_IDX va) = 0"
    using entry_tab [OF r i(1), of m] m i by (simp add: mapped_def)
  then show ?thesis by (simp add: page_walk_def)
qed

lemma canonical_walk:
  assumes t: "two_tables p4 p3" and m: "mapped m p4 p3 512" and c: "canonical va"
  shows "page_walk m (KV2P p4) va = (if KERNBASE \<le> va \<and> va < KERN_PHYMAP_TOP then Some (KV2P va) else None)"
proof -
  consider (low) "unat va < 2 ^ 47" | (high) x where "unat va = 2 ^ 64 - 2 ^ 47 + x" "x < 2 ^ 47"
  proof -
    assume l: "unat va < 2 ^ 47 \<Longrightarrow> thesis" and h: "\<And>x. unat va = 2 ^ 64 - 2 ^ 47 + x \<Longrightarrow> x < 2 ^ 47 \<Longrightarrow> thesis"
    show thesis using c h [of "unat va - (2 ^ 64 - 2 ^ 47)"] l unat_lt_2_64 [of va] by (auto simp: canonical_def)
  qed
  then show ?thesis
  proof cases
    case low
    have "unat (PG_L4_IDX va) = unat va div 2 ^ 39 mod 512" by (simp add: PG_L4_IDX_def idx_mask)
    also have "\<dots> = unat va div 2 ^ 39" using low by simp
    finally have "unat (PG_L4_IDX va) < 256" using low by simp
    then show ?thesis using walk_outside [OF t m, of va] low by (simp add: word_le_nat_alt KB)
  next
    case high
    show ?thesis
    proof (cases "x < phymap_bytes")
      case True
      then show ?thesis using walk_inside [OF t m high(1)] high by (simp add: word_le_nat_alt word_less_nat_alt KB)
    next
      case False
      have "unat (PG_L4_IDX va) = 256 + x div 2 ^ 39" by (rule phymap_idx(1) [OF high])
      moreover have "0 < x div 2 ^ 39" "x div 2 ^ 39 < 256" using False high(2) by (simp_all add: phymap_bytes_def div_greater_zero_iff)
      ultimately show ?thesis
        using walk_outside [OF t m, of va] False high(1) by (simp add: word_le_nat_alt word_less_nat_alt KB)
    qed
  qed
qed

text \<open>C17: the kernel page table. With two pages of room in the boot zone \<^verbatim>\<open>vmm_init\<close> returns and loads a table under
  which the processor's page walk translates a canonical address exactly when it lies between \<^verbatim>\<open>KERNBASE\<close> and
  \<^verbatim>\<open>KERN_PHYMAP_TOP\<close>, to the physical address \<^verbatim>\<open>KV2P\<close> gives; only the two pages taken from the zone were written.\<close>

theorem vmm_init_direct_map:
  assumes "boot_zone s" and "unat (begin_kva s) + 8192 < unat (end_kva s)"
  shows "\<exists>t. vmm_init s = Ret ((), t) \<and> vmm_get_kernel_pgtable t = begin_kva s \<and> begin_kva t = begin_kva s + 8192
     \<and> (\<forall>va. canonical va \<longrightarrow> page_walk (mem t) (cr3 t) va
          = (if KERNBASE \<le> va \<and> va < KERN_PHYMAP_TOP then Some (KV2P va) else None))
     \<and> same_out {unat (begin_kva s)..<unat (begin_kva s) + 8192} (mem s) (mem t)"
proof -
  obtain m p3 where m: "vmm_init s = Ret ((), s\<lparr>begin_kva := begin_kva s + 8192, mem := m, kern_pml4 := begin_kva s,
             cr3 := KV2P (begin_kva s)\<rparr>)" "two_tables (begin_kva s) p3" "mapped m (begin_kva s) p3 512"
      "same_out {unat (begin_kva s)..<unat (begin_kva s) + 8192} (mem s) m"
    using vmm_init_ok [OF assms] by blast
  show ?thesis
    using m(1,4) canonical_walk [OF m(2,3)] by (simp add: vmm_get_kernel_pgtable_def)
qed

definition demo_vm :: vm_sys where
  "demo_vm = km_sys.extend demo_km \<lparr>kern_pml4 = 0, cr3 = 0\<rparr>"

lemma demo_vm_zone: "boot_zone demo_vm" "unat (begin_kva demo_vm) + 8192 < unat (end_kva demo_vm)"
  by (simp_all add: demo_vm_def demo_km_def demo_pg_def demo_boot_def demo_machine_def machine.extend_def
      boot_sys.extend_def pg_sys.extend_def km_sys.extend_def boot_zone_def max_request_def)

theorem vmm_init_direct_map_witness:
  "\<exists>t. vmm_init demo_vm = Ret ((), t)
     \<and> page_walk (mem t) (cr3 t) 0xFFFF8000000B8000 = Some 0xB8000 \<and> page_walk (mem t) (cr3 t) 0xB8000 = None"
proof -
  obtain t where t: "vmm_init demo_vm = Ret ((), t)" "\<forall>va. canonical va \<longrightarrow> page_walk (mem t) (cr3 t) va
          = (if KERNBASE \<le> va \<and> va < KERN_PHYMAP_TOP then Some (KV2P va) else None)"
    using vmm_init_direct_map [OF demo_vm_zone] by blast
  have "canonical 0xFFFF8000000B8000" "canonical 0xB8000" by (simp_all add: canonical_def)
  then show ?thesis using t by (simp add: KERNBASE_def KERN_PHYMAP_TOP_def KV2P_def)
qed

end
