(* ===== verification/Proc.thy ===== *)
theory Proc
  imports Dequeue Vm
begin

text \<open>
  Processes, \<^verbatim>\<open>kernel/src/proc/proc.c\<close>, and the scheduler, \<^verbatim>\<open>kernel/src/proc/sched.c\<close>. The structures
  \<^verbatim>\<open>struct proc\<close> of the process table and of the idle processes are records in a store indexed by address;
  kernel stacks, contexts and trap frames are bytes in memory. The two queues of the scheduler are dequeues over
  the kernel heap. \<^verbatim>\<open>sched_ctxsw\<close> is assembly that comes back when somebody switches to the saved context
  again: it is an argument \<open>ctxsw\<close> of the operations that call it.
\<close>

section \<open>State (\<^verbatim>\<open>proc.h\<close>)\<close>

datatype proc_state = UNUSED | CREATION | SLEEPING | RUNNABLE | RUNNING | ZOMBIE
datatype proc_type = KERNEL | USER

record proc =
  pgtable :: ptr
  tf :: ptr
  ctx :: ptr
  kstack :: ptr
  kstack_top :: ptr
  p_state :: proc_state
  p_type :: proc_type
  p_name :: "u8 list"
  chan :: ptr
  p_int_disable_layer :: u32
  pid :: u16
  killed :: u8
  p_int_enabled :: u8

text \<open>A structure of zero bytes, as \<^verbatim>\<open>memset\<close> leaves it.\<close>

definition zero_proc :: proc where
  "zero_proc = \<lparr>pgtable = 0, tf = 0, ctx = 0, kstack = 0, kstack_top = 0, p_state = UNUSED, p_type = KERNEL,
     p_name = replicate 32 0, chan = 0, p_int_disable_layer = 0, pid = 0, killed = 0, p_int_enabled = 0\<rparr>"

text \<open>Addresses that the linker assigns: the static objects below and the code that contexts point to.\<close>

datatype symbol = Return_from_isr | Proc_kentry | Idle_function | Kshell_main

record proc_sys = vm_sys +
  procs :: "ptr \<Rightarrow> proc"
  next_pid :: u32
  ptable_proc :: ptr
  idle_proc :: ptr
  ready_queue :: ptr
  waiting_queue :: ptr
  addr_of :: "symbol \<Rightarrow> ptr"

definition NPROC :: nat where "NPROC = 1024"
definition sizeof_proc :: u64 where "sizeof_proc = 96"
definition sizeof_trapframe :: u64 where "sizeof_trapframe = 176"
definition sizeof_proc_context :: u64 where "sizeof_proc_context = 56"

definition proc_slot :: "ptr \<Rightarrow> nat \<Rightarrow> ptr" where
  "proc_slot base i = base + of_nat i * sizeof_proc"

definition upd_proc :: "ptr \<Rightarrow> (proc \<Rightarrow> proc) \<Rightarrow> 'z proc_sys_scheme \<Rightarrow> 'z proc_sys_scheme" where
  "upd_proc p f s = s\<lparr>procs := (procs s)(p := f (procs s p))\<rparr>"

text \<open>The fields of \<^verbatim>\<open>struct proc_context\<close> and \<^verbatim>\<open>struct trapframe\<close> that are written by name.\<close>

definition set_ctx_rip :: "ptr \<Rightarrow> u64 \<Rightarrow> memory \<Rightarrow> memory" where "set_ctx_rip c v m = st64 m (c + 48) v"
definition set_tf_rip :: "ptr \<Rightarrow> u64 \<Rightarrow> memory \<Rightarrow> memory" where "set_tf_rip t v m = st64 m (t + 136) v"
definition set_tf_cs :: "ptr \<Rightarrow> u64 \<Rightarrow> memory \<Rightarrow> memory" where "set_tf_cs t v m = st64 m (t + 144) v"
definition set_tf_flags :: "ptr \<Rightarrow> u64 \<Rightarrow> memory \<Rightarrow> memory" where "set_tf_flags t v m = st64 m (t + 152) v"
definition set_tf_rsp :: "ptr \<Rightarrow> u64 \<Rightarrow> memory \<Rightarrow> memory" where "set_tf_rsp t v m = st64 m (t + 160) v"
definition set_tf_ss :: "ptr \<Rightarrow> u64 \<Rightarrow> memory \<Rightarrow> memory" where "set_tf_ss t v m = st64 m (t + 168) v"

definition GDT_KERNEL_CODE :: u64 where "GDT_KERNEL_CODE = 1"
definition GDT_KERNEL_DATA :: u64 where "GDT_KERNEL_DATA = 2"

section \<open>Processes (\<^verbatim>\<open>proc.c\<close>)\<close>

definition sched_init :: "'z proc_sys_scheme \<Rightarrow> (unit \<times> 'z proc_sys_scheme) outcome" where
  "sched_init =
     bindk (init_lock Sched_lock ''sched'') (\<lambda>_.
     bindk (acquire Sched_lock) (\<lambda>_.
     bindk (\<lambda>s. dequeue_construct (ready_queue s) s) (\<lambda>_.
     bindk (\<lambda>s. dequeue_construct (waiting_queue s) s) (\<lambda>_.
     release Sched_lock))))"

definition in_table :: "ptr \<Rightarrow> nat \<Rightarrow> ptr \<Rightarrow> bool" where
  "in_table base n p \<longleftrightarrow> p \<in> proc_slot base ` set [0..<n]"

definition proc_init :: "'z proc_sys_scheme \<Rightarrow> (unit \<times> 'z proc_sys_scheme) outcome" where
  "proc_init =
     bindk (init_lock Ptable_lock ''ptable'') (\<lambda>_ s.
       let s1 = s\<lparr>procs := (\<lambda>p. if in_table (ptable_proc s) NPROC p then zero_proc else procs s p)\<rparr>;
           s2 = s1\<lparr>procs := (\<lambda>p. if in_table (idle_proc s1) NCPU p then zero_proc else procs s1 p)\<rparr>
       in sched_init (s2\<lparr>next_pid := 1\<rparr>))"

text \<open>
  The result of \<^verbatim>\<open>pgalloc_allocate\<close> is not checked: without a page the frame is laid out just below address
  4096, which the kernel's page table does not map.
\<close>

definition proc_kern_init :: "ptr \<Rightarrow> 'z proc_sys_scheme \<Rightarrow> (unit \<times> 'z proc_sys_scheme) outcome" where
  "proc_kern_init p s =
     (if p = NULL then Ret ((), s)
      else bindk (pgalloc_allocate 0) (\<lambda>stk s.
        if stk = NULL then Undef ''null kstack''
        else
          let top = stk + PG_SIZE;
              frame = top - sizeof_trapframe;
              ret = frame - 8;
              con = ret - sizeof_proc_context;
              s1 = upd_proc p (\<lambda>q. q\<lparr>kstack := stk, kstack_top := top, tf := frame, ctx := con\<rparr>) s;
              m1 = st64 (mem s1) ret (addr_of s1 Return_from_isr)
          in Ret ((), s1\<lparr>mem := memset con 0 sizeof_proc_context m1\<rparr>)) s)"

definition proc_find :: "'z proc_sys_scheme \<Rightarrow> ptr option" where
  "proc_find s = List.find (\<lambda>p. p_state (procs s p) = UNUSED) (map (proc_slot (ptable_proc s)) [0..<NPROC])"

definition proc_claim :: "'z proc_sys_scheme \<Rightarrow> (ptr \<times> 'z proc_sys_scheme) outcome" where
  "proc_claim s =
     (case proc_find s of
        None \<Rightarrow> Ret (NULL, s)
      | Some p \<Rightarrow> Ret (p, (upd_proc p (\<lambda>_. zero_proc\<lparr>p_state := CREATION, pid := ucast (next_pid s)\<rparr>) s)
                      \<lparr>next_pid := next_pid s + 1\<rparr>))"

definition proc_alloc :: "'z proc_sys_scheme \<Rightarrow> (ptr \<times> 'z proc_sys_scheme) outcome" where
  "proc_alloc =
     bindk (locked_call Ptable_lock proc_claim) (\<lambda>p.
       if p \<noteq> NULL then bindk (proc_kern_init p) (\<lambda>_. retk p) else retk p)"

section \<open>The scheduler (\<^verbatim>\<open>sched.c\<close>)\<close>

definition proc_kentry :: "'z proc_sys_scheme \<Rightarrow> (unit \<times> 'z proc_sys_scheme) outcome" where
  "proc_kentry = bindk curproc (\<lambda>p. if p = NULL then panic ''no curproc?'' else release Sched_lock)"

definition idle_name :: "u8 list" where "idle_name = [105, 100, 108, 101, 0]"

definition sched_create_kproc :: "ptr \<Rightarrow> symbol \<Rightarrow> 'z proc_sys_scheme \<Rightarrow> (unit \<times> 'z proc_sys_scheme) outcome" where
  "sched_create_kproc p func s =
     (if p = NULL then Undef ''null proc''
      else
        let s1 = upd_proc p (\<lambda>q. q\<lparr>p_name := idle_name @ drop 5 (p_name q), killed := 0,
                   pgtable := vmm_get_kernel_pgtable s, p_state := RUNNABLE, p_type := KERNEL\<rparr>) s;
            q = procs s1 p;
            m1 = set_ctx_rip (ctx q) (addr_of s1 Proc_kentry) (mem s1);
            m2 = memset (tf q) 0 sizeof_trapframe m1;
            m3 = set_tf_rip (tf q) (addr_of s1 func) m2;
            m4 = set_tf_rsp (tf q) (kstack_top q) m3;
            m5 = set_tf_cs (tf q) (GDT_KERNEL_CODE * 8) m4;
            m6 = set_tf_ss (tf q) (GDT_KERNEL_DATA * 8) m5;
            m7 = set_tf_flags (tf q) RFLAGS_IF m6
        in Ret ((), s1\<lparr>mem := m7\<rparr>))"

definition sched_setup_idle_proc :: "ptr \<Rightarrow> 'z proc_sys_scheme \<Rightarrow> (unit \<times> 'z proc_sys_scheme) outcome" where
  "sched_setup_idle_proc p =
     bindk (proc_kern_init p) (\<lambda>_ s.
       sched_create_kproc p Idle_function (upd_proc p (\<lambda>q. q\<lparr>pid := 0\<rparr>) s))"

definition sched_add :: "ptr \<Rightarrow> 'z proc_sys_scheme \<Rightarrow> (unit \<times> 'z proc_sys_scheme) outcome" where
  "sched_add p s =
     (if p_state (procs s p) \<noteq> RUNNABLE then panic ''sched_add not ready'' s
      else bindk (acquire Sched_lock) (\<lambda>_.
           bindk (\<lambda>s. dequeue_push_back (ready_queue s) p s) (\<lambda>_.
           release Sched_lock)) s)"

text \<open>Where \<^verbatim>\<open>sched_ctxsw\<close> saves the old context: the CPU's \<^verbatim>\<open>scheduler_ctx\<close> or the process's \<^verbatim>\<open>ctx\<close>.\<close>

datatype ctx_slot = Cpu_slot nat | Proc_slot ptr

type_synonym 's ctxsw = "ctx_slot \<Rightarrow> ptr \<Rightarrow> 's \<Rightarrow> (unit \<times> 's) outcome"

definition set_cpu_proc :: "nat \<Rightarrow> ptr \<Rightarrow> 'z machine_scheme \<Rightarrow> 'z machine_scheme" where
  "set_cpu_proc c p s = s\<lparr>cpus := (cpus s)[c := (cpus s ! c)\<lparr>cpu_proc := p\<rparr>]\<rparr>"

definition sched_pick :: "'z proc_sys_scheme \<Rightarrow> (ptr \<times> 'z proc_sys_scheme) outcome" where
  "sched_pick =
     bindk (\<lambda>s. if q_size (mem s) (ready_queue s) > 0 then dequeue_pop_front (ready_queue s) s else Ret (NULL, s)) (\<lambda>p.
       if p = NULL then bindk cpu_id (\<lambda>i s. Ret (proc_slot (idle_proc s) (unat i), s)) else retk p)"

definition sched_put_back :: "nat \<Rightarrow> 'z proc_sys_scheme \<Rightarrow> (unit \<times> 'z proc_sys_scheme) outcome" where
  "sched_put_back c s =
     (let p = cpu_proc (cpus s ! c) in
      if p = NULL then Ret ((), s)
      else bindk cpu_id (\<lambda>i s.
        if p = proc_slot (idle_proc s) (unat i) then Ret ((), s)
        else if p_state (procs s p) = RUNNABLE then dequeue_push_back (ready_queue s) p s
        else dequeue_push_back (waiting_queue s) p s) s)"

text \<open>One turn of the loop of \<^verbatim>\<open>sched_start\<close>; the result is the process that was run.\<close>

definition sched_round :: "'z proc_sys_scheme ctxsw \<Rightarrow> nat \<Rightarrow> 'z proc_sys_scheme \<Rightarrow> (ptr \<times> 'z proc_sys_scheme) outcome" where
  "sched_round ctxsw c =
     bindk sched_pick (\<lambda>p s.
       let s1 = upd_proc p (\<lambda>q. q\<lparr>p_state := RUNNING\<rparr>) (set_cpu_proc c p s)
       in bindk (ctxsw (Cpu_slot c) (ctx (procs s1 p))) (\<lambda>_.
          bindk vmm_load_ktable (\<lambda>_.
          bindk (sched_put_back c) (\<lambda>_ s2. Ret (p, set_cpu_proc c NULL s2)))) s1)"

primrec sched_rounds :: "'z proc_sys_scheme ctxsw \<Rightarrow> nat \<Rightarrow> nat \<Rightarrow> 'z proc_sys_scheme \<Rightarrow> (ptr list \<times> 'z proc_sys_scheme) outcome" where
  "sched_rounds ctxsw c 0 = retk []"
| "sched_rounds ctxsw c (Suc n) =
     bindk (sched_round ctxsw c) (\<lambda>p. bindk (sched_rounds ctxsw c n) (\<lambda>ps. retk (p # ps)))"

text \<open>\<^verbatim>\<open>sched_start\<close> never leaves its loop: \<open>n\<close> is the number of turns that are observed.\<close>

definition sched_start :: "'z proc_sys_scheme ctxsw \<Rightarrow> nat \<Rightarrow> 'z proc_sys_scheme \<Rightarrow> (ptr list \<times> 'z proc_sys_scheme) outcome" where
  "sched_start ctxsw n =
     bindk cur_cpu (\<lambda>c.
     bindk (\<lambda>s. Ret ((), set_cpu_proc c NULL s)) (\<lambda>_.
     bindk cpu_id (\<lambda>i s.
       let idle = proc_slot (idle_proc s) (unat i)
       in bindk (sched_setup_idle_proc idle) (\<lambda>_.
          bindk enable_interrupt (\<lambda>_.
          bindk (acquire Sched_lock) (\<lambda>_.
          sched_rounds ctxsw c n))) (upd_proc idle (\<lambda>q. q\<lparr>p_state := RUNNING\<rparr>) s))))"

definition sched_switch_out :: "'z proc_sys_scheme ctxsw \<Rightarrow> 'z proc_sys_scheme \<Rightarrow> (unit \<times> 'z proc_sys_scheme) outcome" where
  "sched_switch_out ctxsw =
     bindk curproc (\<lambda>p.
     bindk (holding Sched_lock) (\<lambda>h.
       if \<not> h then panic ''sched_swtich_out lock''
       else bindk cur_cpu (\<lambda>c s.
         if int_disable_layer (cpus s ! c) \<noteq> 1 then panic ''switch_out lock count'' s
         else if p = NULL then Undef ''null proc''
         else if p_state (procs s p) = RUNNING then panic ''switching out running'' s
         else
           let intena = int_enabled (cpus s ! c)
           in bindk (ctxsw (Proc_slot p) (scheduler_ctx (cpus s ! c))) (\<lambda>_.
              bindk cur_cpu (\<lambda>d t.
                Ret ((), t\<lparr>cpus := (cpus t)[d := (cpus t ! d)\<lparr>int_enabled := intena\<rparr>]\<rparr>))) s)))"

definition sched_yield :: "'z proc_sys_scheme ctxsw \<Rightarrow> 'z proc_sys_scheme \<Rightarrow> (unit \<times> 'z proc_sys_scheme) outcome" where
  "sched_yield ctxsw =
     bindk (acquire Sched_lock) (\<lambda>_.
     bindk curproc (\<lambda>p s.
       if p = NULL then Undef ''null proc''
       else bindk (sched_switch_out ctxsw) (\<lambda>_. release Sched_lock)
         (if p_state (procs s p) = RUNNING then upd_proc p (\<lambda>q. q\<lparr>p_state := RUNNABLE\<rparr>) s else s)))"

text \<open>
  The statements of \<^verbatim>\<open>sched_sleep\<close> after its two checks, one by one: other CPUs can act between any two of them. \<open>run_steps\<close>
  executes such a list; \<open>visits\<close> are the states after each statement that completes.
\<close>

primrec run_steps :: "('s \<Rightarrow> (unit \<times> 's) outcome) list \<Rightarrow> 's \<Rightarrow> (unit \<times> 's) outcome" where
  "run_steps [] = retk ()"
| "run_steps (f # fs) = bindk f (\<lambda>_. run_steps fs)"

primrec visits :: "('s \<Rightarrow> (unit \<times> 's) outcome) list \<Rightarrow> 's \<Rightarrow> 's list" where
  "visits [] s = []"
| "visits (f # fs) s = (case f s of Ret (_, t) \<Rightarrow> t # visits fs t | _ \<Rightarrow> [])"

definition sleep_enter :: "ptr \<Rightarrow> ptr \<Rightarrow> lock_id \<Rightarrow> ('z proc_sys_scheme \<Rightarrow> (unit \<times> 'z proc_sys_scheme) outcome) list" where
  "sleep_enter p ch l =
     (if l \<noteq> Sched_lock then [acquire Sched_lock, release l] else []) @
     [\<lambda>s. Ret ((), upd_proc p (\<lambda>q. q\<lparr>chan := ch\<rparr>) s), \<lambda>s. Ret ((), upd_proc p (\<lambda>q. q\<lparr>p_state := SLEEPING\<rparr>) s)]"

definition sleep_leave :: "ptr \<Rightarrow> lock_id \<Rightarrow> ('z proc_sys_scheme \<Rightarrow> (unit \<times> 'z proc_sys_scheme) outcome) list" where
  "sleep_leave p l =
     [\<lambda>s. Ret ((), upd_proc p (\<lambda>q. q\<lparr>chan := NULL\<rparr>) s)] @
     (if l \<noteq> Sched_lock then [acquire l, release Sched_lock] else [])"

text \<open>A lock argument \<^verbatim>\<open>NULL\<close> of \<^verbatim>\<open>sched_sleep\<close> is \<open>None\<close>.\<close>

definition sched_sleep :: "'z proc_sys_scheme ctxsw \<Rightarrow> ptr \<Rightarrow> lock_id option \<Rightarrow> 'z proc_sys_scheme
    \<Rightarrow> (unit \<times> 'z proc_sys_scheme) outcome" where
  "sched_sleep ctxsw ch lk =
     bindk curproc (\<lambda>p.
       if p = NULL then panic ''sched_sleep''
       else case lk of
         None \<Rightarrow> panic ''sleep w/o lock''
       | Some l \<Rightarrow> run_steps (sleep_enter p ch l @ [sched_switch_out ctxsw] @ sleep_leave p l))"

partial_function (option) wakeup_loop ::
  "ptr \<Rightarrow> dequeue_iter \<Rightarrow> 'z proc_sys_scheme \<Rightarrow> (unit \<times> 'z proc_sys_scheme) outcome option" where
  "wakeup_loop ch it s =
     (if \<not> dequeue_iterator_has_next it then Some (Ret ((), s))
      else case dequeue_iterator_next it s of
        (p, it1) \<Rightarrow>
          if chan (procs s p) = ch then
            (case dequeue_iterator_delete it1 s of
               Ret (it2, s1) \<Rightarrow>
                 (case dequeue_push_back (ready_queue s1) p s1 of
                    Ret (u, s2) \<Rightarrow> wakeup_loop ch it2 s2
                  | Panic e \<Rightarrow> Some (Panic e) | Hang \<Rightarrow> Some Hang | Undef e \<Rightarrow> Some (Undef e))
             | Panic e \<Rightarrow> Some (Panic e) | Hang \<Rightarrow> Some Hang | Undef e \<Rightarrow> Some (Undef e))
          else wakeup_loop ch it1 s)"

definition sched_wakeup :: "ptr \<Rightarrow> 'z proc_sys_scheme \<Rightarrow> (unit \<times> 'z proc_sys_scheme) outcome" where
  "sched_wakeup ch =
     bindk (acquire Sched_lock) (\<lambda>_.
     bindk (\<lambda>s. case wakeup_loop ch (dequeue_iterator (waiting_queue s) s) s of None \<Rightarrow> Hang | Some r \<Rightarrow> r) (\<lambda>_.
     release Sched_lock))"

section \<open>The first switch to a new process\<close>

text \<open>
  The code of \<^verbatim>\<open>asm/swtch.s\<close>: the six callee-saved registers go to the current stack, the stack pointer to
  \<^verbatim>\<open>*old\<close>; then six registers are popped from the new stack and \<^verbatim>\<open>ret\<close> takes the next word as the next
  instruction.
\<close>

record callee_regs =
  rbx :: u64
  rbp :: u64
  r12 :: u64
  r13 :: u64
  r14 :: u64
  r15 :: u64
  rsp :: u64
  rip :: u64

definition ctxsw_asm :: "ptr \<Rightarrow> ptr \<Rightarrow> callee_regs \<times> memory \<Rightarrow> callee_regs \<times> memory" where
  "ctxsw_asm rdi rsi = (\<lambda>(r, m).
     let m1 = st64 m (rsp r - 8) (r15 r); m2 = st64 m1 (rsp r - 16) (r14 r); m3 = st64 m2 (rsp r - 24) (r13 r);
         m4 = st64 m3 (rsp r - 32) (r12 r); m5 = st64 m4 (rsp r - 40) (rbp r); m6 = st64 m5 (rsp r - 48) (rbx r);
         m7 = st64 m6 rdi (rsp r - 48)
     in (\<lparr>rbx = ld64 m7 rsi, rbp = ld64 m7 (rsi + 8), r12 = ld64 m7 (rsi + 16), r13 = ld64 m7 (rsi + 24),
          r14 = ld64 m7 (rsi + 32), r15 = ld64 m7 (rsi + 40), rsp = rsi + 56, rip = ld64 m7 (rsi + 48)\<rparr>, m7))"

text \<open>Words of one page, named by their offset.\<close>

lemma page_word_other:
  assumes b: "unat (b :: u64) + 4096 \<le> 2 ^ 64" and ij: "unat i + 8 \<le> 4096" "unat j + 8 \<le> 4096"
    and d: "unat i + 8 \<le> unat j \<or> unat j + 8 \<le> unat i"
  shows "ld64 (st64 m (b + i) v) (b + j) = ld64 m (b + j)"
proof -
  have u: "unat (b + i) = unat b + unat i" "unat (b + j) = unat b + unat j"
    using b ij by (auto intro!: unat_add_nowrap)
  show ?thesis using b ij d by (intro ld64_st64_other region_disjoint_nat) (auto simp: u)
qed

lemma page_clear:
  assumes b: "unat (b :: u64) + 4096 \<le> 2 ^ 64" and ij: "unat i + unat n \<le> 4096" "unat j + 8 \<le> 4096" and n: "unat i + unat n < 4096 \<or> unat i < 4096"
  shows "unat i + unat n \<le> unat j \<or> unat j + 8 \<le> unat i \<Longrightarrow> ld64 (memset (b + i) 0 n m) (b + j) = ld64 m (b + j)"
    and "unat i \<le> unat j \<Longrightarrow> unat j + 8 \<le> unat i + unat n \<Longrightarrow> ld64 (memset (b + i) 0 n m) (b + j) = 0"
proof -
  have u: "unat (b + i) = unat b + unat i" "unat (b + j) = unat b + unat j"
    using b ij n by (auto intro!: unat_add_nowrap)
  have m: "memset (b + i) 0 n m = (\<lambda>x. if x \<in> region (b + i) (unat n) then 0 else m x)"
    using memset_eq [of n "b + i" 0 m] ij by auto
  show "ld64 (memset (b + i) 0 n m) (b + j) = ld64 m (b + j)"
    if "unat i + unat n \<le> unat j \<or> unat j + 8 \<le> unat i"
  proof -
    have "region (b + i) (unat n) \<inter> region (b + j) 8 = {}" using b ij that by (intro region_disjoint_nat) (auto simp: u)
    then have "eq_on (region (b + j) 8) (memset (b + i) 0 n m) m" unfolding m eq_on_def by auto
    then show ?thesis by (rule ld64_cong)
  qed
  show "ld64 (memset (b + i) 0 n m) (b + j) = 0" if "unat i \<le> unat j" "unat j + 8 \<le> unat i + unat n"
  proof -
    have "region (b + j) 8 \<subseteq> region (b + i) (unat n)" using b ij that by (intro region_subset_nat) (auto simp: u)
    then have "eq_on (region (b + j) 8) (memset (b + i) 0 n m) (\<lambda>_. 0)" unfolding m eq_on_def by auto
    from ld64_cong [OF this] show ?thesis by simp
  qed
qed

lemma page_offsets:
  "(b :: u64) + 4096 - 176 = b + 3920" "b + 3920 - 8 = b + 3912" "b + 3912 - 56 = b + 3856"
  by simp_all

text \<open>What a new process with the entry point \<open>f\<close> and the stack page \<open>b\<close> looks like.\<close>

definition fresh_stack :: "ptr \<Rightarrow> u64 \<Rightarrow> u64 \<Rightarrow> u64 \<Rightarrow> memory \<Rightarrow> bool" where
  "fresh_stack b kentry isr f m \<longleftrightarrow>
     map (\<lambda>k. ld64 m (b + 3856 + 8 * of_nat k)) [0..<6] = replicate 6 0 \<and> ld64 m (b + 3904) = kentry
     \<and> ld64 m (b + 3912) = isr
     \<and> map (\<lambda>k. ld64 m (b + 3920 + 8 * of_nat k)) [0..<17] = replicate 17 0
     \<and> ld64 m (b + 4056) = f \<and> ld64 m (b + 4064) = 8 \<and> ld64 m (b + 4072) = RFLAGS_IF
     \<and> ld64 m (b + 4080) = b + 4096 \<and> ld64 m (b + 4088) = 16"

lemma proc_frame:
  fixes b :: ptr and m :: memory and isr kentry :: u64
  assumes b: "unat b + 4096 \<le> 2 ^ 64"
  defines "m1 \<equiv> memset (b + 3856) 0 56 (st64 m (b + 3912) isr)"
  defines "m2 \<equiv> memset (b + 3920) 0 176 (st64 m1 (b + 3904) kentry)"
  shows "fresh_stack b kentry isr f
    (st64 (st64 (st64 (st64 (st64 m2 (b + 4056) f) (b + 4080) (b + 4096)) (b + 4064) 8) (b + 4088) 16) (b + 4072) RFLAGS_IF)"
  unfolding fresh_stack_def m1_def m2_def
  by (simp add: upt_rec page_word_other [OF b] page_clear [OF b] add.assoc) (simp add: numeral_eq_Suc)

lemma pushes_region:
  assumes "k \<le> 40" and "k + 8 \<le> (48 :: nat)"
  shows "region (x - 48 + of_nat k) 8 \<subseteq> region (x - 48) 48"
proof
  fix y assume "y \<in> region (x - 48 + of_nat k) 8"
  then have y: "unat (y - (x - 48) - of_nat k) < 8" by (simp add: region_def algebra_simps)
  let ?d = "y - (x - 48)"
  have "unat (?d - of_nat k) + k < 2 ^ 64" using y assms by simp
  from unat_add_of_nat [OF this] have "unat ?d = unat (?d - of_nat k) + k" by simp
  then have "unat ?d < 48" using y assms by linarith
  then show "y \<in> region (x - 48) 48" by (simp add: region_def)
qed

lemma ctxsw_asm_keeps:
  assumes "region (rsp r - 48) 48 \<inter> region b 4096 = {}" and "region old 8 \<inter> region b 4096 = {}"
  shows "eq_on (region b 4096) m (snd (ctxsw_asm old new (r, m)))"
proof -
  have e: "eq_on (region b 4096) m0 (st64 m0 (rsp r - 48 + of_nat k) v)" if "k \<le> 40" for m0 v k
    by (rule eq_on_st64) (use pushes_region [of k "rsp r"] assms(1) that in auto)
  have o: "eq_on (region b 4096) m0 (st64 m0 old v)" for m0 v
    by (rule eq_on_st64) (use assms(2) in auto)
  show ?thesis
    unfolding ctxsw_asm_def Let_def prod.case snd_conv
    using e [of 40] e [of 32] e [of 24] e [of 16] e [of 8] e [of 0] o
    by (intro eq_on_trans [OF _ o]) (simp, meson eq_on_trans)
qed

lemma ctxsw_asm_regs:
  "ctxsw_asm old new (r, m) = (r', m') \<Longrightarrow>
   rip r' = ld64 m' (new + 48) \<and> rsp r' = new + 56 \<and> rbx r' = ld64 m' new \<and> rbp r' = ld64 m' (new + 8)
   \<and> r12 r' = ld64 m' (new + 16) \<and> r13 r' = ld64 m' (new + 24) \<and> r14 r' = ld64 m' (new + 32) \<and> r15 r' = ld64 m' (new + 40)"
  by (auto simp: ctxsw_asm_def Let_def)

lemma create_ok:
  assumes b: "unat b + 4096 \<le> 2 ^ 64" and n: "b \<noteq> NULL" "p \<noteq> NULL" and al: "pgalloc_allocate 0 s = Ret (b, s1)"
  shows "\<exists>t. bindk (proc_kern_init p) (\<lambda>_. sched_create_kproc p func) s = Ret ((), t)
     \<and> fresh_stack b (addr_of s1 Proc_kentry) (addr_of s1 Return_from_isr) (addr_of s1 func) (mem t)
     \<and> procs t p = (procs s1 p)\<lparr>pgtable := kern_pml4 s1, tf := b + 3920, ctx := b + 3856, kstack := b, kstack_top := b + 4096,
          p_state := RUNNABLE, p_type := KERNEL, p_name := idle_name @ drop 5 (p_name (procs s1 p)), killed := 0\<rparr>
     \<and> t = s1\<lparr>mem := mem t, procs := (procs s1)(p := procs t p)\<rparr>"
  using proc_frame [OF b, of "addr_of s1 Proc_kentry" "addr_of s1 Return_from_isr" "addr_of s1 func"] n al
  by (simp add: proc_kern_init_def sched_create_kproc_def bindk_def upd_proc_def Let_def PG_SIZE_def sizeof_trapframe_def
      sizeof_proc_context_def page_offsets set_ctx_rip_def set_tf_rip_def set_tf_cs_def set_tf_flags_def set_tf_rsp_def
      set_tf_ss_def GDT_KERNEL_CODE_def GDT_KERNEL_DATA_def vmm_get_kernel_pgtable_def add.commute)


end
