(* ===== verification/Sched.thy ===== *)
theory Sched
  imports Proc
begin

text \<open>
  What the scheduler of \<^verbatim>\<open>kernel/src/proc/sched.c\<close> does with its processes: its two queues over the kernel heap,
  waking up, the fairness of its loop, sleeping without missing a wake-up, and the checks that catch misuse.
\<close>

section \<open>The scheduler's queues\<close>

text \<open>
  \<open>queues_ok N P F rs ws s\<close>: over a well-formed heap with the free pages \<open>F\<close>, the ready queue holds the processes
  \<open>rs\<close> and the waiting queue the processes \<open>ws\<close>, in separate nodes.
\<close>

definition queue_nodes :: "nat \<Rightarrow> nat set \<Rightarrow> free_lists \<Rightarrow> block list \<Rightarrow> ptr set \<Rightarrow> ptr list \<Rightarrow> u64 list \<Rightarrow> ptr list \<Rightarrow> u64 list
    \<Rightarrow> 'z proc_sys_scheme \<Rightarrow> bool" where
  "queue_nodes N P F L M ns rs ms ws s \<longleftrightarrow>
     kinv N P F L s \<and> qsep N P F L s {ready_queue s, waiting_queue s} M \<and> ready_queue s \<noteq> waiting_queue s
     \<and> dq (mem s) (ready_queue s) ns rs \<and> dq (mem s) (waiting_queue s) ms ws
     \<and> set ns \<subseteq> M \<and> set ms \<subseteq> M \<and> set ns \<inter> set ms = {}"

definition queues_ok :: "nat \<Rightarrow> nat set \<Rightarrow> free_lists \<Rightarrow> u64 list \<Rightarrow> u64 list \<Rightarrow> 'z proc_sys_scheme \<Rightarrow> bool" where
  "queues_ok N P F rs ws s \<longleftrightarrow> (\<exists>L M ns ms. queue_nodes N P F L M ns rs ms ws s)"

text \<open>This CPU is inside a critical section and the allocators are not in use.\<close>

definition nested :: "nat \<Rightarrow> 'z machine_scheme \<Rightarrow> bool" where
  "nested c s \<longleftrightarrow> cpu_ready 4 c s \<and> int_disable_layer (cpus s ! c) \<noteq> 0 \<and> lock_free Kmalloc_lock s \<and> lock_free Pgalloc_lock s"

lemma heap_step_fields:
  fixes s :: "'z proc_sys_scheme"
  assumes "heap_step s t"
  shows "cpus t = cpus s" "rflags t = rflags s" "ncpu t = ncpu s" "lapic_id_reg t = lapic_id_reg s" "locks t = locks s"
    "procs t = procs s" "ready_queue t = ready_queue s" "waiting_queue t = waiting_queue s" "idle_proc t = idle_proc s"
    "kern_pml4 t = kern_pml4 s"
  by (subst assms [unfolded heap_step_def], simp)+

lemma heap_step_trans: "heap_step s t \<Longrightarrow> heap_step t u \<Longrightarrow> heap_step s u"
  by (cases s; cases t; cases u) (simp add: heap_step_def)

lemma heap_step_refl [simp]: "heap_step s s"
  by (simp add: heap_step_def)

lemma nested_heap_step:
  fixes s :: "'z proc_sys_scheme"
  assumes "nested c s" and "heap_step s t"
  shows "nested c t"
proof -
  note f = heap_step_fields [OF assms(2)]
  have "same_cpu s t" using f by (simp add: same_cpu_def)
  then show ?thesis using assms(1) cpu_ready_same f by (auto simp: nested_def lock_free_def)
qed

lemma qstep_nested:
  assumes "nested c s" and "qstep c s t"
  shows "heap_step s t"
  using assms settled_nested [of s c] by (cases s; cases t) (auto simp: qstep_def kstep_def heap_step_def nested_def)

lemma kstep_nested: "nested c s \<Longrightarrow> kstep c s t \<Longrightarrow> heap_step s t"
  using qstep_nested by (auto simp: qstep_def)

lemma queue_nodesD:
  assumes "queue_nodes N P F L M ns rs ms ws s"
  shows "kinv N P F L s" "qsep N P F L s {ready_queue s, waiting_queue s} M" "ready_queue s \<noteq> waiting_queue s"
    "dq (mem s) (ready_queue s) ns rs" "dq (mem s) (waiting_queue s) ms ws" "set ns \<subseteq> M" "set ms \<subseteq> M" "set ns \<inter> set ms = {}"
  using assms by (simp_all add: queue_nodes_def)

lemma push_ready_ok:
  fixes s :: "'z proc_sys_scheme"
  assumes n: "nested c s" and q: "queue_nodes N P F L M ns rs ms ws s"
  shows "(\<exists>t node F' L'. dequeue_push_back (ready_queue s) p s = Ret ((), t) \<and> heap_step s t
            \<and> queue_nodes N P F' L' (insert node M) (ns @ [node]) (rs @ [p]) ms ws t
            \<and> (\<exists>i. pages F - {i} \<subseteq> pages F')
            \<and> same_out (kfoot N F L s \<union> (\<Union>b \<in> {ready_queue s, waiting_queue s} \<union> M. span24 b)) (mem s) (mem t)
            \<and> kfoot N F' L' t \<subseteq> kfoot N F L s)
       \<or> dequeue_push_back (ready_queue s) p s = Panic ''malloc: OOM'' \<and> pages F = {}"
proof -
  note D = queue_nodesD [OF q] and N = n [unfolded nested_def]
  have rq: "ready_queue s \<in> {ready_queue s, waiting_queue s}" by simp
  from push_back_ok [OF D(1) _ _ _ D(2) rq D(4,6), of c p] N
  consider (ok) t node F' L' where "dequeue_push_back (ready_queue s) p s = Ret ((), t)" "kstep c s t" "kinv N P F' L' t"
      "node \<notin> M" "qsep N P F' L' t {ready_queue s, waiting_queue s} (insert node M)"
      "dq (mem t) (ready_queue s) (ns @ [node]) (rs @ [p])" "others (mem s) (mem t) {ready_queue s, waiting_queue s} M (ready_queue s) ns"
      "\<exists>i. pages F - {i} \<subseteq> pages F'" "same_out (kfoot N F L s \<union> (\<Union>b \<in> {ready_queue s, waiting_queue s} \<union> M. span24 b)) (mem s) (mem t)"
      "kfoot N F' L' t \<subseteq> kfoot N F L s"
    | (oom) "dequeue_push_back (ready_queue s) p s = Panic ''malloc: OOM''" "pages F = {}" by blast
  then show ?thesis
  proof cases
    case ok
    have hs: "heap_step s t" by (rule kstep_nested [OF n ok(2)])
    note f = heap_step_fields [OF hs]
    have "dq (mem t) (waiting_queue s) ms ws"
      by (rule others_dq [OF ok(7) _ _ _ D(5)]) (use D(3,7,8) in auto)
    then have "queue_nodes N P F' L' (insert node M) (ns @ [node]) (rs @ [p]) ms ws t"
      using ok(3-6) D(3,6-8) f(7,8) by (auto simp: queue_nodes_def)
    then show ?thesis using ok(1,8-10) hs by blast
  qed simp
qed

lemma push_waiting_ok:
  fixes s :: "'z proc_sys_scheme"
  assumes n: "nested c s" and q: "queue_nodes N P F L M ns rs ms ws s"
  shows "(\<exists>t node F' L'. dequeue_push_back (waiting_queue s) p s = Ret ((), t) \<and> heap_step s t
            \<and> queue_nodes N P F' L' (insert node M) ns rs (ms @ [node]) (ws @ [p]) t \<and> (\<exists>i. pages F - {i} \<subseteq> pages F'))
       \<or> dequeue_push_back (waiting_queue s) p s = Panic ''malloc: OOM'' \<and> pages F = {}"
proof -
  note D = queue_nodesD [OF q] and N = n [unfolded nested_def]
  have wq: "waiting_queue s \<in> {ready_queue s, waiting_queue s}" by simp
  from push_back_ok [OF D(1) _ _ _ D(2) wq D(5,7), of c p] N
  consider (ok) t node F' L' where "dequeue_push_back (waiting_queue s) p s = Ret ((), t)" "kstep c s t" "kinv N P F' L' t"
      "node \<notin> M" "qsep N P F' L' t {ready_queue s, waiting_queue s} (insert node M)"
      "dq (mem t) (waiting_queue s) (ms @ [node]) (ws @ [p])" "others (mem s) (mem t) {ready_queue s, waiting_queue s} M (waiting_queue s) ms"
      "\<exists>i. pages F - {i} \<subseteq> pages F'"
    | (oom) "dequeue_push_back (waiting_queue s) p s = Panic ''malloc: OOM''" "pages F = {}" by blast
  then show ?thesis
  proof cases
    case ok
    have hs: "heap_step s t" by (rule kstep_nested [OF n ok(2)])
    note f = heap_step_fields [OF hs]
    have "dq (mem t) (ready_queue s) ns rs"
      by (rule others_dq [OF ok(7) _ _ _ D(4)]) (use D(3,6,8) in auto)
    then have "queue_nodes N P F' L' (insert node M) ns rs (ms @ [node]) (ws @ [p]) t"
      using ok(3-6) D(3,6-8) f(7,8) by (auto simp: queue_nodes_def)
    then show ?thesis using ok(1,8) hs by blast
  qed simp
qed

lemma pop_ready_ok:
  fixes s :: "'z proc_sys_scheme"
  assumes n: "nested c s" and q: "queue_nodes N P F L M (k # ns) (p # rs) ms ws s"
  shows "\<exists>t L'. dequeue_pop_front (ready_queue s) s = Ret (p, t) \<and> heap_step s t
            \<and> queue_nodes N P F L' (M - {k}) ns rs ms ws t"
proof -
  note D = queue_nodesD [OF q] and N = n [unfolded nested_def]
  have rd: "cpu_ready 2 c s" using N cpu_ready_mono [of 4 c s 2] by simp
  have rq: "ready_queue s \<in> {ready_queue s, waiting_queue s}" by simp
  obtain t L' where t: "dequeue_pop_front (ready_queue s) s = Ret (p, t)" "kstep c s t" "kinv N P F L' t"
      "qsep N P F L' t {ready_queue s, waiting_queue s} (M - {k})" "dq (mem t) (ready_queue s) ns rs"
      "others (mem s) (mem t) {ready_queue s, waiting_queue s} M (ready_queue s) (k # ns)"
    using pop_front_ok [OF D(1) rd _ D(2) rq D(4,6)] N by blast
  have hs: "heap_step s t" by (rule kstep_nested [OF n t(2)])
  note f = heap_step_fields [OF hs]
  have "dq (mem t) (waiting_queue s) ms ws"
    by (rule others_dq [OF t(6) _ _ _ D(5)]) (use D(3,7,8) in auto)
  moreover have "k \<notin> set ns" using D(4) by (simp add: dq_def)
  ultimately have "queue_nodes N P F L' (M - {k}) ns rs ms ws t"
    using t(3-5) D(3,6-8) f(7,8) by (auto simp: queue_nodes_def)
  then show ?thesis using t(1) hs by blast
qed

lemma delete_waiting_ok:
  fixes s :: "'z proc_sys_scheme"
  assumes n: "nested c s" and q: "queue_nodes N P F L M ns rs (xs @ k # ys) (as @ p # bs) s" and len: "length xs = length as"
    and it: "it = \<lparr>it_q = waiting_queue s, current_node = n_next (mem s) k\<rparr>"
  shows "\<exists>t L'. dequeue_iterator_delete it s = Ret (it, t) \<and> heap_step s t
            \<and> queue_nodes N P F L' (M - {k}) ns rs (xs @ ys) (as @ bs) t"
proof -
  note D = queue_nodesD [OF q] and N = n [unfolded nested_def]
  have rd: "cpu_ready 2 c s" using N cpu_ready_mono [of 4 c s 2] by simp
  have wq: "waiting_queue s \<in> {ready_queue s, waiting_queue s}" by simp
  obtain t L' where t: "dequeue_iterator_delete it s = Ret (it, t)" "qstep c s t" "kinv N P F L' t"
      "qsep N P F L' t {ready_queue s, waiting_queue s} (M - {k})" "dq (mem t) (waiting_queue s) (xs @ ys) (as @ bs)"
      "others (mem s) (mem t) {ready_queue s, waiting_queue s} M (waiting_queue s) (xs @ k # ys)"
    using iterator_delete_ok [OF D(1) rd _ D(2) wq D(5) len D(7) it] N by blast
  have hs: "heap_step s t" by (rule qstep_nested [OF n t(2)])
  note f = heap_step_fields [OF hs]
  have "dq (mem t) (ready_queue s) ns rs"
    by (rule others_dq [OF t(6) _ _ _ D(4)]) (use D(3,6,8) in auto)
  moreover have "k \<notin> set (xs @ ys)" using D(5) by (simp add: dq_def)
  ultimately have "queue_nodes N P F L' (M - {k}) ns rs (xs @ ys) (as @ bs) t"
    using t(3-5) D(3,6-8) f(7,8) by (auto simp: queue_nodes_def)
  then show ?thesis using t(1) hs by blast
qed

section \<open>Waking up\<close>

definition first_node :: "ptr list \<Rightarrow> ptr" where
  "first_node ys = (case ys of [] \<Rightarrow> NULL | y # _ \<Rightarrow> y)"

lemma dq_next:
  assumes "dq m q (xs @ y # ys) ds"
  shows "n_next m y = first_node ys"
  using assms by (cases ys) (auto simp: dq_def dseg_append first_node_def)

lemma dq_data:
  assumes "dq m q (xs @ y # ys) (as @ p # bs)" and "length xs = length as"
  shows "n_data m y = p"
  using assms by (auto simp: dq_def)

lemma dq_length: "dq m q ns ds \<Longrightarrow> length ns = length ds"
  by (auto simp: dq_def)

lemma finite_pages [simp]: "finite (pages F)"
  by (simp add: pages_def blk_def)

lemma card_pages_drop: "pages F - {i} \<subseteq> pages F' \<Longrightarrow> card (pages F) \<le> Suc (card (pages F'))"
  using card_mono [of "insert i (pages F')" "pages F"] card_insert_le_m1 [of "Suc (card (pages F'))" "pages F'" i]
  by (metis Diff_subset_conv card_insert_le_m1 diff_Suc_1 finite_insert finite_pages insert_is_Un le_refl le_trans zero_less_Suc)

lemma wakeup_loop_ok:
  fixes s :: "'z proc_sys_scheme"
  assumes "nested c s" and "queue_nodes N P F L M ns rs (xs @ ys) (as @ bs) s" and "length xs = length as"
    and "it = \<lparr>it_q = waiting_queue s, current_node = first_node ys\<rparr>"
  shows "(\<exists>t F'. wakeup_loop ch it s = Some (Ret ((), t)) \<and> heap_step s t
            \<and> queues_ok N P F' (rs @ filter (\<lambda>p. chan (procs s p) = ch) bs) (as @ filter (\<lambda>p. chan (procs s p) \<noteq> ch) bs) t)
       \<or> wakeup_loop ch it s = Some (Panic ''malloc: OOM'') \<and> card (pages F) < length (filter (\<lambda>p. chan (procs s p) = ch) bs)"
  using assms
proof (induction ys arbitrary: s F L M ns rs xs as bs it)
  case Nil
  have "bs = []" using dq_length [OF queue_nodesD(5) [OF Nil(2)]] Nil(3) by simp
  moreover have "wakeup_loop ch it s = Some (Ret ((), s))"
    using Nil(4) by (subst wakeup_loop.simps) (simp add: dequeue_iterator_has_next_def first_node_def)
  moreover have "queues_ok N P F rs as s" using Nil(2) \<open>bs = []\<close> unfolding queues_ok_def by auto
  ultimately show ?case by auto
next
  case (Cons y ys)
  note q = Cons.prems(2) and n = Cons.prems(1) and D = queue_nodesD [OF Cons.prems(2)]
  obtain p bs' where bs: "bs = p # bs'"
    using D(5) Cons.prems(3) by (cases bs) (auto simp: dq_def)
  have y0: "y \<noteq> NULL" using apart24_nonzero [OF qsep_apart(1) [OF D(2)], of y] D(7) by auto
  have nx: "n_next (mem s) y = first_node ys" by (rule dq_next [OF D(5)])
  have pd: "n_data (mem s) y = p" by (rule dq_data [OF D(5) [unfolded bs] Cons.prems(3)])
  let ?it1 = "\<lparr>it_q = waiting_queue s, current_node = first_node ys\<rparr>"
  have has: "dequeue_iterator_has_next it" and nxt: "dequeue_iterator_next it s = (p, ?it1)"
    using Cons.prems(4) y0 nx pd by (simp_all add: dequeue_iterator_has_next_def dequeue_iterator_next_def first_node_def)
  show ?case
  proof (cases "chan (procs s p) = ch")
    case False
    have run: "wakeup_loop ch it s = wakeup_loop ch ?it1 s"
      using has nxt False by (subst wakeup_loop.simps) simp
    have q': "queue_nodes N P F L M ns rs ((xs @ [y]) @ ys) ((as @ [p]) @ bs') s" using q bs by simp
    from Cons.IH [OF n q' _ refl] Cons.prems(3) False bs run show ?thesis by simp
  next
    case True
    have it1: "?it1 = \<lparr>it_q = waiting_queue s, current_node = n_next (mem s) y\<rparr>" using nx by simp
    obtain t L1 where t: "dequeue_iterator_delete ?it1 s = Ret (?it1, t)" "heap_step s t"
        "queue_nodes N P F L1 (M - {y}) ns rs (xs @ ys) (as @ bs') t"
      using delete_waiting_ok [OF n q [unfolded bs] Cons.prems(3) it1] by blast
    note f = heap_step_fields [OF t(2)]
    have nt: "nested c t" by (rule nested_heap_step [OF n t(2)])
    from push_ready_ok [OF nt t(3), of p]
    consider (ok) u node F' L' where "dequeue_push_back (ready_queue t) p t = Ret ((), u)" "heap_step t u"
        "queue_nodes N P F' L' (insert node (M - {y})) (ns @ [node]) (rs @ [p]) (xs @ ys) (as @ bs') u" "card (pages F) \<le> Suc (card (pages F'))"
      | (oom) "dequeue_push_back (ready_queue t) p t = Panic ''malloc: OOM''" "pages F = {}" using card_pages_drop by blast
    then show ?thesis
    proof cases
      case ok
      have run: "wakeup_loop ch it s = wakeup_loop ch ?it1 u"
        using has nxt True t(1) ok(1) by (subst wakeup_loop.simps) simp
      note g = heap_step_fields [OF ok(2)]
      have it: "?it1 = \<lparr>it_q = waiting_queue u, current_node = first_node ys\<rparr>" using f g by simp
      from Cons.IH [OF nested_heap_step [OF nt ok(2)] ok(3) Cons.prems(3) it] run f g True bs
      show ?thesis using heap_step_trans [OF heap_step_trans [OF t(2) ok(2)]] ok(4) by auto
    next
      case oom
      have "wakeup_loop ch it s = Some (Panic ''malloc: OOM'')"
        using has nxt True t(1) oom(1) by (subst wakeup_loop.simps) simp
      then show ?thesis using True bs oom(2) by simp
    qed
  qed
qed

text \<open>The parts of the state that the queues do not depend on.\<close>

lemma queue_nodes_cong:
  fixes s t :: "'z proc_sys_scheme"
  assumes "heap_view t = heap_view s" and "ready_queue t = ready_queue s" and "waiting_queue t = waiting_queue s"
  shows "queue_nodes N P F L M ns rs ms ws t \<longleftrightarrow> queue_nodes N P F L M ns rs ms ws s"
  using assms view_cong(1,2) [OF assms(1) refl] by (simp add: queue_nodes_def qsep_def live_def heap_view_eq)

lemma queues_ok_cong:
  fixes s t :: "'z proc_sys_scheme"
  assumes "heap_view t = heap_view s" and "ready_queue t = ready_queue s" and "waiting_queue t = waiting_queue s"
  shows "queues_ok N P F rs ws t \<longleftrightarrow> queues_ok N P F rs ws s"
  using queue_nodes_cong [OF assms] by (simp add: queues_ok_def)

lemma bindk_retk_id: "bindk m retk = m"
proof (rule ext)
  fix s show "bindk m retk s = m s"
    by (cases "m s") (auto simp: bindk_def retk_def)
qed

lemma nested_acquired:
  assumes "cpu_ready 5 c s" and "lock_free Kmalloc_lock s" and "lock_free Pgalloc_lock s"
    and "lk \<noteq> Kmalloc_lock" and "lk \<noteq> Pgalloc_lock"
  shows "nested c (acquired c lk s)"
proof -
  have r: "cpu_ready (Suc 4) c s" using assms(1) by simp
  have "int_disable_layer (cpus (acquired c lk s) ! c) \<noteq> 0"
    using entered_nested [OF r] by (simp add: acquired_def)
  then show ?thesis
    using settled_acquired(2) [OF r] assms(2-5) by (simp add: nested_def lock_free_def acquired_def)
qed

lemma acquired_fields [simp]:
  fixes s :: "'z proc_sys_scheme"
  shows "ready_queue (acquired c lk s) = ready_queue s" "waiting_queue (acquired c lk s) = waiting_queue s"
    "procs (acquired c lk s) = procs s" "idle_proc (acquired c lk s) = idle_proc s"
  by (simp_all add: acquired_def entered_def)

lemma kstep_fields:
  fixes s :: "'z proc_sys_scheme"
  assumes "kstep c s t"
  shows "procs t = procs s" "ready_queue t = ready_queue s" "waiting_queue t = waiting_queue s" "idle_proc t = idle_proc s"
  by (subst assms [unfolded kstep_def], simp)+

text \<open>A critical section of the scheduler that changes only the heap.\<close>

lemma sched_section:
  fixes s :: "'z proc_sys_scheme"
  assumes rd: "cpu_ready 5 c s" and lk: "lock_free Sched_lock s"
    and body: "body (acquired c Sched_lock s) = Ret ((), t)" and hs: "heap_step (acquired c Sched_lock s) t"
    and q: "queues_ok N P F rs ws t"
  shows "\<exists>u. bindk (acquire Sched_lock) (\<lambda>_. bindk body (\<lambda>_. release Sched_lock)) s = Ret ((), u) \<and> kstep c s u
     \<and> queues_ok N P F rs ws u"
proof -
  have r: "cpu_ready (Suc (Suc 3)) c s" using rd by simp
  obtain u where u: "locked_call Sched_lock body s = Ret ((), u)" "kstep c s u" "heap_view u = heap_view t"
    using locked_heap [where body = body, OF r lk body hs] by blast
  have f: "ready_queue u = ready_queue t" "waiting_queue u = waiting_queue t"
    using kstep_fields [OF u(2)] heap_step_fields(7,8) [OF hs] by simp_all
  have "locked_call Sched_lock body = bindk (acquire Sched_lock) (\<lambda>_. bindk body (\<lambda>_. release Sched_lock))"
    by (simp add: locked_call_def bindk_retk_id)
  then show ?thesis using u(1,2) q queues_ok_cong [OF u(3) f] by auto
qed

lemma sched_section_fail:
  assumes rd: "cpu_ready 5 c s" and lk: "lock_free Sched_lock s" and body: "body (acquired c Sched_lock s) = Panic e"
  shows "bindk (acquire Sched_lock) (\<lambda>_. bindk body (\<lambda>_. release Sched_lock)) s = Panic e"
proof -
  have r: "cpu_ready (Suc (Suc 3)) c s" using rd by simp
  show ?thesis using acquire_free [OF r lk] body by (simp add: bindk_def)
qed

lemma sched_wakeup_ok:
  fixes s :: "'z proc_sys_scheme"
  assumes "cpu_ready 5 c s" and "lock_free Sched_lock s" and "lock_free Kmalloc_lock s" and "lock_free Pgalloc_lock s"
    and "queues_ok N P F rs ws s"
  shows "(\<exists>t F'. sched_wakeup ch s = Ret ((), t)
            \<and> queues_ok N P F' (rs @ filter (\<lambda>p. chan (procs s p) = ch) ws) (filter (\<lambda>p. chan (procs s p) \<noteq> ch) ws) t
            \<and> kstep c s t)
       \<or> sched_wakeup ch s = Panic ''malloc: OOM'' \<and> card (pages F) < length (filter (\<lambda>p. chan (procs s p) = ch) ws)"
proof -
  let ?a = "acquired c Sched_lock s"
  let ?body = "\<lambda>s. case wakeup_loop ch (dequeue_iterator (waiting_queue s) s) s of None \<Rightarrow> Hang | Some r \<Rightarrow> r"
  have n: "nested c ?a" by (rule nested_acquired [OF assms(1,3,4)]) simp_all
  have "queues_ok N P F rs ws ?a" using assms(5) queues_ok_cong [of ?a s] by simp
  then obtain L M ns ms where q: "queue_nodes N P F L M ns rs ([] @ ms) ([] @ ws) ?a" by (auto simp: queues_ok_def)
  have it: "dequeue_iterator (waiting_queue ?a) ?a = \<lparr>it_q = waiting_queue ?a, current_node = first_node ms\<rparr>"
    using queue_nodesD(5) [OF q] by (cases ms) (auto simp: dequeue_iterator_def dq_def first_node_def)
  have run: "sched_wakeup ch = bindk (acquire Sched_lock) (\<lambda>_. bindk ?body (\<lambda>_. release Sched_lock))"
    by (simp add: sched_wakeup_def)
  from wakeup_loop_ok [OF n q _ it, of ch]
  consider (ok) t F' where "wakeup_loop ch (dequeue_iterator (waiting_queue ?a) ?a) ?a = Some (Ret ((), t))" "heap_step ?a t"
      "queues_ok N P F' (rs @ filter (\<lambda>p. chan (procs s p) = ch) ws) (filter (\<lambda>p. chan (procs s p) \<noteq> ch) ws) t"
    | (oom) "wakeup_loop ch (dequeue_iterator (waiting_queue ?a) ?a) ?a = Some (Panic ''malloc: OOM'')"
      "card (pages F) < length (filter (\<lambda>p. chan (procs s p) = ch) ws)" by auto
  then show ?thesis
  proof cases
    case ok
    have b: "?body ?a = Ret ((), t)" using ok(1) by simp
    obtain u where u: "sched_wakeup ch s = Ret ((), u)" "kstep c s u"
        "queues_ok N P F' (rs @ filter (\<lambda>p. chan (procs s p) = ch) ws) (filter (\<lambda>p. chan (procs s p) \<noteq> ch) ws) u"
      using sched_section [where body = ?body, OF assms(1,2) b ok(2,3)] unfolding run by blast
    then show ?thesis by blast
  next
    case oom
    have b: "?body ?a = Panic ''malloc: OOM''" using oom by simp
    show ?thesis using sched_section_fail [where body = ?body, OF assms(1,2) b] oom(2) unfolding run by blast
  qed
qed

lemma kstep_rflags: "kstep c s t \<Longrightarrow> rflags t = rflags s"
  by (subst kstep_def [THEN iffD1], assumption, simp)

text \<open>C25: \<^verbatim>\<open>sched_wakeup\<close> returns and moves exactly the processes that sleep on the given channel from the waiting
  queue to the end of the ready queue, in the order in which they went to sleep; all others stay. It can only fail
  by running out of memory for queue nodes, when fewer pages are free than there are processes to wake.\<close>

theorem sched_wakeup_moves_sleepers:
  fixes s :: "'z proc_sys_scheme"
  assumes "cpu_ready 5 c s" and "lock_free Sched_lock s" and "lock_free Kmalloc_lock s" and "lock_free Pgalloc_lock s"
    and "queues_ok N P F rs ws s"
  shows "(\<exists>t F'. sched_wakeup ch s = Ret ((), t)
            \<and> queues_ok N P F' (rs @ filter (\<lambda>p. chan (procs s p) = ch) ws) (filter (\<lambda>p. chan (procs s p) \<noteq> ch) ws) t
            \<and> procs t = procs s \<and> locks t = locks s \<and> rflags t = rflags s)
       \<or> sched_wakeup ch s = Panic ''malloc: OOM'' \<and> card (pages F) < length (filter (\<lambda>p. chan (procs s p) = ch) ws)"
  using sched_wakeup_ok [OF assms, of ch] kstep_fields(1) kstep_keeps(3) kstep_rflags by blast

text \<open>\<^verbatim>\<open>sched_add\<close> appends a runnable process to the ready queue (or runs out of memory, only when no page is
  free) and panics for a process in any other state.\<close>

theorem sched_add_appends:
  fixes s :: "'z proc_sys_scheme"
  assumes "cpu_ready 5 c s" and "lock_free Sched_lock s" and "lock_free Kmalloc_lock s" and "lock_free Pgalloc_lock s"
    and "queues_ok N P F rs ws s"
  shows "if p_state (procs s p) = RUNNABLE
     then (\<exists>t F'. sched_add p s = Ret ((), t) \<and> queues_ok N P F' (rs @ [p]) ws t \<and> procs t = procs s)
          \<or> sched_add p s = Panic ''malloc: OOM'' \<and> pages F = {}
     else sched_add p s = Panic ''sched_add not ready''"
proof (cases "p_state (procs s p) = RUNNABLE")
  case True
  let ?a = "acquired c Sched_lock s" and ?body = "\<lambda>s :: 'z proc_sys_scheme. dequeue_push_back (ready_queue s) p s"
  have n: "nested c ?a" by (rule nested_acquired [OF assms(1,3,4)]) simp_all
  have "queues_ok N P F rs ws ?a" using assms(5) queues_ok_cong [of ?a s] by simp
  then obtain L M ns ms where q: "queue_nodes N P F L M ns rs ms ws ?a" by (auto simp: queues_ok_def)
  have run: "sched_add p s = bindk (acquire Sched_lock) (\<lambda>_. bindk ?body (\<lambda>_. release Sched_lock)) s"
    using True by (simp add: sched_add_def)
  from push_ready_ok [OF n q, of p]
  consider (ok) t node F' L' where "?body ?a = Ret ((), t)" "heap_step ?a t"
      "queue_nodes N P F' L' (insert node M) (ns @ [node]) (rs @ [p]) ms ws t"
    | (oom) "?body ?a = Panic ''malloc: OOM''" "pages F = {}" by blast
  then show ?thesis
  proof cases
    case ok
    have qt: "queues_ok N P F' (rs @ [p]) ws t" using ok(3) unfolding queues_ok_def by blast
    obtain u where u: "sched_add p s = Ret ((), u)" "kstep c s u" "queues_ok N P F' (rs @ [p]) ws u"
      using sched_section [where body = ?body, OF assms(1,2) ok(1,2) qt] unfolding run by blast
    then show ?thesis using True kstep_fields(1) [OF u(2)] by auto
  next
    case oom
    show ?thesis using sched_section_fail [where body = ?body, OF assms(1,2) oom(1)] run oom(2) True by simp
  qed
next
  case False
  then show ?thesis by (simp add: sched_add_def panic_def)
qed

section \<open>Fairness of the scheduler loop\<close>

text \<open>
  \<open>scheduling c N P rs ws s\<close>: CPU \<open>c\<close> is in the scheduler loop, inside its critical section, with the given queues.
\<close>

definition scheduling :: "nat \<Rightarrow> nat \<Rightarrow> nat set \<Rightarrow> u64 list \<Rightarrow> u64 list \<Rightarrow> 'z proc_sys_scheme \<Rightarrow> bool" where
  "scheduling c N P rs ws s \<longleftrightarrow> nested c s \<and> (\<exists>F. queues_ok N P F rs ws s) \<and> NULL \<notin> set rs"

text \<open>
  What a switch to a process does is observed where it happens, in the switch: \<open>logged\<close> wraps a context switch and
  records the process that \<^verbatim>\<open>c->proc\<close> names at that moment, its state and saved context, the context that the scheduler
  really switches to, and the state of the process when it gives the CPU back. The scheduler's code has no access to the
  log.
\<close>

record turn =
  t_proc :: ptr
  t_state :: proc_state
  t_ctx :: ptr
  t_target :: ptr
  t_after :: proc_state

record proc_log = proc_sys +
  switch_log :: "turn list"

definition logged :: "nat \<Rightarrow> 'z proc_log_scheme ctxsw \<Rightarrow> 'z proc_log_scheme ctxsw" where
  "logged c sw sl new s =
     (let p = cpu_proc (cpus s ! c) in
      bindk (sw sl new) (\<lambda>_ t. Ret ((), t\<lparr>switch_log := switch_log t @
        [\<lparr>t_proc = p, t_state = p_state (procs s p), t_ctx = ctx (procs s p), t_target = new, t_after = p_state (procs t p)\<rparr>]\<rparr>)) s)"

text \<open>
  \<open>comes_back\<close> states what the loop relies on when it switches to a process: a process that is marked \<^verbatim>\<open>RUNNING\<close> and
  named by \<^verbatim>\<open>c->proc\<close>, entered through its saved context, runs and sooner or later switches back in the same
  critical section; meanwhile it may change everything, but processes join the ready queue only at its end and the CPU
  still names the process it ran. Nothing is promised for a switch to any other context or with another \<^verbatim>\<open>c->proc\<close>.
\<close>

definition comes_back :: "'z proc_log_scheme ctxsw \<Rightarrow> nat \<Rightarrow> nat \<Rightarrow> nat set \<Rightarrow> bool" where
  "comes_back sw c N P \<longleftrightarrow> (\<forall>p s rs ws. scheduling c N P rs ws s \<and> lock_held c Sched_lock s \<and> cpu_proc (cpus s ! c) = p
       \<and> p_state (procs s p) = RUNNING \<longrightarrow>
     (\<exists>t joined ws'. sw (Cpu_slot c) (ctx (procs s p)) s = Ret ((), t) \<and> scheduling c N P (rs @ joined) ws' t
        \<and> lock_held c Sched_lock t \<and> cpu_proc (cpus t ! c) = p \<and> idle_proc t = idle_proc s \<and> switch_log t = switch_log s))"

lemma nested_fields:
  assumes "nested c s" and "apicid p = apicid (cpus s ! c)" and "int_disable_layer p = int_disable_layer (cpus s ! c)"
  shows "nested c (s\<lparr>cpus := (cpus s)[c := p]\<rparr>)"
proof -
  have c: "c < length (cpus s)" using assms(1) by (simp add: nested_def cpu_ready_def)
  show ?thesis
    using assms c cpu_lookup_upd_cpus [OF assms(2) c] by (simp add: nested_def cpu_ready_def lock_free_def)
qed

lemma nested_set_cpu_proc: "nested c s \<Longrightarrow> nested c (set_cpu_proc c p s)"
  unfolding set_cpu_proc_def by (rule nested_fields) simp_all

lemma nested_same:
  assumes "nested c s" and "same_cpu s t" and "locks t = locks s"
  shows "nested c t"
  using assms cpu_ready_same [OF assms(2)] by (simp add: nested_def lock_free_def same_cpu_def)

lemma nested_cpu_id:
  assumes "nested c s"
  shows "cpu_id s = Ret (of_nat c, s)"
  using assms cur_cpu_eq [of s c] by (simp add: nested_def cpu_ready_def cpu_id_def bindk_def retk_def)

lemma scheduling_upd:
  fixes s :: "'z proc_sys_scheme"
  assumes "scheduling c N P rs ws s"
  shows "scheduling c N P rs ws (set_cpu_proc c p s)" and "scheduling c N P rs ws (upd_proc q f s)"
    and "scheduling c N P rs ws (lcr3 v s)"
proof -
  have v: "heap_view (set_cpu_proc c p s) = heap_view s" "heap_view (upd_proc q f s) = heap_view s" "heap_view (lcr3 v s) = heap_view s"
    by (simp_all add: heap_view_eq set_cpu_proc_def upd_proc_def lcr3_def)
  have n: "nested c s" using assms by (simp add: scheduling_def)
  have "same_cpu s (upd_proc q f s)" "same_cpu s (lcr3 v s)" by (simp_all add: same_cpu_def upd_proc_def lcr3_def)
  then have n': "nested c (upd_proc q f s)" "nested c (lcr3 v s)"
    using nested_same [OF n] by (simp_all add: upd_proc_def lcr3_def)
  show "scheduling c N P rs ws (set_cpu_proc c p s)"
    using assms nested_set_cpu_proc [OF n] queues_ok_cong [OF v(1)] by (simp add: scheduling_def set_cpu_proc_def)
  show "scheduling c N P rs ws (upd_proc q f s)"
    using assms n'(1) queues_ok_cong [OF v(2)] by (simp add: scheduling_def upd_proc_def)
  show "scheduling c N P rs ws (lcr3 v s)"
    using assms n'(2) queues_ok_cong [OF v(3)] by (simp add: scheduling_def lcr3_def)
qed

lemma schedulingI:
  "nested c s \<Longrightarrow> queue_nodes N P F L M ns rs ms ws s \<Longrightarrow> NULL \<notin> set rs \<Longrightarrow> scheduling c N P rs ws s"
  unfolding scheduling_def queues_ok_def by blast

lemma sched_pick_ready:
  fixes s :: "'z proc_sys_scheme"
  assumes "scheduling c N P (p # rs) ws s"
  shows "\<exists>t. sched_pick s = Ret (p, t) \<and> scheduling c N P rs ws t \<and> heap_step s t"
proof -
  have n: "nested c s" and p: "p \<noteq> NULL" "NULL \<notin> set rs" using assms by (auto simp: scheduling_def)
  obtain F L M ns ms where q: "queue_nodes N P F L M ns (p # rs) ms ws s"
    using assms by (auto simp: scheduling_def queues_ok_def)
  obtain k ns' where ns: "ns = k # ns'" using dq_length [OF queue_nodesD(4) [OF q]] by (cases ns) auto
  obtain t L' where t: "dequeue_pop_front (ready_queue s) s = Ret (p, t)" "heap_step s t" "queue_nodes N P F L' (M - {k}) ns' rs ms ws t"
    using pop_ready_ok [OF n q [unfolded ns]] by blast
  have "0 < unat (q_size (mem s) (ready_queue s))" using queue_nodesD(4) [OF q] ns by (simp add: dq_def)
  then have "q_size (mem s) (ready_queue s) > 0" by (simp add: word_less_nat_alt)
  then have "sched_pick s = Ret (p, t)" using t(1) p(1) by (simp add: sched_pick_def bindk_def retk_def)
  moreover have "scheduling c N P rs ws t"
    using nested_heap_step [OF n t(2)] t(3) p(2) unfolding scheduling_def queues_ok_def by blast
  ultimately show ?thesis using t(2) by blast
qed

lemma sched_put_back_ok:
  fixes s :: "'z proc_sys_scheme"
  assumes sc: "scheduling c N P rs ws s" and c: "c < 2 ^ 16"
  shows "(\<exists>t joined ws'. sched_put_back c s = Ret ((), t) \<and> scheduling c N P (rs @ joined) ws' t \<and> heap_step s t
            \<and> (cpu_proc (cpus s ! c) \<notin> {NULL, proc_slot (idle_proc s) c} \<and> p_state (procs s (cpu_proc (cpus s ! c))) = RUNNABLE \<longrightarrow>
                 cpu_proc (cpus s ! c) \<in> set joined))
       \<or> sched_put_back c s = Panic ''malloc: OOM''"
proof -
  let ?p = "cpu_proc (cpus s ! c)"
  have n: "nested c s" using sc by (simp add: scheduling_def)
  have nz: "NULL \<notin> set rs" using sc by (simp add: scheduling_def)
  have uc: "unat (of_nat c :: u16) = c" using c by (simp add: unat_of_nat take_bit_nat_eq_self)
  obtain F L M ns ms where q: "queue_nodes N P F L M ns rs ms ws s" using sc by (auto simp: scheduling_def queues_ok_def)
  show ?thesis
  proof (cases "?p = NULL \<or> ?p = proc_slot (idle_proc s) c")
    case True
    then have "sched_put_back c s = Ret ((), s)"
      using nested_cpu_id [OF n] uc by (auto simp: sched_put_back_def Let_def bindk_def)
    then show ?thesis using sc True by (intro disjI1 exI [of _ s] exI [of _ "[]"] exI [of _ ws]) auto
  next
    case False
    have run: "sched_put_back c s = dequeue_push_back
        (if p_state (procs s ?p) = RUNNABLE then ready_queue s else waiting_queue s) ?p s"
      using False nested_cpu_id [OF n] uc by (simp add: sched_put_back_def Let_def bindk_def)
    show ?thesis
    proof (cases "p_state (procs s ?p) = RUNNABLE")
      case True
      from push_ready_ok [OF n q, of ?p] show ?thesis
      proof (elim disjE exE conjE)
        fix t node F' L' assume t: "dequeue_push_back (ready_queue s) ?p s = Ret ((), t)" "heap_step s t"
          "queue_nodes N P F' L' (insert node M) (ns @ [node]) (rs @ [?p]) ms ws t"
        have "scheduling c N P (rs @ [?p]) ws t" using schedulingI [OF nested_heap_step [OF n t(2)] t(3)] nz False by auto
        then show ?thesis using run True t(1,2) by (intro disjI1 exI [of _ t] exI [of _ "[?p]"] exI [of _ ws]) simp
      qed (use run True in simp)
    next
      case no: False
      from push_waiting_ok [OF n q, of ?p] show ?thesis
      proof (elim disjE exE conjE)
        fix t node F' L' assume t: "dequeue_push_back (waiting_queue s) ?p s = Ret ((), t)" "heap_step s t"
          "queue_nodes N P F' L' (insert node M) ns rs (ms @ [node]) (ws @ [?p]) t"
        have "scheduling c N P (rs @ []) (ws @ [?p]) t" using schedulingI [OF nested_heap_step [OF n t(2)] t(3)] nz by auto
        then show ?thesis using run no t(1,2) by (intro disjI1 exI [of _ t] exI [of _ "[]"] exI [of _ "ws @ [?p]"]) simp
      qed (use run no in simp)
    qed
  qed
qed

text \<open>The entry \<open>k\<close> of the log shows that the process \<open>p\<close> was switched to, as the running process, at its own context.\<close>

definition ran_turn :: "ptr \<Rightarrow> turn \<Rightarrow> bool" where
  "ran_turn p k \<longleftrightarrow> t_proc k = p \<and> t_state k = RUNNING \<and> t_target k = t_ctx k"

lemma scheduling_log: "scheduling c N P rs ws (switch_log_update g s) \<longleftrightarrow> scheduling c N P rs ws s"
proof -
  have "nested c (switch_log_update g s) = nested c s"
    by (simp add: nested_def cpu_ready_def cpu_lookup_def lapic_id_def lock_free_def)
  then show ?thesis using queues_ok_cong [of "switch_log_update g s" s] by (simp add: scheduling_def heap_view_eq)
qed

lemma sched_round_ok:
  fixes s :: "'z proc_log_scheme"
  assumes cb: "comes_back sw c N P" and sc: "scheduling c N P (p # rs) ws s" and h: "lock_held c Sched_lock s" and c: "c < 2 ^ 16"
  shows "(\<exists>t joined ws' k. sched_round (logged c sw) c s = Ret (p, t) \<and> scheduling c N P (rs @ joined) ws' t \<and> lock_held c Sched_lock t
            \<and> idle_proc t = idle_proc s \<and> switch_log t = switch_log s @ [k] \<and> ran_turn p k
            \<and> (p \<noteq> proc_slot (idle_proc s) c \<and> t_after k = RUNNABLE \<longrightarrow> p \<in> set joined))
       \<or> sched_round (logged c sw) c s = Panic ''malloc: OOM''"
proof -
  obtain s1 where s1: "sched_pick s = Ret (p, s1)" "scheduling c N P rs ws s1" "heap_step s s1"
    using sched_pick_ready [OF sc] by blast
  have g1: "locks s1 = locks s" "idle_proc s1 = idle_proc s" "switch_log s1 = switch_log s"
    by (subst s1(3) [unfolded heap_step_def], simp)+
  have c1: "c < length (cpus s1)" using s1(2) by (simp add: scheduling_def nested_def cpu_ready_def)
  have p0: "p \<noteq> NULL" using sc by (auto simp: scheduling_def)
  let ?s2 = "upd_proc p (\<lambda>q. q\<lparr>p_state := RUNNING\<rparr>) (set_cpu_proc c p s1)"
  have s2: "scheduling c N P rs ws ?s2" by (intro scheduling_upd s1(2))
  have f2: "lock_held c Sched_lock ?s2" "cpu_proc (cpus ?s2 ! c) = p" "p_state (procs ?s2 p) = RUNNING"
    "idle_proc ?s2 = idle_proc s" "switch_log ?s2 = switch_log s"
    using h g1 c1 by (simp_all add: lock_held_def upd_proc_def set_cpu_proc_def)
  obtain s3 joined ws' where s3: "sw (Cpu_slot c) (ctx (procs ?s2 p)) ?s2 = Ret ((), s3)" "scheduling c N P (rs @ joined) ws' s3"
      "lock_held c Sched_lock s3" "cpu_proc (cpus s3 ! c) = p" "idle_proc s3 = idle_proc s" "switch_log s3 = switch_log s"
    using cb [unfolded comes_back_def, rule_format, of rs ws ?s2 p] s2 f2 by auto
  let ?k = "\<lparr>t_proc = p, t_state = RUNNING, t_ctx = ctx (procs ?s2 p), t_target = ctx (procs ?s2 p), t_after = p_state (procs s3 p)\<rparr>"
  let ?s3 = "s3\<lparr>switch_log := switch_log s @ [?k]\<rparr>"
  have sw: "logged c sw (Cpu_slot c) (ctx (procs ?s2 p)) ?s2 = Ret ((), ?s3)"
    using s3(1,6) f2(2,3) by (simp add: logged_def Let_def bindk_def)
  let ?s4 = "lcr3 (KV2P (kern_pml4 ?s3)) ?s3"
  have s4: "scheduling c N P (rs @ joined) ws' ?s4" by (rule scheduling_upd(3)) (simp add: scheduling_log s3(2))
  have f4: "cpu_proc (cpus ?s4 ! c) = p" "idle_proc ?s4 = idle_proc s" "procs ?s4 = procs s3" "locks ?s4 = locks s3"
    "switch_log ?s4 = switch_log s @ [?k]" using s3(4,5) by (simp_all add: lcr3_def)
  have run: "sched_round (logged c sw) c s = bindk (sched_put_back c) (\<lambda>_ t. Ret (p, set_cpu_proc c NULL t)) ?s4"
    using s1(1) sw by (simp add: sched_round_def bindk_def Let_def vmm_load_ktable_def)
  from sched_put_back_ok [OF s4 c] show ?thesis
  proof (elim disjE exE conjE)
    fix t j2 ws2 assume t: "sched_put_back c ?s4 = Ret ((), t)" "scheduling c N P ((rs @ joined) @ j2) ws2 t" "heap_step ?s4 t"
      and req: "cpu_proc (cpus ?s4 ! c) \<notin> {NULL, proc_slot (idle_proc ?s4) c} \<and> p_state (procs ?s4 (cpu_proc (cpus ?s4 ! c))) = RUNNABLE
        \<longrightarrow> cpu_proc (cpus ?s4 ! c) \<in> set j2"
    let ?t = "set_cpu_proc c NULL t"
    note req = req [unfolded f4(1-3)]
    have gt: "locks t = locks ?s4" "idle_proc t = idle_proc ?s4" "switch_log t = switch_log ?s4"
      by (subst t(3) [unfolded heap_step_def], simp)+
    have sct: "scheduling c N P (rs @ (joined @ j2)) ws2 ?t" using scheduling_upd(1) [OF t(2)] by simp
    have "lock_held c Sched_lock ?t" "idle_proc ?t = idle_proc s" "switch_log ?t = switch_log s @ [?k]"
      using gt f4 s3(3) by (simp_all add: set_cpu_proc_def lock_held_def)
    moreover have "sched_round (logged c sw) c s = Ret (p, ?t)" using run t(1) by (simp add: bindk_def)
    moreover have "p \<noteq> proc_slot (idle_proc s) c \<and> t_after ?k = RUNNABLE \<longrightarrow> p \<in> set (joined @ j2)"
      using req p0 by simp
    moreover have "ran_turn p ?k" by (simp add: ran_turn_def)
    ultimately show ?thesis using sct by blast
  next
    assume "sched_put_back c ?s4 = Panic ''malloc: OOM''"
    then show ?thesis using run by (simp add: bindk_def)
  qed
qed

text \<open>C24: round robin is fair. The first \<open>n\<close> processes of the ready queue are run in the next \<open>n\<close> turns of the
  scheduler loop, in queue order, whatever joins the queues meanwhile: the log that the context switch keeps shows for every
  turn that the CPU named this process, that it was marked \<^verbatim>\<open>RUNNING\<close> and that the switch went to its own saved context. Every one of
  them that gives the CPU back as \<^verbatim>\<open>RUNNABLE\<close> is in the ready queue again afterwards, behind those that have not run yet. The
  only other outcome is that the kernel stops because it has no memory for a queue node.\<close>

theorem ready_processes_run_in_turn:
  fixes s :: "'z proc_log_scheme"
  assumes cb: "comes_back sw c N P" and sc: "scheduling c N P rs ws s" and h: "lock_held c Sched_lock s" and c: "c < 2 ^ 16"
    and n: "n \<le> length rs"
  shows "(\<exists>t ks joined ws'. sched_rounds (logged c sw) c n s = Ret (take n rs, t) \<and> switch_log t = switch_log s @ ks
            \<and> list_all2 ran_turn (take n rs) ks \<and> scheduling c N P (drop n rs @ joined) ws' t \<and> lock_held c Sched_lock t
            \<and> (\<forall>k \<in> set ks. t_proc k \<noteq> proc_slot (idle_proc s) c \<and> t_after k = RUNNABLE \<longrightarrow> t_proc k \<in> set joined))
       \<or> sched_rounds (logged c sw) c n s = Panic ''malloc: OOM''"
  using sc h n
proof (induction n arbitrary: rs ws s)
  case 0
  then show ?case by (intro disjI1 exI [of _ s] exI [of _ "[]"] exI [of _ ws]) (simp add: retk_def)
next
  case (Suc n)
  then obtain p rs' where rs: "rs = p # rs'" by (cases rs) auto
  from sched_round_ok [OF cb Suc.prems(1) [unfolded rs] Suc.prems(2) c] show ?case
  proof (elim disjE exE conjE)
    fix t joined ws' k assume t: "sched_round (logged c sw) c s = Ret (p, t)" "scheduling c N P (rs' @ joined) ws' t" "lock_held c Sched_lock t"
      "idle_proc t = idle_proc s" "switch_log t = switch_log s @ [k]" "ran_turn p k"
      and req: "p \<noteq> proc_slot (idle_proc s) c \<and> t_after k = RUNNABLE \<longrightarrow> p \<in> set joined"
    have le: "n \<le> length (rs' @ joined)" and tk: "take n (rs' @ joined) = take n rs'" "drop n (rs' @ joined) = drop n rs' @ joined"
      using Suc.prems(3) rs by auto
    from Suc.IH [OF t(2,3) le] show ?thesis
    proof (elim disjE exE conjE)
      fix u ks j2 ws2 assume u: "sched_rounds (logged c sw) c n t = Ret (take n (rs' @ joined), u)" "switch_log u = switch_log t @ ks"
        "list_all2 ran_turn (take n (rs' @ joined)) ks" "scheduling c N P (drop n (rs' @ joined) @ j2) ws2 u" "lock_held c Sched_lock u"
        and rq: "\<forall>k \<in> set ks. t_proc k \<noteq> proc_slot (idle_proc t) c \<and> t_after k = RUNNABLE \<longrightarrow> t_proc k \<in> set j2"
      have "sched_rounds (logged c sw) c (Suc n) s = Ret (take (Suc n) rs, u)" using t(1) u(1) tk(1) rs by (simp add: bindk_def retk_def)
      moreover have "switch_log u = switch_log s @ (k # ks)" using u(2) t(5) by simp
      moreover have "list_all2 ran_turn (take (Suc n) rs) (k # ks)" using u(3) [unfolded tk(1)] t(6) rs by simp
      moreover have "scheduling c N P (drop (Suc n) rs @ (joined @ j2)) ws2 u" using u(4) tk(2) rs by simp
      moreover have "\<forall>k \<in> set (k # ks). t_proc k \<noteq> proc_slot (idle_proc s) c \<and> t_after k = RUNNABLE \<longrightarrow> t_proc k \<in> set (joined @ j2)"
        using rq req t(4,6) by (auto simp: ran_turn_def)
      ultimately show ?thesis using u(5) by blast
    next
      assume "sched_rounds (logged c sw) c n t = Panic ''malloc: OOM''"
      then show ?thesis using t(1) by (simp add: bindk_def)
    qed
  next
    assume "sched_round (logged c sw) c s = Panic ''malloc: OOM''"
    then show ?thesis by (simp add: bindk_def)
  qed
qed

section \<open>Sleeping and switching out\<close>

lemma curproc_nested:
  assumes rd: "cpu_ready (Suc d) c s" and nest: "int_disable_layer (cpus s ! c) \<noteq> 0"
  shows "curproc s = Ret (cpu_proc (cpus s ! c), s)"
proof -
  have c: "c < length (cpus s)" and l: "cpu_lookup s = Some c" using rd by (auto simp: cpu_ready_def)
  have "pop_int_disable (entered c s) = Ret ((), s)"
    using pop_entered [OF rd, of "entered c s"]
    by (simp add: same_cpu_def settled_nested nest) (simp add: entered_def)
  moreover have "cpu_proc (cpus (entered c s) ! c) = cpu_proc (cpus s ! c)" using c by (simp add: entered_def pushed_def)
  ultimately show ?thesis
    using c l by (simp add: curproc_def bindk_def push_int_disable_entered cur_cpu_eq retk_def)
qed

text \<open>In the scheduler's critical section, with no other lock held, a process that is not running any more may go.\<close>

lemma switch_out_goes:
  fixes s :: "'z proc_sys_scheme"
  assumes rd: "cpu_ready (Suc d) c s" and ly: "int_disable_layer (cpus s ! c) = 1" and h: "lock_held c Sched_lock s"
    and p: "cpu_proc (cpus s ! c) = p" "p \<noteq> NULL" "p_state (procs s p) \<noteq> RUNNING"
  shows "sched_switch_out ctxsw s = bindk (ctxsw (Proc_slot p) (scheduler_ctx (cpus s ! c))) (\<lambda>_.
      bindk cur_cpu (\<lambda>e t. Ret ((), t\<lparr>cpus := (cpus t)[e := (cpus t ! e)\<lparr>int_enabled := int_enabled (cpus s ! c)\<rparr>]\<rparr>))) s"
proof -
  have nest: "int_disable_layer (cpus s ! c) \<noteq> 0" using ly by simp
  have cc: "cur_cpu s = Ret (c, s)" using rd nest by (intro cur_cpu_eq) (auto simp: cpu_ready_def)
  show ?thesis
    using curproc_nested [OF rd nest] holding_nested [OF rd nest, of Sched_lock] h cc p ly
    by (simp add: sched_switch_out_def bindk_def Let_def)
qed

text \<open>Handing over from a held lock to the scheduler's lock, without letting go of both.\<close>

lemma hand_over:
  fixes s :: "'z proc_sys_scheme"
  assumes rd: "cpu_ready 4 c s" and ly: "int_disable_layer (cpus s ! c) \<noteq> 0" and h: "lock_held c a s" and f: "lock_free b s"
    and ne: "a \<noteq> b"
  shows "bindk (acquire b) (\<lambda>_. release a) s = Ret ((), s\<lparr>locks :=
     (locks s)(b := (locks s b)\<lparr>locked := 1, lk_cpu := Some c\<rparr>, a := (locks s a)\<lparr>lk_cpu := None, locked := 0\<rparr>)\<rparr>)"
proof -
  have r: "cpu_ready (Suc (Suc 2)) c s" using rd by simp
  have h': "lock_held c a (acquired c b s)" using h ne by (simp add: lock_held_def acquired_def)
  have st: "settled c s = cpus s" by (rule settled_nested [OF ly])
  show ?thesis
    using acquire_free [OF r f] release_held [OF r same_cpu_acquired h'] ne
    by (simp add: bindk_def st) (simp add: acquired_def entered_def fun_upd_twist)
qed

lemma wakeup_waits:
  fixes v :: "'z proc_sys_scheme"
  assumes h: "lock_held c Sched_lock v" and d: "d \<noteq> c" and rd: "cpu_ready 2 d v"
  shows "sched_wakeup ch v = Hang"
proof -
  have r: "cpu_ready (Suc (Suc 0)) d v" using rd by (simp add: numeral_2_eq_2)
  have l: "cpu_lookup v = Some d" using rd by (simp add: cpu_ready_def)
  have "holding Sched_lock (entered d v) = Ret (False, entered d v)"
    using holding_nested [OF cpu_ready_entered [OF r] entered_nested [OF r], of Sched_lock] h d by (simp add: lock_held_def)
  then have "acquire Sched_lock v = Hang"
    using h push_int_disable_entered [OF l] by (simp add: acquire_def bindk_def spin_exchange_def lock_held_def)
  then show ?thesis by (simp add: sched_wakeup_def bindk_def)
qed

lemma sleep_enter_runs:
  fixes s :: "'z proc_sys_scheme"
  assumes rd: "cpu_ready 4 c s" and ly: "int_disable_layer (cpus s ! c) \<noteq> 0" and h: "lock_held c lk s" and f: "lock_free Sched_lock s"
    and ne: "lk \<noteq> Sched_lock"
  defines "s0 \<equiv> s\<lparr>locks := (locks s)(Sched_lock := (locks s Sched_lock)\<lparr>locked := 1, lk_cpu := Some c\<rparr>,
      lk := (locks s lk)\<lparr>lk_cpu := None, locked := 0\<rparr>)\<rparr>"
  shows "visits (sleep_enter p ch lk) s = [acquired c Sched_lock s, s0, upd_proc p (\<lambda>q. q\<lparr>chan := ch\<rparr>) s0,
      upd_proc p (\<lambda>q. q\<lparr>chan := ch, p_state := SLEEPING\<rparr>) s0]"
    and "run_steps (sleep_enter p ch lk @ fs) s = run_steps fs (upd_proc p (\<lambda>q. q\<lparr>chan := ch, p_state := SLEEPING\<rparr>) s0)"
proof -
  have r: "cpu_ready (Suc (Suc 2)) c s" using rd by simp
  have a: "acquire Sched_lock s = Ret ((), acquired c Sched_lock s)" by (rule acquire_free [OF r f])
  have "bindk (acquire Sched_lock) (\<lambda>_. release lk) s = Ret ((), s0)" unfolding s0_def by (rule hand_over [OF rd ly h f ne])
  then have b: "release lk (acquired c Sched_lock s) = Ret ((), s0)" using a by (simp add: bindk_def)
  show "visits (sleep_enter p ch lk) s = [acquired c Sched_lock s, s0, upd_proc p (\<lambda>q. q\<lparr>chan := ch\<rparr>) s0,
      upd_proc p (\<lambda>q. q\<lparr>chan := ch, p_state := SLEEPING\<rparr>) s0]"
    using ne a b by (simp add: sleep_enter_def) (simp add: upd_proc_def)
  show "run_steps (sleep_enter p ch lk @ fs) s = run_steps fs (upd_proc p (\<lambda>q. q\<lparr>chan := ch, p_state := SLEEPING\<rparr>) s0)"
    using ne a b by (simp add: sleep_enter_def bindk_def) (simp add: upd_proc_def)
qed

lemma sleep_leave_runs:
  fixes t :: "'z proc_sys_scheme"
  assumes t: "cpu_ready 4 c t" "int_disable_layer (cpus t ! c) = 1" "lock_held c Sched_lock t" "lock_free lk t" and ne: "lk \<noteq> Sched_lock"
  shows "\<exists>u. run_steps (sleep_leave p lk) t = Ret ((), u) \<and> lock_held c lk u \<and> lock_free Sched_lock u \<and> chan (procs u p) = NULL
      \<and> int_disable_layer (cpus u ! c) = 1 \<and> (\<forall>v \<in> set (butlast (visits (sleep_leave p lk) t)). lock_held c Sched_lock v)"
proof -
  let ?t2 = "upd_proc p (\<lambda>q. q\<lparr>chan := NULL\<rparr>) t"
  have "same_cpu t ?t2" by (simp add: same_cpu_def upd_proc_def)
  then have r2: "cpu_ready 4 c ?t2" using t(1) cpu_ready_same by blast
  have r2': "cpu_ready (Suc (Suc 2)) c ?t2" using r2 by simp
  have l2: "int_disable_layer (cpus ?t2 ! c) = 1" using t(2) by (simp add: upd_proc_def)
  have h2: "lock_held c Sched_lock ?t2" "lock_free lk ?t2" using t(3,4) by (simp_all add: lock_held_def lock_free_def upd_proc_def)
  have ho: "bindk (acquire lk) (\<lambda>_. release Sched_lock) ?t2 = Ret ((), ?t2\<lparr>locks :=
      (locks ?t2)(lk := (locks ?t2 lk)\<lparr>locked := 1, lk_cpu := Some c\<rparr>,
        Sched_lock := (locks ?t2 Sched_lock)\<lparr>lk_cpu := None, locked := 0\<rparr>)\<rparr>)" (is "_ = Ret ((), ?u)")
    by (rule hand_over [OF r2 _ h2]) (use l2 ne in simp_all)
  have a: "acquire lk ?t2 = Ret ((), acquired c lk ?t2)" by (rule acquire_free [OF r2' h2(2)])
  have run: "run_steps (sleep_leave p lk) t = Ret ((), ?u)"
    using ne ho a by (simp add: sleep_leave_def bindk_def retk_def split: outcome.splits)
  have "release Sched_lock (acquired c lk ?t2) = Ret ((), ?u)" using ho a by (simp add: bindk_def)
  then have "visits (sleep_leave p lk) t = [?t2, acquired c lk ?t2, ?u]" using ne a by (simp add: sleep_leave_def)
  moreover have "lock_held c Sched_lock (acquired c lk ?t2)" using h2(1) ne by (simp add: lock_held_def acquired_def)
  moreover have "lock_held c lk ?u" "lock_free Sched_lock ?u" "chan (procs ?u p) = NULL"
    using ne by (simp_all add: lock_held_def lock_free_def upd_proc_def)
  moreover have "int_disable_layer (cpus ?u ! c) = 1" using l2 by simp
  ultimately show ?thesis using run h2(1) by auto
qed

text \<open>C26: a process that goes to sleep on \<^verbatim>\<open>chan\<close> cannot miss its wake-up. When \<^verbatim>\<open>sched_sleep\<close> is called with \<open>lk\<close> held, after
  each of its statements up to the switch -- the first one included, which is before \<open>lk\<close> is given up -- this CPU holds the scheduler's lock,
  and in each of these states a \<^verbatim>\<open>sched_wakeup\<close> on any other CPU waits. When it switches, the process is marked as sleeping on the
  channel and the caller's lock is free. When the process is switched in again, the call returns with the caller's lock held and the channel cleared,
  and has kept the scheduler's lock until the caller's lock was taken.\<close>

theorem sched_sleep_atomic:
  fixes s :: "'z proc_sys_scheme"
  assumes rd: "cpu_ready 4 c s" and ly: "int_disable_layer (cpus s ! c) = 1" and h: "lock_held c lk s"
    and f: "lock_free Sched_lock s" and ne: "lk \<noteq> Sched_lock" and p: "cpu_proc (cpus s ! c) = p" "p \<noteq> NULL"
  shows "length (visits (sleep_enter p ch lk) s) = length (sleep_enter p ch lk)
     \<and> (\<forall>u \<in> set (visits (sleep_enter p ch lk) s). lock_held c Sched_lock u
          \<and> (\<forall>d r fl ch'. d \<noteq> c \<and> cpu_ready 2 d (u\<lparr>lapic_id_reg := r, rflags := fl\<rparr>) \<longrightarrow>
               sched_wakeup ch' (u\<lparr>lapic_id_reg := r, rflags := fl\<rparr>) = Hang))
     \<and> (\<exists>s1 resume. s1 = last (visits (sleep_enter p ch lk) s)
          \<and> sched_sleep ctxsw ch (Some lk) s = bindk (ctxsw (Proc_slot p) (scheduler_ctx (cpus s ! c))) resume s1
          \<and> p_state (procs s1 p) = SLEEPING \<and> chan (procs s1 p) = ch \<and> lock_free lk s1 \<and> mem s1 = mem s \<and> cpus s1 = cpus s
          \<and> (\<forall>t. cpu_ready 4 c t \<and> int_disable_layer (cpus t ! c) = 1 \<and> lock_held c Sched_lock t \<and> lock_free lk t \<longrightarrow>
               (\<exists>u. resume () t = Ret ((), u) \<and> lock_held c lk u \<and> lock_free Sched_lock u \<and> chan (procs u p) = NULL
                  \<and> int_disable_layer (cpus u ! c) = 1
                  \<and> (\<forall>v \<in> set (butlast (visits (sleep_leave p lk) t)). lock_held c Sched_lock v))))"
proof -
  have nest: "int_disable_layer (cpus s ! c) \<noteq> 0" using ly by simp
  have rd1: "cpu_ready (Suc 3) c s" using rd by simp
  let ?l = "(locks s)(Sched_lock := (locks s Sched_lock)\<lparr>locked := 1, lk_cpu := Some c\<rparr>, lk := (locks s lk)\<lparr>lk_cpu := None, locked := 0\<rparr>)"
  let ?s0 = "s\<lparr>locks := ?l\<rparr>"
  let ?s1 = "upd_proc p (\<lambda>q. q\<lparr>chan := ch, p_state := SLEEPING\<rparr>) ?s0"
  let ?ie = "int_enabled (cpus s ! c)"
  let ?restore = "bindk cur_cpu (\<lambda>e t. Ret ((), t\<lparr>cpus := (cpus t)[e := (cpus t ! e)\<lparr>int_enabled := ?ie\<rparr>]\<rparr>))"
  let ?resume = "\<lambda>_ :: unit. bindk ?restore (\<lambda>_. run_steps (sleep_leave p lk))"
  note en = sleep_enter_runs [OF rd nest h f ne]
  have cs: "cpus ?s1 = cpus s" "locks ?s1 = ?l" "rflags ?s1 = rflags s" by (simp_all add: upd_proc_def)
  have "same_cpu s ?s1" by (simp add: same_cpu_def upd_proc_def)
  then have r1: "cpu_ready (Suc 3) c ?s1" using cpu_ready_same [of s ?s1] rd1 by simp
  have h1: "lock_held c Sched_lock ?s1" "lock_free lk ?s1" using ne by (simp_all add: lock_held_def lock_free_def cs)
  have st1: "p_state (procs ?s1 p) = SLEEPING" "chan (procs ?s1 p) = ch" by (simp_all add: upd_proc_def)
  have so: "sched_switch_out ctxsw ?s1 = bindk (ctxsw (Proc_slot p) (scheduler_ctx (cpus s ! c))) (\<lambda>_. ?restore) ?s1"
    using switch_out_goes [OF r1, of p ctxsw] ly h1(1) p st1(1) by (simp add: cs)
  have "sched_sleep ctxsw ch (Some lk) s = run_steps (sched_switch_out ctxsw # sleep_leave p lk) ?s1"
    using curproc_nested [OF rd1 nest] p en(2) by (simp add: sched_sleep_def bindk_def)
  also have "\<dots> = bindk (ctxsw (Proc_slot p) (scheduler_ctx (cpus s ! c))) ?resume ?s1"
    by (simp only: run_steps.simps bindk_def so) (simp split: outcome.splits)
  finally have run: "sched_sleep ctxsw ch (Some lk) s = bindk (ctxsw (Proc_slot p) (scheduler_ctx (cpus s ! c))) ?resume ?s1" .
  have held: "lock_held c Sched_lock u" if "u \<in> set (visits (sleep_enter p ch lk) s)" for u
    using that ne h1(1) unfolding en(1) by (auto simp: lock_held_def acquired_def upd_proc_def)
  have wait: "sched_wakeup ch' (u\<lparr>lapic_id_reg := r, rflags := fl\<rparr>) = Hang"
    if "u \<in> set (visits (sleep_enter p ch lk) s)" "d \<noteq> c" "cpu_ready 2 d (u\<lparr>lapic_id_reg := r, rflags := fl\<rparr>)" for u d r fl ch'
    by (rule wakeup_waits [OF _ that(2,3)]) (use held [OF that(1)] in \<open>simp add: lock_held_def\<close>)
  have wake: "\<exists>u. ?resume () t = Ret ((), u) \<and> lock_held c lk u \<and> lock_free Sched_lock u \<and> chan (procs u p) = NULL
      \<and> int_disable_layer (cpus u ! c) = 1 \<and> (\<forall>v \<in> set (butlast (visits (sleep_leave p lk) t)). lock_held c Sched_lock v)"
    if t: "cpu_ready 4 c t \<and> int_disable_layer (cpus t ! c) = 1 \<and> lock_held c Sched_lock t \<and> lock_free lk t" for t
  proof -
    have c: "c < length (cpus t)" using t by (simp add: cpu_ready_def)
    have cc: "cur_cpu t = Ret (c, t)" using t by (intro cur_cpu_eq) (auto simp: cpu_ready_def)
    let ?t1 = "t\<lparr>cpus := (cpus t)[c := (cpus t ! c)\<lparr>int_enabled := ?ie\<rparr>]\<rparr>"
    have r1: "cpu_ready 4 c ?t1"
      using t c cpu_lookup_upd_cpus [of "(cpus t ! c)\<lparr>int_enabled := ?ie\<rparr>" t c] by (simp add: cpu_ready_def)
    have f1: "int_disable_layer (cpus ?t1 ! c) = 1" "lock_held c Sched_lock ?t1" "lock_free lk ?t1"
      using t c by (simp_all add: lock_held_def lock_free_def)
    have vs: "\<forall>v \<in> set (butlast (visits (sleep_leave p lk) t)). lock_held c Sched_lock v"
      using sleep_leave_runs [OF _ _ _ _ ne, of c t p] t by blast
    obtain u where u: "run_steps (sleep_leave p lk) ?t1 = Ret ((), u)" "lock_held c lk u" "lock_free Sched_lock u" "chan (procs u p) = NULL"
        "int_disable_layer (cpus u ! c) = 1" using sleep_leave_runs [OF r1 f1 ne, of p] by blast
    have "?resume () t = Ret ((), u)" using cc u(1) by (simp add: bindk_def)
    then show ?thesis using u(2-5) vs by blast
  qed
  have all: "\<forall>t. cpu_ready 4 c t \<and> int_disable_layer (cpus t ! c) = 1 \<and> lock_held c Sched_lock t \<and> lock_free lk t \<longrightarrow>
      (\<exists>u. ?resume () t = Ret ((), u) \<and> lock_held c lk u \<and> lock_free Sched_lock u \<and> chan (procs u p) = NULL
         \<and> int_disable_layer (cpus u ! c) = 1 \<and> (\<forall>v \<in> set (butlast (visits (sleep_leave p lk) t)). lock_held c Sched_lock v))"
    by (intro allI impI) (rule wake)
  have ms: "mem ?s1 = mem s" by (simp add: upd_proc_def)
  have lst: "?s1 = last (visits (sleep_enter p ch lk) s)" unfolding en(1) by simp
  have "length (visits (sleep_enter p ch lk) s) = length (sleep_enter p ch lk)"
    unfolding en(1) using ne by (simp add: sleep_enter_def)
  moreover have "\<exists>s1 resume. s1 = last (visits (sleep_enter p ch lk) s)
          \<and> sched_sleep ctxsw ch (Some lk) s = bindk (ctxsw (Proc_slot p) (scheduler_ctx (cpus s ! c))) resume s1
          \<and> p_state (procs s1 p) = SLEEPING \<and> chan (procs s1 p) = ch \<and> lock_free lk s1 \<and> mem s1 = mem s \<and> cpus s1 = cpus s
          \<and> (\<forall>t. cpu_ready 4 c t \<and> int_disable_layer (cpus t ! c) = 1 \<and> lock_held c Sched_lock t \<and> lock_free lk t \<longrightarrow>
               (\<exists>u. resume () t = Ret ((), u) \<and> lock_held c lk u \<and> lock_free Sched_lock u \<and> chan (procs u p) = NULL
                  \<and> int_disable_layer (cpus u ! c) = 1
                  \<and> (\<forall>v \<in> set (butlast (visits (sleep_leave p lk) t)). lock_held c Sched_lock v)))"
    by (intro exI [of _ ?s1] exI [of _ ?resume] conjI) (rule lst run st1 h1(2) ms cs(1) all)+
  ultimately show ?thesis using held wait by blast
qed

text \<open>the checks of the scheduler catch misuse: sleeping without a current process or without a lock, and
  switching out without the scheduler's lock, with a second lock held, or while still marked as running, all panic.\<close>

theorem scheduler_misuse_panics:
  fixes s :: "'z proc_sys_scheme"
  assumes rd: "cpu_ready 4 c s" and nest: "int_disable_layer (cpus s ! c) \<noteq> 0" and p: "cpu_proc (cpus s ! c) = p"
  shows "(p = NULL \<longrightarrow> sched_sleep ctxsw ch lk s = Panic ''sched_sleep'')
       \<and> (p \<noteq> NULL \<longrightarrow> sched_sleep ctxsw ch None s = Panic ''sleep w/o lock'')
       \<and> (\<not> lock_held c Sched_lock s \<longrightarrow> sched_switch_out ctxsw s = Panic ''sched_swtich_out lock'')
       \<and> (lock_held c Sched_lock s \<and> int_disable_layer (cpus s ! c) \<noteq> 1 \<longrightarrow>
            sched_switch_out ctxsw s = Panic ''switch_out lock count'')
       \<and> (lock_held c Sched_lock s \<and> int_disable_layer (cpus s ! c) = 1 \<and> p \<noteq> NULL \<and> p_state (procs s p) = RUNNING \<longrightarrow>
            sched_switch_out ctxsw s = Panic ''switching out running'')"
proof -
  have r: "cpu_ready (Suc 3) c s" using rd by simp
  have cc: "cur_cpu s = Ret (c, s)" using rd nest by (intro cur_cpu_eq) (auto simp: cpu_ready_def)
  note k = curproc_nested [OF r nest] holding_nested [OF r nest, of Sched_lock] cc p
  show ?thesis
    using k by (simp add: sched_sleep_def sched_switch_out_def bindk_def panic_def)
qed

section \<open>Initialisation and concrete states\<close>

lemma sched_init_ok:
  fixes s :: "'z proc_sys_scheme"
  assumes inv: "kinv N P F L s" and rd: "cpu_ready 3 c s"
    and fit: "fits24 (ready_queue s)" "fits24 (waiting_queue s)"
    and dj: "span24 (ready_queue s) \<inter> kfoot N F L s = {}" "span24 (waiting_queue s) \<inter> kfoot N F L s = {}"
      "span24 (ready_queue s) \<inter> span24 (waiting_queue s) = {}"
  shows "\<exists>t. sched_init s = Ret ((), t) \<and> queues_ok N P F [] [] t \<and> lock_free Sched_lock t
     \<and> t = s\<lparr>mem := mem t, cpus := settled c s, locks := (locks s)(Sched_lock := \<lparr>locked = 0, lk_name = ''sched'', lk_cpu = None\<rparr>)\<rparr>"
proof -
  let ?l = "(locks s)(Sched_lock := \<lparr>locked = 0, lk_name = ''sched'', lk_cpu = None\<rparr>)"
  let ?s0 = "s\<lparr>locks := ?l\<rparr>" let ?a = "acquired c Sched_lock ?s0"
  let ?r = "ready_queue s" and ?w = "waiting_queue s"
  have "same_cpu s ?s0" by (simp add: same_cpu_def)
  then have r0: "cpu_ready (Suc (Suc 1)) c ?s0" using cpu_ready_same [of s ?s0] rd by (simp add: numeral_3_eq_3)
  have f0: "lock_free Sched_lock ?s0" by (simp add: lock_free_def)
  have nz: "?r \<noteq> NULL" "?w \<noteq> NULL" using fit by (auto simp: fits24_def)
  have b: "unat ?r + 24 < 2 ^ 64" "unat ?w + 24 < 2 ^ 64" using fit by (simp_all add: fits24_def)
  obtain m1 where m1: "dequeue_construct ?r ?a = Ret ((), ?a\<lparr>mem := m1\<rparr>)" "dq m1 ?r [] []" "same_out (span24 ?r) (mem s) m1"
    using construct_ok [OF nz(1) b(1), of ?a] by (auto simp: acquired_def entered_def)
  obtain m2 where m2: "dequeue_construct ?w (?a\<lparr>mem := m1\<rparr>) = Ret ((), ?a\<lparr>mem := m2\<rparr>)" "dq m2 ?w [] []" "same_out (span24 ?w) m1 m2"
    using construct_ok [OF nz(2) b(2), of "?a\<lparr>mem := m1\<rparr>"] by auto
  have A: "apart24 {?r, ?w}"
    unfolding apart24_def using fit span_ne [OF dj(3)] by (auto simp: fits24_def)
  have d1: "dq m2 ?r [] []" by (rule dq_frame [OF m1(2) m2(3)]) (use A dj(3) in \<open>auto intro: apart24_subset\<close>)
  let ?b = "?a\<lparr>mem := m2\<rparr>"
  have hb: "lock_held c Sched_lock ?b" and sb: "same_cpu (entered c ?s0) ?b"
    by (simp_all add: lock_held_def same_cpu_def acquired_def entered_def)
  let ?t = "?b\<lparr>cpus := settled c ?s0, rflags := rflags s, locks := ?l\<rparr>"
  have rel: "release Sched_lock ?b = Ret ((), ?t)"
    using release_held [OF r0 sb hb] by (simp add: acquired_def entered_def fun_upd_idem)
  have run: "sched_init s = Ret ((), ?t)"
    using acquire_free [OF r0 f0] m1(1) m2(1) rel by (simp add: sched_init_def bindk_def init_lock_def)
  have so: "same_out (span24 ?r \<union> span24 ?w) (mem s) m2"
    using same_out_trans [OF same_out_mono [OF m1(3)] same_out_mono [OF m2(3)]] by blast
  have djr: "(span24 ?r \<union> span24 ?w) \<inter> kfoot N F L s = {}" using dj by blast
  note k = kinv_poke [OF inv so djr]
  have v: "heap_view ?t = heap_view (s\<lparr>mem := m2\<rparr>)" by (simp add: heap_view_eq acquired_def entered_def)
  have rw: "?r \<noteq> ?w" using dj(3) by (auto simp: span24_def)
  have sep: "qsep N P F L (s\<lparr>mem := m2\<rparr>) {?r, ?w} {}"
    by (rule qsepI) (use fit dj k(2) in auto)
  have "queue_nodes N P F L {} [] [] [] [] (s\<lparr>mem := m2\<rparr>)"
    using k(1) sep rw d1 m2(2) by (simp add: queue_nodes_def)
  then have "queues_ok N P F [] [] (s\<lparr>mem := m2\<rparr>)" unfolding queues_ok_def by blast
  then have "queues_ok N P F [] [] ?t" using queues_ok_cong [OF v] by (simp add: acquired_def entered_def)
  moreover have "settled c ?s0 = settled c s" by (simp add: settled_def)
  ultimately show ?thesis
    using run by (intro exI [of _ ?t]) (simp add: lock_free_def acquired_def entered_def)
qed

text \<open>A machine whose heap is up and whose scheduler structures lie in page 2000.\<close>

definition proc_machine :: "km_sys \<Rightarrow> proc_sys" where
  "proc_machine s = \<lparr>mem = mem s, rflags = rflags s, lapic_id_reg = lapic_id_reg s, ncpu = ncpu s, cpus = cpus s, locks = locks s,
     begin_kva = begin_kva s, end_kva = end_kva s, boot_alloc_initialized = boot_alloc_initialized s,
     pgalloc_bins = pgalloc_bins s, max_addr = max_addr s, size_list = size_list s, kern_pml4 = 0, cr3 = 0,
     procs = (\<lambda>_. zero_proc\<lparr>p_state := RUNNABLE, chan := 7\<rparr>), next_pid = 1, ptable_proc = 0x4000, idle_proc = 0x40000,
     ready_queue = pva 2000, waiting_queue = pva 2000 + 64, addr_of = (\<lambda>_. 0x1000)\<rparr>"

lemma proc_machine_simps [simp]:
  "kinv N P F L (proc_machine s) \<longleftrightarrow> kinv N P F L s" "kfoot N F L (proc_machine s) = kfoot N F L s"
  "cpu_ready d c (proc_machine s) \<longleftrightarrow> cpu_ready d c s" "lock_free lk (proc_machine s) \<longleftrightarrow> lock_free lk s"
  "core (proc_machine s) = core s"
  by (simp_all add: proc_machine_def kinv_def kfoot_def pfoot_def core_def kcore_def cpu_ready_def cpu_lookup_def lapic_id_def lock_free_def)

lemma subset_disjoint: "A \<subseteq> B \<Longrightarrow> B \<inter> C = {} \<Longrightarrow> A \<inter> C = {}"
  by blast

lemma demo_scheduler:
  obtains s :: proc_sys and F where "cpu_ready 9 0 s" "lock_free Sched_lock s" "lock_free Kmalloc_lock s" "lock_free Pgalloc_lock s"
    "queues_ok 4096 {1024..<4096} F [] [] s" "rep 4096 {1024..<4096} (core s) F" "pages F \<noteq> {}"
    "procs s = (\<lambda>_. zero_proc\<lparr>p_state := RUNNABLE, chan := 7\<rparr>)" "addr_of s = (\<lambda>_. 0x1000)" "1 < card (pages F)"
proof -
  obtain s where s: "boot_heap demo_km = Ret ((), s)" "kinv 4096 {1024..<4096} ((\<lambda>_. [])(3 := [1024])) [] s"
      "cpu_ready 9 0 s" "lock_free Kmalloc_lock s" "lock_free Pgalloc_lock s"
    by (rule demo_heap)
  let ?F = "(\<lambda>_. [])(3 := [1024])" and ?p = "proc_machine s"
  have pl: "2000 < page_limit" by (simp add: page_limit_def)
  have rep: "rep 4096 {1024..<4096} (core s) ?F" using s(2) by (simp add: kinv_def)
  have u: "unat (pva 2000) + 4096 \<le> 2 ^ 64" by (rule pva_end [OF pl])
  have u2: "unat (pva 2000 + 64) = unat (pva 2000) + 64" using u by (intro unat_add_numeral) simp
  have pgs: "pages ?F \<subseteq> {1024..<1032}" by (auto simp: pages_def blk_def split: if_splits)
  have far: "{unat (pva 2000)..<unat (pva 2000) + 4096} \<inter> kfoot 4096 ?F [] s = {}"
  proof -
    have "2000 \<in> {1024..<4096} - pages ?F" using pgs by auto
    from pfoot_pages [OF rep this] show ?thesis by (simp add: kfoot_def pg_bytes_def Int_commute)
  qed
  have q: "ready_queue ?p = pva 2000" "waiting_queue ?p = pva 2000 + 64" by (simp_all add: proc_machine_def)
  have nz: "0 < unat (pva 2000)" using pva_nonzero [OF pl] by (simp add: unat_gt_0)
  have "\<exists>t. sched_init ?p = Ret ((), t) \<and> queues_ok 4096 {1024..<4096} ?F [] [] t \<and> lock_free Sched_lock t
     \<and> t = ?p\<lparr>mem := mem t, cpus := settled 0 ?p, locks := (locks ?p)(Sched_lock := \<lparr>locked = 0, lk_name = ''sched'', lk_cpu = None\<rparr>)\<rparr>"
  proof (rule sched_init_ok [where L = "[]"])
    show "cpu_ready 3 0 ?p" using cpu_ready_mono [OF s(3)] by simp
    show "span24 (ready_queue ?p) \<inter> kfoot 4096 ?F [] ?p = {}" "span24 (waiting_queue ?p) \<inter> kfoot 4096 ?F [] ?p = {}"
      using subset_disjoint [OF _ far] by (simp_all add: q u2 span24_def)
  qed (use s(2) nz u u2 in \<open>auto simp: q fits24_def span24_def\<close>)
  then obtain t where t: "queues_ok 4096 {1024..<4096} ?F [] [] t" "lock_free Sched_lock t"
    "t = ?p\<lparr>mem := mem t, cpus := settled 0 ?p, locks := (locks ?p)(Sched_lock := \<lparr>locked = 0, lk_name = ''sched'', lk_cpu = None\<rparr>)\<rparr>"
    by blast
  have e: "cpus t = settled 0 ?p" "rflags t = rflags ?p" "ncpu t = ncpu ?p" "lapic_id_reg t = lapic_id_reg ?p"
    "locks t = (locks ?p)(Sched_lock := \<lparr>locked = 0, lk_name = ''sched'', lk_cpu = None\<rparr>)" "procs t = procs ?p" "addr_of t = addr_of ?p"
    by (subst t(3), simp)+
  have rt: "rep 4096 {1024..<4096} (core t) ?F" using t(1) by (auto simp: queues_ok_def queue_nodes_def kinv_def)
  have "cpu_ready 9 0 t" by (rule cpu_ready_settled [of 9 0 ?p]) (use s(3) e in simp_all)
  moreover have "lock_free Kmalloc_lock t" "lock_free Pgalloc_lock t" using s(4,5) e(5) by (simp_all add: lock_free_def proc_machine_def)
  moreover have "pages ?F = {1024..<1032}" by (auto simp: pages_def blk_def MAX_ORDER_def split: if_splits)
  ultimately show thesis using that [of t ?F] t(1,2) rt demo_pages_nonempty e(6,7) by (simp add: proc_machine_def)
qed


theorem sched_add_appends_witness:
  "\<exists>s t :: proc_sys. \<exists>F. sched_add 0x4000 s = Ret ((), t) \<and> queues_ok 4096 {1024..<4096} F [0x4000] [] t"
proof -
  obtain s :: proc_sys and F where s: "cpu_ready 9 0 s" "lock_free Sched_lock s" "lock_free Kmalloc_lock s" "lock_free Pgalloc_lock s"
    "queues_ok 4096 {1024..<4096} F [] [] s" "pages F \<noteq> {}" "procs s = (\<lambda>_. zero_proc\<lparr>p_state := RUNNABLE, chan := 7\<rparr>)"
    by (rule demo_scheduler) blast
  have rd: "cpu_ready 5 0 s" by (rule cpu_ready_mono [OF s(1)]) simp
  from sched_add_appends [OF rd s(2-5), where p = "0x4000"] s(6,7) show ?thesis by (simp, blast)
qed

text \<open>The same machine with the process at \<^verbatim>\<open>0x4000\<close> in the waiting queue.\<close>

lemma demo_sleeping:
  obtains s :: proc_sys and F where "cpu_ready 9 0 s" "lock_free Sched_lock s" "lock_free Kmalloc_lock s" "lock_free Pgalloc_lock s"
    "queues_ok 4096 {1024..<4096} F [] [0x4000] s" "0 < card (pages F)" "procs s = (\<lambda>_. zero_proc\<lparr>p_state := RUNNABLE, chan := 7\<rparr>)"
proof -
  obtain s :: proc_sys and F where s: "cpu_ready 9 0 s" "lock_free Sched_lock s" "lock_free Kmalloc_lock s" "lock_free Pgalloc_lock s"
    "queues_ok 4096 {1024..<4096} F [] [] s" "procs s = (\<lambda>_. zero_proc\<lparr>p_state := RUNNABLE, chan := 7\<rparr>)" "1 < card (pages F)"
    by (rule demo_scheduler) blast
  let ?a = "acquired 0 Sched_lock s" and ?body = "\<lambda>s :: proc_sys. dequeue_push_back (waiting_queue s) 0x4000 s"
  have rd: "cpu_ready 5 0 s" by (rule cpu_ready_mono [OF s(1)]) simp
  have n: "nested 0 ?a" by (rule nested_acquired [OF rd s(3,4)]) simp_all
  have "queues_ok 4096 {1024..<4096} F [] [] ?a" using s(5) queues_ok_cong [of ?a s] by simp
  then obtain L M ns ms where q: "queue_nodes 4096 {1024..<4096} F L M ns [] ms [] ?a" by (auto simp: queues_ok_def)
  have "pages F \<noteq> {}" using s(7) by auto
  with push_waiting_ok [OF n q, where p = "0x4000"]
  obtain t node F' L' i where t: "?body ?a = Ret ((), t)" "heap_step ?a t"
      "queue_nodes 4096 {1024..<4096} F' L' (insert node M) ns [] (ms @ [node]) ([] @ [0x4000]) t" "pages F - {i} \<subseteq> pages F'"
    by blast
  have "queues_ok 4096 {1024..<4096} F' [] [0x4000] t" using t(3) unfolding queues_ok_def by auto
  from sched_section [where body = ?body, OF rd s(2) t(1,2) this]
  obtain u where u: "kstep 0 s u" "queues_ok 4096 {1024..<4096} F' [] [0x4000] u" by blast
  have "0 < card (pages F')" using card_pages_drop [OF t(4)] s(7) by simp
  moreover have "cpu_ready 9 0 u" "\<And>l. lock_free l u \<longleftrightarrow> lock_free l s" "procs u = procs s"
    using kstep_keeps [OF u(1)] s(1) kstep_fields(1) [OF u(1)] by auto
  ultimately show thesis using that [of u F'] u(2) s by simp
qed

theorem sched_wakeup_moves_sleepers_witness:
  "\<exists>s t :: proc_sys. \<exists>F F'. queues_ok 4096 {1024..<4096} F [] [0x4000] s \<and> sched_wakeup 7 s = Ret ((), t)
     \<and> queues_ok 4096 {1024..<4096} F' [0x4000] [] t"
proof -
  obtain s :: proc_sys and F where s: "cpu_ready 9 0 s" "lock_free Sched_lock s" "lock_free Kmalloc_lock s" "lock_free Pgalloc_lock s"
    "queues_ok 4096 {1024..<4096} F [] [0x4000] s" "0 < card (pages F)" "procs s = (\<lambda>_. zero_proc\<lparr>p_state := RUNNABLE, chan := 7\<rparr>)"
    by (rule demo_sleeping)
  have rd: "cpu_ready 5 0 s" by (rule cpu_ready_mono [OF s(1)]) simp
  from sched_wakeup_moves_sleepers [OF rd s(2-5), of 7] s(5,6,7) show ?thesis by auto
qed

text \<open>A switch to a process that gives the CPU back at once, on a machine that keeps the log.\<close>

definition demo_turn :: "'z proc_log_scheme ctxsw" where
  "demo_turn sl new s = (case sl of Cpu_slot c \<Rightarrow> Ret ((), upd_proc (cpu_proc (cpus s ! c)) (\<lambda>q. q\<lparr>p_state := RUNNABLE\<rparr>) s)
     | Proc_slot p \<Rightarrow> Ret ((), s))"

lemma demo_turn_comes_back: "comes_back demo_turn c N P"
  unfolding comes_back_def
proof (intro allI impI, elim conjE)
  fix p rs ws and s :: "'a proc_log_scheme"
  assume s: "scheduling c N P rs ws s" "lock_held c Sched_lock s" "cpu_proc (cpus s ! c) = p"
  let ?t = "upd_proc p (\<lambda>q. q\<lparr>p_state := RUNNABLE\<rparr>) s"
  have "scheduling c N P (rs @ []) ws ?t" using scheduling_upd(2) [OF s(1)] by simp
  then show "\<exists>t joined ws'. demo_turn (Cpu_slot c) (ctx (procs s p)) s = Ret ((), t) \<and> scheduling c N P (rs @ joined) ws' t
      \<and> lock_held c Sched_lock t \<and> cpu_proc (cpus t ! c) = p \<and> idle_proc t = idle_proc s \<and> switch_log t = switch_log s"
    using s by (intro exI [of _ ?t] exI [of _ "[]"] exI [of _ ws]) (simp add: demo_turn_def, simp add: upd_proc_def lock_held_def)
qed

definition with_log :: "proc_sys \<Rightarrow> proc_log" where
  "with_log s = proc_sys.extend s \<lparr>switch_log = []\<rparr>"

lemma scheduling_with_log: "scheduling c N P rs ws (with_log s) \<longleftrightarrow> scheduling c N P rs ws s"
  by (simp add: with_log_def proc_sys.defs scheduling_def nested_def cpu_ready_def cpu_lookup_def lapic_id_def lock_free_def
      queues_ok_def queue_nodes_def qsep_def live_def kinv_def kfoot_def pfoot_def core_def kcore_def)

theorem ready_processes_run_in_turn_witness:
  "\<exists>s :: proc_log. scheduling 0 4096 {1024..<4096} [0x4000] [] s
     \<and> ((\<exists>t k joined ws'. sched_rounds (logged 0 demo_turn) 0 1 s = Ret ([0x4000], t) \<and> switch_log t = [k] \<and> ran_turn 0x4000 k
           \<and> scheduling 0 4096 {1024..<4096} joined ws' t)
        \<or> sched_rounds (logged 0 demo_turn) 0 1 s = Panic ''malloc: OOM'')"
proof -
  obtain s :: proc_sys and F where s: "cpu_ready 9 0 s" "lock_free Kmalloc_lock s" "lock_free Pgalloc_lock s"
    "queues_ok 4096 {1024..<4096} F [] [] s" "pages F \<noteq> {}"
    by (rule demo_scheduler) blast
  let ?a = "acquired 0 Sched_lock s"
  have rd: "cpu_ready 5 0 s" by (rule cpu_ready_mono [OF s(1)]) simp
  have n: "nested 0 ?a" by (rule nested_acquired [OF rd s(2,3)]) simp_all
  have "queues_ok 4096 {1024..<4096} F [] [] ?a" using s(4) queues_ok_cong [of ?a s] by simp
  then obtain L M ns ms where q: "queue_nodes 4096 {1024..<4096} F L M ns [] ms [] ?a" by (auto simp: queues_ok_def)
  obtain t node F' L' where t: "heap_step ?a t"
      "queue_nodes 4096 {1024..<4096} F' L' (insert node M) (ns @ [node]) [0x4000] ms [] t"
    using push_ready_ok [OF n q, where p = "0x4000"] s(5) by auto
  have "scheduling 0 4096 {1024..<4096} [0x4000] [] t"
    by (rule schedulingI [OF nested_heap_step [OF n t(1)] t(2)]) simp
  then have sc: "scheduling 0 4096 {1024..<4096} [0x4000] [] (with_log t)" by (simp add: scheduling_with_log)
  have h: "lock_held 0 Sched_lock (with_log t)"
    using heap_step_fields(5) [OF t(1)] by (simp add: with_log_def proc_sys.defs lock_held_def acquired_def)
  have lg: "switch_log (with_log t) = []" by (simp add: with_log_def proc_sys.defs)
  have "(0 :: nat) < 2 ^ 16" "1 \<le> length [0x4000 :: u64]" by simp_all
  note w = ready_processes_run_in_turn [OF demo_turn_comes_back sc h this]
  show ?thesis
  proof (rule exI [of _ "with_log t"], rule conjI [OF sc])
    show "(\<exists>u k joined ws'. sched_rounds (logged 0 demo_turn) 0 1 (with_log t) = Ret ([0x4000], u) \<and> switch_log u = [k] \<and> ran_turn 0x4000 k
           \<and> scheduling 0 4096 {1024..<4096} joined ws' u)
        \<or> sched_rounds (logged 0 demo_turn) 0 1 (with_log t) = Panic ''malloc: OOM''"
      using w lg by (elim disjE exE conjE) (auto simp: list_all2_Cons1)
  qed
qed

text \<open>A process at \<^verbatim>\<open>0x4000\<close> that runs with the console's read lock held, and about to sleep on it.\<close>

definition sleeper :: proc_sys where
  "sleeper = \<lparr>mem = (\<lambda>_. 0), rflags = 0, lapic_id_reg = 0, ncpu = 1,
     cpus = [demo_cpu\<lparr>int_disable_layer := 1, cpu_proc := 0x4000, scheduler_ctx := 0x5000\<rparr>],
     locks = (\<lambda>l. \<lparr>locked = (if l = Console_read_lock then 1 else 0), lk_name = [], lk_cpu = (if l = Console_read_lock then Some 0 else None)\<rparr>),
     begin_kva = 0, end_kva = 0, boot_alloc_initialized = True, pgalloc_bins = [], max_addr = 0, size_list = 0, kern_pml4 = 0, cr3 = 0,
     procs = (\<lambda>_. zero_proc\<lparr>p_state := RUNNING\<rparr>), next_pid = 1, ptable_proc = 0x4000, idle_proc = 0x40000,
     ready_queue = 0x1000, waiting_queue = 0x1100, addr_of = (\<lambda>_. 0x1000)\<rparr>"

lemma sleeper_ready: "cpu_ready 4 0 sleeper" "int_disable_layer (cpus sleeper ! 0) = 1"
  by (simp_all add: cpu_ready_def sleeper_def demo_cpu_def cpu_lookup_def lapic_id_def if_set_def)

theorem sched_sleep_atomic_witness:
  "sched_sleep (\<lambda>_ _. panic ''asleep'') 7 (Some Console_read_lock) sleeper = Panic ''asleep''"
proof -
  have h: "lock_held 0 Console_read_lock sleeper" "lock_free Sched_lock sleeper" "Console_read_lock \<noteq> Sched_lock"
    "cpu_proc (cpus sleeper ! 0) = 0x4000" "(0x4000 :: ptr) \<noteq> NULL"
    by (simp_all add: lock_held_def lock_free_def sleeper_def)
  from sched_sleep_atomic [OF sleeper_ready h, where ctxsw = "\<lambda>_ _. panic ''asleep''" and ch = 7]
  show ?thesis by (elim exE conjE) (simp add: bindk_def panic_def)
qed

theorem scheduler_misuse_panics_witness:
  "sched_sleep (\<lambda>_ _. retk ()) 7 None sleeper = Panic ''sleep w/o lock''
   \<and> sched_switch_out (\<lambda>_ _. retk ()) sleeper = Panic ''sched_swtich_out lock''"
proof -
  have h: "\<not> lock_held 0 Sched_lock sleeper" "int_disable_layer (cpus sleeper ! 0) \<noteq> 0" "cpu_proc (cpus sleeper ! 0) = 0x4000"
    by (simp_all add: lock_held_def sleeper_def)
  from scheduler_misuse_panics [OF sleeper_ready(1) h(2,3), where ctxsw = "\<lambda>_ _. retk ()" and ch = 7] h(1)
  show ?thesis by simp
qed

end
