(* ===== verification/Devices.thy ===== *)
theory Devices
  imports Sched
begin

text \<open>
  Devices: port and memory-mapped input and output (\<^verbatim>\<open>arch/x86/instructions.h\<close>), the UART, the two interrupt
  controllers and the system tick. The hardware is a parameter of the model: the state carries the answer every
  device would give to a read as a function of all accesses so far, and the list of these accesses.
\<close>

section \<open>Accesses\<close>

datatype io_event = In u16 u8 | Out u16 u8 | Rd u64 u32 | Wr u64 u32

record dev_sys = proc_sys +
  dev_in :: "io_event list \<Rightarrow> u16 \<Rightarrow> u8"
  dev_rd :: "io_event list \<Rightarrow> u64 \<Rightarrow> u32"
  msr :: "u32 \<Rightarrow> u64"
  io_trace :: "io_event list"
  lapic :: ptr
  ioapic :: ptr
  sys_tick :: u64

definition inb :: "u16 \<Rightarrow> 'z dev_sys_scheme \<Rightarrow> (u8 \<times> 'z dev_sys_scheme) outcome" where
  "inb port s = (let v = dev_in s (io_trace s) port in Ret (v, s\<lparr>io_trace := io_trace s @ [In port v]\<rparr>))"

definition outb :: "u16 \<Rightarrow> u8 \<Rightarrow> 'z dev_sys_scheme \<Rightarrow> (unit \<times> 'z dev_sys_scheme) outcome" where
  "outb port data s = Ret ((), s\<lparr>io_trace := io_trace s @ [Out port data]\<rparr>)"

text \<open>Loads and stores through a \<^verbatim>\<open>volatile u32*\<close>.\<close>

definition mmio_read :: "ptr \<Rightarrow> 'z dev_sys_scheme \<Rightarrow> (u32 \<times> 'z dev_sys_scheme) outcome" where
  "mmio_read a s = (let v = dev_rd s (io_trace s) a in Ret (v, s\<lparr>io_trace := io_trace s @ [Rd a v]\<rparr>))"

definition mmio_write :: "ptr \<Rightarrow> u32 \<Rightarrow> 'z dev_sys_scheme \<Rightarrow> (unit \<times> 'z dev_sys_scheme) outcome" where
  "mmio_write a v s = Ret ((), s\<lparr>io_trace := io_trace s @ [Wr a v]\<rparr>)"

definition rdmsr :: "u32 \<Rightarrow> 'z dev_sys_scheme \<Rightarrow> (u64 \<times> 'z dev_sys_scheme) outcome" where
  "rdmsr r s = Ret (msr s r, s)"

section \<open>UART (\<^verbatim>\<open>device/uart/uart.c\<close>)\<close>

definition BACKSPACE :: u32 where "BACKSPACE = 0x100"
definition UART_COM1 :: u16 where "UART_COM1 = 0x3F8"

record uart_device =
  mmio_base :: ptr
  pio_base :: u16

definition uart_write :: "uart_device \<Rightarrow> u8 \<Rightarrow> u8 \<Rightarrow> 'z dev_sys_scheme \<Rightarrow> (unit \<times> 'z dev_sys_scheme) outcome" where
  "uart_write u offset val =
     (if mmio_base u \<noteq> NULL
      then bindk (mmio_write (mmio_base u + 4 * ucast offset) (ucast val)) (\<lambda>_.
           bindk (mmio_read (mmio_base u + 4 * ucast offset)) (\<lambda>_. retk ()))
      else outb (pio_base u + ucast offset) val)"

definition uart_read :: "uart_device \<Rightarrow> u8 \<Rightarrow> 'z dev_sys_scheme \<Rightarrow> (u8 \<times> 'z dev_sys_scheme) outcome" where
  "uart_read u offset =
     (if mmio_base u \<noteq> NULL
      then bindk (mmio_read (mmio_base u + 4 * ucast offset)) (\<lambda>v. retk (ucast v))
      else inb (pio_base u + ucast offset))"

text \<open>\<^verbatim>\<open>while ((uart_read(u, 5) & 0x20) == 0);\<close>\<close>

partial_function (option) uart_wait :: "uart_device \<Rightarrow> 'z dev_sys_scheme \<Rightarrow> 'z dev_sys_scheme option" where
  "uart_wait u s = (case uart_read u 5 s of
      Ret (v, t) \<Rightarrow> if v AND 0x20 = 0 then uart_wait u t else Some t
    | _ \<Rightarrow> None)"

definition s_uart_putc :: "uart_device \<Rightarrow> u32 \<Rightarrow> 'z dev_sys_scheme \<Rightarrow> (unit \<times> 'z dev_sys_scheme) outcome" where
  "s_uart_putc u c s = (case uart_wait u s of None \<Rightarrow> Hang | Some t \<Rightarrow> uart_write u 0 (ucast c) t)"

text \<open>A null device pointer is \<open>None\<close>.\<close>

definition uart_putc :: "uart_device option \<Rightarrow> u32 \<Rightarrow> 'z dev_sys_scheme \<Rightarrow> (unit \<times> 'z dev_sys_scheme) outcome" where
  "uart_putc ud c = (case ud of
      None \<Rightarrow> retk ()
    | Some u \<Rightarrow>
        if c = BACKSPACE
        then bindk (s_uart_putc u 8) (\<lambda>_. bindk (s_uart_putc u 32) (\<lambda>_. s_uart_putc u 8))
        else s_uart_putc u c)"

definition uart_hasbyte :: "uart_device option \<Rightarrow> 'z dev_sys_scheme \<Rightarrow> (bool \<times> 'z dev_sys_scheme) outcome" where
  "uart_hasbyte ud = (case ud of
      None \<Rightarrow> retk False
    | Some u \<Rightarrow> bindk (uart_read u 5) (\<lambda>v. retk (v AND 1 \<noteq> 0)))"

text \<open>The return value -1 is \<open>None\<close>.\<close>

definition uart_getc :: "uart_device option \<Rightarrow> 'z dev_sys_scheme \<Rightarrow> (u8 option \<times> 'z dev_sys_scheme) outcome" where
  "uart_getc ud =
     bindk (uart_hasbyte ud) (\<lambda>h.
       if \<not> h then retk None
       else case ud of None \<Rightarrow> retk None | Some u \<Rightarrow> bindk (uart_read u 0) (\<lambda>v. retk (Some v)))"

primrec uart_puts :: "uart_device \<Rightarrow> u8 list \<Rightarrow> 'z dev_sys_scheme \<Rightarrow> (unit \<times> 'z dev_sys_scheme) outcome" where
  "uart_puts u [] = retk ()"
| "uart_puts u (c # cs) = bindk (uart_putc (Some u) (ucast c)) (\<lambda>_. uart_puts u cs)"

definition init_string :: "u8 list" where
  "init_string = map of_char ''..uart..'' @ [10]"

definition uart_init :: "uart_device \<Rightarrow> 'z dev_sys_scheme \<Rightarrow> (int \<times> 'z dev_sys_scheme) outcome" where
  "uart_init u =
     bindk (uart_write u 3 0x80) (\<lambda>_.
     bindk (uart_write u 0 (115200 div 115200)) (\<lambda>_.
     bindk (uart_write u 1 0) (\<lambda>_.
     bindk (uart_write u 3 0x3) (\<lambda>_.
     bindk (uart_write u 1 0) (\<lambda>_.
     bindk (uart_write u 2 0x7) (\<lambda>_.
     bindk (uart_write u 7 0x69) (\<lambda>_.
     bindk (uart_read u 7) (\<lambda>v.
       if v \<noteq> 0x69 then retk (- 1)
       else bindk (uart_write u 1 0x1) (\<lambda>_.
            bindk (uart_puts u init_string) (\<lambda>_. retk 0))))))))))"

definition uart_pio_init :: "u16 \<Rightarrow> 'z dev_sys_scheme \<Rightarrow> ((int \<times> uart_device) \<times> 'z dev_sys_scheme) outcome" where
  "uart_pio_init base =
     (let u = \<lparr>mmio_base = NULL, pio_base = base\<rparr> in bindk (uart_init u) (\<lambda>r. retk (r, u)))"

definition uart_mmio_init :: "ptr \<Rightarrow> 'z dev_sys_scheme \<Rightarrow> (int \<times> 'z dev_sys_scheme) outcome" where
  "uart_mmio_init base = retk 1"

section \<open>Interrupt controllers\<close>

definition IDT_ENTRY_IRQ_0 :: u32 where "IDT_ENTRY_IRQ_0 = 32"
definition IDT_ENTRY_IRQ_TIMER :: u32 where "IDT_ENTRY_IRQ_TIMER = IDT_ENTRY_IRQ_0 + 0"
definition IDT_ENTRY_IRQ_COM1 :: u32 where "IDT_ENTRY_IRQ_COM1 = IDT_ENTRY_IRQ_0 + 4"
definition IDT_ENTRY_IRQ_ERROR :: u32 where "IDT_ENTRY_IRQ_ERROR = IDT_ENTRY_IRQ_0 + 19"
definition IDT_ENTRY_IRQ_SPURIOUS :: u32 where "IDT_ENTRY_IRQ_SPURIOUS = IDT_ENTRY_IRQ_0 + 31"

text \<open>\<^verbatim>\<open>x86_pic.c\<close>: both legacy controllers masked.\<close>

definition IO_PIC1 :: u16 where "IO_PIC1 = 0x20"
definition IO_PIC2 :: u16 where "IO_PIC2 = 0xA0"

definition pic_init :: "'z dev_sys_scheme \<Rightarrow> (unit \<times> 'z dev_sys_scheme) outcome" where
  "pic_init = bindk (outb (IO_PIC1 + 1) 0xFF) (\<lambda>_. outb (IO_PIC2 + 1) 0xFF)"

text \<open>\<^verbatim>\<open>lapic.c\<close>: registers are indices into an array of 32-bit words.\<close>

definition lapic_reg :: "u64 \<Rightarrow> u64 \<Rightarrow> ptr" where
  "lapic_reg base i = base + 4 * (i div 4)"

definition lapicw :: "u64 \<Rightarrow> u32 \<Rightarrow> 'z dev_sys_scheme \<Rightarrow> (unit \<times> 'z dev_sys_scheme) outcome" where
  "lapicw i val s =
     bindk (mmio_write (lapic_reg (lapic s) i) val) (\<lambda>_.
     bindk (mmio_read (lapic_reg (lapic s) 0x20)) (\<lambda>_. retk ())) s"

definition lapic_eoi :: "'z dev_sys_scheme \<Rightarrow> (unit \<times> 'z dev_sys_scheme) outcome" where
  "lapic_eoi s = (if lapic s \<noteq> NULL then lapicw 0xB0 0 s else Ret ((), s))"

text \<open>\<^verbatim>\<open>while(lapic[ICRLO] & DELIVS);\<close>\<close>

partial_function (option) lapic_wait :: "'z dev_sys_scheme \<Rightarrow> 'z dev_sys_scheme option" where
  "lapic_wait s = (case mmio_read (lapic_reg (lapic s) 0x300) s of
      Ret (v, t) \<Rightarrow> if v AND 0x1000 \<noteq> 0 then lapic_wait t else Some t
    | _ \<Rightarrow> None)"

definition lapic_init :: "'z dev_sys_scheme \<Rightarrow> (unit \<times> 'z dev_sys_scheme) outcome" where
  "lapic_init =
     bindk (rdmsr 0x1B) (\<lambda>base s.
       if base AND push_bit 11 1 = 0 then panic ''apic disabled'' s
       else
         bindk (lapicw 0xF0 (0x100 OR IDT_ENTRY_IRQ_SPURIOUS)) (\<lambda>_.
         bindk (lapicw 0x3E0 0xB) (\<lambda>_.
         bindk (lapicw 0x320 (0x20000 OR IDT_ENTRY_IRQ_TIMER)) (\<lambda>_.
         bindk (lapicw 0x380 10000000) (\<lambda>_.
         bindk (lapicw 0x350 0x10000) (\<lambda>_.
         bindk (lapicw 0x360 0x10000) (\<lambda>_.
         bindk (\<lambda>s. mmio_read (lapic_reg (lapic s) 0x30) s) (\<lambda>ver.
         bindk (if drop_bit 16 ver AND 0xFF \<ge> 4 then lapicw 0x340 0x10000 else retk ()) (\<lambda>_.
         bindk (lapicw 0x370 IDT_ENTRY_IRQ_ERROR) (\<lambda>_.
         bindk (lapicw 0x280 0) (\<lambda>_.
         bindk (lapicw 0x280 0) (\<lambda>_.
         bindk (lapicw 0xB0 0) (\<lambda>_.
         bindk (lapicw 0x310 0) (\<lambda>_.
         bindk (lapicw 0x300 (0x80000 OR 0x500 OR 0x8000)) (\<lambda>_.
         bindk (\<lambda>s. case lapic_wait s of None \<Rightarrow> Hang | Some t \<Rightarrow> Ret ((), t)) (\<lambda>_.
         lapicw 0x80 0)))))))))))))))
         (s\<lparr>lapic := P2KV (base AND NOT 0xFFF)\<rparr>))"

text \<open>\<^verbatim>\<open>ioapic.c\<close>: a register is selected through \<^verbatim>\<open>reg\<close> (offset 0) and accessed through \<^verbatim>\<open>data\<close> (offset 16).\<close>

definition IOAPIC :: u64 where "IOAPIC = 0xFEC00000"
definition IOAPIC_REG_TABLE :: u32 where "IOAPIC_REG_TABLE = 0x10"
definition INT_DISABLED :: u32 where "INT_DISABLED = 0x10000"

definition ioapicread :: "u32 \<Rightarrow> 'z dev_sys_scheme \<Rightarrow> (u32 \<times> 'z dev_sys_scheme) outcome" where
  "ioapicread reg s = bindk (mmio_write (ioapic s) reg) (\<lambda>_. mmio_read (ioapic s + 16)) s"

definition ioapicwrite :: "u32 \<Rightarrow> u32 \<Rightarrow> 'z dev_sys_scheme \<Rightarrow> (unit \<times> 'z dev_sys_scheme) outcome" where
  "ioapicwrite reg data s = bindk (mmio_write (ioapic s) reg) (\<lambda>_. mmio_write (ioapic s + 16) data) s"

primrec ioapic_mask_from :: "nat \<Rightarrow> u32 \<Rightarrow> 'z dev_sys_scheme \<Rightarrow> (unit \<times> 'z dev_sys_scheme) outcome" where
  "ioapic_mask_from 0 i = retk ()"
| "ioapic_mask_from (Suc n) i =
     bindk (ioapicwrite (IOAPIC_REG_TABLE + 2 * i) (INT_DISABLED OR (IDT_ENTRY_IRQ_0 + i))) (\<lambda>_.
     bindk (ioapicwrite (IOAPIC_REG_TABLE + 2 * i + 1) 0) (\<lambda>_. ioapic_mask_from n (i + 1)))"

definition ioapic_init :: "'z dev_sys_scheme \<Rightarrow> (unit \<times> 'z dev_sys_scheme) outcome" where
  "ioapic_init s =
     bindk (ioapicread 1) (\<lambda>ver.
       let maxintr = drop_bit 16 ver AND 0xFF in ioapic_mask_from (unat maxintr + 1) 0)
       (s\<lparr>ioapic := P2KV IOAPIC\<rparr>)"

definition ioapic_unmask :: "u8 \<Rightarrow> u8 \<Rightarrow> u8 \<Rightarrow> 'z dev_sys_scheme \<Rightarrow> (unit \<times> 'z dev_sys_scheme) outcome" where
  "ioapic_unmask irq vec cpu_apic =
     bindk (ioapicwrite (IOAPIC_REG_TABLE + 2 * ucast irq) (ucast vec)) (\<lambda>_.
     ioapicwrite (IOAPIC_REG_TABLE + 2 * ucast irq + 1) (push_bit 24 (ucast cpu_apic)))"

definition ioapic_mask :: "u8 \<Rightarrow> 'z dev_sys_scheme \<Rightarrow> (unit \<times> 'z dev_sys_scheme) outcome" where
  "ioapic_mask irq =
     bindk (ioapicwrite (IOAPIC_REG_TABLE + 2 * ucast irq) (INT_DISABLED OR IDT_ENTRY_IRQ_SPURIOUS)) (\<lambda>_.
     ioapicwrite (IOAPIC_REG_TABLE + 2 * ucast irq + 1) 0)"

section \<open>System tick (\<^verbatim>\<open>time/systick.c\<close>)\<close>

definition systick :: "'z dev_sys_scheme \<Rightarrow> (u64 \<times> 'z dev_sys_scheme) outcome" where
  "systick s = Ret (sys_tick s, s)"

definition systick_init :: "'z dev_sys_scheme \<Rightarrow> (unit \<times> 'z dev_sys_scheme) outcome" where
  "systick_init s = Ret ((), s\<lparr>sys_tick := 0\<rparr>)"

definition systick_increment :: "'z dev_sys_scheme \<Rightarrow> (unit \<times> 'z dev_sys_scheme) outcome" where
  "systick_increment s = Ret ((), s\<lparr>sys_tick := sys_tick s + 1\<rparr>)"

section \<open>What the interrupt controller makes of the accesses\<close>

text \<open>The registers of an IOAPIC at address \<open>a\<close>: the selected register and the values stored so far.\<close>

fun ioapic_event :: "ptr \<Rightarrow> io_event \<Rightarrow> u32 \<times> (u32 \<Rightarrow> u32) \<Rightarrow> u32 \<times> (u32 \<Rightarrow> u32)" where
  "ioapic_event a (Wr x v) (sel, regs) =
     (if x = a then (v, regs) else if x = a + 16 then (sel, regs(sel := v)) else (sel, regs))"
| "ioapic_event a _ st = st"

definition ioapic_regs :: "ptr \<Rightarrow> io_event list \<Rightarrow> u32 \<Rightarrow> u32" where
  "ioapic_regs a tr = snd (fold (ioapic_event a) tr (0, \<lambda>_. 0))"

lemma ioapicwrite_eq:
  "ioapicwrite reg data s = Ret ((), s\<lparr>io_trace := io_trace s @ [Wr (ioapic s) reg, Wr (ioapic s + 16) data]\<rparr>)"
  by (simp add: ioapicwrite_def bindk_def mmio_write_def)

lemma word_plus_16: "(a :: u64) + 16 \<noteq> a"
  by simp

lemma ioapicwrite_regs:
  assumes "ioapicwrite reg data s = Ret ((), t)"
  shows "ioapic t = ioapic s" and "ioapic_regs (ioapic t) (io_trace t) = (ioapic_regs (ioapic s) (io_trace s))(reg := data)"
proof -
  have t: "t = s\<lparr>io_trace := io_trace s @ [Wr (ioapic s) reg, Wr (ioapic s + 16) data]\<rparr>"
    using assms by (simp add: ioapicwrite_eq)
  show "ioapic t = ioapic s" by (simp add: t)
  obtain sel regs where "fold (ioapic_event (ioapic s)) (io_trace s) (0, \<lambda>_. 0) = (sel, regs)" by fastforce
  then show "ioapic_regs (ioapic t) (io_trace t) = (ioapic_regs (ioapic s) (io_trace s))(reg := data)"
    by (simp add: t ioapic_regs_def)
qed

lemma table_regs:
  assumes "i < 256" "j < (256 :: nat)"
  shows "IOAPIC_REG_TABLE + 2 * of_nat i = IOAPIC_REG_TABLE + 2 * of_nat j \<longleftrightarrow> i = j"
    and "IOAPIC_REG_TABLE + 2 * of_nat i + 1 \<noteq> IOAPIC_REG_TABLE + 2 * of_nat j"
    and "IOAPIC_REG_TABLE + 2 * of_nat i + 1 = IOAPIC_REG_TABLE + 2 * of_nat j + 1 \<longleftrightarrow> i = j"
proof -
  have u: "unat (IOAPIC_REG_TABLE + 2 * of_nat k) = 16 + 2 * k" "unat (IOAPIC_REG_TABLE + 2 * of_nat k + 1) = 17 + 2 * k"
    if "k < 256" for k :: nat
    using that by (simp_all add: IOAPIC_REG_TABLE_def unat_word_ariths unat_of_nat)
  note a = u [OF assms(1)] and b = u [OF assms(2)]
  show "IOAPIC_REG_TABLE + 2 * of_nat i = IOAPIC_REG_TABLE + 2 * of_nat j \<longleftrightarrow> i = j"
    unfolding word_unat_eq_iff a(1) b(1) by simp
  show "IOAPIC_REG_TABLE + 2 * of_nat i + 1 \<noteq> IOAPIC_REG_TABLE + 2 * of_nat j"
    unfolding word_unat_eq_iff a(2) b(1) by presburger
  show "IOAPIC_REG_TABLE + 2 * of_nat i + 1 = IOAPIC_REG_TABLE + 2 * of_nat j + 1 \<longleftrightarrow> i = j"
    unfolding word_unat_eq_iff a(2) b(2) by simp
qed

lemma ioapic_mask_from_ok:
  "i + n \<le> 256 \<Longrightarrow> \<exists>t. ioapic_mask_from n (of_nat i) s = Ret ((), t) \<and> ioapic t = ioapic s
     \<and> (\<forall>k < 256. ioapic_regs (ioapic t) (io_trace t) (IOAPIC_REG_TABLE + 2 * of_nat k)
          = (if i \<le> k \<and> k < i + n then INT_DISABLED OR (IDT_ENTRY_IRQ_0 + of_nat k)
             else ioapic_regs (ioapic s) (io_trace s) (IOAPIC_REG_TABLE + 2 * of_nat k)))"
proof (induction n arbitrary: i s)
  case 0
  then show ?case by (auto simp: retk_def)
next
  case (Suc n)
  obtain t where t: "ioapicwrite (IOAPIC_REG_TABLE + 2 * of_nat i) (INT_DISABLED OR (IDT_ENTRY_IRQ_0 + of_nat i)) s = Ret ((), t)"
    by (simp add: ioapicwrite_eq)
  obtain u where u: "ioapicwrite (IOAPIC_REG_TABLE + 2 * of_nat i + 1) 0 t = Ret ((), u)"
    by (simp add: ioapicwrite_eq)
  note rt = ioapicwrite_regs [OF t] and ru = ioapicwrite_regs [OF u]
  have "Suc i + n \<le> 256" using Suc.prems by simp
  from Suc.IH [OF this, of u] obtain v where v: "ioapic_mask_from n (of_nat (Suc i)) u = Ret ((), v)" "ioapic v = ioapic u"
      "\<forall>k < 256. ioapic_regs (ioapic v) (io_trace v) (IOAPIC_REG_TABLE + 2 * of_nat k)
          = (if Suc i \<le> k \<and> k < Suc i + n then INT_DISABLED OR (IDT_ENTRY_IRQ_0 + of_nat k)
             else ioapic_regs (ioapic u) (io_trace u) (IOAPIC_REG_TABLE + 2 * of_nat k))" by blast
  have run: "ioapic_mask_from (Suc n) (of_nat i) s = Ret ((), v)"
    using t u v(1) by (simp add: bindk_def add.commute)
  have i: "i < 256" using Suc.prems by simp
  have "ioapic_regs (ioapic v) (io_trace v) (IOAPIC_REG_TABLE + 2 * of_nat k)
          = (if i \<le> k \<and> k < i + Suc n then INT_DISABLED OR (IDT_ENTRY_IRQ_0 + of_nat k)
             else ioapic_regs (ioapic s) (io_trace s) (IOAPIC_REG_TABLE + 2 * of_nat k))" if k: "k < 256" for k
  proof -
    have "ioapic_regs (ioapic u) (io_trace u) (IOAPIC_REG_TABLE + 2 * of_nat k)
        = (if k = i then INT_DISABLED OR (IDT_ENTRY_IRQ_0 + of_nat i)
           else ioapic_regs (ioapic s) (io_trace s) (IOAPIC_REG_TABLE + 2 * of_nat k))"
      using table_regs(1) [OF k i] table_regs(2) [OF i k] by (simp only: ru(2) rt(2) fun_upd_apply) auto
    then show ?thesis using v(3) k by auto
  qed
  then show ?case using run v(2) ru(1) rt(1) by auto
qed

lemma INT_DISABLED_bit: "bit (INT_DISABLED OR x) 16"
  by (simp add: INT_DISABLED_def bit_simps)

text \<open>C32: after \<^verbatim>\<open>ioapic_init\<close> every input of the interrupt controller is masked; a following \<^verbatim>\<open>ioapic_unmask\<close> opens
  exactly the given input, with the given vector and destination, and all other inputs stay masked.\<close>

theorem ioapic_opens_only_unmasked:
  fixes s :: "'z dev_sys_scheme"
  assumes "unat irq \<le> unat (drop_bit 16 ver AND 0xFF :: u32)"
    and "ver = dev_rd s (io_trace s @ [Wr (P2KV IOAPIC) 1]) (P2KV IOAPIC + 16)"
  shows "\<exists>t u. ioapic_init s = Ret ((), t) \<and> ioapic_unmask irq vec cpu_apic t = Ret ((), u)
     \<and> (\<forall>k \<le> unat (drop_bit 16 ver AND 0xFF).
          bit (ioapic_regs (P2KV IOAPIC) (io_trace t) (IOAPIC_REG_TABLE + 2 * of_nat k)) 16
        \<and> (if k = unat irq
           then ioapic_regs (P2KV IOAPIC) (io_trace u) (IOAPIC_REG_TABLE + 2 * of_nat k) = ucast vec
              \<and> ioapic_regs (P2KV IOAPIC) (io_trace u) (IOAPIC_REG_TABLE + 2 * of_nat k + 1) = push_bit 24 (ucast cpu_apic)
           else bit (ioapic_regs (P2KV IOAPIC) (io_trace u) (IOAPIC_REG_TABLE + 2 * of_nat k)) 16))"
proof -
  let ?n = "unat (drop_bit 16 ver AND 0xFF :: u32)" and ?a = "P2KV IOAPIC"
  have "drop_bit 16 ver AND 0xFF \<le> (0xFF :: u32)" by (rule word_and_le1)
  then have n: "?n \<le> 255" by (simp add: word_le_nat_alt)
  let ?s1 = "s\<lparr>ioapic := ?a, io_trace := io_trace s @ [Wr ?a 1, Rd (?a + 16) ver]\<rparr>"
  have rd: "ioapicread 1 (s\<lparr>ioapic := ?a\<rparr>) = Ret (ver, ?s1)"
    using assms(2) by (simp add: ioapicread_def bindk_def mmio_write_def mmio_read_def Let_def)
  have "0 + (?n + 1) \<le> 256" using n by simp
  from ioapic_mask_from_ok [OF this, of ?s1] obtain t where t: "ioapic_mask_from (?n + 1) 0 ?s1 = Ret ((), t)" "ioapic t = ?a"
      "\<forall>k < 256. k < ?n + 1 \<longrightarrow> ioapic_regs ?a (io_trace t) (IOAPIC_REG_TABLE + 2 * of_nat k) = INT_DISABLED OR (IDT_ENTRY_IRQ_0 + of_nat k)"
    by auto
  have i: "ioapic_init s = Ret ((), t)" using rd t(1) by (simp add: ioapic_init_def bindk_def Let_def)
  obtain w where w: "ioapicwrite (IOAPIC_REG_TABLE + 2 * ucast irq) (ucast vec) t = Ret ((), w)" by (simp add: ioapicwrite_eq)
  obtain u where u: "ioapicwrite (IOAPIC_REG_TABLE + 2 * ucast irq + 1) (push_bit 24 (ucast cpu_apic)) w = Ret ((), u)"
    by (simp add: ioapicwrite_eq)
  note rw = ioapicwrite_regs [OF w] and ru = ioapicwrite_regs [OF u]
  have un: "ioapic_unmask irq vec cpu_apic t = Ret ((), u)" using w u by (simp add: ioapic_unmask_def bindk_def)
  have irq: "unat irq < 256" "(ucast irq :: u32) = of_nat (unat irq)" using assms(1) n by auto
  have au: "ioapic u = ?a" "ioapic w = ?a" using ru(1) rw(1) t(2) by simp_all
  have regs: "ioapic_regs ?a (io_trace u) = (ioapic_regs ?a (io_trace t))
      (IOAPIC_REG_TABLE + 2 * of_nat (unat irq) := ucast vec, IOAPIC_REG_TABLE + 2 * of_nat (unat irq) + 1 := push_bit 24 (ucast cpu_apic))"
    using ru(2) rw(2) unfolding au t(2) irq(2) by simp
  have "bit (ioapic_regs ?a (io_trace t) (IOAPIC_REG_TABLE + 2 * of_nat k)) 16
        \<and> (if k = unat irq
           then ioapic_regs ?a (io_trace u) (IOAPIC_REG_TABLE + 2 * of_nat k) = ucast vec
              \<and> ioapic_regs ?a (io_trace u) (IOAPIC_REG_TABLE + 2 * of_nat k + 1) = push_bit 24 (ucast cpu_apic)
           else bit (ioapic_regs ?a (io_trace u) (IOAPIC_REG_TABLE + 2 * of_nat k)) 16)" if k: "k \<le> ?n" for k
  proof -
    have k2: "k < 256" using k n by simp
    have tk: "ioapic_regs ?a (io_trace t) (IOAPIC_REG_TABLE + 2 * of_nat k) = INT_DISABLED OR (IDT_ENTRY_IRQ_0 + of_nat k)"
      using t(3) k k2 by simp
    have a: "IOAPIC_REG_TABLE + 2 * of_nat k = IOAPIC_REG_TABLE + 2 * of_nat (unat irq) \<longleftrightarrow> k = unat irq"
      "IOAPIC_REG_TABLE + 2 * of_nat k \<noteq> IOAPIC_REG_TABLE + 2 * of_nat (unat irq) + 1"
      using table_regs(1) [OF k2 irq(1)] table_regs(2) [OF irq(1) k2] by auto
    show ?thesis
      unfolding regs fun_upd_apply tk a(1) using a(2) INT_DISABLED_bit by (cases "k = unat irq") simp_all
  qed
  then show ?thesis using i un by blast
qed

text \<open>A machine with an IOAPIC of 24 inputs, whose other devices answer 0x61.\<close>

definition demo_dev :: dev_sys where
  "demo_dev = \<lparr>mem = (\<lambda>_. 0), rflags = 0, lapic_id_reg = 0, ncpu = 1,
     cpus = [demo_cpu\<lparr>cpu_proc := 0x4000\<rparr>],
     locks = (\<lambda>l. \<lparr>locked = 0, lk_name = [], lk_cpu = None\<rparr>),
     begin_kva = 0, end_kva = 0, boot_alloc_initialized = True, pgalloc_bins = [], max_addr = 0, size_list = 0, kern_pml4 = 0, cr3 = 0,
     procs = (\<lambda>_. zero_proc\<lparr>p_state := RUNNING\<rparr>), next_pid = 1, ptable_proc = 0x4000, idle_proc = 0x40000,
     ready_queue = 0x1000, waiting_queue = 0x1100, addr_of = (\<lambda>_. 0x1000),
     dev_in = (\<lambda>_ _. 0x61), dev_rd = (\<lambda>_ _. 0x170011), msr = (\<lambda>_. 0), io_trace = [], lapic = 0, ioapic = 0, sys_tick = 0\<rparr>"

theorem ioapic_opens_only_unmasked_witness:
  "\<exists>t u. ioapic_init demo_dev = Ret ((), t) \<and> ioapic_unmask 4 36 0 t = Ret ((), u)"
proof -
  have "unat (4 :: u8) \<le> unat (drop_bit 16 (0x170011 :: u32) AND 0xFF)" by code_simp
  moreover have "0x170011 = dev_rd demo_dev (io_trace demo_dev @ [Wr (P2KV IOAPIC) 1]) (P2KV IOAPIC + 16)" by (simp add: demo_dev_def)
  ultimately show ?thesis using ioapic_opens_only_unmasked [where vec = 36 and cpu_apic = 0] by blast
qed

section \<open>Sending a byte\<close>

text \<open>The accesses of \<open>n\<close> polls of the port \<open>p\<close>, and what the device answers after them.\<close>

primrec polled :: "(io_event list \<Rightarrow> u16 \<Rightarrow> u8) \<Rightarrow> u16 \<Rightarrow> nat \<Rightarrow> io_event list \<Rightarrow> io_event list" where
  "polled d p 0 tr = tr"
| "polled d p (Suc n) tr = polled d p n (tr @ [In p (d tr p)])"

definition answer :: "(io_event list \<Rightarrow> u16 \<Rightarrow> u8) \<Rightarrow> u16 \<Rightarrow> nat \<Rightarrow> io_event list \<Rightarrow> u8" where
  "answer d p n tr = d (polled d p n tr) p"

lemma answer_Suc: "answer d p (Suc n) tr = answer d p n (tr @ [In p (d tr p)])"
  by (simp add: answer_def)

lemma uart_wait_step:
  assumes "mmio_base u = NULL"
  shows "uart_wait u s = (let p = pio_base u + 5; t = s\<lparr>io_trace := io_trace s @ [In p (dev_in s (io_trace s) p)]\<rparr>
     in if answer (dev_in s) p 0 (io_trace s) AND 0x20 = 0 then uart_wait u t else Some t)"
  using assms by (subst uart_wait.simps) (simp add: uart_read_def inb_def Let_def answer_def)

lemma uart_wait_returns:
  assumes u: "mmio_base u = NULL"
  shows "answer (dev_in s) (pio_base u + 5) k (io_trace s) AND 0x20 \<noteq> 0 \<Longrightarrow>
    \<exists>j \<le> k. uart_wait u s = Some (s\<lparr>io_trace := polled (dev_in s) (pio_base u + 5) (Suc j) (io_trace s)\<rparr>)"
proof (induction k arbitrary: s)
  case 0
  then show ?case using uart_wait_step [OF u, of s] by (simp add: Let_def)
next
  case (Suc k)
  let ?p = "pio_base u + 5" let ?t = "s\<lparr>io_trace := io_trace s @ [In ?p (dev_in s (io_trace s) ?p)]\<rparr>"
  show ?case
  proof (cases "answer (dev_in s) ?p 0 (io_trace s) AND 0x20 = 0")
    case True
    have "answer (dev_in ?t) ?p k (io_trace ?t) AND 0x20 \<noteq> 0" using Suc.prems by (simp add: answer_Suc)
    from Suc.IH [OF this] obtain j where "j \<le> k" "uart_wait u ?t = Some (?t\<lparr>io_trace := polled (dev_in s) ?p (Suc j) (io_trace ?t)\<rparr>)" by auto
    then show ?thesis using True uart_wait_step [OF u, of s] by (intro exI [of _ "Suc j"]) (simp add: Let_def)
  next
    case False
    then show ?thesis using uart_wait_step [OF u, of s] by (intro exI [of _ 0]) (simp add: Let_def)
  qed
qed

lemma uart_wait_ends:
  assumes u: "mmio_base u = NULL" and w: "uart_wait u s = Some t"
  shows "\<exists>k. answer (dev_in s) (pio_base u + 5) k (io_trace s) AND 0x20 \<noteq> 0"
  using w u
proof (induction rule: uart_wait.raw_induct [rotated, consumes 1])
  case (1 f u s t)
  let ?p = "pio_base u + 5" let ?t = "s\<lparr>io_trace := io_trace s @ [In ?p (dev_in s (io_trace s) ?p)]\<rparr>"
  show ?case
  proof (cases "answer (dev_in s) ?p 0 (io_trace s) AND 0x20 = 0")
    case True
    then have "f u ?t = Some t" using 1(2,3) by (simp add: uart_read_def inb_def Let_def answer_def)
    from 1(1) [OF this 1(3)] obtain k where "answer (dev_in s) ?p k (io_trace ?t) AND 0x20 \<noteq> 0" by auto
    then have "answer (dev_in s) ?p (Suc k) (io_trace s) AND 0x20 \<noteq> 0" by (simp add: answer_Suc)
    then show ?thesis by blast
  qed blast
qed

lemma uart_putc_cases:
  fixes s :: "'z dev_sys_scheme"
  assumes u: "mmio_base u = NULL" and c: "c \<noteq> BACKSPACE"
  shows "(\<exists>k. answer (dev_in s) (pio_base u + 5) k (io_trace s) AND 0x20 \<noteq> 0) \<longleftrightarrow> (\<exists>t. uart_putc (Some u) c s = Ret ((), t))"
    and "uart_putc (Some u) c s = Ret ((), t) \<Longrightarrow>
      \<exists>j. t = s\<lparr>io_trace := polled (dev_in s) (pio_base u + 5) (Suc j) (io_trace s) @ [Out (pio_base u) (ucast c)]\<rparr>"
proof -
  have run: "uart_putc (Some u) c s = (case uart_wait u s of None \<Rightarrow> Hang | Some t \<Rightarrow> outb (pio_base u) (ucast c) t)"
    using u c by (simp add: uart_putc_def s_uart_putc_def uart_write_def split: option.splits)
  show "(\<exists>k. answer (dev_in s) (pio_base u + 5) k (io_trace s) AND 0x20 \<noteq> 0) \<longleftrightarrow> (\<exists>t. uart_putc (Some u) c s = Ret ((), t))"
    using uart_wait_returns [OF u, of s] uart_wait_ends [OF u, of s]
    by (cases "uart_wait u s") (auto simp: run outb_def)
  show "\<exists>j. t = s\<lparr>io_trace := polled (dev_in s) (pio_base u + 5) (Suc j) (io_trace s) @ [Out (pio_base u) (ucast c)]\<rparr>"
    if r: "uart_putc (Some u) c s = Ret ((), t)"
  proof -
    obtain w where w: "uart_wait u s = Some w" using r run by (cases "uart_wait u s") auto
    obtain k where "answer (dev_in s) (pio_base u + 5) k (io_trace s) AND 0x20 \<noteq> 0" using uart_wait_ends [OF u w] by blast
    then obtain j where "w = s\<lparr>io_trace := polled (dev_in s) (pio_base u + 5) (Suc j) (io_trace s)\<rparr>"
      using uart_wait_returns [OF u, of s k] w by auto
    then show ?thesis using r run w by (auto simp: outb_def simp del: polled.simps)
  qed
qed

text \<open>C31: \<^verbatim>\<open>uart_putc\<close> on a port-mapped UART returns if and only if the device reports an empty transmitter after
  finitely many polls; then it has done nothing but poll and write the byte to the data register, once.\<close>

theorem uart_putc_terminates:
  fixes s :: "'z dev_sys_scheme"
  assumes "mmio_base u = NULL" and "c \<noteq> BACKSPACE"
  shows "((\<exists>k. answer (dev_in s) (pio_base u + 5) k (io_trace s) AND 0x20 \<noteq> 0) \<longleftrightarrow> (\<exists>t. uart_putc (Some u) c s = Ret ((), t)))
     \<and> (\<forall>t. uart_putc (Some u) c s = Ret ((), t) \<longrightarrow>
          (\<exists>j. t = s\<lparr>io_trace := polled (dev_in s) (pio_base u + 5) (Suc j) (io_trace s) @ [Out (pio_base u) (ucast c)]\<rparr>))"
  using uart_putc_cases [OF assms] by blast

theorem uart_putc_terminates_witness:
  "\<exists>t. uart_putc (Some \<lparr>mmio_base = 0, pio_base = UART_COM1\<rparr>) 65 demo_dev = Ret ((), t)"
proof -
  have "answer (dev_in demo_dev) (UART_COM1 + 5) 0 (io_trace demo_dev) AND 0x20 \<noteq> 0"
    by (simp add: answer_def demo_dev_def)
  then show ?thesis
    using uart_putc_terminates [of "\<lparr>mmio_base = 0, pio_base = UART_COM1\<rparr>" 65 demo_dev] by (auto simp: BACKSPACE_def)
qed

section \<open>Waiting for the clock\<close>

text \<open>
  \<^verbatim>\<open>spin_sleep\<close> only reads the tick counter, which the timer interrupt advances meanwhile: \<open>clock n\<close> is what the
  \<open>n\<close>-th read of the call returns. The result is the number of reads.
\<close>

partial_function (option) spin_wait :: "(nat \<Rightarrow> u64) \<Rightarrow> u64 \<Rightarrow> nat \<Rightarrow> nat option" where
  "spin_wait clock target n = (if clock n < target then spin_wait clock target (Suc n) else Some (Suc n))"

definition spin_sleep :: "(nat \<Rightarrow> u64) \<Rightarrow> u64 \<Rightarrow> nat option" where
  "spin_sleep clock ticks = (let target = ticks + clock 0 in spin_wait clock target 1)"

lemma spin_wait_until:
  "spin_wait clock target n = Some k \<Longrightarrow> n < k \<and> target \<le> clock (k - 1) \<and> (\<forall>i. n \<le> i \<and> i < k - 1 \<longrightarrow> clock i < target)"
proof (induction rule: spin_wait.raw_induct [rotated, consumes 1])
  case (1 f clock target n k)
  show ?case
  proof (cases "clock n < target")
    case True
    then have "f clock target (Suc n) = Some k" using 1(2) by simp
    from 1(1) [OF this] True show ?thesis by (auto simp: Suc_le_eq) (metis le_neq_implies_less Suc_le_eq)
  next
    case False
    then show ?thesis using 1(2) by auto
  qed
qed

lemma spin_wait_ends:
  "n \<le> j \<Longrightarrow> target \<le> clock j \<Longrightarrow> \<exists>k. spin_wait clock target n = Some k"
proof (induction "j - n" arbitrary: n)
  case 0
  then show ?case by (subst spin_wait.simps) auto
next
  case (Suc d)
  show ?case
  proof (cases "clock n < target")
    case True
    then have "Suc n \<le> j" using Suc.prems Suc.hyps by (metis Suc_leI le_neq_implies_less not_le)
    then show ?thesis using Suc.hyps(1) [of "Suc n"] Suc.hyps(2) Suc.prems(2) True by (subst spin_wait.simps) auto
  next
    case False
    then show ?thesis by (subst spin_wait.simps) auto
  qed
qed

text \<open>\<^verbatim>\<open>spin_sleep\<close> returns if and only if some later read shows a tick count of at least start plus \<^verbatim>\<open>ticks\<close> (as
  64-bit words), and it returns at the first such read: not before \<^verbatim>\<open>ticks\<close> ticks have passed, unless the sum
  overflows.\<close>

theorem spin_sleep_waits:
  "((\<exists>k. spin_sleep clock ticks = Some k) \<longleftrightarrow> (\<exists>j \<ge> 1. ticks + clock 0 \<le> clock j))
   \<and> (\<forall>k. spin_sleep clock ticks = Some k \<and> unat ticks + unat (clock 0) < 2 ^ 64 \<longrightarrow>
        unat (clock 0) + unat ticks \<le> unat (clock (k - 1)) \<and> (\<forall>i. 1 \<le> i \<and> i < k - 1 \<longrightarrow> unat (clock i) < unat (clock 0) + unat ticks))"
proof -
  have sum: "unat (ticks + clock 0) = unat ticks + unat (clock 0)" if "unat ticks + unat (clock 0) < 2 ^ 64"
    using that by (simp add: unat_word_ariths)
  have "(\<exists>k. spin_sleep clock ticks = Some k) \<longleftrightarrow> (\<exists>j \<ge> 1. ticks + clock 0 \<le> clock j)"
  proof
    assume "\<exists>k. spin_sleep clock ticks = Some k"
    then obtain k where "spin_wait clock (ticks + clock 0) 1 = Some k" by (auto simp: spin_sleep_def)
    from spin_wait_until [OF this] show "\<exists>j \<ge> 1. ticks + clock 0 \<le> clock j" by (intro exI [of _ "k - 1"]) auto
  qed (use spin_wait_ends in \<open>auto simp: spin_sleep_def\<close>)
  moreover have "unat (clock 0) + unat ticks \<le> unat (clock (k - 1)) \<and> (\<forall>i. 1 \<le> i \<and> i < k - 1 \<longrightarrow> unat (clock i) < unat (clock 0) + unat ticks)"
    if k: "spin_sleep clock ticks = Some k" and b: "unat ticks + unat (clock 0) < 2 ^ 64" for k
  proof -
    have "spin_wait clock (ticks + clock 0) 1 = Some k" using k by (simp add: spin_sleep_def)
    from spin_wait_until [OF this] sum [OF b] show ?thesis by (simp add: word_le_nat_alt word_less_nat_alt add.commute)
  qed
  ultimately show ?thesis by blast
qed

theorem spin_sleep_waits_witness:
  "\<exists>k. spin_sleep (\<lambda>n. of_nat (n div 3)) 2 = Some k \<and> 2 \<le> unat (of_nat ((k - 1) div 3) :: u64)"
proof -
  have "2 + of_nat (0 div 3) \<le> (of_nat (6 div 3) :: u64)" by simp
  then have "\<exists>j \<ge> 1. 2 + of_nat (0 div 3) \<le> (of_nat (j div 3) :: u64)" by (intro exI [of _ 6]) simp
  then obtain k where k: "spin_sleep (\<lambda>n. of_nat (n div 3)) 2 = Some k"
    using spin_sleep_waits [of "\<lambda>n. of_nat (n div 3)" 2] by blast
  moreover have "unat (2 :: u64) + unat (of_nat (0 div 3) :: u64) < 2 ^ 64" by simp
  ultimately show ?thesis using spin_sleep_waits [of "\<lambda>n. of_nat (n div 3)" 2] by (intro exI [of _ k]) auto
qed

end
