(* ===== verification/Fifo.thy ===== *)
theory Fifo
  imports Memory
begin

text \<open>
  The single-producer single-consumer ring buffer \<^verbatim>\<open>kernel/src/util/fifo.c\<close>: the operations as the code runs
  them, a bounded queue as their specification, and the interleaving of a producer (the interrupt handler) and a
  consumer (a process) at the granularity of the atomic loads and stores.
\<close>

section \<open>State and operations\<close>

datatype os_error = OSERR_OK | OSERR_INVALID_ARGUMENT | OSERR_NO_MEMORY

record spsc_fifo =
  fbuf :: "nat \<Rightarrow> u8"
  fsize :: u64
  fread :: u64
  fwatermark :: u64
  fwrite :: u64

text \<open>
  A null pointer argument is \<open>None\<close>. The buffer is the array of \<^verbatim>\<open>buffer_size\<close> bytes the caller provides; an index
  outside it and a division by a size of 0 have no meaning in C.
\<close>

definition spsc_fifo_init :: "spsc_fifo option \<Rightarrow> (nat \<Rightarrow> u8) \<Rightarrow> u64 \<Rightarrow> os_error \<times> spsc_fifo option" where
  "spsc_fifo_init f buffer buffer_size = (case f of
      None \<Rightarrow> (OSERR_INVALID_ARGUMENT, None)
    | Some f \<Rightarrow> (OSERR_OK, Some (f\<lparr>fbuf := buffer, fsize := buffer_size, fread := 0, fwrite := 0\<rparr>)))"

definition spsc_fifo_write :: "spsc_fifo option \<Rightarrow> u8 \<Rightarrow> (os_error \<times> spsc_fifo option) outcome" where
  "spsc_fifo_write f byte = (case f of
      None \<Rightarrow> Ret (OSERR_INVALID_ARGUMENT, None)
    | Some f \<Rightarrow>
        let cur_read = fread f; cur_write = fwrite f
        in if fsize f = 0 then Undef ''division by zero''
           else if (cur_write + 1) mod fsize f = cur_read then Ret (OSERR_NO_MEMORY, Some f)
           else if fsize f \<le> cur_write then Undef ''buffer index''
           else Ret (OSERR_OK, Some (f\<lparr>fbuf := (fbuf f)(unat cur_write := byte),
                                      fwrite := (cur_write + 1) mod fsize f\<rparr>)))"

text \<open>The result of \<^verbatim>\<open>spsc_fifo_read\<close>: the value stored through \<^verbatim>\<open>pOut\<close>, or \<open>None\<close> for the return value -1.\<close>

definition spsc_fifo_read :: "spsc_fifo option \<Rightarrow> bool \<Rightarrow> (u8 option \<times> spsc_fifo option) outcome" where
  "spsc_fifo_read f pOut = (case f of
      None \<Rightarrow> Ret (None, None)
    | Some f \<Rightarrow>
        if \<not> pOut then Ret (None, Some f)
        else
          let cur_read = fread f; cur_write = fwrite f
          in if cur_read = cur_write then Ret (None, Some f)
             else if fsize f \<le> cur_read then Undef ''buffer index''
             else if fsize f = 0 then Undef ''division by zero''
             else Ret (Some (fbuf f (unat cur_read)), Some (f\<lparr>fread := (cur_read + 1) mod fsize f\<rparr>)))"

section \<open>The bounded queue it implements\<close>

text \<open>The bytes between the read and the write index, oldest first.\<close>

definition fifo_ok :: "spsc_fifo \<Rightarrow> bool" where
  "fifo_ok f \<longleftrightarrow> 0 < unat (fsize f) \<and> unat (fread f) < unat (fsize f) \<and> unat (fwrite f) < unat (fsize f)"

definition used :: "nat \<Rightarrow> nat \<Rightarrow> nat \<Rightarrow> nat" where
  "used n r w = (w + n - r) mod n"

definition contents :: "spsc_fifo \<Rightarrow> u8 list" where
  "contents f = (let n = unat (fsize f) in
     map (\<lambda>k. fbuf f ((unat (fread f) + k) mod n)) [0..<used n (unat (fread f)) (unat (fwrite f))])"

lemma used_cases:
  assumes "r < n" "w < n"
  shows "used n r w = (if r \<le> w then w - r else n + w - r)" and "used n r w < n"
  using assms by (auto simp: used_def mod_if)

lemma used_write:
  assumes "r < n" "w < n" "(w + 1) mod n \<noteq> r"
  shows "used n r ((w + 1) mod n) = used n r w + 1" and "(r + used n r w) mod n = w"
proof -
  have w1: "(w + 1) mod n < n" "(w + 1) mod n = (if w + 1 = n then 0 else w + 1)" using assms by (auto simp: mod_if)
  show "used n r ((w + 1) mod n) = used n r w + 1"
    using used_cases(1) [OF assms(1,2)] used_cases(1) [OF assms(1) w1(1)] w1(2) assms by (auto split: if_splits)
  show "(r + used n r w) mod n = w" using used_cases(1) [OF assms(1,2)] assms by (auto simp: mod_if)
qed

lemma used_full: "r < n \<Longrightarrow> w < n \<Longrightarrow> (w + 1) mod n = r \<longleftrightarrow> used n r w = n - 1"
  using used_cases(1) [of r n w] by (auto simp: mod_if split: if_splits)

lemma used_empty: "r < n \<Longrightarrow> w < n \<Longrightarrow> used n r w = 0 \<longleftrightarrow> r = w"
  using used_cases(1) [of r n w] by auto

lemma used_read:
  assumes "r < n" "w < n" "r \<noteq> w"
  shows "used n r w = Suc (used n ((r + 1) mod n) w)"
proof -
  have r1: "(r + 1) mod n < n" "(r + 1) mod n = (if r + 1 = n then 0 else r + 1)" using assms by (auto simp: mod_if)
  show ?thesis
    using used_cases(1) [OF assms(1,2)] used_cases(1) [OF r1(1) assms(2)] r1(2) assms by (auto split: if_splits)
qed

lemma unat_next:
  assumes "unat (w :: u64) < unat n"
  shows "unat ((w + 1) mod n) = (unat w + 1) mod unat n"
proof -
  have "unat (w + 1) = unat w + 1" using assms unat_lt_2_64 [of n] unat_add_of_nat [of w 1] by simp
  then show ?thesis by (simp add: unat_mod)
qed

lemma contents_write:
  fixes f :: spsc_fifo and b :: u8
  assumes ok: "fifo_ok f" and room: "(fwrite f + 1) mod fsize f \<noteq> fread f"
  defines "g \<equiv> f\<lparr>fbuf := (fbuf f)(unat (fwrite f) := b), fwrite := (fwrite f + 1) mod fsize f\<rparr>"
  shows "fifo_ok g" and "contents g = contents f @ [b]"
proof -
  let ?n = "unat (fsize f)" and ?r = "unat (fread f)" and ?w = "unat (fwrite f)"
  have lt: "?r < ?n" "?w < ?n" and n0: "0 < ?n" using ok by (auto simp: fifo_ok_def)
  have nx: "unat ((fwrite f + 1) mod fsize f) = (?w + 1) mod ?n" by (rule unat_next [OF lt(2)])
  then have ne: "(?w + 1) mod ?n \<noteq> ?r" using room by (metis word_unat_eq_iff)
  show "fifo_ok g" using ok nx n0 by (simp add: fifo_ok_def g_def)
  note u = used_write [OF lt ne]
  have "fbuf g ((?r + k) mod ?n) = fbuf f ((?r + k) mod ?n)" if k: "k < used ?n ?r ?w" for k
  proof -
    have "(?r + k) mod ?n \<noteq> ?w"
      using k used_cases [OF lt] lt by (auto simp: mod_if split: if_splits)
    then show ?thesis by (simp add: g_def)
  qed
  then show "contents g = contents f @ [b]" using u nx by (simp add: contents_def Let_def g_def)
qed

lemma contents_read:
  assumes ok: "fifo_ok f" and ne: "fread f \<noteq> fwrite f"
  defines "g \<equiv> f\<lparr>fread := (fread f + 1) mod fsize f\<rparr>"
  shows "fifo_ok g" and "contents f = fbuf f (unat (fread f)) # contents g"
proof -
  let ?n = "unat (fsize f)" and ?r = "unat (fread f)" and ?w = "unat (fwrite f)"
  have lt: "?r < ?n" "?w < ?n" and n0: "0 < ?n" using ok by (auto simp: fifo_ok_def)
  have nx: "unat ((fread f + 1) mod fsize f) = (?r + 1) mod ?n" by (rule unat_next [OF lt(1)])
  have ne': "?r \<noteq> ?w" using ne by (simp add: word_unat_eq_iff)
  show "fifo_ok g" using ok nx n0 by (simp add: fifo_ok_def g_def)
  have "(?r + Suc k) mod ?n = ((?r + 1) mod ?n + k) mod ?n" for k by (simp add: mod_simps)
  then show "contents f = fbuf f ?r # contents g"
    using used_read [OF lt ne'] lt nx
    by (simp add: contents_def Let_def g_def upt_conv_Cons map_Suc_upt [symmetric] comp_def del: upt_Suc)
qed

lemma contents_length: "fifo_ok f \<Longrightarrow> length (contents f) < unat (fsize f)"
  using used_cases(2) by (simp add: contents_def Let_def fifo_ok_def)

lemma contents_empty: "fifo_ok f \<Longrightarrow> contents f = [] \<longleftrightarrow> fread f = fwrite f"
  using used_empty by (auto simp: contents_def Let_def fifo_ok_def word_unat_eq_iff)

lemma contents_full:
  "fifo_ok f \<Longrightarrow> (fwrite f + 1) mod fsize f = fread f \<longleftrightarrow> length (contents f) = unat (fsize f) - 1"
  using used_full [of "unat (fread f)" "unat (fsize f)" "unat (fwrite f)"] unat_next [of "fwrite f" "fsize f"]
  by (simp add: contents_def Let_def fifo_ok_def word_unat_eq_iff)

section \<open>The interface of a bounded queue\<close>

text \<open>
  The laws of a queue with a fixed capacity: \<open>items\<close> is what is waiting, \<open>put\<close> fails exactly when the queue is
  full, \<open>take\<close> exactly when it is empty.
\<close>

locale bounded_queue =
  fixes ok :: "'q \<Rightarrow> bool" and items :: "'q \<Rightarrow> 'a list" and capacity :: "'q \<Rightarrow> nat"
    and put :: "'a \<Rightarrow> 'q \<Rightarrow> 'q option" and take :: "'q \<Rightarrow> ('a \<times> 'q) option"
  assumes put_law: "ok q \<Longrightarrow> put a q = None \<longleftrightarrow> capacity q \<le> length (items q)"
    and put_items: "ok q \<Longrightarrow> put a q = Some q' \<Longrightarrow> ok q' \<and> items q' = items q @ [a] \<and> capacity q' = capacity q"
    and take_law: "ok q \<Longrightarrow> take q = None \<longleftrightarrow> items q = []"
    and take_items: "ok q \<Longrightarrow> take q = Some (a, q') \<Longrightarrow> ok q' \<and> items q = a # items q' \<and> capacity q' = capacity q"
    and within: "ok q \<Longrightarrow> length (items q) \<le> capacity q"
begin

text \<open>A sequence of calls: \<open>Inl a\<close> puts, \<open>Inr ()\<close> takes. The results are the accepted and the delivered items.\<close>

fun calls :: "('a + unit) list \<Rightarrow> 'q \<Rightarrow> 'a list \<times> 'a list \<times> 'q" where
  "calls [] q = ([], [], q)"
| "calls (Inl a # cs) q = (case put a q of
      None \<Rightarrow> calls cs q
    | Some q' \<Rightarrow> (case calls cs q' of (acc, del, r) \<Rightarrow> (a # acc, del, r)))"
| "calls (Inr u # cs) q = (case take q of
      None \<Rightarrow> calls cs q
    | Some (a, q') \<Rightarrow> (case calls cs q' of (acc, del, r) \<Rightarrow> (acc, a # del, r)))"

lemma calls_order:
  "ok q \<Longrightarrow> calls cs q = (acc, del, r) \<Longrightarrow> ok r \<and> capacity r = capacity q \<and> items q @ acc = del @ items r"
proof (induction cs q arbitrary: acc del r rule: calls.induct)
  case (2 a cs q)
  show ?case
  proof (cases "put a q")
    case None
    then show ?thesis using 2 by simp
  next
    case (Some q')
    obtain acc' del' r' where c: "calls cs q' = (acc', del', r')" by (cases "calls cs q'")
    note p = put_items [OF 2(3) Some]
    from 2(2) [OF Some _ c] p have "ok r' \<and> capacity r' = capacity q \<and> items q @ a # acc' = del' @ items r'" by simp
    then show ?thesis using 2(4) Some c by auto
  qed
next
  case (3 u cs q)
  show ?case
  proof (cases "take q")
    case None
    then show ?thesis using 3 by simp
  next
    case (Some aq)
    obtain a q' where aq: "aq = (a, q')" by (cases aq)
    obtain acc' del' r' where c: "calls cs q' = (acc', del', r')" by (cases "calls cs q'")
    note t = take_items [OF 3(3), of a q'] 
    have "ok r' \<and> capacity r' = capacity q' \<and> items q' @ acc' = del' @ items r'"
      using 3(2) [OF Some aq [symmetric] _ c] t Some aq by simp
    then show ?thesis using 3(4) Some aq c t by auto
  qed
qed simp

end

text \<open>The ring buffer as such a queue; its capacity is one less than the size of the buffer.\<close>

definition fifo_put :: "u8 \<Rightarrow> spsc_fifo \<Rightarrow> spsc_fifo option" where
  "fifo_put b f = (case spsc_fifo_write (Some f) b of Ret (OSERR_OK, g) \<Rightarrow> g | _ \<Rightarrow> None)"

definition fifo_take :: "spsc_fifo \<Rightarrow> (u8 \<times> spsc_fifo) option" where
  "fifo_take f = (case spsc_fifo_read (Some f) True of Ret (Some b, Some g) \<Rightarrow> Some (b, g) | _ \<Rightarrow> None)"

lemma fifo_sizes:
  assumes "fifo_ok f"
  shows "fsize f \<noteq> 0" "\<not> fsize f \<le> fread f" "\<not> fsize f \<le> fwrite f"
  using assms by (auto simp: fifo_ok_def word_le_nat_alt)

lemma fifo_put_eq:
  assumes "fifo_ok f"
  shows "fifo_put b f = (if length (contents f) < unat (fsize f) - 1
     then Some (f\<lparr>fbuf := (fbuf f)(unat (fwrite f) := b), fwrite := (fwrite f + 1) mod fsize f\<rparr>) else None)"
  using fifo_sizes [OF assms] contents_full [OF assms] contents_length [OF assms]
  by (auto simp: fifo_put_def spsc_fifo_write_def Let_def)

lemma fifo_take_eq:
  assumes "fifo_ok f"
  shows "fifo_take f = (if contents f = [] then None
     else Some (fbuf f (unat (fread f)), f\<lparr>fread := (fread f + 1) mod fsize f\<rparr>))"
  using fifo_sizes [OF assms] contents_empty [OF assms]
  by (auto simp: fifo_take_def spsc_fifo_read_def Let_def)

interpretation ff: bounded_queue fifo_ok contents "\<lambda>f. unat (fsize f) - 1" fifo_put fifo_take
proof
  fix f g :: spsc_fifo and b :: u8
  assume ok: "fifo_ok f"
  show "fifo_put b f = None \<longleftrightarrow> unat (fsize f) - 1 \<le> length (contents f)"
    by (auto simp: fifo_put_eq [OF ok])
  show "fifo_ok g \<and> contents g = contents f @ [b] \<and> unat (fsize g) - 1 = unat (fsize f) - 1" if "fifo_put b f = Some g"
  proof -
    have "(fwrite f + 1) mod fsize f \<noteq> fread f" using that contents_full [OF ok] by (simp add: fifo_put_eq [OF ok] split: if_splits)
    from contents_write [OF ok this, of b] show ?thesis using that by (auto simp: fifo_put_eq [OF ok] split: if_splits)
  qed
  show "fifo_take f = None \<longleftrightarrow> contents f = []" by (simp add: fifo_take_eq [OF ok])
  show "fifo_ok g \<and> contents f = b # contents g \<and> unat (fsize g) - 1 = unat (fsize f) - 1" if "fifo_take f = Some (b, g)"
  proof -
    have "fread f \<noteq> fwrite f" using that contents_empty [OF ok] by (simp add: fifo_take_eq [OF ok] split: if_splits)
    from contents_read [OF ok this] show ?thesis using that by (auto simp: fifo_take_eq [OF ok] split: if_splits)
  qed
  show "length (contents f) \<le> unat (fsize f) - 1" using contents_length [OF ok] by simp
qed

text \<open>C19: the ring buffer is a bounded queue. After \<^verbatim>\<open>spsc_fifo_init\<close> with a buffer of at least one byte it is empty;
  \<^verbatim>\<open>spsc_fifo_write\<close> appends a byte or reports \<^verbatim>\<open>OSERR_NO_MEMORY\<close>, exactly when \<^verbatim>\<open>buffer_size - 1\<close> bytes are
  waiting; \<^verbatim>\<open>spsc_fifo_read\<close> returns -1 exactly when none is waiting and otherwise the oldest one; and any sequence
  of calls delivers the accepted bytes in order, without loss or duplication.\<close>

theorem fifo_refines_bounded_queue:
  assumes "fifo_ok f"
  shows "(if length (contents f) = unat (fsize f) - 1 then spsc_fifo_write (Some f) b = Ret (OSERR_NO_MEMORY, Some f)
          else (\<exists>g. spsc_fifo_write (Some f) b = Ret (OSERR_OK, Some g) \<and> fifo_ok g \<and> contents g = contents f @ [b]))
       \<and> (case contents f of
            [] \<Rightarrow> spsc_fifo_read (Some f) True = Ret (None, Some f)
          | a # as \<Rightarrow> (\<exists>g. spsc_fifo_read (Some f) True = Ret (Some a, Some g) \<and> fifo_ok g \<and> contents g = as))
       \<and> (0 < unat n \<longrightarrow> (\<exists>g. spsc_fifo_init (Some f) buf n = (OSERR_OK, Some g) \<and> fifo_ok g \<and> contents g = []))
       \<and> (bounded_queue.calls fifo_put fifo_take cs f = (acc, del, h) \<longrightarrow> contents f @ acc = del @ contents h)"
proof (intro conjI)
  note sz = fifo_sizes [OF assms]
  show "if length (contents f) = unat (fsize f) - 1 then spsc_fifo_write (Some f) b = Ret (OSERR_NO_MEMORY, Some f)
          else (\<exists>g. spsc_fifo_write (Some f) b = Ret (OSERR_OK, Some g) \<and> fifo_ok g \<and> contents g = contents f @ [b])"
    using sz contents_full [OF assms] contents_write [OF assms, of b] by (auto simp: spsc_fifo_write_def Let_def)
  show "case contents f of
            [] \<Rightarrow> spsc_fifo_read (Some f) True = Ret (None, Some f)
          | a # as \<Rightarrow> (\<exists>g. spsc_fifo_read (Some f) True = Ret (Some a, Some g) \<and> fifo_ok g \<and> contents g = as)"
  proof (cases "fread f = fwrite f")
    case True
    then show ?thesis using contents_empty [OF assms] by (simp add: spsc_fifo_read_def Let_def)
  next
    case False
    then show ?thesis using sz contents_read [OF assms False] by (simp add: spsc_fifo_read_def Let_def)
  qed
  show "0 < unat n \<longrightarrow> (\<exists>g. spsc_fifo_init (Some f) buf n = (OSERR_OK, Some g) \<and> fifo_ok g \<and> contents g = [])"
    by (simp add: spsc_fifo_init_def fifo_ok_def contents_def used_def Let_def)
  show "bounded_queue.calls fifo_put fifo_take cs f = (acc, del, h) \<longrightarrow> contents f @ acc = del @ contents h"
    using ff.calls_order [OF assms] by blast
qed

definition demo_fifo :: spsc_fifo where
  "demo_fifo = \<lparr>fbuf = (\<lambda>_. 0), fsize = 32, fread = 30, fwatermark = 0, fwrite = 30\<rparr>"

theorem fifo_refines_bounded_queue_witness:
  "\<exists>g. spsc_fifo_write (Some demo_fifo) 65 = Ret (OSERR_OK, Some g) \<and> contents g = [65]
     \<and> spsc_fifo_read (Some demo_fifo) True = Ret (None, Some demo_fifo)"
proof -
  have ok: "fifo_ok demo_fifo" and e: "contents demo_fifo = []" and n: "unat (fsize demo_fifo) = 32"
    by (simp_all add: fifo_ok_def demo_fifo_def contents_def used_def Let_def)
  from fifo_refines_bounded_queue [OF ok, of 65] show ?thesis using e n by (simp, blast)
qed

section \<open>Producer and consumer interleaved\<close>

text \<open>
  One call of \<^verbatim>\<open>spsc_fifo_write\<close> by the producer and one of \<^verbatim>\<open>spsc_fifo_read\<close> by the consumer, in the steps that
  other code can observe: the loads of both indices (each side's own index is only changed by itself, so the
  two loads count as one step), the access to the buffer, and the releasing store of the own index. \<open>sent\<close> and
  \<open>got\<close> record the bytes whose call has completed.
\<close>

datatype producer = PIdle | PLoaded u8 u64 u64 | PStored u8 u64
datatype consumer = CIdle | CLoaded u64 u64 | CTaken u64 u8

record spsc =
  ring :: spsc_fifo
  prod :: producer
  cons :: consumer
  sent :: "u8 list"
  got :: "u8 list"

inductive spsc_step :: "spsc \<Rightarrow> spsc \<Rightarrow> bool" where
  p_load: "prod s = PIdle \<Longrightarrow> spsc_step s (s\<lparr>prod := PLoaded b (fread (ring s)) (fwrite (ring s))\<rparr>)"
| p_full: "prod s = PLoaded b r w \<Longrightarrow> (w + 1) mod fsize (ring s) = r \<Longrightarrow> spsc_step s (s\<lparr>prod := PIdle\<rparr>)"
| p_store: "prod s = PLoaded b r w \<Longrightarrow> (w + 1) mod fsize (ring s) \<noteq> r \<Longrightarrow>
    spsc_step s (s\<lparr>prod := PStored b w, ring := (ring s)\<lparr>fbuf := (fbuf (ring s))(unat w := b)\<rparr>\<rparr>)"
| p_publish: "prod s = PStored b w \<Longrightarrow>
    spsc_step s (s\<lparr>prod := PIdle, ring := (ring s)\<lparr>fwrite := (w + 1) mod fsize (ring s)\<rparr>, sent := sent s @ [b]\<rparr>)"
| c_load: "cons s = CIdle \<Longrightarrow> spsc_step s (s\<lparr>cons := CLoaded (fread (ring s)) (fwrite (ring s))\<rparr>)"
| c_empty: "cons s = CLoaded r w \<Longrightarrow> r = w \<Longrightarrow> spsc_step s (s\<lparr>cons := CIdle\<rparr>)"
| c_take: "cons s = CLoaded r w \<Longrightarrow> r \<noteq> w \<Longrightarrow> spsc_step s (s\<lparr>cons := CTaken r (fbuf (ring s) (unat r))\<rparr>)"
| c_publish: "cons s = CTaken r v \<Longrightarrow>
    spsc_step s (s\<lparr>cons := CIdle, ring := (ring s)\<lparr>fread := (r + 1) mod fsize (ring s)\<rparr>, got := got s @ [v]\<rparr>)"

inductive_cases spsc_stepE: "spsc_step s t"

inductive spsc_reach :: "spsc_fifo \<Rightarrow> spsc \<Rightarrow> bool" for f where
  init: "spsc_reach f \<lparr>ring = f, prod = PIdle, cons = CIdle, sent = [], got = []\<rparr>"
| step: "spsc_reach f s \<Longrightarrow> spsc_step s t \<Longrightarrow> spsc_reach f t"

text \<open>
  The invariant: what was sent is what was got plus what is waiting; the producer's loaded indices promise at
  least as much room as there is, the consumer's loaded indices at most as many bytes as there are.
\<close>

definition uused :: "spsc_fifo \<Rightarrow> u64 \<Rightarrow> u64 \<Rightarrow> nat" where
  "uused f r w = used (unat (fsize f)) (unat r) (unat w)"

definition prod_ok :: "spsc \<Rightarrow> bool" where
  "prod_ok s = (let f = ring s in case prod s of
      PIdle \<Rightarrow> True
    | PLoaded b r w \<Rightarrow> w = fwrite f \<and> unat r < unat (fsize f) \<and> uused f (fread f) w \<le> uused f r w
    | PStored b w \<Rightarrow> w = fwrite f \<and> uused f (fread f) w < unat (fsize f) - 1 \<and> fbuf f (unat w) = b)"

definition cons_ok :: "spsc \<Rightarrow> bool" where
  "cons_ok s = (let f = ring s in case cons s of
      CIdle \<Rightarrow> True
    | CLoaded r w \<Rightarrow> r = fread f \<and> unat w < unat (fsize f) \<and> uused f r w \<le> uused f r (fwrite f)
    | CTaken r v \<Rightarrow> r = fread f \<and> r \<noteq> fwrite f \<and> fbuf f (unat r) = v)"

definition spsc_inv :: "spsc_fifo \<Rightarrow> spsc \<Rightarrow> bool" where
  "spsc_inv f0 s \<longleftrightarrow> fifo_ok (ring s) \<and> fsize (ring s) = fsize f0 \<and> got s @ contents (ring s) = sent s
     \<and> prod_ok s \<and> cons_ok s"

lemma contents_store:
  assumes "fifo_ok f"
  shows "contents (f\<lparr>fbuf := (fbuf f)(unat (fwrite f) := b)\<rparr>) = contents f"
proof -
  let ?n = "unat (fsize f)" and ?r = "unat (fread f)" and ?w = "unat (fwrite f)"
  have lt: "?r < ?n" "?w < ?n" using assms by (auto simp: fifo_ok_def)
  have "(?r + k) mod ?n \<noteq> ?w" if k: "k < used ?n ?r ?w" for k
    using k used_cases [OF lt] lt by (auto simp: mod_if split: if_splits)
  then show ?thesis by (simp add: contents_def Let_def)
qed

lemma contents_publish:
  assumes ok: "fifo_ok f" and room: "uused f (fread f) (fwrite f) < unat (fsize f) - 1"
  shows "fifo_ok (f\<lparr>fwrite := (fwrite f + 1) mod fsize f\<rparr>)"
    and "contents (f\<lparr>fwrite := (fwrite f + 1) mod fsize f\<rparr>) = contents f @ [fbuf f (unat (fwrite f))]"
    and "uused f (fread f) ((fwrite f + 1) mod fsize f) = uused f (fread f) (fwrite f) + 1"
    and "(fwrite f + 1) mod fsize f \<noteq> fread f"
proof -
  have "length (contents f) = uused f (fread f) (fwrite f)" by (simp add: contents_def uused_def Let_def)
  then show ne: "(fwrite f + 1) mod fsize f \<noteq> fread f" using room contents_full [OF ok] by simp
  have id: "f\<lparr>fbuf := (fbuf f)(unat (fwrite f) := fbuf f (unat (fwrite f))), fwrite := x\<rparr> = f\<lparr>fwrite := x\<rparr>" for x by simp
  show "fifo_ok (f\<lparr>fwrite := (fwrite f + 1) mod fsize f\<rparr>)"
    "contents (f\<lparr>fwrite := (fwrite f + 1) mod fsize f\<rparr>) = contents f @ [fbuf f (unat (fwrite f))]"
    using contents_write [OF ok ne, of "fbuf f (unat (fwrite f))"] id by simp_all
  have lt: "unat (fread f) < unat (fsize f)" "unat (fwrite f) < unat (fsize f)" using ok by (auto simp: fifo_ok_def)
  have "(unat (fwrite f) + 1) mod unat (fsize f) \<noteq> unat (fread f)"
    using ne unat_next [OF lt(2)] by (metis word_unat_eq_iff)
  then show "uused f (fread f) ((fwrite f + 1) mod fsize f) = uused f (fread f) (fwrite f) + 1"
    using used_write(1) [OF lt] unat_next [OF lt(2)] by (simp add: uused_def)
qed

text \<open>The producer's loaded room survives the consumer's progress, and the other way round.\<close>

lemma uused_read_le:
  assumes "fifo_ok f" and "fread f \<noteq> fwrite f"
  shows "uused f ((fread f + 1) mod fsize f) (fwrite f) < uused f (fread f) (fwrite f)"
proof -
  have lt: "unat (fread f) < unat (fsize f)" "unat (fwrite f) < unat (fsize f)" using assms by (auto simp: fifo_ok_def)
  show ?thesis
    using used_read [OF lt] assms(2) unat_next [OF lt(1)] by (simp add: uused_def word_unat_eq_iff)
qed

lemma uused_less: "fifo_ok f \<Longrightarrow> unat r < unat (fsize f) \<Longrightarrow> uused f r (fwrite f) < unat (fsize f)"
  using used_cases(2) by (simp add: uused_def fifo_ok_def)

lemma uused_zero: "unat r < unat (fsize f) \<Longrightarrow> unat w < unat (fsize f) \<Longrightarrow> uused f r w = 0 \<longleftrightarrow> r = w"
  using used_empty by (auto simp: uused_def word_unat_eq_iff)

lemma uused_not_full:
  assumes "fifo_ok f" "unat r < unat (fsize f)" "(fwrite f + 1) mod fsize f \<noteq> r"
  shows "uused f r (fwrite f) < unat (fsize f) - 1"
proof -
  have lt: "unat (fwrite f) < unat (fsize f)" using assms(1) by (simp add: fifo_ok_def)
  have "(unat (fwrite f) + 1) mod unat (fsize f) \<noteq> unat r" using assms(3) unat_next [OF lt] by (metis word_unat_eq_iff)
  then have "uused f r (fwrite f) \<noteq> unat (fsize f) - 1" using used_full [OF assms(2) lt] by (simp add: uused_def)
  then show ?thesis using uused_less [OF assms(1,2)] by simp
qed

lemma spsc_step_inv:
  assumes inv: "spsc_inv f0 s" and st: "spsc_step s t"
  shows "spsc_inv f0 t"
  using st
proof (cases rule: spsc_step.cases)
  case (p_load b)
  then show ?thesis using inv by (auto simp: spsc_inv_def prod_ok_def cons_ok_def Let_def fifo_ok_def)
next
  case (p_full b r w)
  then show ?thesis using inv by (auto simp: spsc_inv_def prod_ok_def cons_ok_def Let_def)
next
  case (p_store b r w)
  have ok: "fifo_ok (ring s)" and w: "w = fwrite (ring s)" and r: "unat r < unat (fsize (ring s))"
    and le: "uused (ring s) (fread (ring s)) w \<le> uused (ring s) r w"
    using inv p_store by (auto simp: spsc_inv_def prod_ok_def Let_def)
  have "uused (ring s) r w < unat (fsize (ring s)) - 1" using uused_not_full [OF ok r] p_store w by simp
  then have room: "uused (ring s) (fread (ring s)) w < unat (fsize (ring s)) - 1" using le by simp
  have "unat (fread (ring s)) \<noteq> unat w" if "fread (ring s) \<noteq> fwrite (ring s)" using that w by (simp add: word_unat_eq_iff)
  then have c: "cons_ok t"
    using inv p_store w by (auto simp: spsc_inv_def cons_ok_def Let_def uused_def split: consumer.splits)
  show ?thesis
    using inv p_store c room contents_store [OF ok, of b] w
    by (auto simp: spsc_inv_def prod_ok_def Let_def fifo_ok_def uused_def)
next
  case (p_publish b w)
  have ok: "fifo_ok (ring s)" and w: "w = fwrite (ring s)" "fbuf (ring s) (unat w) = b"
    and room: "uused (ring s) (fread (ring s)) (fwrite (ring s)) < unat (fsize (ring s)) - 1"
    using inv p_publish by (auto simp: spsc_inv_def prod_ok_def Let_def)
  note c = contents_publish [OF ok room]
  have "cons_ok t"
    using inv p_publish w c(3,4) by (auto simp: spsc_inv_def cons_ok_def Let_def uused_def split: consumer.splits)
  then show ?thesis
    using inv p_publish w c(1,2) by (auto simp: spsc_inv_def prod_ok_def)
next
  case c_load
  then show ?thesis using inv by (auto simp: spsc_inv_def prod_ok_def cons_ok_def Let_def fifo_ok_def)
next
  case (c_empty r w)
  then show ?thesis using inv by (auto simp: spsc_inv_def prod_ok_def cons_ok_def Let_def)
next
  case (c_take r w)
  have ok: "fifo_ok (ring s)" and r: "r = fread (ring s)" "unat w < unat (fsize (ring s))"
    "uused (ring s) r w \<le> uused (ring s) r (fwrite (ring s))"
    using inv c_take by (auto simp: spsc_inv_def cons_ok_def Let_def)
  have lt: "unat r < unat (fsize (ring s))" "unat (fwrite (ring s)) < unat (fsize (ring s))" using ok r by (auto simp: fifo_ok_def)
  have "uused (ring s) r w \<noteq> 0" using uused_zero [OF lt(1) r(2)] c_take by simp
  then have "r \<noteq> fwrite (ring s)" using r(3) uused_zero [OF lt] by auto
  then show ?thesis using inv c_take r by (auto simp: spsc_inv_def prod_ok_def cons_ok_def Let_def)
next
  case (c_publish r v)
  have ok: "fifo_ok (ring s)" and r: "r = fread (ring s)" "r \<noteq> fwrite (ring s)" "fbuf (ring s) (unat r) = v"
    using inv c_publish by (auto simp: spsc_inv_def cons_ok_def Let_def)
  have ne: "fread (ring s) \<noteq> fwrite (ring s)" using r by simp
  note c = contents_read [OF ok ne] and u = uused_read_le [OF ok ne]
  have "prod_ok t"
    using inv c_publish r u by (auto simp: spsc_inv_def prod_ok_def Let_def uused_def split: producer.splits)
  then show ?thesis
    using inv c_publish r c by (auto simp: spsc_inv_def cons_ok_def)
qed

lemma spsc_reach_inv:
  assumes "spsc_reach f s" and "fifo_ok f" and "contents f = []"
  shows "spsc_inv f s"
  using assms(1)
proof (induction rule: spsc_reach.induct)
  case init
  then show ?case using assms(2,3) by (simp add: spsc_inv_def prod_ok_def cons_ok_def)
next
  case (step s t)
  then show ?case using spsc_step_inv by blast
qed

text \<open>C20: producer and consumer may interleave in any way without a lock: at every moment the bytes received are
  the first bytes sent, in order, the rest waits in the buffer, never more than \<^verbatim>\<open>buffer_size - 1\<close> of them, and
  neither side ever uses an index outside the buffer.\<close>

theorem spsc_interleaving_safe:
  assumes "fifo_ok f" and "contents f = []" and "spsc_reach f s"
  shows "sent s = got s @ contents (ring s) \<and> length (contents (ring s)) < unat (fsize f)
       \<and> unat (fread (ring s)) < unat (fsize f) \<and> unat (fwrite (ring s)) < unat (fsize f)
       \<and> (\<forall>b r w. prod s = PLoaded b r w \<longrightarrow> w = fwrite (ring s)) \<and> (\<forall>r w. cons s = CLoaded r w \<longrightarrow> r = fread (ring s))"
proof -
  have inv: "spsc_inv f s" by (rule spsc_reach_inv [OF assms(3,1,2)])
  then show ?thesis
    using contents_length [of "ring s"]
    by (auto simp: spsc_inv_def fifo_ok_def prod_ok_def cons_ok_def Let_def)
qed

theorem spsc_interleaving_safe_witness:
  "\<exists>s. spsc_reach demo_fifo s \<and> sent s = [65] \<and> got s = [] \<and> contents (ring s) = [65]"
proof -
  have ok: "fifo_ok demo_fifo" and e: "contents demo_fifo = []"
    by (simp_all add: fifo_ok_def demo_fifo_def contents_def used_def Let_def)
  let ?s0 = "\<lparr>ring = demo_fifo, prod = PIdle, cons = CIdle, sent = [], got = []\<rparr>"
  let ?s1 = "?s0\<lparr>prod := PLoaded 65 (fread (ring ?s0)) (fwrite (ring ?s0))\<rparr>"
  have 1: "spsc_reach demo_fifo ?s1" by (rule spsc_reach.step [OF spsc_reach.init spsc_step.p_load]) simp
  let ?s2 = "?s1\<lparr>prod := PStored 65 30, ring := (ring ?s1)\<lparr>fbuf := (fbuf (ring ?s1))(unat (30 :: u64) := 65)\<rparr>\<rparr>"
  have 2: "spsc_reach demo_fifo ?s2"
    by (rule spsc_reach.step [OF 1 spsc_step.p_store [where r = 30]]) (simp_all add: demo_fifo_def)
  let ?s3 = "?s2\<lparr>prod := PIdle, ring := (ring ?s2)\<lparr>fwrite := (30 + 1) mod fsize (ring ?s2)\<rparr>, sent := sent ?s2 @ [65]\<rparr>"
  have 3: "spsc_reach demo_fifo ?s3" by (rule spsc_reach.step [OF 2 spsc_step.p_publish]) simp
  from spsc_interleaving_safe [OF ok e 3] have "contents (ring ?s3) = [65]" by simp
  then show ?thesis using 3 by (intro exI [of _ ?s3]) simp
qed

end
