(* ===== verification/Kprintf.thy ===== *)
theory Kprintf
  imports Cpu
begin

text \<open>
  The formatter of \<^verbatim>\<open>util/kprintf.c\<close>: the output functions, the helpers that scan the format, the conversion
  of integers in a 32-byte buffer, the directive loop of \<^verbatim>\<open>_vsnprintf\<close> and its public entry points. A C string
  that is only read (the format, the argument of \<^verbatim>\<open>%s\<close>) is the list of its bytes before the terminating NUL.
  The formatter is generic in the output function, as in the source: an \<open>out_fct\<close> acts on any state. Floating
  point support is compiled out (\<^verbatim>\<open>PRINTF_SUPPORT_FLOAT\<close> is not defined).
\<close>

section \<open>Flags and characters\<close>

definition FLAGS_ZEROPAD :: u32 where "FLAGS_ZEROPAD = 1"
definition FLAGS_LEFT :: u32 where "FLAGS_LEFT = 2"
definition FLAGS_PLUS :: u32 where "FLAGS_PLUS = 4"
definition FLAGS_SPACE :: u32 where "FLAGS_SPACE = 8"
definition FLAGS_HASH :: u32 where "FLAGS_HASH = 16"
definition FLAGS_UPPERCASE :: u32 where "FLAGS_UPPERCASE = 32"
definition FLAGS_CHAR :: u32 where "FLAGS_CHAR = 64"
definition FLAGS_SHORT :: u32 where "FLAGS_SHORT = 128"
definition FLAGS_LONG :: u32 where "FLAGS_LONG = 256"
definition FLAGS_LONG_LONG :: u32 where "FLAGS_LONG_LONG = 512"
definition FLAGS_PRECISION :: u32 where "FLAGS_PRECISION = 1024"

lemmas flag_defs = FLAGS_ZEROPAD_def FLAGS_LEFT_def FLAGS_PLUS_def FLAGS_SPACE_def FLAGS_HASH_def
  FLAGS_UPPERCASE_def FLAGS_CHAR_def FLAGS_SHORT_def FLAGS_LONG_def FLAGS_LONG_LONG_def FLAGS_PRECISION_def

definition PRINTF_NTOA_BUFFER_SIZE :: nat where "PRINTF_NTOA_BUFFER_SIZE = 32"

text \<open>\<^verbatim>\<open>flags & f\<close> as a condition.\<close>

definition has :: "u32 \<Rightarrow> u32 \<Rightarrow> bool" where
  "has flags f \<longleftrightarrow> flags AND f \<noteq> 0"

text \<open>The ASCII code of a character.\<close>

abbreviation (input) ascii :: "char \<Rightarrow> u8" where
  "ascii c \<equiv> of_char c"

section \<open>Output functions\<close>

type_synonym 's out_fct = "u8 \<Rightarrow> ptr \<Rightarrow> u64 \<Rightarrow> u64 \<Rightarrow> 's \<Rightarrow> (unit \<times> 's) outcome"

definition out_buffer :: "'z machine_scheme out_fct" where
  "out_buffer character buffer idx maxlen s =
     (if idx < maxlen then Ret ((), s\<lparr>mem := (mem s)(buffer + idx := character)\<rparr>) else Ret ((), s))"

definition out_null :: "'s out_fct" where
  "out_null character buffer idx maxlen = retk ()"

text \<open>
  \<^verbatim>\<open>_out_fct\<close> hands every byte but NUL to the function of the caller of \<^verbatim>\<open>fctprintf\<close>; the wrapper structure
  behind \<^verbatim>\<open>buffer\<close> is the pair of that function and its argument. \<^verbatim>\<open>_out_char\<close>, which prints on the console,
  is in the theory \<open>Console\<close>.
\<close>

definition out_fct :: "(u8 \<Rightarrow> ptr \<Rightarrow> 's \<Rightarrow> (unit \<times> 's) outcome) \<times> ptr \<Rightarrow> 's out_fct" where
  "out_fct wrap character buffer idx maxlen =
     (if character \<noteq> 0 then fst wrap character (snd wrap) else retk ())"

text \<open>\<^verbatim>\<open>out(c, buffer, idx++, maxlen)\<close>, and its repetitions.\<close>

definition emit :: "'s out_fct \<Rightarrow> ptr \<Rightarrow> u64 \<Rightarrow> u8 \<Rightarrow> u64 \<Rightarrow> 's \<Rightarrow> (u64 \<times> 's) outcome" where
  "emit out buffer maxlen c idx = bindk (out c buffer idx maxlen) (\<lambda>_. retk (idx + 1))"

primrec emit_pad :: "'s out_fct \<Rightarrow> ptr \<Rightarrow> u64 \<Rightarrow> nat \<Rightarrow> u64 \<Rightarrow> 's \<Rightarrow> (u64 \<times> 's) outcome" where
  "emit_pad out buffer maxlen 0 idx = retk idx"
| "emit_pad out buffer maxlen (Suc n) idx =
     bindk (emit out buffer maxlen 32 idx) (\<lambda>idx. emit_pad out buffer maxlen n idx)"

section \<open>Scanning helpers\<close>

primrec strnlen_s :: "u8 list \<Rightarrow> u64 \<Rightarrow> nat" where
  "strnlen_s [] maxsize = 0"
| "strnlen_s (c # cs) maxsize = (if maxsize \<noteq> 0 then Suc (strnlen_s cs (maxsize - 1)) else 0)"

definition is_digit :: "u8 \<Rightarrow> bool" where
  "is_digit ch \<longleftrightarrow> 48 \<le> ch \<and> ch \<le> 57"

fun atoi_loop :: "u32 \<Rightarrow> u8 list \<Rightarrow> u32 \<times> u8 list" where
  "atoi_loop i [] = (i, [])"
| "atoi_loop i (c # cs) = (if is_digit c then atoi_loop (i * 10 + (ucast c - 48)) cs else (i, c # cs))"

definition atoi :: "u8 list \<Rightarrow> u32 \<times> u8 list" where
  "atoi str = atoi_loop 0 str"

section \<open>Integers\<close>

text \<open>
  The local array \<^verbatim>\<open>buf\<close> with its fill level \<^verbatim>\<open>len\<close> is the list of the bytes stored so far: \<^verbatim>\<open>buf[len++] = c\<close>
  appends, \<^verbatim>\<open>len--\<close> drops the last byte.
\<close>

primrec emit_rev :: "'s out_fct \<Rightarrow> ptr \<Rightarrow> u64 \<Rightarrow> nat \<Rightarrow> u8 list \<Rightarrow> u64 \<Rightarrow> 's \<Rightarrow> (u64 \<times> 's) outcome" where
  "emit_rev out buffer maxlen 0 buf idx = retk idx"
| "emit_rev out buffer maxlen (Suc len) buf idx =
     bindk (emit out buffer maxlen (buf ! len) idx) (\<lambda>idx. emit_rev out buffer maxlen len buf idx)"

definition out_rev :: "'s out_fct \<Rightarrow> ptr \<Rightarrow> u64 \<Rightarrow> u64 \<Rightarrow> u8 list \<Rightarrow> u32 \<Rightarrow> u32 \<Rightarrow> 's \<Rightarrow> (u64 \<times> 's) outcome" where
  "out_rev out buffer idx maxlen buf width flags =
     (let start_idx = idx in
      bindk (if \<not> has flags FLAGS_LEFT \<and> \<not> has flags FLAGS_ZEROPAD
             then emit_pad out buffer maxlen (unat width - length buf) idx else retk idx) (\<lambda>idx.
      bindk (emit_rev out buffer maxlen (length buf) buf idx) (\<lambda>idx.
      if has flags FLAGS_LEFT
      then emit_pad out buffer maxlen (unat width - unat (idx - start_idx)) idx else retk idx)))"

text \<open>\<^verbatim>\<open>while (len < n && len < PRINTF_NTOA_BUFFER_SIZE) buf[len++] = '0';\<close>\<close>

definition zero_fill :: "u32 \<Rightarrow> u8 list \<Rightarrow> u8 list" where
  "zero_fill n buf = buf @ replicate (min (unat n) PRINTF_NTOA_BUFFER_SIZE - length buf) 48"

definition put_bounded :: "u8 \<Rightarrow> u8 list \<Rightarrow> u8 list" where
  "put_bounded c buf = (if length buf < PRINTF_NTOA_BUFFER_SIZE then buf @ [c] else buf)"

definition ntoa_hash :: "u32 \<Rightarrow> u32 \<Rightarrow> u32 \<Rightarrow> u32 \<Rightarrow> u8 list \<Rightarrow> u8 list" where
  "ntoa_hash base prec width flags buf =
     (let buf = (if \<not> has flags FLAGS_PRECISION \<and> buf \<noteq> [] \<and> (length buf = unat prec \<or> length buf = unat width)
                 then let buf = butlast buf in (if buf \<noteq> [] \<and> base = 16 then butlast buf else buf)
                 else buf);
          buf = (if base = 16 \<and> \<not> has flags FLAGS_UPPERCASE then put_bounded (ascii (CHR ''x'')) buf
                 else if base = 16 \<and> has flags FLAGS_UPPERCASE then put_bounded (ascii (CHR ''X'')) buf
                 else if base = 2 then put_bounded (ascii (CHR ''b'')) buf else buf)
      in put_bounded 48 buf)"

definition ntoa_sign :: "bool \<Rightarrow> u32 \<Rightarrow> u8 list \<Rightarrow> u8 list" where
  "ntoa_sign negative flags buf =
     (if length buf < PRINTF_NTOA_BUFFER_SIZE
      then if negative then buf @ [ascii (CHR ''-'')]
           else if has flags FLAGS_PLUS then buf @ [ascii (CHR ''+'')]
           else if has flags FLAGS_SPACE then buf @ [32] else buf
      else buf)"

text \<open>The buffer and the width that \<^verbatim>\<open>_ntoa_format\<close> hands to \<^verbatim>\<open>_out_rev\<close>.\<close>

definition ntoa_buffer :: "u8 list \<Rightarrow> bool \<Rightarrow> u32 \<Rightarrow> u32 \<Rightarrow> u32 \<Rightarrow> u32 \<Rightarrow> u8 list \<times> u32" where
  "ntoa_buffer buf negative base prec width flags =
     (let width' = (if \<not> has flags FLAGS_LEFT \<and> width \<noteq> 0 \<and> has flags FLAGS_ZEROPAD
                      \<and> (negative \<or> has flags (FLAGS_PLUS OR FLAGS_SPACE)) then width - 1 else width);
          buf = (if \<not> has flags FLAGS_LEFT then zero_fill prec buf else buf);
          buf = (if \<not> has flags FLAGS_LEFT \<and> has flags FLAGS_ZEROPAD then zero_fill width' buf else buf);
          buf = (if has flags FLAGS_HASH then ntoa_hash base prec width' flags buf else buf)
      in (ntoa_sign negative flags buf, width'))"

definition ntoa_format :: "'s out_fct \<Rightarrow> ptr \<Rightarrow> u64 \<Rightarrow> u64 \<Rightarrow> u8 list \<Rightarrow> bool \<Rightarrow> u32 \<Rightarrow> u32 \<Rightarrow> u32 \<Rightarrow> u32
    \<Rightarrow> 's \<Rightarrow> (u64 \<times> 's) outcome" where
  "ntoa_format out buffer idx maxlen buf negative base prec width flags =
     (let (buf', width') = ntoa_buffer buf negative base prec width flags
      in out_rev out buffer idx maxlen buf' width' flags)"

definition digit_char :: "u32 \<Rightarrow> u64 \<Rightarrow> u8" where
  "digit_char flags digit =
     (if digit < 10 then 48 + ucast digit
      else (if has flags FLAGS_UPPERCASE then ascii (CHR ''A'') else ascii (CHR ''a'')) + ucast digit - 10)"

text \<open>
  \<^verbatim>\<open>do { buf[len++] = ...; value /= base; } while (value && len < PRINTF_NTOA_BUFFER_SIZE);\<close> -- the first
  argument is the room left in the buffer.
\<close>

primrec ntoa_digits :: "nat \<Rightarrow> u32 \<Rightarrow> u64 \<Rightarrow> u64 \<Rightarrow> u8 list" where
  "ntoa_digits 0 flags base value = []"
| "ntoa_digits (Suc room) flags base value =
     digit_char flags (value mod base) #
       (if value div base \<noteq> 0 then ntoa_digits room flags base (value div base) else [])"

definition ntoa_start :: "u64 \<Rightarrow> u64 \<Rightarrow> u32 \<Rightarrow> u8 list \<times> u32" where
  "ntoa_start value base flags =
     (let flags = (if value = 0 then flags AND NOT FLAGS_HASH else flags)
      in (if \<not> has flags FLAGS_PRECISION \<or> value \<noteq> 0
          then ntoa_digits PRINTF_NTOA_BUFFER_SIZE flags base value else [], flags))"

definition ntoa_long :: "'s out_fct \<Rightarrow> ptr \<Rightarrow> u64 \<Rightarrow> u64 \<Rightarrow> u64 \<Rightarrow> bool \<Rightarrow> u64 \<Rightarrow> u32 \<Rightarrow> u32 \<Rightarrow> u32
    \<Rightarrow> 's \<Rightarrow> (u64 \<times> 's) outcome" where
  "ntoa_long out buffer idx maxlen value negative base prec width flags =
     (let (buf, flags) = ntoa_start value base flags
      in ntoa_format out buffer idx maxlen buf negative (ucast base) prec width flags)"

text \<open>\<^verbatim>\<open>unsigned long long\<close> has the width of \<^verbatim>\<open>unsigned long\<close> on x86-64; the source repeats the body.\<close>

definition ntoa_long_long :: "'s out_fct \<Rightarrow> ptr \<Rightarrow> u64 \<Rightarrow> u64 \<Rightarrow> u64 \<Rightarrow> bool \<Rightarrow> u64 \<Rightarrow> u32 \<Rightarrow> u32 \<Rightarrow> u32
    \<Rightarrow> 's \<Rightarrow> (u64 \<times> 's) outcome" where
  "ntoa_long_long out buffer idx maxlen value negative base prec width flags =
     (let (buf, flags) = ntoa_start value base flags
      in ntoa_format out buffer idx maxlen buf negative (ucast base) prec width flags)"

section \<open>Arguments\<close>

text \<open>
  Every variadic argument occupies one 64-bit slot; a pointer to a string carries the bytes of that string.
  \<open>None\<close> is a read past the last argument, or a dereference of something that is not a string.
\<close>

datatype va_item = VWord u64 | VStr ptr "u8 list"

fun va_u64 :: "va_item list \<Rightarrow> (u64 \<times> va_item list) option" where
  "va_u64 [] = None"
| "va_u64 (VWord w # va) = Some (w, va)"
| "va_u64 (VStr p bs # va) = Some (p, va)"

definition va_u32 :: "va_item list \<Rightarrow> (u32 \<times> va_item list) option" where
  "va_u32 va = (case va_u64 va of Some (w, va') \<Rightarrow> Some (ucast w, va') | None \<Rightarrow> None)"

fun va_str :: "va_item list \<Rightarrow> (u8 list \<times> va_item list) option" where
  "va_str (VStr p bs # va) = Some (bs, va)"
| "va_str _ = None"

section \<open>Parsing a directive\<close>

text \<open>\<^verbatim>\<open>%[flags][width][.precision][length]specifier\<close>; every part returns what it leaves of the format.\<close>

definition flag_of :: "u8 \<Rightarrow> u32 option" where
  "flag_of c =
     (if c = ascii (CHR ''0'') then Some FLAGS_ZEROPAD
      else if c = ascii (CHR ''-'') then Some FLAGS_LEFT
      else if c = ascii (CHR ''+'') then Some FLAGS_PLUS
      else if c = ascii (CHR '' '') then Some FLAGS_SPACE
      else if c = ascii (CHR ''#'') then Some FLAGS_HASH else None)"

fun parse_flags :: "u32 \<Rightarrow> u8 list \<Rightarrow> u32 \<times> u8 list" where
  "parse_flags flags [] = (flags, [])"
| "parse_flags flags (c # cs) = (case flag_of c of Some f \<Rightarrow> parse_flags (flags OR f) cs | None \<Rightarrow> (flags, c # cs))"

text \<open>The character under the format pointer: the NUL at the end of the string.\<close>

definition peek :: "u8 list \<Rightarrow> u8" where
  "peek fmt = (case fmt of [] \<Rightarrow> 0 | c # cs \<Rightarrow> c)"

text \<open>\<^verbatim>\<open>-w\<close> is undefined for the most negative \<^verbatim>\<open>int\<close>.\<close>

definition INT_MIN :: u32 where "INT_MIN = 0x80000000"

definition parse_width :: "u32 \<Rightarrow> u8 list \<Rightarrow> va_item list \<Rightarrow> (u32 \<times> u32 \<times> u8 list \<times> va_item list) option" where
  "parse_width flags fmt va =
     (if is_digit (peek fmt) then let (w, fmt') = atoi fmt in Some (flags, w, fmt', va)
      else if peek fmt = ascii (CHR ''*'') then
        (case va_u32 va of
           None \<Rightarrow> None
         | Some (w, va') \<Rightarrow>
             if w = INT_MIN then None
             else if w <s 0 then Some (flags OR FLAGS_LEFT, - w, tl fmt, va') else Some (flags, w, tl fmt, va'))
      else Some (flags, 0, fmt, va))"

definition parse_precision :: "u32 \<Rightarrow> u8 list \<Rightarrow> va_item list \<Rightarrow> (u32 \<times> u32 \<times> u8 list \<times> va_item list) option" where
  "parse_precision flags fmt va =
     (if peek fmt = ascii (CHR ''.'') then
        let flags = flags OR FLAGS_PRECISION; fmt = tl fmt in
        if is_digit (peek fmt) then let (p, fmt') = atoi fmt in Some (flags, p, fmt', va)
        else if peek fmt = ascii (CHR ''*'') then
          (case va_u32 va of
             None \<Rightarrow> None
           | Some (p, va') \<Rightarrow> Some (flags, if 0 <s p then p else 0, tl fmt, va'))
        else Some (flags, 0, fmt, va)
      else Some (flags, 0, fmt, va))"

definition parse_length :: "u32 \<Rightarrow> u8 list \<Rightarrow> u32 \<times> u8 list" where
  "parse_length flags fmt =
     (if peek fmt = ascii (CHR ''l'') then
        let flags = flags OR FLAGS_LONG; fmt = tl fmt in
        if peek fmt = ascii (CHR ''l'') then (flags OR FLAGS_LONG_LONG, tl fmt) else (flags, fmt)
      else if peek fmt = ascii (CHR ''h'') then
        let flags = flags OR FLAGS_SHORT; fmt = tl fmt in
        if peek fmt = ascii (CHR ''h'') then (flags OR FLAGS_CHAR, tl fmt) else (flags, fmt)
      else if peek fmt = ascii (CHR ''t'') \<or> peek fmt = ascii (CHR ''j'') \<or> peek fmt = ascii (CHR ''z'')
      then (flags OR FLAGS_LONG, tl fmt)
      else (flags, fmt))"

record directive =
  dflags :: u32
  dwidth :: u32
  dprec :: u32
  dspec :: u8

text \<open>
  The format after the percent sign. A directive cut off by the end of the format reaches the \<^verbatim>\<open>default\<close> case
  with \<^verbatim>\<open>*format == 0\<close>, and \<^verbatim>\<open>format++\<close> then leaves the string: \<open>None\<close>, as for a missing argument.
\<close>

definition parse_directive :: "u8 list \<Rightarrow> va_item list \<Rightarrow> (directive \<times> u8 list \<times> va_item list) option" where
  "parse_directive fmt va =
     (let (flags, fmt) = parse_flags 0 fmt in
      case parse_width flags fmt va of None \<Rightarrow> None | Some (flags, width, fmt, va) \<Rightarrow>
      case parse_precision flags fmt va of None \<Rightarrow> None | Some (flags, prec, fmt, va) \<Rightarrow>
      let (flags, fmt) = parse_length flags fmt in
      case fmt of [] \<Rightarrow> None
      | c # rest \<Rightarrow> Some (\<lparr>dflags = flags, dwidth = width, dprec = prec, dspec = c\<rparr>, rest, va))"

section \<open>Converting one directive\<close>

definition LONG_MIN :: u64 where "LONG_MIN = 0x8000000000000000"

definition is_int_spec :: "u8 \<Rightarrow> bool" where
  "is_int_spec c \<longleftrightarrow> c \<in> {ascii (CHR ''d''), ascii (CHR ''i''), ascii (CHR ''u''), ascii (CHR ''x''),
     ascii (CHR ''X''), ascii (CHR ''o''), ascii (CHR ''b'')}"

definition is_signed_spec :: "u8 \<Rightarrow> bool" where
  "is_signed_spec c \<longleftrightarrow> c = ascii (CHR ''i'') \<or> c = ascii (CHR ''d'')"

definition int_base :: "u8 \<Rightarrow> u32" where
  "int_base c = (if c = ascii (CHR ''x'') \<or> c = ascii (CHR ''X'') then 16
     else if c = ascii (CHR ''o'') then 8 else if c = ascii (CHR ''b'') then 2 else 10)"

definition int_flags :: "u8 \<Rightarrow> u32 \<Rightarrow> u32" where
  "int_flags c flags =
     (let flags = (if int_base c = 10 then flags AND NOT FLAGS_HASH else flags);
          flags = (if c = ascii (CHR ''X'') then flags OR FLAGS_UPPERCASE else flags);
          flags = (if \<not> is_signed_spec c then flags AND NOT (FLAGS_PLUS OR FLAGS_SPACE) else flags)
      in if has flags FLAGS_PRECISION then flags AND NOT FLAGS_ZEROPAD else flags)"

text \<open>
  The argument of an integer conversion as magnitude and sign. The signed branches negate in the signed type,
  which is undefined for the most negative value of the type.
\<close>

definition signed_arg :: "u32 \<Rightarrow> va_item list \<Rightarrow> (u64 \<times> bool \<times> va_item list) option" where
  "signed_arg flags va =
     (if has flags FLAGS_LONG_LONG \<or> has flags FLAGS_LONG then
        (case va_u64 va of None \<Rightarrow> None
         | Some (v, va') \<Rightarrow> if v = LONG_MIN then None else Some (if 0 <s v then v else 0 - v, v <s 0, va'))
      else
        (case va_u32 va of None \<Rightarrow> None
         | Some (w, va') \<Rightarrow>
             let v = (if has flags FLAGS_CHAR then scast (ucast w :: u8)
                      else if has flags FLAGS_SHORT then scast (ucast w :: u16) else w) :: u32
             in if v = INT_MIN then None else Some (ucast (if 0 <s v then v else 0 - v), v <s 0, va')))"

definition unsigned_arg :: "u32 \<Rightarrow> va_item list \<Rightarrow> (u64 \<times> va_item list) option" where
  "unsigned_arg flags va =
     (if has flags FLAGS_LONG_LONG \<or> has flags FLAGS_LONG then va_u64 va
      else
        (case va_u32 va of None \<Rightarrow> None
         | Some (w, va') \<Rightarrow>
             Some (ucast (if has flags FLAGS_CHAR then ucast (ucast w :: u8)
                          else if has flags FLAGS_SHORT then ucast (ucast w :: u16) else w :: u32), va')))"

definition undefk :: "string \<Rightarrow> 's \<Rightarrow> ('a \<times> 's) outcome" where
  "undefk why s = Undef why"

definition ntoa_any :: "'s out_fct \<Rightarrow> ptr \<Rightarrow> u64 \<Rightarrow> u64 \<Rightarrow> u64 \<Rightarrow> bool \<Rightarrow> u32 \<Rightarrow> u32 \<Rightarrow> u32 \<Rightarrow> u32
    \<Rightarrow> 's \<Rightarrow> (u64 \<times> 's) outcome" where
  "ntoa_any out buffer idx maxlen value negative base prec width flags =
     (if has flags FLAGS_LONG_LONG
      then ntoa_long_long out buffer idx maxlen value negative (ucast base) prec width flags
      else ntoa_long out buffer idx maxlen value negative (ucast base) prec width flags)"

definition conv_int :: "'s out_fct \<Rightarrow> ptr \<Rightarrow> u64 \<Rightarrow> directive \<Rightarrow> va_item list \<Rightarrow> u64
    \<Rightarrow> 's \<Rightarrow> ((va_item list \<times> u64) \<times> 's) outcome" where
  "conv_int out buffer maxlen d va idx =
     (let base = int_base (dspec d); flags = int_flags (dspec d) (dflags d) in
      if is_signed_spec (dspec d) then
        (case signed_arg flags va of None \<Rightarrow> undefk ''vsnprintf''
         | Some (v, neg, va') \<Rightarrow>
             bindk (ntoa_any out buffer idx maxlen v neg base (dprec d) (dwidth d) flags) (\<lambda>idx. retk (va', idx)))
      else
        (case unsigned_arg flags va of None \<Rightarrow> undefk ''vsnprintf''
         | Some (v, va') \<Rightarrow>
             bindk (ntoa_any out buffer idx maxlen v False base (dprec d) (dwidth d) flags) (\<lambda>idx. retk (va', idx))))"

definition conv_char :: "'s out_fct \<Rightarrow> ptr \<Rightarrow> u64 \<Rightarrow> directive \<Rightarrow> va_item list \<Rightarrow> u64
    \<Rightarrow> 's \<Rightarrow> ((va_item list \<times> u64) \<times> 's) outcome" where
  "conv_char out buffer maxlen d va idx =
     bindk (if \<not> has (dflags d) FLAGS_LEFT then emit_pad out buffer maxlen (unat (dwidth d) - 1) idx else retk idx) (\<lambda>idx.
     case va_u32 va of None \<Rightarrow> undefk ''vsnprintf''
     | Some (c, va') \<Rightarrow>
         bindk (emit out buffer maxlen (ucast c) idx) (\<lambda>idx.
         bindk (if has (dflags d) FLAGS_LEFT then emit_pad out buffer maxlen (unat (dwidth d) - 1) idx else retk idx)
           (\<lambda>idx. retk (va', idx))))"

text \<open>\<^verbatim>\<open>while ((*p != 0) && (!(flags & FLAGS_PRECISION) || precision--)) out(*(p++), ...)\<close>\<close>

primrec emit_str :: "'s out_fct \<Rightarrow> ptr \<Rightarrow> u64 \<Rightarrow> bool \<Rightarrow> u8 list \<Rightarrow> u32 \<Rightarrow> u64 \<Rightarrow> 's \<Rightarrow> (u64 \<times> 's) outcome" where
  "emit_str out buffer maxlen limited [] prec idx = retk idx"
| "emit_str out buffer maxlen limited (c # cs) prec idx =
     (if \<not> limited \<or> prec \<noteq> 0
      then bindk (emit out buffer maxlen c idx) (\<lambda>idx. emit_str out buffer maxlen limited cs (prec - 1) idx)
      else retk idx)"

definition str_len :: "directive \<Rightarrow> u8 list \<Rightarrow> u32" where
  "str_len d p =
     (let l = of_nat (strnlen_s p (if dprec d \<noteq> 0 then ucast (dprec d) else - 1)) :: u32
      in if has (dflags d) FLAGS_PRECISION then (if l < dprec d then l else dprec d) else l)"

definition conv_str :: "'s out_fct \<Rightarrow> ptr \<Rightarrow> u64 \<Rightarrow> directive \<Rightarrow> va_item list \<Rightarrow> u64
    \<Rightarrow> 's \<Rightarrow> ((va_item list \<times> u64) \<times> 's) outcome" where
  "conv_str out buffer maxlen d va idx =
     (case va_str va of None \<Rightarrow> undefk ''vsnprintf''
      | Some (p, va') \<Rightarrow>
          let pad = unat (dwidth d) - unat (str_len d p) in
          bindk (if \<not> has (dflags d) FLAGS_LEFT then emit_pad out buffer maxlen pad idx else retk idx) (\<lambda>idx.
          bindk (emit_str out buffer maxlen (has (dflags d) FLAGS_PRECISION) p (dprec d) idx) (\<lambda>idx.
          bindk (if has (dflags d) FLAGS_LEFT then emit_pad out buffer maxlen pad idx else retk idx)
            (\<lambda>idx. retk (va', idx)))))"

definition conv_ptr :: "'s out_fct \<Rightarrow> ptr \<Rightarrow> u64 \<Rightarrow> directive \<Rightarrow> va_item list \<Rightarrow> u64
    \<Rightarrow> 's \<Rightarrow> ((va_item list \<times> u64) \<times> 's) outcome" where
  "conv_ptr out buffer maxlen d va idx =
     (let width = 16; flags = dflags d OR (FLAGS_ZEROPAD OR FLAGS_UPPERCASE) in
      case va_u64 va of None \<Rightarrow> undefk ''vsnprintf''
      | Some (p, va') \<Rightarrow>
          bindk (ntoa_long_long out buffer idx maxlen p False 16 (dprec d) width flags) (\<lambda>idx. retk (va', idx)))"

definition convert :: "'s out_fct \<Rightarrow> ptr \<Rightarrow> u64 \<Rightarrow> directive \<Rightarrow> va_item list \<Rightarrow> u64
    \<Rightarrow> 's \<Rightarrow> ((va_item list \<times> u64) \<times> 's) outcome" where
  "convert out buffer maxlen d va idx =
     (if is_int_spec (dspec d) then conv_int out buffer maxlen d va idx
      else if dspec d = ascii (CHR ''c'') then conv_char out buffer maxlen d va idx
      else if dspec d = ascii (CHR ''s'') then conv_str out buffer maxlen d va idx
      else if dspec d = ascii (CHR ''p'') then conv_ptr out buffer maxlen d va idx
      else if dspec d = ascii (CHR ''%'') then bindk (emit out buffer maxlen 37 idx) (\<lambda>idx. retk (va, idx))
      else bindk (emit out buffer maxlen (dspec d) idx) (\<lambda>idx. retk (va, idx)))"

section \<open>The loop and the entry points\<close>

lemma atoi_loop_shorter: "length (snd (atoi_loop i fmt)) \<le> length fmt"
  by (induction i fmt rule: atoi_loop.induct) auto

lemma parse_flags_shorter: "length (snd (parse_flags f fmt)) \<le> length fmt"
  by (induction f fmt rule: parse_flags.induct) (auto split: option.splits)

lemma parse_width_shorter: "parse_width f fmt va = Some (f', w, fmt', va') \<Longrightarrow> length fmt' \<le> length fmt"
  using atoi_loop_shorter [of 0 fmt]
  by (auto simp: parse_width_def atoi_def split: if_splits option.splits prod.splits)

lemma parse_precision_shorter: "parse_precision f fmt va = Some (f', w, fmt', va') \<Longrightarrow> length fmt' \<le> length fmt"
  using atoi_loop_shorter [of 0 "tl fmt"]
  by (auto simp: parse_precision_def atoi_def Let_def split: if_splits option.splits prod.splits)

lemma parse_length_shorter: "length (snd (parse_length f fmt)) \<le> length fmt"
  by (auto simp: parse_length_def Let_def)

lemma parse_directive_shorter:
  assumes "parse_directive fmt va = Some (d, rest, va')"
  shows "length rest < length fmt"
proof -
  obtain f1 fmt1 where 1: "parse_flags 0 fmt = (f1, fmt1)" by fastforce
  with assms obtain f2 w fmt2 va2 where 2: "parse_width f1 fmt1 va = Some (f2, w, fmt2, va2)"
    by (auto simp: parse_directive_def split: option.splits)
  with 1 assms obtain f3 p fmt3 va3 where 3: "parse_precision f2 fmt2 va2 = Some (f3, p, fmt3, va3)"
    by (auto simp: parse_directive_def split: option.splits)
  obtain f4 fmt4 where 4: "parse_length f3 fmt3 = (f4, fmt4)" by fastforce
  from 1 2 3 4 assms obtain c where "fmt4 = c # rest"
    by (auto simp: parse_directive_def split: list.splits)
  then show ?thesis
    using parse_flags_shorter [of 0 fmt] parse_width_shorter [OF 2] parse_precision_shorter [OF 3]
      parse_length_shorter [of f3 fmt3] 1 4 by simp
qed

function vsnprintf_loop :: "'s out_fct \<Rightarrow> ptr \<Rightarrow> u64 \<Rightarrow> u8 list \<Rightarrow> va_item list \<Rightarrow> u64 \<Rightarrow> 's \<Rightarrow> (u64 \<times> 's) outcome" where
  "vsnprintf_loop out buffer maxlen [] va idx = retk idx"
| "vsnprintf_loop out buffer maxlen (c # cs) va idx =
     (if c \<noteq> 37 then bindk (emit out buffer maxlen c idx) (\<lambda>idx. vsnprintf_loop out buffer maxlen cs va idx)
      else case parse_directive cs va of
          None \<Rightarrow> undefk ''vsnprintf''
        | Some (d, rest, va1) \<Rightarrow>
            bindk (convert out buffer maxlen d va1 idx)
              (\<lambda>(va2, idx2). vsnprintf_loop out buffer maxlen rest va2 idx2))"
  by pat_completeness auto

termination
  by (relation "measure (\<lambda>(out, buffer, maxlen, fmt, va, idx). length fmt)") (auto dest!: parse_directive_shorter)

definition vsnprintf :: "'s out_fct \<Rightarrow> ptr \<Rightarrow> u64 \<Rightarrow> u8 list \<Rightarrow> va_item list \<Rightarrow> 's \<Rightarrow> (int \<times> 's) outcome" where
  "vsnprintf out buffer maxlen fmt va =
     (let out = (if buffer = NULL then out_null else out) in
      bindk (vsnprintf_loop out buffer maxlen fmt va 0) (\<lambda>idx.
      bindk (out 0 buffer (if idx < maxlen then idx else maxlen - 1) maxlen) (\<lambda>_.
      retk (sint (ucast idx :: u32)))))"

definition sprintf' :: "ptr \<Rightarrow> u8 list \<Rightarrow> va_item list \<Rightarrow> 'z machine_scheme \<Rightarrow> (int \<times> 'z machine_scheme) outcome" where
  "sprintf' buffer fmt va = vsnprintf out_buffer buffer (- 1) fmt va"

definition snprintf' :: "ptr \<Rightarrow> u64 \<Rightarrow> u8 list \<Rightarrow> va_item list \<Rightarrow> 'z machine_scheme \<Rightarrow> (int \<times> 'z machine_scheme) outcome" where
  "snprintf' buffer count fmt va = vsnprintf out_buffer buffer count fmt va"

definition vsnprintf' :: "ptr \<Rightarrow> u64 \<Rightarrow> u8 list \<Rightarrow> va_item list \<Rightarrow> 'z machine_scheme \<Rightarrow> (int \<times> 'z machine_scheme) outcome" where
  "vsnprintf' buffer count fmt va = vsnprintf out_buffer buffer count fmt va"

definition fctprintf :: "(u8 \<Rightarrow> ptr \<Rightarrow> 's \<Rightarrow> (unit \<times> 's) outcome) \<Rightarrow> ptr \<Rightarrow> ptr \<Rightarrow> u8 list \<Rightarrow> va_item list \<Rightarrow> 's
    \<Rightarrow> (int \<times> 's) outcome" where
  "fctprintf f arg wrap_addr fmt va = vsnprintf (out_fct (f, arg)) wrap_addr (- 1) fmt va"

section \<open>The text of a format\<close>

text \<open>
  \<open>format_text\<close> computes the whole output of the directive loop as a list of bytes, without an output function, an
  index or a buffer; the theory \<open>Printf_Spec\<close> shows that it is the text the language asks for. \<open>emits\<close> hands a list
  of bytes to an output function one by one.
\<close>

primrec emits :: "'s out_fct \<Rightarrow> ptr \<Rightarrow> u64 \<Rightarrow> u8 list \<Rightarrow> u64 \<Rightarrow> 's \<Rightarrow> (u64 \<times> 's) outcome" where
  "emits out buffer maxlen [] idx = retk idx"
| "emits out buffer maxlen (c # cs) idx = bindk (emit out buffer maxlen c idx) (\<lambda>idx. emits out buffer maxlen cs idx)"

definition pad_left :: "bool \<Rightarrow> nat \<Rightarrow> u8 list" where
  "pad_left b n = (if b then replicate n 32 else [])"

definition rev_text :: "u8 list \<Rightarrow> u32 \<Rightarrow> u32 \<Rightarrow> u8 list" where
  "rev_text buf width flags =
     pad_left (\<not> has flags FLAGS_LEFT \<and> \<not> has flags FLAGS_ZEROPAD) (unat width - length buf) @ rev buf @
     pad_left (has flags FLAGS_LEFT) (unat width - length buf)"

definition number_text :: "u64 \<Rightarrow> bool \<Rightarrow> u32 \<Rightarrow> u32 \<Rightarrow> u32 \<Rightarrow> u32 \<Rightarrow> u8 list" where
  "number_text value negative base prec width flags =
     (let (buf, flags) = ntoa_start value (ucast base) flags;
          (buf', width') = ntoa_buffer buf negative base prec width flags
      in rev_text buf' width' flags)"

definition int_text :: "directive \<Rightarrow> va_item list \<Rightarrow> (u8 list \<times> va_item list) option" where
  "int_text d va =
     (let base = int_base (dspec d); flags = int_flags (dspec d) (dflags d) in
      if is_signed_spec (dspec d) then
        (case signed_arg flags va of None \<Rightarrow> None
         | Some (v, neg, va') \<Rightarrow> Some (number_text v neg base (dprec d) (dwidth d) flags, va'))
      else
        (case unsigned_arg flags va of None \<Rightarrow> None
         | Some (v, va') \<Rightarrow> Some (number_text v False base (dprec d) (dwidth d) flags, va')))"

definition char_text :: "directive \<Rightarrow> va_item list \<Rightarrow> (u8 list \<times> va_item list) option" where
  "char_text d va =
     (case va_u32 va of None \<Rightarrow> None
      | Some (c, va') \<Rightarrow> Some (pad_left (\<not> has (dflags d) FLAGS_LEFT) (unat (dwidth d) - 1) @ [ucast c] @
          pad_left (has (dflags d) FLAGS_LEFT) (unat (dwidth d) - 1), va'))"

definition str_text :: "directive \<Rightarrow> va_item list \<Rightarrow> (u8 list \<times> va_item list) option" where
  "str_text d va =
     (case va_str va of None \<Rightarrow> None
      | Some (p, va') \<Rightarrow>
          let pad = unat (dwidth d) - unat (str_len d p) in
          Some (pad_left (\<not> has (dflags d) FLAGS_LEFT) pad @
            (if has (dflags d) FLAGS_PRECISION then take (unat (dprec d)) p else p) @
            pad_left (has (dflags d) FLAGS_LEFT) pad, va'))"

definition ptr_text :: "directive \<Rightarrow> va_item list \<Rightarrow> (u8 list \<times> va_item list) option" where
  "ptr_text d va =
     (case va_u64 va of None \<Rightarrow> None
      | Some (p, va') \<Rightarrow>
          Some (number_text p False 16 (dprec d) 16 (dflags d OR (FLAGS_ZEROPAD OR FLAGS_UPPERCASE)), va'))"

definition directive_text :: "directive \<Rightarrow> va_item list \<Rightarrow> (u8 list \<times> va_item list) option" where
  "directive_text d va =
     (if is_int_spec (dspec d) then int_text d va
      else if dspec d = ascii (CHR ''c'') then char_text d va
      else if dspec d = ascii (CHR ''s'') then str_text d va
      else if dspec d = ascii (CHR ''p'') then ptr_text d va
      else if dspec d = ascii (CHR ''%'') then Some ([37], va)
      else Some ([dspec d], va))"

function format_text :: "u8 list \<Rightarrow> va_item list \<Rightarrow> u8 list option" where
  "format_text [] va = Some []"
| "format_text (c # cs) va =
     (if c \<noteq> 37 then map_option ((#) c) (format_text cs va)
      else case parse_directive cs va of None \<Rightarrow> None
        | Some (d, rest, va1) \<Rightarrow>
            (case directive_text d va1 of None \<Rightarrow> None
             | Some (t, va2) \<Rightarrow> map_option ((@) t) (format_text rest va2)))"
  by pat_completeness auto

termination
  by (relation "measure (\<lambda>(fmt, va). length fmt)") (auto dest!: parse_directive_shorter)

section \<open>Streaming a text\<close>

lemma bindk_assoc: "bindk (bindk m f) g = bindk m (\<lambda>a. bindk (f a) g)"
  by (rule ext) (auto simp: bindk_def split: outcome.splits)

lemma bindk_retk_left: "bindk (retk a) f = f a"
  by (rule ext) (simp add: bindk_retk)

lemma bindk_cong_Ret:
  assumes "\<And>a t. m s = Ret (a, t) \<Longrightarrow> f a t = g a t"
  shows "bindk m f s = bindk m g s"
  using assms by (auto simp: bindk_def split: outcome.splits)

lemma emits_append:
  "emits out buffer maxlen (xs @ ys) idx = bindk (emits out buffer maxlen xs idx) (\<lambda>idx. emits out buffer maxlen ys idx)"
  by (induction xs arbitrary: idx) (simp_all add: bindk_retk_left bindk_assoc)

lemma emit_pad_text: "emit_pad out buffer maxlen n idx = emits out buffer maxlen (replicate n 32) idx"
  by (induction n arbitrary: idx) simp_all

lemma emit_pad_if:
  "(if b then emit_pad out buffer maxlen n idx else retk idx) = emits out buffer maxlen (pad_left b n) idx"
  by (simp add: emit_pad_text pad_left_def)

lemma emit_rev_text:
  "n \<le> length buf \<Longrightarrow> emit_rev out buffer maxlen n buf idx = emits out buffer maxlen (rev (take n buf)) idx"
  by (induction n arbitrary: idx) (simp_all add: take_Suc_conv_app_nth)

lemma emit_str_text:
  "emit_str out buffer maxlen limited p prec idx
   = emits out buffer maxlen (if limited then take (unat prec) p else p) idx"
proof (induction p arbitrary: prec idx)
  case (Cons c cs)
  have "unat prec = Suc (unat (prec - 1))" if "prec \<noteq> 0"
    using that unat_gt_0 [of prec] by (simp add: unat_minus_one)
  moreover have "emit_str out buffer maxlen limited cs q
      = emits out buffer maxlen (if limited then take (unat q) cs else cs)" for q
    by (rule ext) (rule Cons.IH)
  ultimately show ?case by (cases limited; cases "prec = 0") simp_all
qed simp

lemma emits_index:
  "emits out buffer maxlen xs idx s = Ret (i, t) \<Longrightarrow> i = idx + of_nat (length xs)"
proof (induction xs arbitrary: idx s)
  case (Cons c cs)
  from Cons.prems obtain s' where "emits out buffer maxlen cs (idx + 1) s' = Ret (i, t)"
    by (auto simp: emit_def bindk_eq_Ret_iff retk_def)
  from Cons.IH [OF this] show ?case by (simp add: algebra_simps)
qed (simp add: retk_def)

lemma out_rev_text:
  assumes "length buf < 2 ^ 64"
  shows "out_rev out buffer idx maxlen buf width flags = emits out buffer maxlen (rev_text buf width flags) idx"
proof (rule ext)
  fix s
  show "out_rev out buffer idx maxlen buf width flags s = emits out buffer maxlen (rev_text buf width flags) idx s"
  proof (cases "has flags FLAGS_LEFT")
    case True
    have "unat (i - idx) = length buf" if "emits out buffer maxlen (rev buf) idx s = Ret (i, t)" for i t
      using emits_index [OF that] assms by (simp add: unat_of_nat)
    then show ?thesis using True
      by (auto simp: out_rev_def rev_text_def pad_left_def emit_rev_text emit_pad_text emits_append bindk_retk_left
          intro!: bindk_cong_Ret)
  next
    case False
    then show ?thesis
      by (simp add: out_rev_def rev_text_def emit_pad_if emit_rev_text emits_append pad_left_def)
        (simp add: bindk_def retk_def split: outcome.splits)
  qed
qed

lemma ntoa_digits_length: "length (ntoa_digits n flags base v) \<le> n"
  by (induction n arbitrary: v) auto

lemma ntoa_start_length: "length (fst (ntoa_start v base flags)) \<le> PRINTF_NTOA_BUFFER_SIZE"
  by (simp add: ntoa_start_def Let_def ntoa_digits_length)

lemma zero_fill_length:
  "length buf \<le> PRINTF_NTOA_BUFFER_SIZE \<Longrightarrow> length (zero_fill n buf) \<le> PRINTF_NTOA_BUFFER_SIZE"
  by (simp add: zero_fill_def)

lemma put_bounded_length:
  "length buf \<le> PRINTF_NTOA_BUFFER_SIZE \<Longrightarrow> length (put_bounded c buf) \<le> PRINTF_NTOA_BUFFER_SIZE"
  by (simp add: put_bounded_def)

lemma ntoa_hash_length:
  "length buf \<le> PRINTF_NTOA_BUFFER_SIZE \<Longrightarrow> length (ntoa_hash base prec width flags buf) \<le> PRINTF_NTOA_BUFFER_SIZE"
  unfolding ntoa_hash_def Let_def by (auto intro!: put_bounded_length)

lemma ntoa_sign_length:
  "length buf \<le> PRINTF_NTOA_BUFFER_SIZE \<Longrightarrow> length (ntoa_sign negative flags buf) \<le> PRINTF_NTOA_BUFFER_SIZE"
  by (simp add: ntoa_sign_def)

lemma ntoa_buffer_length:
  assumes "length buf \<le> PRINTF_NTOA_BUFFER_SIZE"
  shows "length (fst (ntoa_buffer buf negative base prec width flags)) \<le> PRINTF_NTOA_BUFFER_SIZE"
  using assms by (simp add: ntoa_buffer_def Let_def ntoa_sign_length ntoa_hash_length zero_fill_length)

lemma ucast_up_down: "ucast (ucast (x :: u32) :: u64) = x"
  by (rule bit_eqI) (simp add: bit_simps)

lemma ntoa_long_text:
  "ntoa_long out buffer idx maxlen v neg (ucast base) prec width flags
   = emits out buffer maxlen (number_text v neg base prec width flags) idx"
proof -
  obtain buf fl where 1: "ntoa_start v (ucast base) flags = (buf, fl)" by fastforce
  obtain buf' w' where 2: "ntoa_buffer buf neg base prec width fl = (buf', w')" by fastforce
  have "length buf' \<le> PRINTF_NTOA_BUFFER_SIZE"
    using ntoa_buffer_length ntoa_start_length 1 2 by (metis fst_conv)
  then have "length buf' < 2 ^ 64" by (simp add: PRINTF_NTOA_BUFFER_SIZE_def)
  then show ?thesis
    using 1 2 by (simp add: ntoa_long_def ntoa_format_def number_text_def out_rev_text ucast_up_down)
qed

lemma ntoa_any_text:
  "ntoa_any out buffer idx maxlen v neg base prec width flags
   = emits out buffer maxlen (number_text v neg base prec width flags) idx"
  using ntoa_long_text by (simp add: ntoa_any_def ntoa_long_def ntoa_long_long_def)

section \<open>The formatter prints the text\<close>

definition stream :: "'s out_fct \<Rightarrow> ptr \<Rightarrow> u64 \<Rightarrow> (u8 list \<times> 'v) \<Rightarrow> u64 \<Rightarrow> 's \<Rightarrow> (('v \<times> u64) \<times> 's) outcome" where
  "stream out buffer maxlen tv idx = bindk (emits out buffer maxlen (fst tv) idx) (\<lambda>idx. retk (snd tv, idx))"

lemma convert_text:
  assumes "directive_text d va = Some tv"
  shows "convert out buffer maxlen d va idx = stream out buffer maxlen tv idx"
proof -
  have ptr: "conv_ptr out buffer maxlen d va idx = stream out buffer maxlen tv idx" if "ptr_text d va = Some tv"
    using that ntoa_long_text [of out buffer idx maxlen _ False 16]
    by (auto simp: conv_ptr_def ptr_text_def stream_def Let_def ntoa_long_def ntoa_long_long_def split: option.splits)
  have int: "conv_int out buffer maxlen d va idx = stream out buffer maxlen tv idx" if "int_text d va = Some tv"
    using that by (auto simp: conv_int_def int_text_def stream_def Let_def ntoa_any_text split: option.splits if_splits)
  have chr: "conv_char out buffer maxlen d va idx = stream out buffer maxlen tv idx" if "char_text d va = Some tv"
    using that by (auto simp: conv_char_def char_text_def stream_def emit_pad_if emits_append bindk_assoc
        bindk_retk_left split: option.splits)
  have str: "conv_str out buffer maxlen d va idx = stream out buffer maxlen tv idx" if "str_text d va = Some tv"
    using that by (auto simp: conv_str_def str_text_def stream_def Let_def emit_pad_if emit_str_text emits_append
        bindk_assoc split: option.splits)
  show ?thesis
    using assms ptr int chr str
    by (auto simp: convert_def directive_text_def stream_def bindk_assoc bindk_retk_left split: if_splits)
qed

lemma vsnprintf_loop_text:
  "format_text fmt va = Some t \<Longrightarrow>
   vsnprintf_loop out buffer maxlen fmt va idx = emits out buffer maxlen t idx"
proof (induction fmt va arbitrary: t idx rule: format_text.induct)
  case (2 c cs va)
  show ?case
  proof (cases "c = 37")
    case False
    with 2(3) obtain t' where t: "format_text cs va = Some t'" "t = c # t'" by auto
    have "vsnprintf_loop out buffer maxlen cs va = emits out buffer maxlen t'"
      by (rule ext) (rule 2(1) [OF False t(1)])
    then show ?thesis using False t by simp
  next
    case True
    with 2 obtain d rest va1 tv where p: "parse_directive cs va = Some (d, rest, va1)"
      and d: "directive_text d va1 = Some tv" by (auto split: option.splits)
    with 2 True obtain t' where t: "format_text rest (snd tv) = Some t'" "t = fst tv @ t'" by (auto split: prod.splits)
    have "vsnprintf_loop out buffer maxlen rest (snd tv) = emits out buffer maxlen t'"
      using 2(2) [OF _ p refl refl d] True t(1) by (intro ext) (metis prod.collapse)
    then show ?thesis
      using p d t(2) True by (simp add: convert_text [OF d] stream_def bindk_assoc bindk_retk_left emits_append)
  qed
qed simp

lemma ptr_text_None: "ptr_text d va = None \<Longrightarrow> conv_ptr out buffer maxlen d va idx s = Undef ''vsnprintf''"
  by (auto simp: ptr_text_def conv_ptr_def Let_def undefk_def split: option.splits)

lemma int_text_None: "int_text d va = None \<Longrightarrow> conv_int out buffer maxlen d va idx s = Undef ''vsnprintf''"
  by (auto simp: int_text_def conv_int_def Let_def undefk_def split: option.splits if_splits)

lemma str_text_None: "str_text d va = None \<Longrightarrow> conv_str out buffer maxlen d va idx s = Undef ''vsnprintf''"
  by (auto simp: str_text_def conv_str_def Let_def undefk_def split: option.splits)

text \<open>An output function that always returns, as the buffer and the null output do.\<close>

definition total_out :: "'s out_fct \<Rightarrow> bool" where
  "total_out out \<longleftrightarrow> (\<forall>c buffer idx maxlen s. \<exists>t. out c buffer idx maxlen s = Ret ((), t))"

lemma total_emits: "total_out out \<Longrightarrow> \<exists>i t. emits out buffer maxlen xs idx s = Ret (i, t)"
proof (induction xs arbitrary: idx s)
  case (Cons c cs)
  then obtain t where "out c buffer idx maxlen s = Ret ((), t)" unfolding total_out_def by blast
  then show ?case using Cons by (simp add: emit_def outcome_simps)
qed (simp add: retk_def)

lemma char_text_None:
  assumes "total_out out" and "char_text d va = None"
  shows "conv_char out buffer maxlen d va idx s = Undef ''vsnprintf''"
proof -
  have n: "va_u32 va = None" using assms(2) by (auto simp: char_text_def split: option.splits)
  obtain i t where "emits out buffer maxlen (pad_left (\<not> has (dflags d) FLAGS_LEFT) (unat (dwidth d) - 1)) idx s = Ret (i, t)"
    using total_emits [OF assms(1)] by blast
  then show ?thesis using n by (simp add: conv_char_def emit_pad_if undefk_def bindk_Ret)
qed

lemma convert_undef:
  assumes "total_out out" and "directive_text d va = None"
  shows "convert out buffer maxlen d va idx s = Undef ''vsnprintf''"
  using assms ptr_text_None int_text_None str_text_None char_text_None
  by (auto simp: convert_def directive_text_def split: if_splits)

lemma vsnprintf_loop_undef:
  assumes tot: "total_out out"
  shows "format_text fmt va = None \<Longrightarrow> vsnprintf_loop out buffer maxlen fmt va idx s = Undef ''vsnprintf''"
proof (induction fmt va arbitrary: idx s rule: format_text.induct)
  case (2 c cs va)
  show ?case
  proof (cases "c = 37")
    case False
    obtain t where "out c buffer idx maxlen s = Ret ((), t)" using tot unfolding total_out_def by blast
    then show ?thesis using 2 False by (simp add: emit_def outcome_simps)
  next
    case c: True
    show ?thesis
    proof (cases "parse_directive cs va")
      case None
      then show ?thesis using c by (simp add: undefk_def)
    next
      case (Some p)
      obtain d rest va1 where p: "p = (d, rest, va1)" by (cases p)
      show ?thesis
      proof (cases "directive_text d va1")
        case None
        then show ?thesis using c Some p convert_undef [OF tot] by (simp add: bindk_Undef)
      next
        case (Some tv)
        obtain i t where e: "emits out buffer maxlen (fst tv) idx s = Ret (i, t)" using total_emits [OF tot] by blast
        have "format_text rest (snd tv) = None" using 2(3) c \<open>parse_directive cs va = Some p\<close> p Some by (cases tv) simp
        then have "vsnprintf_loop out buffer maxlen rest (snd tv) i t = Undef ''vsnprintf''"
          using 2(2) [OF _ \<open>parse_directive cs va = Some p\<close> p [symmetric] refl Some prod.collapse] c by simp
        then show ?thesis
          using c \<open>parse_directive cs va = Some p\<close> p Some e
          by (simp add: convert_text [OF Some] stream_def bindk_assoc outcome_simps)
      qed
    qed
  qed
qed simp

lemma vsnprintf_text:
  assumes "buffer \<noteq> NULL" and "format_text fmt va = Some t"
  shows "vsnprintf out buffer maxlen fmt va =
     bindk (emits out buffer maxlen t 0) (\<lambda>_.
     bindk (out 0 buffer (if of_nat (length t) < maxlen then of_nat (length t) else maxlen - 1) maxlen) (\<lambda>_.
     retk (sint (of_nat (length t) :: u32))))"
proof (rule ext)
  fix s
  have low: "ucast (of_nat n :: u64) = (of_nat n :: u32)" for n by (rule bit_eqI) (simp add: bit_simps)
  have "vsnprintf out buffer maxlen fmt va s = bindk (emits out buffer maxlen t 0) (\<lambda>idx.
      bindk (out 0 buffer (if idx < maxlen then idx else maxlen - 1) maxlen) (\<lambda>_. retk (sint (ucast idx :: u32)))) s"
    using assms(1) by (simp add: vsnprintf_def vsnprintf_loop_text [OF assms(2)])
  also have "\<dots> = bindk (emits out buffer maxlen t 0) (\<lambda>_.
          bindk (out 0 buffer (if of_nat (length t) < maxlen then of_nat (length t) else maxlen - 1) maxlen) (\<lambda>_.
          retk (sint (of_nat (length t) :: u32)))) s"
    by (rule bindk_cong_Ret) (use emits_index low in force)
  finally show "vsnprintf out buffer maxlen fmt va s = bindk (emits out buffer maxlen t 0) (\<lambda>_.
     bindk (out 0 buffer (if of_nat (length t) < maxlen then of_nat (length t) else maxlen - 1) maxlen) (\<lambda>_.
     retk (sint (of_nat (length t) :: u32)))) s" .
qed

lemma vsnprintf_reference:
  assumes "buffer \<noteq> NULL" and "total_out out"
  shows "vsnprintf out buffer maxlen fmt va s =
     (case format_text fmt va of
        None \<Rightarrow> Undef ''vsnprintf''
      | Some t \<Rightarrow> bindk (emits out buffer maxlen t 0) (\<lambda>_.
          bindk (out 0 buffer (if of_nat (length t) < maxlen then of_nat (length t) else maxlen - 1) maxlen) (\<lambda>_.
          retk (sint (of_nat (length t) :: u32)))) s)"
proof (cases "format_text fmt va")
  case None
  then show ?thesis using assms(1) vsnprintf_loop_undef [OF assms(2) None] by (simp add: vsnprintf_def bindk_Undef)
next
  case (Some t)
  then show ?thesis using vsnprintf_text [OF assms(1) Some, of out maxlen] by simp
qed

section \<open>Printing into a buffer\<close>

lemma word_nat_cast_id: "of_nat (unat x) = (x :: u64)"
  by simp

lemma st_bytes_upd:
  assumes "i < length bs" and "length bs \<le> 2 ^ 64"
  shows "(st_bytes m a bs)(a + of_nat i := c) = st_bytes m a (bs[i := c])"
proof (rule ext)
  fix x
  show "((st_bytes m a bs)(a + of_nat i := c)) x = st_bytes m a (bs[i := c]) x"
  proof (cases "x = a + of_nat i")
    case True
    then show ?thesis using assms by (simp add: st_bytes_def Let_def unat_of_nat)
  next
    case False
    then have "unat (x - a) \<noteq> i"
      by (metis add.commute diff_add_cancel word_nat_cast_id)
    then show ?thesis using False by (simp add: st_bytes_def Let_def)
  qed
qed

lemma st_bytes_snoc:
  assumes "length bs < 2 ^ 64"
  shows "(st_bytes m a bs)(a + of_nat (length bs) := c) = st_bytes m a (bs @ [c])"
proof (rule ext)
  fix x
  show "((st_bytes m a bs)(a + of_nat (length bs) := c)) x = st_bytes m a (bs @ [c]) x"
  proof (cases "x = a + of_nat (length bs)")
    case True
    then show ?thesis using assms by (simp add: st_bytes_def Let_def unat_of_nat)
  next
    case False
    then have "unat (x - a) \<noteq> length bs"
      by (metis add.commute diff_add_cancel word_nat_cast_id)
    then show ?thesis using False by (auto simp: st_bytes_def Let_def nth_append)
  qed
qed

lemma st_bytes_none [simp]: "st_bytes m a [] = m"
  by (rule ext) (simp add: st_bytes_def)

text \<open>The bytes that fit are stored, the others only counted.\<close>

lemma emits_out_buffer:
  "mem s = st_bytes m buffer (take (unat maxlen) pre) \<Longrightarrow> length pre + length xs < 2 ^ 64 \<Longrightarrow>
   emits out_buffer buffer maxlen xs (of_nat (length pre)) s
   = Ret (of_nat (length pre + length xs), s\<lparr>mem := st_bytes m buffer (take (unat maxlen) (pre @ xs))\<rparr>)"
proof (induction xs arbitrary: pre s)
  case (Cons c cs)
  have u: "unat (of_nat (length pre) :: u64) = length pre" using Cons.prems by (simp add: unat_of_nat)
  have "\<exists>t. out_buffer c buffer (of_nat (length pre)) maxlen s = Ret ((), t)
      \<and> t = s\<lparr>mem := st_bytes m buffer (take (unat maxlen) (pre @ [c]))\<rparr>"
  proof (cases "length pre < unat maxlen")
    case True
    then have "take (unat maxlen) pre = pre" "take (unat maxlen) (pre @ [c]) = pre @ [c]" by simp_all
    then show ?thesis
      using True Cons.prems u st_bytes_snoc [of pre] by (simp add: out_buffer_def word_less_nat_alt)
  next
    case False
    then show ?thesis using Cons.prems u by (simp add: out_buffer_def word_less_nat_alt)
  qed
  then obtain t where t: "out_buffer c buffer (of_nat (length pre)) maxlen s = Ret ((), t)"
    and tm: "t = s\<lparr>mem := st_bytes m buffer (take (unat maxlen) (pre @ [c]))\<rparr>" by blast
  have "emits out_buffer buffer maxlen (c # cs) (of_nat (length pre)) s
      = emits out_buffer buffer maxlen cs (of_nat (length (pre @ [c]))) t"
    using t by (simp add: emit_def bindk_assoc outcome_simps add.commute)
  also have "\<dots> = Ret (of_nat (length (pre @ [c]) + length cs), t\<lparr>mem := st_bytes m buffer (take (unat maxlen) ((pre @ [c]) @ cs))\<rparr>)"
    by (rule Cons.IH) (use tm Cons.prems in auto)
  finally show ?case using tm by simp
qed (simp add: retk_def)

lemma total_out_buffer: "total_out out_buffer"
  by (simp add: total_out_def out_buffer_def)

text \<open>C22: \<^verbatim>\<open>snprintf_\<close> never writes outside the \<^verbatim>\<open>count\<close> bytes of its buffer, leaves a NUL-terminated string in it
  that is the text cut after \<^verbatim>\<open>count - 1\<close> bytes, and returns the length of the whole text, so that truncation can
  be seen from the result.\<close>

theorem snprintf_bounded:
  assumes t: "format_text fmt va = Some t" and buf: "buffer \<noteq> NULL" and c: "count \<noteq> 0" and len: "length t < 2 ^ 31"
  shows "snprintf' buffer count fmt va s =
       Ret (int (length t), s\<lparr>mem := st_bytes (mem s) buffer (take (unat count - 1) t @ [0])\<rparr>)
     \<and> eq_on (- region buffer (unat count)) (mem s) (st_bytes (mem s) buffer (take (unat count - 1) t @ [0]))
     \<and> ld_bytes (st_bytes (mem s) buffer (take (unat count - 1) t @ [0])) buffer (min (length t) (unat count - 1) + 1)
       = take (unat count - 1) t @ [0]"
proof -
  let ?bs = "take (unat count - 1) t @ [0]" and ?i = "if of_nat (length t) < count then of_nat (length t) else count - 1"
  have pos: "0 < unat count" using c by (simp add: unat_gt_0)
  have lt: "length t < 2 ^ 64" "unat (of_nat (length t) :: u64) = length t" using len by (simp_all add: unat_of_nat)
  have e: "emits out_buffer buffer count t 0 s = Ret (of_nat (length t), s\<lparr>mem := st_bytes (mem s) buffer (take (unat count) t)\<rparr>)"
    using emits_out_buffer [where s = s and m = "mem s" and pre = "[]" and xs = t] lt by simp
  have idx: "?i = of_nat (min (length t) (unat count - 1))"
    using lt pos c by (auto simp: word_less_nat_alt min_def unat_minus_one [symmetric])
  have upd: "(st_bytes (mem s) buffer (take (unat count) t))(buffer + ?i := 0) = st_bytes (mem s) buffer ?bs"
  proof (cases "length t < unat count")
    case True
    moreover from this have "min (length t) (unat count - 1) = length t" by simp
    ultimately show ?thesis using st_bytes_snoc [OF lt(1), of "mem s" buffer 0] idx by simp
  next
    case False
    then have "(take (unat count) t)[unat count - 1 := 0] = ?bs"
      using pos by (intro nth_equalityI) (auto simp: nth_append nth_list_update)
    then show ?thesis
      using st_bytes_upd [of "unat count - 1" "take (unat count) t" "mem s" buffer 0] False pos idx lt
      by simp
  qed
  have "?i < count" using lt pos c by (auto simp: word_less_nat_alt unat_minus_one)
  then have o: "out_buffer 0 buffer ?i count (s\<lparr>mem := st_bytes (mem s) buffer (take (unat count) t)\<rparr>)
      = Ret ((), s\<lparr>mem := st_bytes (mem s) buffer ?bs\<rparr>)"
    unfolding out_buffer_def using upd by simp
  have r: "sint (of_nat (length t) :: u32) = int (length t)"
    using len by (simp add: sint_uint signed_take_bit_int_eq_self unsigned_of_nat take_bit_nat_eq_self)
  have "snprintf' buffer count fmt va s = Ret (int (length t), s\<lparr>mem := st_bytes (mem s) buffer ?bs\<rparr>)"
    using vsnprintf_reference [OF buf total_out_buffer, of count fmt va s] t e o r
    by (simp add: snprintf'_def outcome_simps)
  moreover have "eq_on (- region buffer (unat count)) (mem s) (st_bytes (mem s) buffer ?bs)"
    by (rule eq_on_st_bytes) (use pos in \<open>auto simp: region_def\<close>)
  moreover have "ld_bytes (st_bytes (mem s) buffer ?bs) buffer (min (length t) (unat count - 1) + 1) = ?bs"
    by (rule ld_bytes_st_bytes_same) (use lt in auto)
  ultimately show ?thesis by blast
qed

section \<open>Numbers read back\<close>

text \<open>The value of a digit and of a numeral, most significant digit first.\<close>

definition digit_val :: "u8 \<Rightarrow> nat" where
  "digit_val c = (if c \<le> 57 then unat c - 48 else if c \<le> 70 then unat c - 55 else unat c - 87)"

definition read_base :: "nat \<Rightarrow> u8 list \<Rightarrow> nat" where
  "read_base b cs = foldl (\<lambda>acc c. acc * b + digit_val c) 0 cs"

text \<open>Format strings written as HOL strings.\<close>

definition bytes :: "string \<Rightarrow> u8 list" where
  "bytes cs = map of_char cs"

lemma unat_ucast_digit: "d < (16 :: u64) \<Longrightarrow> unat (ucast d :: u8) = unat d"
  by (simp add: unsigned_ucast_eq word_less_nat_alt take_bit_nat_eq_self)

lemma digit_val_char:
  assumes "d < (16 :: u64)"
  shows "digit_val (digit_char flags d) = unat d"
proof -
  have d: "unat d < 16" "unat (ucast d :: u8) = unat d"
    using assms unat_ucast_digit by (simp_all add: word_less_nat_alt)
  show ?thesis
  proof (cases "d < 10")
    case True
    then have "unat (48 + ucast d :: u8) = 48 + unat d" using d by (simp add: unat_word_ariths word_less_nat_alt)
    then show ?thesis using True d by (simp add: digit_char_def digit_val_def word_le_nat_alt word_less_nat_alt)
  next
    case False
    have "unat (65 + ucast d - 10 :: u8) = 55 + unat d" "unat (97 + ucast d - 10 :: u8) = 87 + unat d"
      using d False by (simp_all add: unat_word_ariths unat_sub_if' word_le_nat_alt word_less_nat_alt)
    then show ?thesis using False d by (simp add: digit_char_def digit_val_def word_le_nat_alt word_less_nat_alt)
  qed
qed

lemma read_base_snoc: "read_base b (xs @ [c]) = read_base b xs * b + digit_val c"
  by (simp add: read_base_def)

lemma read_base_Nil [simp]: "read_base b [] = 0"
  by (simp add: read_base_def)

lemma read_digits:
  assumes "2 \<le> base" and "base \<le> (16 :: u64)"
  shows "read_base (unat base) (rev (ntoa_digits n flags base v)) = unat v mod unat base ^ n"
proof (induction n arbitrary: v)
  case (Suc n)
  have b: "0 < unat base" "unat base \<le> 16" using assms by (simp_all add: word_le_nat_alt)
  have "v mod base < base" using b by (simp add: word_less_nat_alt unat_mod)
  then have "v mod base < 16" using assms(2) by simp
  then have d: "digit_val (digit_char flags (v mod base)) = unat v mod unat base"
    by (simp add: digit_val_char unat_mod)
  have "unat v mod unat base ^ Suc n = unat base * (unat v div unat base mod unat base ^ n) + unat v mod unat base"
    by (simp add: mod_mult2_eq)
  then show ?case
    using Suc.IH [of "v div base"] d
    by (auto simp: read_base_snoc unat_div word_unat_eq_iff mult.commute)
qed simp

lemmas format_eval = bytes_def parse_directive_def flag_of_def parse_width_def parse_precision_def parse_length_def
  peek_def is_digit_def atoi_def Let_def

lemmas number_eval = number_text_def ntoa_start_def ntoa_buffer_def ntoa_sign_def zero_fill_def rev_text_def pad_left_def
  Let_def has_def flag_defs

lemmas spec_eval = directive_text_def is_int_spec_def int_text_def int_base_def int_flags_def is_signed_spec_def
  unsigned_arg_def signed_arg_def

lemma format_one:
  assumes "parse_directive cs va = Some (d, [], va1)" and "directive_text d va1 = Some (t, va2)"
  shows "format_text (37 # cs) va = Some t"
  using assms by simp

lemma text_lu: "format_text (bytes ''%lu'') [VWord v] = Some (rev (ntoa_digits 32 FLAGS_LONG 10 v))"
  by (simp add: format_eval spec_eval number_eval PRINTF_NTOA_BUFFER_SIZE_def)

lemma text_lx: "format_text (bytes ''%lx'') [VWord v] = Some (rev (ntoa_digits 32 FLAGS_LONG 16 v))"
  by (simp add: format_eval spec_eval number_eval PRINTF_NTOA_BUFFER_SIZE_def)

lemma text_lo: "format_text (bytes ''%lo'') [VWord v] = Some (rev (ntoa_digits 32 FLAGS_LONG 8 v))"
  by (simp add: format_eval spec_eval number_eval PRINTF_NTOA_BUFFER_SIZE_def)

lemma text_lb: "format_text (bytes ''%lb'') [VWord v] = Some (rev (ntoa_digits 32 FLAGS_LONG 2 v))"
  by (simp add: format_eval spec_eval number_eval PRINTF_NTOA_BUFFER_SIZE_def)

lemma unat_mod_big: "2 ^ 64 \<le> k \<Longrightarrow> unat (v :: u64) mod k = unat v"
  using unat_lt_2_64 [of v] by simp

text \<open>a 64-bit number printed in base 10, 16 or 8 reads back as itself: no digit is lost to the 32-byte
  buffer.\<close>

theorem printed_number_reads_back:
  "\<exists>t10 t16 t8. format_text (bytes ''%lu'') [VWord v] = Some t10 \<and> read_base 10 t10 = unat v
     \<and> format_text (bytes ''%lx'') [VWord v] = Some t16 \<and> read_base 16 t16 = unat v
     \<and> format_text (bytes ''%lo'') [VWord v] = Some t8 \<and> read_base 8 t8 = unat v"
proof -
  have "read_base 10 (rev (ntoa_digits 32 FLAGS_LONG 10 v)) = unat v"
    "read_base 16 (rev (ntoa_digits 32 FLAGS_LONG 16 v)) = unat v"
    "read_base 8 (rev (ntoa_digits 32 FLAGS_LONG 8 v)) = unat v"
    using read_digits [of 10 32 FLAGS_LONG v] read_digits [of 16 32 FLAGS_LONG v] read_digits [of 8 32 FLAGS_LONG v]
    by (simp_all add: unat_mod_big)
  then show ?thesis using text_lu text_lx text_lo by blast
qed

text \<open>base 2 is the exception: the conversion buffer holds 32 digits, so \<^verbatim>\<open>%lb\<close> prints only the low 32 bits of
  its argument.\<close>

theorem binary_conversion_keeps_32_bits:
  "\<exists>t. format_text (bytes ''%lb'') [VWord v] = Some t \<and> length t \<le> 32 \<and> read_base 2 t = unat v mod 2 ^ 32"
  using text_lb [of v] read_digits [of 2 32 FLAGS_LONG v] ntoa_digits_length [of 32 FLAGS_LONG 2 v] by simp

text \<open>C23: for every value, base, sign, precision, width and combination of flags, the conversion never stores past
  the 32 bytes of its local buffer.\<close>

theorem ntoa_buffer_never_overflows:
  "length (fst (ntoa_start v base flags)) \<le> PRINTF_NTOA_BUFFER_SIZE
   \<and> length (fst (ntoa_buffer (fst (ntoa_start v base flags)) neg b prec width f)) \<le> PRINTF_NTOA_BUFFER_SIZE"
  using ntoa_start_length ntoa_buffer_length by blast

section \<open>Signed numbers and pointers\<close>

lemma digit_char_digit: "d < 10 \<Longrightarrow> is_digit (digit_char flags d)"
  using unat_ucast_digit [of d] by (simp add: digit_char_def is_digit_def word_le_nat_alt word_less_nat_alt unat_word_ariths)

lemma ntoa_digits_decimal: "\<forall>c \<in> set (ntoa_digits n flags 10 v). is_digit c"
proof (induction n arbitrary: v)
  case (Suc n)
  have "v mod 10 < 10" by (simp add: word_less_nat_alt unat_mod)
  then show ?case using Suc.IH digit_char_digit by auto
qed simp

lemma atoi_step_digit: "is_digit c \<Longrightarrow> (ucast c :: u32) - 48 = of_nat (digit_val c)"
proof -
  assume d: "is_digit c"
  then have le: "48 \<le> unat c" "unat c \<le> 57" by (simp_all add: is_digit_def word_le_nat_alt)
  then have "(of_nat (unat c - 48) :: u32) = of_nat (unat c) - 48" by simp
  then show ?thesis using d by (simp add: digit_val_def is_digit_def)
qed

lemma atoi_loop_digits:
  assumes "\<forall>c \<in> set cs. is_digit c"
  shows "atoi_loop (of_nat n) cs = (of_nat (foldl (\<lambda>acc c. acc * 10 + digit_val c) n cs), [])"
  using assms
proof (induction cs arbitrary: n)
  case (Cons c cs)
  have "(of_nat n * 10 + (ucast c - 48) :: u32) = of_nat (n * 10 + digit_val c)"
    using Cons.prems atoi_step_digit by simp
  then show ?case using Cons.prems Cons.IH [of "n * 10 + digit_val c"] by simp
qed simp

lemma atoi_numeral: "atoi (rev (ntoa_digits 32 flags 10 v)) = (of_nat (unat v), [])"
proof -
  have "\<forall>c \<in> set (rev (ntoa_digits 32 flags 10 v)). is_digit c" using ntoa_digits_decimal by simp
  from atoi_loop_digits [OF this, of 0] show ?thesis
    using read_digits [of 10 32 flags v] by (simp add: atoi_def read_base_def unat_mod_big)
qed

lemma ntoa_digits_short:
  assumes "1 < unat base"
  shows "0 < k \<Longrightarrow> unat v < unat base ^ k \<Longrightarrow> length (ntoa_digits n flags base v) \<le> k"
proof (induction n arbitrary: v k)
  case (Suc n)
  show ?case
  proof (cases "v div base = 0")
    case False
    then have "unat v div unat base \<noteq> 0" by (simp add: word_unat_eq_iff unat_div)
    then have k: "1 < k" using Suc.prems assms by (cases "k = 1") (auto simp: div_eq_0_iff)
    have "unat (v div base) < unat base ^ (k - 1)"
      using Suc.prems assms k by (simp add: unat_div less_mult_imp_div_less flip: power_Suc2)
    then have "length (ntoa_digits n flags base (v div base)) \<le> k - 1" using Suc.IH k by simp
    then show ?thesis using k False by simp
  qed (use Suc.prems in simp)
qed simp

lemma number_text_decimal:
  "number_text v neg 10 0 0 0 = (if neg then [45] else []) @ rev (ntoa_digits 32 0 10 v)"
proof -
  have "length (ntoa_digits 32 0 10 w) \<le> 20" for w
    by (rule ntoa_digits_short) (use unat_lt_2_64 [of w] in simp_all)
  then have "length (ntoa_digits 32 0 10 w) < 32" for w by (rule le_less_trans) simp
  then show ?thesis by (simp add: number_eval PRINTF_NTOA_BUFFER_SIZE_def)
qed

lemma parse_d: "parse_directive (bytes ''d'') va = Some (\<lparr>dflags = 0, dwidth = 0, dprec = 0, dspec = 100\<rparr>, [], va)"
  by (simp add: format_eval)

lemma text_d:
  assumes "ucast v \<noteq> INT_MIN"
  shows "format_text (bytes ''%d'') [VWord v] =
     Some ((if (ucast v :: u32) <s 0 then [45] else []) @
           rev (ntoa_digits 32 0 10 (ucast (if 0 <s (ucast v :: u32) then ucast v else - ucast v :: u32))))"
proof -
  have "int_base 100 = 10" "int_flags 100 0 = 0" "is_signed_spec 100" "is_int_spec 100"
    by (simp_all add: int_base_def int_flags_def is_signed_spec_def is_int_spec_def has_def)
  then have "directive_text \<lparr>dflags = 0, dwidth = 0, dprec = 0, dspec = 100\<rparr> [VWord v] =
      Some ((if (ucast v :: u32) <s 0 then [45] else []) @
           rev (ntoa_digits 32 0 10 (ucast (if 0 <s (ucast v :: u32) then ucast v else - ucast v :: u32))), [])"
    using assms by (simp add: directive_text_def int_text_def signed_arg_def has_def va_u32_def number_text_decimal)
  from format_one [OF parse_d this] show ?thesis by (simp add: bytes_def)
qed

text \<open>an \<^verbatim>\<open>int\<close> printed with \<^verbatim>\<open>%d\<close> and scanned by \<^verbatim>\<open>_atoi\<close> comes back: a negative number is a minus sign
  followed by the numeral of its magnitude. (For the most negative \<^verbatim>\<open>int\<close> the source negates in \<^verbatim>\<open>int\<close>, which C
  leaves undefined.)\<close>

theorem decimal_round_trip:
  assumes "ucast v \<noteq> INT_MIN"
  shows "\<exists>t. format_text (bytes ''%d'') [VWord v] = Some t \<and>
     (if (ucast v :: u32) <s 0 then hd t = 45 \<and> atoi (tl t) = (- ucast v, []) else atoi t = (ucast v, []))"
proof -
  let ?w = "ucast v :: u32"
  have up: "of_nat (unat (ucast (x :: u32) :: u64)) = x" for x
  proof -
    have "unat x < 2 ^ LENGTH(32)" by (rule unsigned_less)
    then show ?thesis by (simp add: unsigned_ucast_eq take_bit_nat_eq_self)
  qed
  have z: "\<not> 0 <s ?w \<Longrightarrow> \<not> ?w <s 0 \<Longrightarrow> ?w = 0" by (simp add: word_sless_alt flip: signed_eq_0_iff [where 'a = int])
  have n: "?w <s 0 \<Longrightarrow> \<not> 0 <s ?w" by (simp add: word_sless_alt)
  show ?thesis using text_d [OF assms] atoi_numeral [of 0] up z n by auto
qed

theorem decimal_round_trip_witness:
  "format_text (bytes ''%d'') [VWord (- 1295)] = Some (bytes ''-1295'') \<and> atoi (bytes ''1295'') = (1295, [])"
proof -
  have f: "format_text (bytes ''%d'') [VWord (- 1295)] = Some (bytes ''-1295'')" by code_simp
  have "(ucast (- 1295 :: u64) :: u32) <s 0 \<and> - ucast (- 1295 :: u64) = (1295 :: u32)
      \<and> ucast (- 1295 :: u64) \<noteq> INT_MIN \<and> tl (bytes ''-1295'') = bytes ''1295''" by code_simp
  then show ?thesis using decimal_round_trip [of "- 1295"] f by simp
qed

lemma parse_p: "parse_directive (bytes ''p'') va = Some (\<lparr>dflags = 0, dwidth = 0, dprec = 0, dspec = 112\<rparr>, [], va)"
  by (simp add: format_eval)

lemma read_base_zeros: "read_base b (replicate k 48 @ xs) = read_base b xs"
proof (induction k)
  case (Suc k)
  then show ?case by (simp add: read_base_def digit_val_def)
qed simp

lemma text_p:
  "format_text (bytes ''%p'') [VWord p] =
     Some (let ds = ntoa_digits 32 33 16 p in replicate (16 - length ds) 48 @ rev ds)"
proof -
  have "length (ntoa_digits 32 33 16 q) \<le> 16" for q
    by (rule ntoa_digits_short) (use unat_lt_2_64 [of q] in simp_all)
  then have s: "length (ntoa_digits 32 33 16 q) < 32" for q by (rule le_less_trans) simp
  have "directive_text \<lparr>dflags = 0, dwidth = 0, dprec = 0, dspec = 112\<rparr> [VWord p] =
      Some (let ds = ntoa_digits 32 33 16 p in replicate (16 - length ds) 48 @ rev ds, [])"
    using s by (simp add: directive_text_def is_int_spec_def ptr_text_def number_eval PRINTF_NTOA_BUFFER_SIZE_def)
  from format_one [OF parse_p this] show ?thesis by (simp add: bytes_def)
qed

definition hex_digits :: "u8 list" where
  "hex_digits = bytes ''0123456789ABCDEF''"

lemma digit_char_hex:
  assumes "d < 16"
  shows "digit_char 33 d \<in> set hex_digits"
proof -
  have "unat d \<in> set [0..<16]" using assms by (simp add: word_less_nat_alt)
  moreover have "list_all (\<lambda>n. digit_char 33 (of_nat n) \<in> set hex_digits) [0..<16]" by code_simp
  ultimately have "digit_char 33 (of_nat (unat d)) \<in> set hex_digits" by (simp only: list_all_iff)
  then show ?thesis by simp
qed

lemma ntoa_digits_hex: "set (ntoa_digits n 33 16 v) \<subseteq> set hex_digits"
proof (induction n arbitrary: v)
  case (Suc n)
  have "v mod 16 < 16" by (simp add: word_less_nat_alt unat_mod)
  then show ?case using Suc.IH [of "v div 16"] digit_char_hex by auto
qed simp

text \<open>\<^verbatim>\<open>%p\<close>, which every diagnostic of the kernel uses, prints exactly sixteen upper-case hexadecimal digits
  that denote the pointer.\<close>

theorem pointer_text_exact:
  "\<exists>t. format_text (bytes ''%p'') [VWord p] = Some t \<and> length t = 16 \<and> set t \<subseteq> set hex_digits \<and> read_base 16 t = unat p"
proof -
  let ?ds = "ntoa_digits 32 33 16 p"
  have l: "length ?ds \<le> 16" by (rule ntoa_digits_short) (use unat_lt_2_64 [of p] in simp_all)
  have r: "read_base 16 (rev ?ds) = unat p" using read_digits [of 16 32 33 p] by (simp add: unat_mod_big)
  have "(48 :: u8) \<in> set hex_digits" by code_simp
  then show ?thesis
    using text_p [of p] l r ntoa_digits_hex [of 32 p] by (auto simp: Let_def read_base_zeros)
qed

text \<open>a format that ends inside a directive has no defined behaviour: the loop steps over the terminating NUL
  and goes on reading behind the string.\<close>

theorem unfinished_directive_undefined:
  assumes "37 \<notin> set fmt" and "buffer \<noteq> NULL" and "total_out out"
  shows "vsnprintf out buffer maxlen (fmt @ [37]) va s = Undef ''vsnprintf''"
proof -
  have "parse_directive [] va = None" by (simp add: format_eval)
  then have "format_text (fmt @ [37]) va = None" using assms(1) by (induction fmt) auto
  then show ?thesis using vsnprintf_reference [OF assms(2,3)] by simp
qed

section \<open>Concrete calls\<close>

theorem snprintf_bounded_witness:
  "\<exists>s. snprintf' 4096 8 (bytes ''%s=%04x'') [VStr 0 (bytes ''free''), VWord 0xBEE] demo_machine = Ret (9, s)
     \<and> ld_bytes (mem s) 4096 8 = bytes ''free=0b'' @ [0]"
proof -
  have f: "format_text (bytes ''%s=%04x'') [VStr 0 (bytes ''free''), VWord 0xBEE] = Some (bytes ''free=0bee'')" by code_simp
  have l: "length (bytes ''free=0bee'') = 9" "take 7 (bytes ''free=0bee'') = bytes ''free=0b''" by code_simp+
  let ?s = "demo_machine\<lparr>mem := st_bytes (mem demo_machine) 4096 (take (unat (8 :: u64) - 1) (bytes ''free=0bee'') @ [0])\<rparr>"
  have "snprintf' 4096 8 (bytes ''%s=%04x'') [VStr 0 (bytes ''free''), VWord 0xBEE] demo_machine = Ret (9, ?s)
      \<and> ld_bytes (mem ?s) 4096 8 = bytes ''free=0b'' @ [0]"
    using snprintf_bounded [OF f, of 4096 8 demo_machine] l by simp
  then show ?thesis by blast
qed

theorem unfinished_directive_undefined_witness:
  "vsnprintf out_null 4096 8 (bytes ''100%'') [] demo_machine = Undef ''vsnprintf''"
proof -
  have "bytes ''100%'' = bytes ''100'' @ [37]" "37 \<notin> set (bytes ''100'')" by (simp_all add: bytes_def)
  moreover have "total_out out_null" by (simp add: total_out_def out_null_def retk_def)
  ultimately show ?thesis using unfinished_directive_undefined [of "bytes ''100''" 4096 out_null 8 "[]" demo_machine] by simp
qed

end
