(* ===== verification/Console.thy ===== *)
theory Console
  imports Devices Fifo Kprintf
begin

text \<open>
  The console, \<^verbatim>\<open>kernel/src/arch/x86/console.c\<close>: the text screen, output to screen and serial line under the console
  lock, the interrupt handler that fills the input buffer and the blocking read. \<^verbatim>\<open>kprintf\<close> prints through it.
\<close>

section \<open>State and operations\<close>

record con_sys = dev_sys +
  con_uart :: uart_device
  uart_enable :: bool
  console_fifo :: spsc_fifo
  console_fifo_addr :: ptr

definition CRTPORT :: u16 where "CRTPORT = 0x3d4"
definition CON_FIFO_SIZE :: u64 where "CON_FIFO_SIZE = 32"
definition crt :: ptr where "crt = P2KV 0xb8000"

definition st16 :: "memory \<Rightarrow> ptr \<Rightarrow> u16 \<Rightarrow> memory" where
  "st16 m a v = st_bytes m a (word_to_bytes 2 v)"

text \<open>The new position and memory of \<^verbatim>\<open>cga_putchar\<close>, between reading and writing the cursor registers.\<close>

definition cga_place :: "u32 \<Rightarrow> u32 \<Rightarrow> memory \<Rightarrow> u32 \<times> memory" where
  "cga_place c pos m =
     (if c = 10 then (pos + (80 - pos mod 80), m)
      else if c = BACKSPACE then (if pos > 0 then (pos - 1, m) else (pos, m))
      else (pos + 1, st16 m (crt + 2 * ucast pos) ((ucast c AND 0xff) OR 0x0700)))"

definition cga_scroll :: "u32 \<Rightarrow> memory \<Rightarrow> u32 \<times> memory" where
  "cga_scroll pos m =
     (if pos div 80 \<ge> 24
      then let m1 = memcpy crt (crt + 2 * 80) (2 * 23 * 80) m; pos1 = pos - 80
           in (pos1, memset (crt + 2 * ucast pos1) 0 (2 * scast (24 * 80 - pos1)) m1)
      else (pos, m))"

definition cga_putchar :: "u32 \<Rightarrow> 'z dev_sys_scheme \<Rightarrow> (unit \<times> 'z dev_sys_scheme) outcome" where
  "cga_putchar c =
     bindk (outb CRTPORT 14) (\<lambda>_.
     bindk (inb (CRTPORT + 1)) (\<lambda>hi.
     bindk (outb CRTPORT 15) (\<lambda>_.
     bindk (inb (CRTPORT + 1)) (\<lambda>lo s.
       let pos = push_bit 8 (ucast hi) OR ucast lo;
           (pos1, m1) = cga_place c pos (mem s);
           (pos2, m2) = cga_scroll pos1 m1
       in bindk (outb CRTPORT 14) (\<lambda>_.
          bindk (outb (CRTPORT + 1) (ucast (drop_bit 8 pos2))) (\<lambda>_.
          bindk (outb CRTPORT 15) (\<lambda>_.
          bindk (outb (CRTPORT + 1) (ucast pos2)) (\<lambda>_ s.
            Ret ((), s\<lparr>mem := st16 (mem s) (crt + 2 * ucast pos2) (32 OR 0x0700)\<rparr>)))))
          (s\<lparr>mem := m2\<rparr>)))))"

definition putchar :: "u32 \<Rightarrow> 'z con_sys_scheme \<Rightarrow> (unit \<times> 'z con_sys_scheme) outcome" where
  "putchar c =
     bindk (acquire Console_lock) (\<lambda>_ s.
     bindk (if uart_enable s
            then bindk (if c = 10 then uart_putc (Some (con_uart s)) 13 else retk ()) (\<lambda>_. uart_putc (Some (con_uart s)) c)
            else retk ()) (\<lambda>_.
     bindk (cga_putchar c) (\<lambda>_.
     release Console_lock)) s)"

definition console_init :: "'z con_sys_scheme \<Rightarrow> (unit \<times> 'z con_sys_scheme) outcome" where
  "console_init =
     bindk (init_lock Console_lock ''console'') (\<lambda>_.
     bindk (init_lock Console_read_lock ''console read'') (\<lambda>_.
     bindk (kmalloc CON_FIFO_SIZE) (\<lambda>con_buffer.
       if con_buffer = NULL then panic ''console init oom''
       else bindk (\<lambda>s. Ret ((), s\<lparr>console_fifo :=
                (case spsc_fifo_init (Some (console_fifo s)) (\<lambda>i. mem s (con_buffer + of_nat i)) CON_FIFO_SIZE of
                   (e, Some f) \<Rightarrow> f | _ \<Rightarrow> console_fifo s)\<rparr>)) (\<lambda>_.
            bindk (uart_pio_init UART_COM1) (\<lambda>(r, u).
            bindk (\<lambda>s. Ret ((), s\<lparr>con_uart := u\<rparr>)) (\<lambda>_.
              if r = 0
              then bindk (\<lambda>s. ioapic_unmask 4 (ucast IDT_ENTRY_IRQ_COM1) (lapic_id s) s) (\<lambda>_ s. Ret ((), s\<lparr>uart_enable := True\<rparr>))
              else (\<lambda>s. Ret ((), s\<lparr>uart_enable := False\<rparr>))))))))"

text \<open>\<^verbatim>\<open>while ((uartc = uart_getc(&con_uart)) >= 0)\<close>\<close>

partial_function (option) isr_loop :: "'z con_sys_scheme \<Rightarrow> (unit \<times> 'z con_sys_scheme) outcome option" where
  "isr_loop s =
     (case uart_getc (Some (con_uart s)) s of
        Ret (None, t) \<Rightarrow> Some (Ret ((), t))
      | Ret (Some uartc, t) \<Rightarrow>
          (case spsc_fifo_write (Some (console_fifo t)) uartc of
             Ret (OSERR_OK, Some f) \<Rightarrow> isr_loop (t\<lparr>console_fifo := f\<rparr>)
           | Ret r \<Rightarrow> Some (Panic (''uart buffer full'' @ [CHR 0x0A]))
           | Panic e \<Rightarrow> Some (Panic e) | Hang \<Rightarrow> Some Hang | Undef e \<Rightarrow> Some (Undef e))
      | Panic e \<Rightarrow> Some (Panic e) | Hang \<Rightarrow> Some Hang | Undef e \<Rightarrow> Some (Undef e))"

definition console_isr_handler :: "'z con_sys_scheme \<Rightarrow> (unit \<times> 'z con_sys_scheme) outcome" where
  "console_isr_handler s =
     (if uart_enable s
      then bindk (acquire Console_read_lock) (\<lambda>_.
           bindk (\<lambda>s. case isr_loop s of None \<Rightarrow> Hang | Some r \<Rightarrow> r) (\<lambda>_.
           bindk (\<lambda>s. sched_wakeup (console_fifo_addr s) s) (\<lambda>_.
           release Console_read_lock))) s
      else Ret ((), s))"

partial_function (option) getc_loop ::
  "'z con_sys_scheme ctxsw \<Rightarrow> 'z con_sys_scheme \<Rightarrow> (u8 \<times> 'z con_sys_scheme) outcome option" where
  "getc_loop ctxsw s =
     (case spsc_fifo_read (Some (console_fifo s)) True of
        Ret (Some v, f) \<Rightarrow> Some (Ret (v, s\<lparr>console_fifo := (case f of Some f \<Rightarrow> f | None \<Rightarrow> console_fifo s)\<rparr>))
      | Ret (None, f) \<Rightarrow>
          (case sched_sleep ctxsw (console_fifo_addr s) (Some Console_read_lock) s of
             Ret (u, t) \<Rightarrow> getc_loop ctxsw t
           | Panic e \<Rightarrow> Some (Panic e) | Hang \<Rightarrow> Some Hang | Undef e \<Rightarrow> Some (Undef e))
      | Panic e \<Rightarrow> Some (Panic e) | Hang \<Rightarrow> Some Hang | Undef e \<Rightarrow> Some (Undef e))"

definition console_getc :: "'z con_sys_scheme ctxsw \<Rightarrow> 'z con_sys_scheme \<Rightarrow> (u32 \<times> 'z con_sys_scheme) outcome" where
  "console_getc ctxsw =
     bindk (acquire Console_read_lock) (\<lambda>_.
     bindk (\<lambda>s. case getc_loop ctxsw s of None \<Rightarrow> Hang | Some r \<Rightarrow> r) (\<lambda>val.
       let rtn = (if val = 0x7F \<or> val = 0x08 then BACKSPACE else ucast val)
       in bindk (release Console_read_lock) (\<lambda>_. retk rtn)))"

text \<open>Formatted output on the console (\<^verbatim>\<open>_out_char\<close>, \<^verbatim>\<open>printf_\<close> and \<^verbatim>\<open>vprintf_\<close> of \<^verbatim>\<open>util/kprintf.c\<close>); \<^verbatim>\<open>char\<close> is signed.\<close>

definition out_char :: "'z con_sys_scheme out_fct" where
  "out_char character buffer idx maxlen = (if character \<noteq> 0 then putchar (scast character) else retk ())"

text \<open>\<open>buffer\<close> is the address of the one-byte local array that is handed to \<^verbatim>\<open>_vsnprintf\<close> and never written.\<close>

definition printf' :: "ptr \<Rightarrow> u8 list \<Rightarrow> va_item list \<Rightarrow> 'z con_sys_scheme \<Rightarrow> (int \<times> 'z con_sys_scheme) outcome" where
  "printf' buffer fmt va = vsnprintf out_char buffer (- 1) fmt va"

definition vprintf' :: "ptr \<Rightarrow> u8 list \<Rightarrow> va_item list \<Rightarrow> 'z con_sys_scheme \<Rightarrow> (int \<times> 'z con_sys_scheme) outcome" where
  "vprintf' buffer fmt va = vsnprintf out_char buffer (- 1) fmt va"

section \<open>The text screen\<close>

text \<open>
  The reference: 24 lines of 80 cells of a character and an attribute, and a cursor that stays inside them. A
  line feed goes to the start of the next line; below the last line everything moves up by one line.
\<close>

type_synonym screen = "(nat \<Rightarrow> u8 \<times> u8) \<times> nat"

definition SCREEN_CELLS :: nat where "SCREEN_CELLS = 1920"

definition scr_place :: "u32 \<Rightarrow> screen \<Rightarrow> screen" where
  "scr_place c = (\<lambda>(f, p).
     if c = 10 then (f, p + (80 - p mod 80))
     else if c = BACKSPACE then (f, p - 1)
     else (f(p := (ucast c, 7)), p + 1))"

definition scr_scroll :: "screen \<Rightarrow> screen" where
  "scr_scroll = (\<lambda>(f, p).
     if p < SCREEN_CELLS then (f, p)
     else (\<lambda>i. if i < SCREEN_CELLS - 80 then f (i + 80) else (0, 0), p - 80))"

definition scr_putc :: "u32 \<Rightarrow> screen \<Rightarrow> screen" where
  "scr_putc c st = (case scr_scroll (scr_place c st) of (f, p) \<Rightarrow> (f(p := (32, 7)), p))"

text \<open>The cell \<open>i\<close> of the frame buffer, and the cursor registers 14 and 15 of the display controller.\<close>

definition cell :: "memory \<Rightarrow> nat \<Rightarrow> u8 \<times> u8" where
  "cell m i = (m (crt + of_nat (2 * i)), m (crt + of_nat (2 * i + 1)))"

fun crt_event :: "io_event \<Rightarrow> u8 \<times> (u8 \<Rightarrow> u8) \<Rightarrow> u8 \<times> (u8 \<Rightarrow> u8)" where
  "crt_event (Out p v) (sel, regs) =
     (if p = CRTPORT then (v, regs) else if p = CRTPORT + 1 then (sel, regs(sel := v)) else (sel, regs))"
| "crt_event _ st = st"

definition crt_state :: "io_event list \<Rightarrow> u8 \<times> (u8 \<Rightarrow> u8)" where
  "crt_state tr = fold crt_event tr (0, \<lambda>_. 0)"

definition cursor :: "io_event list \<Rightarrow> nat" where
  "cursor tr = (let regs = snd (crt_state tr) in 256 * unat (regs 14) + unat (regs 15))"

text \<open>The documented behaviour of the display controller: a read of the data port gives the selected register.\<close>

definition crt_device :: "(io_event list \<Rightarrow> u16 \<Rightarrow> u8) \<Rightarrow> bool" where
  "crt_device d \<longleftrightarrow> (\<forall>tr. d tr (CRTPORT + 1) = snd (crt_state tr) (fst (crt_state tr)))"

lemma crt_state_snoc: "crt_state (tr @ [e]) = crt_event e (crt_state tr)"
  by (simp add: crt_state_def)

lemma crt_ports: "CRTPORT + 1 \<noteq> CRTPORT"
  by (simp add: CRTPORT_def)

lemma unat_crt: "unat crt + 65536 \<le> 2 ^ 64" "0 < unat crt"
  by (simp_all add: crt_def P2KV_def KERNBASE_def)

lemma crt_at: "j < 65536 \<Longrightarrow> unat (crt + of_nat j) = unat crt + j"
  using unat_crt by (intro unat_add_of_nat) simp

lemma crt_region:
  assumes "j < 65536" "k < 65536" "k + n \<le> 65536"
  shows "crt + of_nat j \<in> region (crt + of_nat k) n \<longleftrightarrow> k \<le> j \<and> j < k + n"
proof -
  have "unat (crt + of_nat k) + n \<le> 2 ^ 64" using crt_at [OF assms(2)] unat_crt assms(3) by simp
  from in_region_nat [OF this, of "crt + of_nat j"] show ?thesis
    using crt_at [OF assms(1)] crt_at [OF assms(2)] by auto
qed

lemma crt_sub: "(crt + of_nat j) - (crt + of_nat k) = of_nat j - of_nat k"
  by simp

lemma st16_cell:
  assumes "p < 32768" "i < 32768"
  shows "cell (st16 m (crt + 2 * of_nat p) v) i = (if i = p then (ucast v, ucast (drop_bit 8 v)) else cell m i)"
proof -
  have b: "st16 m (crt + 2 * of_nat p) v x = (if x \<in> region (crt + of_nat (2 * p)) 2
      then word_to_bytes 2 v ! unat (x - (crt + of_nat (2 * p))) else m x)" for x
    by (simp add: st16_def st_bytes_def region_def Let_def)
  have w: "word_to_bytes 2 v = [ucast v, ucast (drop_bit 8 v)]" by (simp add: word_to_bytes_def upt_rec)
  have r: "crt + of_nat (2 * i) \<in> region (crt + of_nat (2 * p)) 2 \<longleftrightarrow> i = p"
    "crt + of_nat (2 * i + 1) \<in> region (crt + of_nat (2 * p)) 2 \<longleftrightarrow> i = p"
    using crt_region [of "2 * i" "2 * p" 2] crt_region [of "2 * i + 1" "2 * p" 2] assms by auto
  show ?thesis
    unfolding cell_def b r w by simp
qed

lemma st16_frame:
  assumes "p < 32768" "x \<notin> region crt (2 * (p + 1))"
  shows "st16 m (crt + 2 * of_nat p) v x = m x"
proof -
  have "region (crt + of_nat (2 * p)) 2 \<subseteq> region crt (2 * (p + 1))"
    using assms(1) unat_crt crt_at [of "2 * p"] by (intro region_subset_nat) auto
  then have "x \<notin> region (crt + of_nat (2 * p)) 2" using assms(2) by blast
  then show ?thesis by (simp add: st16_def st_bytes_outside)
qed

lemma cell_bytes:
  "ucast ((ucast (c :: u32) AND 0xff) OR 0x0700 :: u16) = (ucast c :: u8)"
  "ucast (drop_bit 8 ((ucast (c :: u32) AND 0xff) OR 0x0700 :: u16)) = (7 :: u8)"
proof -
  have k: "(0xff :: u16) = mask 8" "(0x0700 :: u16) = push_bit 8 (mask 3)" "(7 :: u8) = mask 3"
    by (simp_all add: mask_eq_decr_exp push_bit_eq_mult)
  show "ucast ((ucast c AND 0xff) OR 0x0700 :: u16) = (ucast c :: u8)"
    unfolding k by (rule bit_eqI) (auto simp: bit_simps)
  show "ucast (drop_bit 8 ((ucast c AND 0xff) OR 0x0700 :: u16)) = (7 :: u8)"
    unfolding k by (rule bit_eqI) (auto simp: bit_simps)
qed

definition frame :: "ptr set" where
  "frame = region crt (2 * SCREEN_CELLS)"

lemma place_ok:
  assumes p: "unat pos < SCREEN_CELLS" and c: "cga_place c pos m = (pos1, m1)"
  shows "unat pos1 = snd (scr_place c (cell m, unat pos))" and "unat pos1 \<le> SCREEN_CELLS"
    and "i < SCREEN_CELLS \<Longrightarrow> cell m1 i = fst (scr_place c (cell m, unat pos)) i" and "eq_on (- frame) m m1"
proof -
  have p': "unat pos < 1920" using p by (simp add: SCREEN_CELLS_def)
  have up: "(ucast pos :: u64) = of_nat (unat pos)" by simp
  have md: "unat (pos mod 80) = unat pos mod 80" by (simp add: unat_mod)
  then have nl: "unat (pos + (80 - pos mod 80)) = unat pos + (80 - unat pos mod 80)"
    using p' by (simp add: unat_word_ariths unat_sub_if' word_le_nat_alt)
  have nl': "unat pos + (80 - unat pos mod 80) \<le> 1920"
  proof -
    have "unat pos div 80 < 24" using p' by simp
    then have "80 * (unat pos div 80) \<le> 1840" by simp
    moreover have "unat pos = 80 * (unat pos div 80) + unat pos mod 80" by simp
    moreover have "unat pos mod 80 < 80" by simp
    ultimately show ?thesis by linarith
  qed
  have bs: "unat (pos - 1) = unat pos - 1" if "pos > 0" using that by (metis unat_minus_one word_neq_0_conv)
  have z: "unat pos = 0" if "\<not> pos > 0" using that by (simp add: word_less_nat_alt)
  have ch: "unat (pos + 1) = unat pos + 1" using p' by (simp add: unat_word_ariths)
  have byt: "ucast ((ucast c AND 0xff) OR 0x0700 :: u16) = (ucast c :: u8)"
    "ucast (drop_bit 8 ((ucast c AND 0xff) OR 0x0700 :: u16)) = (7 :: u8)" for c :: u32
    by (rule cell_bytes)+
  show "unat pos1 = snd (scr_place c (cell m, unat pos))"
    using c nl bs z ch by (auto simp: cga_place_def scr_place_def split: if_splits)
  show "unat pos1 \<le> SCREEN_CELLS"
    using c nl nl' bs z ch p' by (auto simp: cga_place_def SCREEN_CELLS_def split: if_splits)
  show "cell m1 i = fst (scr_place c (cell m, unat pos)) i" if "i < SCREEN_CELLS"
    using c that p' st16_cell [of "unat pos" i m]
    by (auto simp: cga_place_def scr_place_def SCREEN_CELLS_def byt split: if_splits)
  show "eq_on (- frame) m m1"
  proof -
    have "st16 m (crt + 2 * of_nat (unat pos)) v x = m x" if "x \<in> - frame" for v x
    proof (rule st16_frame)
      show "unat pos < 32768" using p' by simp
      show "x \<notin> region crt (2 * (unat pos + 1))"
        using that p' region_mono [of "2 * (unat pos + 1)" "2 * 1920" crt] by (auto simp: frame_def SCREEN_CELLS_def)
    qed
    then show ?thesis using c by (auto simp: cga_place_def eq_on_def split: if_splits)
  qed
qed

lemma scroll_stay: "unat pos < 1920 \<Longrightarrow> cga_scroll pos m = (pos, m)"
proof -
  assume "unat pos < 1920"
  moreover have "unat (pos div 80) = unat pos div 80" by (simp add: unat_div)
  ultimately have "\<not> 24 \<le> pos div 80" by (simp add: word_le_nat_alt)
  then show ?thesis by (simp add: cga_scroll_def)
qed

lemma scroll_full:
  "cga_scroll 1920 m = (1840, memset (crt + of_nat 3680) 0 160 (memcpy crt (crt + 2 * 80) (2 * 23 * 80) m))"
proof -
  have "(24 :: u32) \<le> 1920 div 80" "(1920 :: u32) - 80 = 1840" by simp_all
  then show ?thesis unfolding cga_scroll_def by (simp add: Let_def)
qed

lemma scroll_bytes:
  assumes "j < 3840" and m1: "m1 = memset (crt + of_nat 3680) 0 160 (memcpy crt (crt + 2 * 80) (2 * 23 * 80) m)"
  shows "m1 (crt + of_nat j) = (if 3680 \<le> j then 0 else m (crt + of_nat (j + 160)))"
    and "eq_on (- frame) m m1"
proof -
  let ?mc = "memcpy crt (crt + 2 * 80) (2 * 23 * 80) m"
  have cp: "?mc x = (if x \<in> region (crt + of_nat 0) 3680 then m (crt + of_nat 160 + (x - crt)) else m x)" for x
    using memmove_eq [of "crt + 160" 3680 crt m] crt_at [of 160] unat_crt by (simp add: memcpy_def)
  have ms: "m1 x = (if x \<in> region (crt + of_nat 3680) 160 then 0 else ?mc x)" for x
    using memset_eq [of 160 "crt + of_nat 3680" 0 ?mc] by (simp add: m1)
  have "crt + of_nat j \<in> region (crt + of_nat 3680) 160 \<longleftrightarrow> 3680 \<le> j"
    "crt + of_nat j \<in> region (crt + of_nat 0) 3680 \<longleftrightarrow> j < 3680"
    using crt_region [of j 3680 160] crt_region [of j 0 3680] assms(1) by auto
  then show "m1 (crt + of_nat j) = (if 3680 \<le> j then 0 else m (crt + of_nat (j + 160)))"
    unfolding ms cp by (simp add: algebra_simps)
  have "region (crt + of_nat 3680) 160 \<subseteq> frame"
    unfolding frame_def SCREEN_CELLS_def using unat_crt crt_at [of 3680] by (intro region_subset_nat) simp_all
  moreover have "region (crt + of_nat 0) 3680 \<subseteq> frame"
    unfolding frame_def SCREEN_CELLS_def using region_mono [of 3680 "2 * 1920" crt] by simp
  ultimately have "x \<notin> region (crt + of_nat 3680) 160 \<and> x \<notin> region (crt + of_nat 0) 3680" if "x \<in> - frame" for x
    using that by blast
  then show "eq_on (- frame) m m1" unfolding eq_on_def ms cp by simp
qed

lemma scroll_ok:
  fixes f :: "nat \<Rightarrow> u8 \<times> u8"
  assumes p: "unat pos \<le> SCREEN_CELLS" and c: "cga_scroll pos m = (pos1, m1)"
  shows "unat pos1 = snd (scr_scroll (f, unat pos)) \<and> unat pos1 < SCREEN_CELLS
    \<and> ((\<forall>i < SCREEN_CELLS. cell m i = f i) \<longrightarrow> (\<forall>i < SCREEN_CELLS. cell m1 i = fst (scr_scroll (f, unat pos)) i))
    \<and> eq_on (- frame) m m1"
proof (cases "unat pos = 1920")
  case False
  then have lt: "unat pos < 1920" using p by (simp add: SCREEN_CELLS_def)
  then have "pos1 = pos" "m1 = m" using c by (simp_all add: scroll_stay)
  then show ?thesis using lt by (simp add: scr_scroll_def SCREEN_CELLS_def eq_on_def)
next
  case True
  then have pos: "pos = 1920" by (simp add: word_unat_eq_iff)
  then have s: "pos1 = 1840" "m1 = memset (crt + of_nat 3680) 0 160 (memcpy crt (crt + 2 * 80) (2 * 23 * 80) m)"
    using c unfolding pos scroll_full by blast+
  note at = scroll_bytes(1) [OF _ s(2)]
  have sp: "scr_scroll (f, unat pos) = (\<lambda>i. if i < 1840 then f (i + 80) else (0, 0), 1840)"
    by (simp add: scr_scroll_def SCREEN_CELLS_def True fun_eq_iff)
  have "cell m1 i = (if i < 1840 then f (i + 80) else (0, 0))"
    if eq: "\<forall>i < SCREEN_CELLS. cell m i = f i" and i: "i < SCREEN_CELLS" for i
  proof (cases "i < 1840")
    case True
    have "cell m1 i = cell m (i + 80)" using at [of "2 * i"] at [of "2 * i + 1"] True by (simp add: cell_def algebra_simps)
    then show ?thesis using eq True by (simp add: SCREEN_CELLS_def)
  next
    case False
    then show ?thesis using at [of "2 * i"] at [of "2 * i + 1"] i by (simp add: cell_def SCREEN_CELLS_def)
  qed
  then show ?thesis using scroll_bytes(2) [of 0, OF _ s(2)] unfolding sp by (simp add: s(1) SCREEN_CELLS_def)
qed

lemma pos_bytes: "unat (push_bit 8 (ucast (hi :: u8)) OR ucast (lo :: u8) :: u32) = 256 * unat hi + unat lo"
proof -
  have "bit lo n \<Longrightarrow> n < 8" for n using bit_imp_le_length [of lo n] by simp
  then have "push_bit 8 (ucast hi) AND ucast lo = (0 :: u32)"
    by (intro bit_eqI) (auto simp: bit_simps simp flip: not_less)
  then have "push_bit 8 (ucast hi) OR ucast lo = push_bit 8 (ucast hi) + (ucast lo :: u32)"
    by (simp add: disjunctive_add_eq_or)
  moreover have "unat (push_bit 8 (ucast hi) + ucast lo :: u32) = 256 * unat hi + unat lo"
  proof -
    have "unat hi < 256" "unat lo < 256" using unsigned_less [of hi, where 'a = nat] unsigned_less [of lo, where 'a = nat] by simp_all
    then show ?thesis by (simp add: push_bit_eq_mult unat_word_ariths unsigned_ucast_eq take_bit_nat_eq_self)
  qed
  ultimately show ?thesis by simp
qed

lemma byte_pos:
  assumes "unat (pos :: u32) < 65536"
  shows "256 * unat (ucast (drop_bit 8 pos) :: u8) + unat (ucast pos :: u8) = unat pos"
proof -
  have "unat pos div 256 < 256" using assms by simp
  then have "unat (ucast (drop_bit 8 pos) :: u8) = unat pos div 256"
    by (simp add: unsigned_ucast_eq drop_bit_eq_div unat_div take_bit_nat_eq_self)
  moreover have "unat (ucast pos :: u8) = unat pos mod 256"
    by (simp add: unsigned_ucast_eq take_bit_eq_mod)
  ultimately show ?thesis by simp
qed

lemma cga_putchar_ok:
  fixes s :: "'z dev_sys_scheme"
  assumes dev: "crt_device (dev_in s)" and cur: "cursor (io_trace s) < SCREEN_CELLS"
  shows "\<exists>t. cga_putchar c s = Ret ((), t) \<and> cursor (io_trace t) < SCREEN_CELLS
     \<and> cursor (io_trace t) = snd (scr_putc c (cell (mem s), cursor (io_trace s)))
     \<and> (\<forall>i < SCREEN_CELLS. cell (mem t) i = fst (scr_putc c (cell (mem s), cursor (io_trace s))) i)
     \<and> eq_on (- frame) (mem s) (mem t) \<and> t = s\<lparr>io_trace := io_trace t, mem := mem t\<rparr>"
proof -
  obtain sel regs where st: "crt_state (io_trace s) = (sel, regs)" by fastforce
  let ?t1 = "io_trace s @ [Out CRTPORT 14, In (CRTPORT + 1) (regs 14)]"
  let ?t2 = "?t1 @ [Out CRTPORT 15, In (CRTPORT + 1) (regs 15)]"
  have dv: "dev_in s tr (CRTPORT + 1) = snd (crt_state tr) (fst (crt_state tr))" for tr using dev by (simp add: crt_device_def)
  have st1: "crt_state (io_trace s @ [Out CRTPORT 14]) = (14, regs)" "crt_state ?t1 = (14, regs)"
    using st by (simp_all add: crt_state_def)
  have st2: "crt_state (?t1 @ [Out CRTPORT 15]) = (15, regs)" "crt_state ?t2 = (15, regs)"
    using st by (simp_all add: crt_state_def)
  let ?pos = "push_bit 8 (ucast (regs 14)) OR ucast (regs 15) :: u32"
  have up: "unat ?pos = cursor (io_trace s)" using st by (simp add: cursor_def pos_bytes Let_def)
  obtain pos1 m1 where pl: "cga_place c ?pos (mem s) = (pos1, m1)" by fastforce
  obtain pos2 m2 where sc: "cga_scroll pos1 m1 = (pos2, m2)" by fastforce
  have lt: "unat ?pos < SCREEN_CELLS" using up cur by simp
  note P = place_ok [OF lt pl]
  let ?f = "fst (scr_place c (cell (mem s), unat ?pos))"
  have S: "unat pos2 = snd (scr_scroll (?f, unat pos1))" "unat pos2 < SCREEN_CELLS" "eq_on (- frame) m1 m2"
    "\<And>i. i < SCREEN_CELLS \<Longrightarrow> cell m2 i = fst (scr_scroll (?f, unat pos1)) i"
    using scroll_ok [OF P(2) sc, of ?f] P(3) by simp_all
  let ?m3 = "st16 m2 (crt + 2 * ucast pos2) (32 OR 0x0700)"
  let ?tr = "?t2 @ [Out CRTPORT 14, Out (CRTPORT + 1) (ucast (drop_bit 8 pos2)), Out CRTPORT 15, Out (CRTPORT + 1) (ucast pos2)]"
  let ?t = "s\<lparr>io_trace := ?tr, mem := ?m3\<rparr>"
  have run: "cga_putchar c s = Ret ((), ?t)"
    using pl sc dv [of "io_trace s @ [Out CRTPORT 14]"] dv [of "?t1 @ [Out CRTPORT 15]"] st1(1) st2(1)
    by (simp add: cga_putchar_def bindk_def outb_def inb_def Let_def)
  have p2: "unat pos2 < 1920" using S(2) by (simp add: SCREEN_CELLS_def)
  have "crt_state ?tr = (15, regs(14 := ucast (drop_bit 8 pos2), 15 := ucast pos2))"
    using st crt_ports by (simp add: crt_state_def)
  then have cu: "cursor ?tr = unat pos2" using byte_pos [of pos2] p2 by (simp add: cursor_def Let_def)
  have spec: "scr_putc c (cell (mem s), cursor (io_trace s)) = ((fst (scr_scroll (?f, unat pos1)))(unat pos2 := (32, 7)), unat pos2)"
    using P(1) S(1) up by (simp add: scr_putc_def case_prod_beta)
  have cells: "cell ?m3 i = fst (scr_putc c (cell (mem s), cursor (io_trace s))) i" if i: "i < SCREEN_CELLS" for i
  proof -
    have "ucast (32 OR 0x0700 :: u16) = (32 :: u8)" "ucast (drop_bit 8 (32 OR 0x0700 :: u16)) = (7 :: u8)" by code_simp+
    then show ?thesis
      using st16_cell [of "unat pos2" i m2 "32 OR 0x0700"] p2 i S(4) [OF i] unfolding spec by (simp add: SCREEN_CELLS_def)
  qed
  have "eq_on (- frame) m2 ?m3"
  proof -
    have "st16 m2 (crt + 2 * of_nat (unat pos2)) (32 OR 0x0700) x = m2 x" if "x \<in> - frame" for x
    proof (rule st16_frame)
      show "unat pos2 < 32768" using p2 by simp
      show "x \<notin> region crt (2 * (unat pos2 + 1))"
        using that p2 region_mono [of "2 * (unat pos2 + 1)" "2 * 1920" crt] by (auto simp: frame_def SCREEN_CELLS_def)
    qed
    then show ?thesis by (simp add: eq_on_def)
  qed
  then have fr: "eq_on (- frame) (mem s) ?m3" using eq_on_trans [OF eq_on_trans [OF P(4) S(3)]] by blast
  show ?thesis
    using run cu p2 spec cells fr by (intro exI [of _ ?t]) (simp add: SCREEN_CELLS_def)
qed

text \<open>C30: \<^verbatim>\<open>cga_putchar\<close> implements the reference screen: cells and cursor change exactly as the reference says, for
  printable characters, line feeds with scrolling and backspace; the cursor stays on the screen, and nothing
  outside the 24 lines of the frame buffer is written.\<close>

theorem cga_putchar_refines_screen:
  fixes s :: "'z dev_sys_scheme"
  assumes dev: "crt_device (dev_in s)" and cur: "cursor (io_trace s) < SCREEN_CELLS"
  shows "\<exists>t. cga_putchar c s = Ret ((), t) \<and> cursor (io_trace t) < SCREEN_CELLS
     \<and> cursor (io_trace t) = snd (scr_putc c (cell (mem s), cursor (io_trace s)))
     \<and> (\<forall>i < SCREEN_CELLS. cell (mem t) i = fst (scr_putc c (cell (mem s), cursor (io_trace s))) i)
     \<and> eq_on (- frame) (mem s) (mem t)"
  using cga_putchar_ok [OF assms] by blast

definition demo_screen :: "dev_sys" where
  "demo_screen = demo_dev\<lparr>dev_in := (\<lambda>tr p. snd (crt_state tr) (fst (crt_state tr))), io_trace := []\<rparr>"

theorem cga_putchar_refines_screen_witness:
  "crt_device (dev_in demo_screen) \<and> cursor (io_trace demo_screen) < SCREEN_CELLS
   \<and> (\<exists>t. cga_putchar 65 demo_screen = Ret ((), t) \<and> cursor (io_trace t) < SCREEN_CELLS)"
proof -
  have d: "crt_device (dev_in demo_screen)" by (simp add: demo_screen_def crt_device_def)
  have c: "cursor (io_trace demo_screen) < SCREEN_CELLS"
    by (simp add: demo_screen_def cursor_def crt_state_def SCREEN_CELLS_def)
  show ?thesis using d c cga_putchar_refines_screen [OF d c, of 65] by blast
qed

section \<open>Input\<close>

text \<open>The device at \<open>base\<close> answers the polls of the interrupt handler with exactly the bytes \<open>bs\<close>.\<close>

primrec received :: "(io_event list \<Rightarrow> u16 \<Rightarrow> u8) \<Rightarrow> u16 \<Rightarrow> u8 list \<Rightarrow> io_event list \<Rightarrow> bool" where
  "received d base [] tr \<longleftrightarrow> d tr (base + 5) AND 1 = 0"
| "received d base (b # bs) tr \<longleftrightarrow>
     (let v = d tr (base + 5); tr1 = tr @ [In (base + 5) v]
      in v AND 1 \<noteq> 0 \<and> d tr1 base = b \<and> received d base bs (tr1 @ [In base b]))"

lemma uart_getc_received:
  assumes "mmio_base u = NULL" and "received (dev_in s) (pio_base u) bs (io_trace s)"
  shows "\<exists>t. uart_getc (Some u) s = Ret (case bs of [] \<Rightarrow> None | b # _ \<Rightarrow> Some b, t) \<and> t = s\<lparr>io_trace := io_trace t\<rparr>
     \<and> (\<forall>b bs'. bs = b # bs' \<longrightarrow> received (dev_in s) (pio_base u) bs' (io_trace t))"
  using assms by (cases bs)
    (auto simp: uart_getc_def uart_hasbyte_def uart_read_def inb_def bindk_def retk_def Let_def)

lemma fifo_write_room:
  assumes ok: "fifo_ok f" and room: "length (contents f) < unat (fsize f) - 1"
  shows "\<exists>g. spsc_fifo_write (Some f) b = Ret (OSERR_OK, Some g) \<and> fifo_ok g \<and> contents g = contents f @ [b] \<and> fsize g = fsize f"
proof -
  obtain g where g: "fifo_put b f = Some g" "fsize g = fsize f" using fifo_put_eq [OF ok, of b] room by simp
  have "spsc_fifo_write (Some f) b = Ret (OSERR_OK, Some g)"
    using g(1) by (auto simp: fifo_put_def split: outcome.splits prod.splits os_error.splits)
  then show ?thesis using ff.put_items [OF ok g(1)] g(2) by simp
qed

lemma fifo_write_no_room:
  assumes ok: "fifo_ok f" and full: "length (contents f) = unat (fsize f) - 1"
  shows "spsc_fifo_write (Some f) b = Ret (OSERR_NO_MEMORY, Some f)"
  using fifo_sizes [OF ok] contents_full [OF ok] full by (simp add: spsc_fifo_write_def Let_def)

lemma isr_loop_ok:
  fixes s :: "'z con_sys_scheme"
  assumes "received (dev_in s) (pio_base (con_uart s)) bs (io_trace s)" and "mmio_base (con_uart s) = NULL"
    and "fifo_ok (console_fifo s)"
  shows "if length (contents (console_fifo s)) + length bs < unat (fsize (console_fifo s))
     then \<exists>t. isr_loop s = Some (Ret ((), t)) \<and> contents (console_fifo t) = contents (console_fifo s) @ bs
          \<and> fifo_ok (console_fifo t) \<and> t = s\<lparr>io_trace := io_trace t, console_fifo := console_fifo t\<rparr>
     else isr_loop s = Some (Panic (''uart buffer full'' @ [CHR 0x0A]))"
  using assms
proof (induction bs arbitrary: s)
  case Nil
  obtain t where t: "uart_getc (Some (con_uart s)) s = Ret (None, t)" "t = s\<lparr>io_trace := io_trace t\<rparr>"
    using uart_getc_received [OF Nil(2,1)] by auto
  have "console_fifo t = console_fifo s" by (subst t(2)) simp
  moreover have "t = s\<lparr>io_trace := io_trace t, console_fifo := console_fifo s\<rparr>" by (subst t(2)) simp
  ultimately show ?case
    using t(1) Nil(3) contents_length [OF Nil(3)] by (subst isr_loop.simps) (auto simp: isr_loop.simps)
next
  case (Cons b bs)
  obtain t where t: "uart_getc (Some (con_uart s)) s = Ret (Some b, t)" "t = s\<lparr>io_trace := io_trace t\<rparr>"
      "received (dev_in s) (pio_base (con_uart s)) bs (io_trace t)"
    using uart_getc_received [OF Cons.prems(2,1)] by auto
  have f: "console_fifo t = console_fifo s" "con_uart t = con_uart s" "dev_in t = dev_in s" by (subst t(2), simp)+
  show ?case
  proof (cases "length (contents (console_fifo s)) < unat (fsize (console_fifo s)) - 1")
    case True
    obtain g where g: "spsc_fifo_write (Some (console_fifo s)) b = Ret (OSERR_OK, Some g)" "fifo_ok g"
        "contents g = contents (console_fifo s) @ [b]" "fsize g = fsize (console_fifo s)"
      using fifo_write_room [OF Cons.prems(3) True] by blast
    let ?u = "t\<lparr>console_fifo := g\<rparr>"
    have run: "isr_loop s = isr_loop ?u" using t(1) f g(1) by (subst isr_loop.simps) simp
    have eq: "u = ?u\<lparr>io_trace := io_trace u, console_fifo := console_fifo u\<rparr> \<Longrightarrow> u = s\<lparr>io_trace := io_trace u, console_fifo := console_fifo u\<rparr>" for u
      by (subst (asm) t(2)) simp
    show ?thesis
      using Cons.IH [of ?u] t(3) f g Cons.prems(2) eq unfolding run by (auto split: if_splits)
  next
    case False
    then have "length (contents (console_fifo s)) = unat (fsize (console_fifo s)) - 1"
      using contents_length [OF Cons.prems(3)] by simp
    then have "isr_loop s = Some (Panic (''uart buffer full'' @ [CHR 0x0A]))"
      using fifo_write_no_room [OF Cons.prems(3)] t(1) f by (subst isr_loop.simps) simp
    then show ?thesis using False by auto
  qed
qed

lemma acquired_con_fields [simp]:
  fixes s :: "'z con_sys_scheme"
  shows "con_uart (acquired c lk s) = con_uart s" "uart_enable (acquired c lk s) = uart_enable s"
    "console_fifo (acquired c lk s) = console_fifo s" "console_fifo_addr (acquired c lk s) = console_fifo_addr s"
    "dev_in (acquired c lk s) = dev_in s" "io_trace (acquired c lk s) = io_trace s"
  by (simp_all add: acquired_def entered_def)

lemma kstep_con_fields:
  fixes s :: "'z con_sys_scheme"
  assumes "kstep c s t"
  shows "console_fifo t = console_fifo s" "con_uart t = con_uart s" "uart_enable t = uart_enable s" "console_fifo_addr t = console_fifo_addr s"
  by (subst assms [unfolded kstep_def], simp)+

lemma console_isr_ok:
  fixes s :: "'z con_sys_scheme"
  assumes en: "uart_enable s" and u: "mmio_base (con_uart s) = NULL" and ok: "fifo_ok (console_fifo s)"
    and rx: "received (dev_in s) (pio_base (con_uart s)) bs (io_trace s)"
    and rd: "cpu_ready 6 c s" and q: "queues_ok N P F rs ws s"
    and lk: "lock_free Console_read_lock s" "lock_free Sched_lock s" "lock_free Kmalloc_lock s" "lock_free Pgalloc_lock s"
  shows "if length (contents (console_fifo s)) + length bs < unat (fsize (console_fifo s))
     then (\<exists>t F'. console_isr_handler s = Ret ((), t) \<and> contents (console_fifo t) = contents (console_fifo s) @ bs
             \<and> queues_ok N P F' (rs @ filter (\<lambda>p. chan (procs s p) = console_fifo_addr s) ws)
                  (filter (\<lambda>p. chan (procs s p) \<noteq> console_fifo_addr s) ws) t
             \<and> fifo_ok (console_fifo t) \<and> (\<forall>l. lock_free l t \<longleftrightarrow> lock_free l s) \<and> rflags t = rflags s \<and> cpu_ready 6 c t)
          \<or> console_isr_handler s = Panic ''malloc: OOM'' \<and> card (pages F) < length (filter (\<lambda>p. chan (procs s p) = console_fifo_addr s) ws)
     else console_isr_handler s = Panic (''uart buffer full'' @ [CHR 0x0A])"
proof -
  let ?a = "acquired c Console_read_lock s"
  have r4: "cpu_ready (Suc (Suc 4)) c s" using rd by simp
  have acq: "acquire Console_read_lock s = Ret ((), ?a)" by (rule acquire_free [OF r4 lk(1)])
  have loop: "if length (contents (console_fifo s)) + length bs < unat (fsize (console_fifo s))
     then \<exists>t. isr_loop ?a = Some (Ret ((), t)) \<and> contents (console_fifo t) = contents (console_fifo s) @ bs
          \<and> fifo_ok (console_fifo t) \<and> t = ?a\<lparr>io_trace := io_trace t, console_fifo := console_fifo t\<rparr>
     else isr_loop ?a = Some (Panic (''uart buffer full'' @ [CHR 0x0A]))"
    using isr_loop_ok [of ?a bs, unfolded acquired_con_fields, OF rx u ok] .
  show ?thesis
  proof (cases "length (contents (console_fifo s)) + length bs < unat (fsize (console_fifo s))")
    case False
    then show ?thesis using loop en acq by (simp add: console_isr_handler_def bindk_def)
  next
    case True
    then obtain t where t: "isr_loop ?a = Some (Ret ((), t))" "contents (console_fifo t) = contents (console_fifo s) @ bs"
        "fifo_ok (console_fifo t)" "t = ?a\<lparr>io_trace := io_trace t, console_fifo := console_fifo t\<rparr>" using loop by auto
    have f: "locks t = locks ?a" "rflags t = rflags ?a" "cpus t = cpus ?a" "ncpu t = ncpu ?a" "lapic_id_reg t = lapic_id_reg ?a"
      "procs t = procs s" "ready_queue t = ready_queue s" "waiting_queue t = waiting_queue s" "heap_view t = heap_view s"
      "console_fifo_addr t = console_fifo_addr s"
      by (subst t(4), simp add: heap_view_eq acquired_def entered_def)+
    have same: "same_cpu ?a t" using f by (simp add: same_cpu_def)
    have rdt: "cpu_ready 5 c t" using settled_acquired(2) [of 5 c s Console_read_lock] rd cpu_ready_same [OF same] by simp
    have lkt: "lock_free Sched_lock t" "lock_free Kmalloc_lock t" "lock_free Pgalloc_lock t"
      using lk f(1) by (simp_all add: lock_free_def acquired_def)
    have qt: "queues_ok N P F rs ws t" using q queues_ok_cong [OF f(9,7,8)] by blast
    have run: "console_isr_handler s = bindk (\<lambda>s. sched_wakeup (console_fifo_addr s) s) (\<lambda>_. release Console_read_lock) t"
      using en acq t(1) by (simp add: console_isr_handler_def bindk_def)
    from sched_wakeup_ok [OF rdt lkt qt, of "console_fifo_addr s"] consider
        (ok) v F' where "sched_wakeup (console_fifo_addr s) t = Ret ((), v)" "kstep c t v"
          "queues_ok N P F' (rs @ filter (\<lambda>p. chan (procs s p) = console_fifo_addr s) ws)
             (filter (\<lambda>p. chan (procs s p) \<noteq> console_fifo_addr s) ws) v"
      | (oom) "sched_wakeup (console_fifo_addr s) t = Panic ''malloc: OOM''" "card (pages F) < length (filter (\<lambda>p. chan (procs s p) = console_fifo_addr s) ws)" unfolding f by blast
    then show ?thesis
    proof cases
      case oom then show ?thesis using True run f by (simp add: bindk_def)
    next
      case ok
      have "settled c t = cpus t"
        using settled_acquired(1) [of 5 c s Console_read_lock] rd unfolding settled_def f(2,3) by simp
      then have k: "cpus v = cpus ?a" "rflags v = rflags ?a" "locks v = locks ?a" "ncpu v = ncpu ?a" "lapic_id_reg v = lapic_id_reg ?a"
        by (subst ok(2) [unfolded kstep_def], simp add: f)+
      have sv: "same_cpu (entered c s) v" using k by (simp add: same_cpu_def acquired_def)
      have hv: "lock_held c Console_read_lock v" using k by (simp add: lock_held_def acquired_def)
      let ?r = "v\<lparr>cpus := settled c s, rflags := rflags s,
         locks := (locks v)(Console_read_lock := (locks v Console_read_lock)\<lparr>lk_cpu := None, locked := 0\<rparr>)\<rparr>"
      have "console_isr_handler s = Ret ((), ?r)"
        using run ok(1) f release_held [OF r4 sv hv] by (simp add: bindk_def)
      moreover have "queues_ok N P F' (rs @ filter (\<lambda>p. chan (procs s p) = console_fifo_addr s) ws)
             (filter (\<lambda>p. chan (procs s p) \<noteq> console_fifo_addr s) ws) ?r"
        using ok(3) queues_ok_cong [of ?r v] by (simp add: heap_view_eq)
      moreover have "lock_free l ?r \<longleftrightarrow> lock_free l s" for l
        using k(3) lk(1) by (cases "l = Console_read_lock") (simp_all add: lock_free_def acquired_def)
      moreover have "console_fifo ?r = console_fifo t" using kstep_con_fields(1) [OF ok(2)] by simp
      moreover have "cpu_ready 6 c ?r"
        by (rule cpu_ready_settled [OF rd]) (simp_all add: k acquired_def entered_def)
      ultimately show ?thesis using True t(2,3) by (intro if_P [THEN iffD2] disjI1) (auto intro!: exI [of _ ?r])
    qed
  qed
qed

text \<open>C29: One run of the console interrupt handler moves all bytes that the UART has received, in order, to the end
  of the console's input buffer and makes exactly the processes that sleep on this buffer ready, in their order; it
  leaves the locks and the processor flags as they were. When the bytes do not fit into the buffer the kernel panics
  with \<^verbatim>\<open>uart buffer full\<close>. When they fit, the handler returns, unless fewer pages are free than there are sleeping
  readers: the queue nodes for the woken processes come from the heap, and running out of memory is the one other panic.\<close>

theorem console_isr_delivers:
  fixes s :: "'z con_sys_scheme"
  assumes en: "uart_enable s" and u: "mmio_base (con_uart s) = NULL" and ok: "fifo_ok (console_fifo s)"
    and rx: "received (dev_in s) (pio_base (con_uart s)) bs (io_trace s)"
    and rd: "cpu_ready 6 c s" and q: "queues_ok N P F rs ws s"
    and lk: "lock_free Console_read_lock s" "lock_free Sched_lock s" "lock_free Kmalloc_lock s" "lock_free Pgalloc_lock s"
  shows "if length (contents (console_fifo s)) + length bs < unat (fsize (console_fifo s))
     then (\<exists>t F'. console_isr_handler s = Ret ((), t) \<and> contents (console_fifo t) = contents (console_fifo s) @ bs
             \<and> queues_ok N P F' (rs @ filter (\<lambda>p. chan (procs s p) = console_fifo_addr s) ws)
                  (filter (\<lambda>p. chan (procs s p) \<noteq> console_fifo_addr s) ws) t
             \<and> fifo_ok (console_fifo t) \<and> (\<forall>l. lock_free l t \<longleftrightarrow> lock_free l s) \<and> rflags t = rflags s)
          \<or> console_isr_handler s = Panic ''malloc: OOM'' \<and> card (pages F) < length (filter (\<lambda>p. chan (procs s p) = console_fifo_addr s) ws)
     else console_isr_handler s = Panic (''uart buffer full'' @ [CHR 0x0A])"
  using console_isr_ok [OF assms] by meson

text \<open>What \<^verbatim>\<open>console_getc\<close> returns for a byte: both delete characters are \<^verbatim>\<open>BACKSPACE\<close>.\<close>

definition con_key :: "u8 \<Rightarrow> u32" where
  "con_key b = (if b = 0x7F \<or> b = 0x08 then BACKSPACE else ucast b)"

lemma fifo_read_first:
  assumes ok: "fifo_ok f" and c: "contents f = b # bs"
  shows "\<exists>g. spsc_fifo_read (Some f) True = Ret (Some b, Some g) \<and> fifo_ok g \<and> contents g = bs"
proof -
  have ne: "fread f \<noteq> fwrite f" using contents_empty [OF ok] c by auto
  note R = contents_read [OF ok ne]
  show ?thesis using R c ne fifo_sizes [OF ok] by (auto simp: spsc_fifo_read_def Let_def)
qed

lemma console_getc_ready:
  fixes s :: "'z con_sys_scheme"
  assumes rd: "cpu_ready 6 c s" and lk: "lock_free Console_read_lock s"
    and ok: "fifo_ok (console_fifo s)" and cs: "contents (console_fifo s) = b # bs"
  shows "\<exists>t. console_getc ctxsw s = Ret (con_key b, t) \<and> cpu_ready 6 c t \<and> lock_free Console_read_lock t
     \<and> fifo_ok (console_fifo t) \<and> contents (console_fifo t) = bs \<and> t = s\<lparr>cpus := settled c s, console_fifo := console_fifo t\<rparr>"
proof -
  let ?a = "acquired c Console_read_lock s"
  have r4: "cpu_ready (Suc (Suc 4)) c s" using rd by simp
  obtain g where g: "spsc_fifo_read (Some (console_fifo s)) True = Ret (Some b, Some g)" "fifo_ok g" "contents g = bs"
    using fifo_read_first [OF ok cs] by blast
  let ?v = "?a\<lparr>console_fifo := g\<rparr>"
  let ?r = "?v\<lparr>cpus := settled c s, rflags := rflags s,
         locks := (locks ?v)(Console_read_lock := (locks ?v Console_read_lock)\<lparr>lk_cpu := None, locked := 0\<rparr>)\<rparr>"
  have get: "getc_loop ctxsw ?a = Some (Ret (b, ?v))" using g(1) by (subst getc_loop.simps) simp
  have "release Console_read_lock ?v = Ret ((), ?r)"
    by (rule release_held [OF r4]) (simp_all add: same_cpu_def lock_held_def acquired_def)
  then have "console_getc ctxsw s = Ret (con_key b, ?r)"
    using acquire_free [OF r4 lk] get by (simp add: console_getc_def bindk_def retk_def con_key_def)
  moreover have "cpu_ready 6 c ?r"
    by (rule cpu_ready_settled [OF rd]) (simp_all add: acquired_def entered_def)
  moreover have "locks ?r = locks s"
    using lk by (simp add: acquired_def lock_free_def fun_eq_iff)
  then have "?r = s\<lparr>cpus := settled c s, console_fifo := console_fifo ?r\<rparr>"
    by (simp add: acquired_def entered_def)
  ultimately show ?thesis using g lk by (simp add: lock_free_def)
qed

primrec console_getcs :: "'z con_sys_scheme ctxsw \<Rightarrow> nat \<Rightarrow> 'z con_sys_scheme \<Rightarrow> (u32 list \<times> 'z con_sys_scheme) outcome" where
  "console_getcs ctxsw 0 = retk []"
| "console_getcs ctxsw (Suc n) = bindk (console_getc ctxsw) (\<lambda>k. bindk (console_getcs ctxsw n) (\<lambda>ks. retk (k # ks)))"

lemma console_getcs_ready:
  fixes s :: "'z con_sys_scheme"
  shows "cpu_ready 6 c s \<Longrightarrow> lock_free Console_read_lock s \<Longrightarrow> fifo_ok (console_fifo s) \<Longrightarrow> contents (console_fifo s) = bs \<Longrightarrow>
    \<exists>t. console_getcs ctxsw (length bs) s = Ret (map con_key bs, t) \<and> contents (console_fifo t) = []"
proof (induction bs arbitrary: s)
  case Nil
  then show ?case by (simp add: retk_def)
next
  case (Cons b bs)
  obtain t where t: "console_getc ctxsw s = Ret (con_key b, t)" "cpu_ready 6 c t" "lock_free Console_read_lock t"
      "fifo_ok (console_fifo t)" "contents (console_fifo t) = bs"
    using console_getc_ready [OF Cons.prems, of ctxsw] by blast
  from Cons.IH [OF t(2-5)] show ?case using t(1) by (auto simp: bindk_def retk_def)
qed

text \<open>C28: What arrives on the serial line is what the readers get: after the interrupt handler has run on an empty
  buffer, as many calls of \<^verbatim>\<open>console_getc\<close> as there were bytes return exactly these bytes in order, the two delete
  characters as \<^verbatim>\<open>BACKSPACE\<close>, without sleeping, and leave the buffer empty. The one alternative is the handler's
  out-of-memory panic, which needs more sleeping readers than free pages.\<close>

theorem console_input_roundtrip:
  fixes s :: "'z con_sys_scheme"
  assumes "uart_enable s" and "mmio_base (con_uart s) = NULL" and "fifo_ok (console_fifo s)"
    and "received (dev_in s) (pio_base (con_uart s)) bs (io_trace s)"
    and "cpu_ready 6 c s" and "queues_ok N P F rs ws s"
    and "lock_free Console_read_lock s" "lock_free Sched_lock s" "lock_free Kmalloc_lock s" "lock_free Pgalloc_lock s"
    and "contents (console_fifo s) = []" and "length bs < unat (fsize (console_fifo s))"
  shows "(\<exists>t. bindk console_isr_handler (\<lambda>_. console_getcs ctxsw (length bs)) s = Ret (map con_key bs, t)
            \<and> contents (console_fifo t) = [])
       \<or> bindk console_isr_handler (\<lambda>_. console_getcs ctxsw (length bs)) s = Panic ''malloc: OOM''
         \<and> card (pages F) < length (filter (\<lambda>p. chan (procs s p) = console_fifo_addr s) ws)"
proof -
  have "length (contents (console_fifo s)) + length bs < unat (fsize (console_fifo s))" using assms(11,12) by simp
  with console_isr_ok [OF assms(1-10)] consider
      (ok) t where "console_isr_handler s = Ret ((), t)" "contents (console_fifo t) = bs" "fifo_ok (console_fifo t)"
        "lock_free Console_read_lock t" "cpu_ready 6 c t"
    | (oom) "console_isr_handler s = Panic ''malloc: OOM''" "card (pages F) < length (filter (\<lambda>p. chan (procs s p) = console_fifo_addr s) ws)" using assms(7,11) by auto
  then show ?thesis
  proof cases
    case ok
    from console_getcs_ready [OF ok(5,4,3,2), of ctxsw] show ?thesis using ok(1) by (auto simp: bindk_def)
  next
    case oom
    then show ?thesis by (simp add: bindk_def)
  qed
qed

section \<open>Output\<close>

text \<open>The serial line is off, or its transmitter is always ready and its ports are not those of the display.\<close>

definition uart_ready :: "'z con_sys_scheme \<Rightarrow> bool" where
  "uart_ready s \<longleftrightarrow> (uart_enable s \<longrightarrow> mmio_base (con_uart s) = NULL
     \<and> pio_base (con_uart s) \<noteq> CRTPORT \<and> pio_base (con_uart s) \<noteq> CRTPORT + 1
     \<and> (\<forall>tr. dev_in s tr (pio_base (con_uart s) + 5) AND 0x20 \<noteq> 0))"

lemma s_uart_putc_ready:
  fixes s :: "'z dev_sys_scheme"
  assumes "mmio_base u = NULL" "pio_base u \<noteq> CRTPORT" "pio_base u \<noteq> CRTPORT + 1" and "\<forall>tr. dev_in s tr (pio_base u + 5) AND 0x20 \<noteq> 0"
  shows "\<exists>tr. s_uart_putc u ch s = Ret ((), s\<lparr>io_trace := tr\<rparr>) \<and> crt_state tr = crt_state (io_trace s)"
proof -
  let ?p = "pio_base u" let ?v = "dev_in s (io_trace s) (?p + 5)"
  have "uart_wait u s = Some (s\<lparr>io_trace := io_trace s @ [In (?p + 5) ?v]\<rparr>)"
    using assms uart_wait_step [OF assms(1), of s] by (simp add: answer_def Let_def)
  then have "s_uart_putc u ch s = Ret ((), s\<lparr>io_trace := io_trace s @ [In (?p + 5) ?v, Out ?p (ucast ch)]\<rparr>)"
    using assms(1) by (simp add: s_uart_putc_def uart_write_def outb_def)
  moreover have "crt_state (io_trace s @ [In (?p + 5) ?v, Out ?p (ucast ch)]) = crt_state (io_trace s)"
    using assms(2,3) by (simp add: crt_state_def) (cases "fold crt_event (io_trace s) (0, \<lambda>_. 0)", simp)
  ultimately show ?thesis by blast
qed

lemma uart_putc_ready:
  fixes s :: "'z dev_sys_scheme"
  assumes "mmio_base u = NULL" "pio_base u \<noteq> CRTPORT" "pio_base u \<noteq> CRTPORT + 1" and "\<forall>tr. dev_in s tr (pio_base u + 5) AND 0x20 \<noteq> 0"
  shows "\<exists>tr. uart_putc (Some u) ch s = Ret ((), s\<lparr>io_trace := tr\<rparr>) \<and> crt_state tr = crt_state (io_trace s)"
proof -
  note R = s_uart_putc_ready [OF assms(1-3)]
  obtain t1 where t1: "s_uart_putc u 8 s = Ret ((), s\<lparr>io_trace := t1\<rparr>)" "crt_state t1 = crt_state (io_trace s)" using R [of s 8] assms(4) by blast
  obtain t2 where t2: "s_uart_putc u 32 (s\<lparr>io_trace := t1\<rparr>) = Ret ((), s\<lparr>io_trace := t2\<rparr>)" "crt_state t2 = crt_state t1"
    using R [of "s\<lparr>io_trace := t1\<rparr>" 32] assms(4) by auto
  obtain t3 where t3: "s_uart_putc u 8 (s\<lparr>io_trace := t2\<rparr>) = Ret ((), s\<lparr>io_trace := t3\<rparr>)" "crt_state t3 = crt_state t2"
    using R [of "s\<lparr>io_trace := t2\<rparr>" 8] assms(4) by auto
  show ?thesis
    using R [of s ch] assms(4) t1 t2 t3 by (cases "ch = BACKSPACE") (auto simp: uart_putc_def bindk_def)
qed

lemma putchar_ok:
  fixes s :: "'z con_sys_scheme"
  assumes rd: "cpu_ready 6 c s" and lk: "lock_free Console_lock s" and dev: "crt_device (dev_in s)"
    and cur: "cursor (io_trace s) < SCREEN_CELLS" and ur: "uart_ready s"
  shows "\<exists>t. putchar ch s = Ret ((), t) \<and> cursor (io_trace t) < SCREEN_CELLS \<and> eq_on (- frame) (mem s) (mem t)
     \<and> t = s\<lparr>io_trace := io_trace t, mem := mem t, cpus := settled c s\<rparr>"
proof -
  let ?a = "acquired c Console_lock s"
  let ?u = "con_uart s"
  have r4: "cpu_ready (Suc (Suc 4)) c s" using rd by simp
  let ?out = "if uart_enable s then bindk (if ch = 10 then uart_putc (Some ?u) 13 else retk ()) (\<lambda>_. uart_putc (Some ?u) ch) else retk ()"
  have "\<exists>tr. ?out ?a = Ret ((), ?a\<lparr>io_trace := tr\<rparr>) \<and> crt_state tr = crt_state (io_trace s)"
  proof (cases "uart_enable s")
    case True
    then have U: "mmio_base ?u = NULL" "pio_base ?u \<noteq> CRTPORT" "pio_base ?u \<noteq> CRTPORT + 1" "\<forall>tr. dev_in s tr (pio_base ?u + 5) AND 0x20 \<noteq> 0"
      using ur by (auto simp: uart_ready_def)
    obtain t1 where t1: "(if ch = 10 then uart_putc (Some ?u) 13 else retk ()) ?a = Ret ((), ?a\<lparr>io_trace := t1\<rparr>)" "crt_state t1 = crt_state (io_trace s)"
      using uart_putc_ready [OF U(1-3), of ?a 13] U(4) by (cases "ch = 10") (auto simp: retk_def intro: that [of "io_trace ?a"])
    obtain t2 where t2: "uart_putc (Some ?u) ch (?a\<lparr>io_trace := t1\<rparr>) = Ret ((), ?a\<lparr>io_trace := t2\<rparr>)" "crt_state t2 = crt_state t1"
      using uart_putc_ready [OF U(1-3), of "?a\<lparr>io_trace := t1\<rparr>" ch] U(4) by auto
    show ?thesis using True t1 t2 by (auto simp: bindk_def)
  next
    case False
    then show ?thesis by (auto simp: retk_def intro!: exI [of _ "io_trace ?a"])
  qed
  then obtain tr where tr: "?out ?a = Ret ((), ?a\<lparr>io_trace := tr\<rparr>)" "crt_state tr = crt_state (io_trace s)" by blast
  let ?b = "?a\<lparr>io_trace := tr\<rparr>"
  have cb: "cursor (io_trace ?b) < SCREEN_CELLS" using cur tr(2) by (simp add: cursor_def)
  have db: "crt_device (dev_in ?b)" using dev by simp
  obtain t where t: "cga_putchar ch ?b = Ret ((), t)" "cursor (io_trace t) < SCREEN_CELLS" "eq_on (- frame) (mem ?b) (mem t)"
      "t = ?b\<lparr>io_trace := io_trace t, mem := mem t\<rparr>"
    using cga_putchar_ok [OF db cb, of ch] by blast
  have f: "cpus t = cpus ?a" "rflags t = rflags ?a" "ncpu t = ncpu ?a" "lapic_id_reg t = lapic_id_reg ?a" "locks t = locks ?a"
    by (subst t(4), simp)+
  have sm: "same_cpu (entered c s) t" using f by (simp add: same_cpu_def acquired_def)
  have h: "lock_held c Console_lock t" using f by (simp add: lock_held_def acquired_def)
  let ?r = "t\<lparr>cpus := settled c s, rflags := rflags s, locks := (locks t)(Console_lock := (locks t Console_lock)\<lparr>lk_cpu := None, locked := 0\<rparr>)\<rparr>"
  have rel: "release Console_lock t = Ret ((), ?r)" by (rule release_held [OF r4 sm h])
  have "putchar ch s = bindk ?out (\<lambda>_. bindk (cga_putchar ch) (\<lambda>_. release Console_lock)) ?a"
    by (simp only: putchar_def bindk_def [of "acquire Console_lock"] acquire_free [OF r4 lk] outcome.case prod.case acquired_con_fields)
  also have "\<dots> = bindk (cga_putchar ch) (\<lambda>_. release Console_lock) ?b"
    by (simp only: bindk_def [of ?out] tr(1) outcome.case prod.case)
  also have "\<dots> = Ret ((), ?r)" using t(1) rel by (simp add: bindk_def)
  finally have "putchar ch s = Ret ((), ?r)" .
  moreover have "locks ?r = locks s" using lk by (simp add: f acquired_def lock_free_def fun_eq_iff)
  then have "?r = s\<lparr>io_trace := io_trace ?r, mem := mem ?r, cpus := settled c s\<rparr>"
    by (subst t(4)) (simp add: f acquired_def entered_def)
  moreover have "eq_on (- frame) (mem s) (mem ?r)" using t(3) by (simp add: acquired_def entered_def)
  ultimately show ?thesis using t(2) by (intro exI [of _ ?r]) simp
qed

text \<open>A console on the scheduler's machine whose serial line delivers \<open>bs\<close>: the device counts the reads.\<close>

definition demo_line :: "u8 list \<Rightarrow> io_event list \<Rightarrow> u16 \<Rightarrow> u8" where
  "demo_line bs tr p =
     (if p = UART_COM1 + 5 then (if length tr < 2 * length bs then 1 else 0)
      else if length tr div 2 < length bs then bs ! (length tr div 2) else 0)"

definition con_machine :: "u8 list \<Rightarrow> proc_sys \<Rightarrow> con_sys" where
  "con_machine bs s = \<lparr>mem = mem s, rflags = rflags s, lapic_id_reg = lapic_id_reg s, ncpu = ncpu s, cpus = cpus s, locks = (locks s)(Console_read_lock := \<lparr>locked = 0, lk_name = [], lk_cpu = None\<rparr>),
     begin_kva = begin_kva s, end_kva = end_kva s, boot_alloc_initialized = boot_alloc_initialized s,
     pgalloc_bins = pgalloc_bins s, max_addr = max_addr s, size_list = size_list s, kern_pml4 = 0, cr3 = 0,
     procs = procs s, next_pid = 1, ptable_proc = 0x4000, idle_proc = 0x40000,
     ready_queue = ready_queue s, waiting_queue = waiting_queue s, addr_of = addr_of s,
     dev_in = demo_line bs, dev_rd = (\<lambda>_ _. 0), msr = (\<lambda>_. 0), io_trace = [], lapic = 0, ioapic = 0, sys_tick = 0,
     con_uart = \<lparr>mmio_base = NULL, pio_base = UART_COM1\<rparr>, uart_enable = True, console_fifo = demo_fifo, console_fifo_addr = 7\<rparr>"

lemma con_machine_simps [simp]:
  "queues_ok N P F rs ws (con_machine bs s) \<longleftrightarrow> queues_ok N P F rs ws s"
  "cpu_ready d c (con_machine bs s) \<longleftrightarrow> cpu_ready d c s" "lock_free Console_read_lock (con_machine bs s)"
  "lk \<noteq> Console_read_lock \<Longrightarrow> lock_free lk (con_machine bs s) \<longleftrightarrow> lock_free lk s"
  by (simp_all add: con_machine_def queues_ok_def queue_nodes_def qsep_def live_def kinv_def kfoot_def pfoot_def core_def kcore_def
      cpu_ready_def cpu_lookup_def lapic_id_def lock_free_def)

lemma con_machine_console:
  "uart_enable (con_machine bs s)" "mmio_base (con_uart (con_machine bs s)) = NULL" "fifo_ok (console_fifo (con_machine bs s))"
  "lock_free Console_read_lock (con_machine bs s)" "contents (console_fifo (con_machine bs s)) = []"
  "unat (fsize (console_fifo (con_machine bs s))) = 32"
  by (simp_all add: con_machine_def fifo_ok_def demo_fifo_def contents_def used_def Let_def lock_free_def)

lemma con_machine_received:
  "received (dev_in (con_machine [104, 127] s)) (pio_base (con_uart (con_machine [104, 127] s))) [104, 127] (io_trace (con_machine [104, 127] s))"
  by (simp add: con_machine_def Let_def demo_line_def UART_COM1_def)

lemma demo_console:
  obtains s :: con_sys and F where "uart_enable s" "mmio_base (con_uart s) = NULL" "fifo_ok (console_fifo s)"
    "received (dev_in s) (pio_base (con_uart s)) [104, 127] (io_trace s)"
    "cpu_ready 6 0 s" "queues_ok 4096 {1024..<4096} F [] [] s"
    "lock_free Console_read_lock s" "lock_free Sched_lock s" "lock_free Kmalloc_lock s" "lock_free Pgalloc_lock s"
    "contents (console_fifo s) = []" "unat (fsize (console_fifo s)) = 32"
proof -
  obtain s :: proc_sys and F where s: "cpu_ready 9 0 s" "lock_free Sched_lock s" "lock_free Kmalloc_lock s" "lock_free Pgalloc_lock s"
    "queues_ok 4096 {1024..<4096} F [] [] s"
    by (rule demo_scheduler) blast
  let ?c = "con_machine [104, 127] s"
  have "cpu_ready 6 0 s" by (rule cpu_ready_mono [OF s(1)]) simp
  then show thesis using that [of ?c F] s con_machine_console [of "[104, 127]" s] con_machine_received [of s] by simp
qed

theorem console_isr_delivers_witness:
  "\<exists>s t :: con_sys. \<exists>F F'. queues_ok 4096 {1024..<4096} F [] [0x4000] s \<and> contents (console_fifo s) = []
     \<and> console_isr_handler s = Ret ((), t) \<and> contents (console_fifo t) = [104, 127] \<and> queues_ok 4096 {1024..<4096} F' [0x4000] [] t"
proof -
  obtain s :: proc_sys and F where s: "cpu_ready 9 0 s" "lock_free Sched_lock s" "lock_free Kmalloc_lock s" "lock_free Pgalloc_lock s"
    "queues_ok 4096 {1024..<4096} F [] [0x4000] s" "0 < card (pages F)" "procs s = (\<lambda>_. zero_proc\<lparr>p_state := RUNNABLE, chan := 7\<rparr>)"
    by (rule demo_sleeping)
  let ?c = "con_machine [104, 127] s"
  have rd: "cpu_ready 6 0 ?c" using cpu_ready_mono [OF s(1), of 6] by simp
  have q: "queues_ok 4096 {1024..<4096} F [] [0x4000] ?c" using s(5) by simp
  have lk: "lock_free Console_read_lock ?c" "lock_free Sched_lock ?c" "lock_free Kmalloc_lock ?c" "lock_free Pgalloc_lock ?c"
    using s(2-4) by simp_all
  have fs: "procs ?c = procs s" "console_fifo_addr ?c = 7" by (simp_all add: con_machine_def)
  note d = con_machine_console [of "[104, 127]" s]
  have room: "length (contents (console_fifo ?c)) + length [104, 127 :: u8] < unat (fsize (console_fifo ?c))" using d(5,6) by simp
  have "\<exists>t F'. console_isr_handler ?c = Ret ((), t) \<and> contents (console_fifo t) = [104, 127] \<and> queues_ok 4096 {1024..<4096} F' [0x4000] [] t"
    using console_isr_delivers [OF d(1,2,3) con_machine_received rd q lk] room s(6,7) d(5) fs by auto
  then show ?thesis using q d(5) by blast
qed

theorem console_input_roundtrip_witness:
  "\<exists>s t :: con_sys. bindk console_isr_handler (\<lambda>_. console_getcs (\<lambda>_ _. retk ()) 2) s = Ret ([104, BACKSPACE], t)
     \<and> contents (console_fifo t) = []"
proof -
  obtain s :: con_sys and F where s: "uart_enable s" "mmio_base (con_uart s) = NULL" "fifo_ok (console_fifo s)"
    "received (dev_in s) (pio_base (con_uart s)) [104, 127] (io_trace s)"
    "cpu_ready 6 0 s" "queues_ok 4096 {1024..<4096} F [] [] s"
    "lock_free Console_read_lock s" "lock_free Sched_lock s" "lock_free Kmalloc_lock s" "lock_free Pgalloc_lock s"
    "contents (console_fifo s) = []" "unat (fsize (console_fifo s)) = 32" by (rule demo_console)
  have len: "length [104, 127 :: u8] < unat (fsize (console_fifo s))" using s(12) by simp
  have e: "length [104, 127 :: u8] = 2" "map con_key [104, 127] = [104, BACKSPACE]" by (simp_all add: con_key_def)
  from console_input_roundtrip [OF s(1-11) len, of "\<lambda>_ _. retk ()"] show ?thesis unfolding e by (simp, blast)
qed

end
