(* ===== verification/Interrupts.thy ===== *)
theory Interrupts
  imports Console
begin

text \<open>
  Interrupts and system calls: the descriptor tables (\<^verbatim>\<open>arch/x86/system.c\<close>, \<^verbatim>\<open>arch/x86/interrupt.h\<close>,
  \<^verbatim>\<open>arch/x86/interrupt.c\<close>), the first part of CPU setup (\<^verbatim>\<open>cpu.c\<close>), the interrupt dispatcher and
  \<^verbatim>\<open>syscall.c\<close>. The entry stubs \<^verbatim>\<open>vectors[]\<close> are assembly: the state carries their addresses.
\<close>

section \<open>Global descriptor table (\<^verbatim>\<open>arch/x86/system.h\<close>, \<^verbatim>\<open>system.c\<close>)\<close>

definition GDT_USER_CODE :: nat where "GDT_USER_CODE = 3"
definition GDT_USER_DATA :: nat where "GDT_USER_DATA = 4"

definition GDT_DESC_TYPE_CODE :: "5 word" where "GDT_DESC_TYPE_CODE = 26"
definition GDT_DESC_TYPE_DATA :: "5 word" where "GDT_DESC_TYPE_DATA = 18"
definition GDT_DESC_TYPE_TSS :: "5 word" where "GDT_DESC_TYPE_TSS = 9"
definition GDT_DESC_FLAGS_L :: "4 word" where "GDT_DESC_FLAGS_L = 2"
definition GDT_DESC_FLAGS_G :: "4 word" where "GDT_DESC_FLAGS_G = 8"

definition sizeof_tss :: u64 where "sizeof_tss = 0x68"
definition sizeof_gdt :: u64 where "sizeof_gdt = 56"

record segment_descriptor =
  limit_15_0 :: u16
  base_15_0 :: u16
  base_23_16 :: u8
  d_type :: "5 word"
  dpl :: "2 word"
  d_p :: "1 word"
  limit_19_16 :: "4 word"
  d_flags :: "4 word"
  base_31_24 :: u8

record tss_descriptor = segment_descriptor +
  base_63_32 :: u32
  d_resvd :: u32

record gdt =
  seg_descs :: "segment_descriptor list"
  tss_entry :: tss_descriptor

text \<open>A table of zero bytes, as \<^verbatim>\<open>memset\<close> leaves it.\<close>

definition zero_desc :: segment_descriptor where
  "zero_desc = \<lparr>limit_15_0 = 0, base_15_0 = 0, base_23_16 = 0, d_type = 0, dpl = 0, d_p = 0, limit_19_16 = 0,
     d_flags = 0, base_31_24 = 0\<rparr>"

definition zero_gdt :: gdt where
  "zero_gdt = \<lparr>seg_descs = replicate 5 zero_desc,
     tss_entry = segment_descriptor.extend zero_desc \<lparr>base_63_32 = 0, d_resvd = 0\<rparr>\<rparr>"

definition gdt_table :: "ptr \<Rightarrow> gdt" where
  "gdt_table tss_addr =
     (let d0 = seg_descs zero_gdt;
          d1 = d0[unat GDT_KERNEL_CODE := (d0 ! unat GDT_KERNEL_CODE)\<lparr>d_type := GDT_DESC_TYPE_CODE, dpl := 0, d_p := 1,
                  d_flags := GDT_DESC_FLAGS_L OR GDT_DESC_FLAGS_G\<rparr>];
          d2 = d1[unat GDT_KERNEL_DATA := (d1 ! unat GDT_KERNEL_CODE)\<lparr>d_type := GDT_DESC_TYPE_DATA\<rparr>];
          d3 = d2[GDT_USER_CODE := (d2 ! unat GDT_KERNEL_CODE)\<lparr>dpl := 3\<rparr>];
          d4 = d3[GDT_USER_DATA := (d3 ! unat GDT_KERNEL_DATA)\<lparr>dpl := 3\<rparr>]
      in \<lparr>seg_descs = d4,
          tss_entry = (tss_entry zero_gdt)\<lparr>d_type := GDT_DESC_TYPE_TSS, d_p := 1, dpl := 0, d_flags := GDT_DESC_FLAGS_L,
            limit_15_0 := ucast (sizeof_tss AND 0xFFFF), limit_19_16 := ucast (drop_bit 16 sizeof_tss AND 0xF),
            base_15_0 := ucast (drop_bit 0 tss_addr AND 0xFFFF), base_23_16 := ucast (drop_bit 16 tss_addr AND 0xFF),
            base_31_24 := ucast (drop_bit 24 tss_addr AND 0xFF), base_63_32 := ucast (drop_bit 32 tss_addr AND 0xFFFFFFFF)\<rparr>\<rparr>)"

section \<open>Interrupt descriptor table (\<^verbatim>\<open>arch/x86/interrupt.h\<close>)\<close>

definition VECTOR_SYSCALL :: nat where "VECTOR_SYSCALL = 0x80"

definition IDT_OFFSET_1 :: "u64 \<Rightarrow> u64" where "IDT_OFFSET_1 p = p AND 0xFFFF"
definition IDT_OFFSET_2 :: "u64 \<Rightarrow> u64" where "IDT_OFFSET_2 p = drop_bit 16 p AND 0xFFFF"
definition IDT_OFFSET_3 :: "u64 \<Rightarrow> u64" where "IDT_OFFSET_3 p = drop_bit 32 p AND 0xFFFFFFFF"

definition IDT_GATE_FLAGS_INT :: u32 where "IDT_GATE_FLAGS_INT = 0xE"
definition IDT_GATE_FLAGS_TRAP :: u32 where "IDT_GATE_FLAGS_TRAP = 0xF"
definition IDT_GATE_FLAGS_DPL_USER :: u32 where "IDT_GATE_FLAGS_DPL_USER = push_bit 5 3"
definition IDT_GATE_FLAGS_DPL_KRNL :: u32 where "IDT_GATE_FLAGS_DPL_KRNL = push_bit 5 0"
definition IDT_GATE_FLAGS_P :: u32 where "IDT_GATE_FLAGS_P = 0x80"

record interrupt_gate =
  offset_1 :: u16
  selector :: u16
  ist :: u8
  type_attributes :: u8
  offset_2 :: u16
  offset_3 :: u32
  g_zero :: u32

definition zero_gate :: interrupt_gate where
  "zero_gate = \<lparr>offset_1 = 0, selector = 0, ist = 0, type_attributes = 0, offset_2 = 0, offset_3 = 0, g_zero = 0\<rparr>"

definition mk_idt_entry :: "ptr \<Rightarrow> u8 \<Rightarrow> u8 \<Rightarrow> u8 \<Rightarrow> interrupt_gate" where
  "mk_idt_entry handler_fn st type_attr cs =
     \<lparr>offset_1 = ucast (IDT_OFFSET_1 handler_fn), selector = ucast cs, ist = st AND 0x7, type_attributes = type_attr,
      offset_2 = ucast (IDT_OFFSET_2 handler_fn), offset_3 = ucast (IDT_OFFSET_3 handler_fn), g_zero = 0\<rparr>"

section \<open>State\<close>

text \<open>
  \<open>gdts\<close> are the tables in \<^verbatim>\<open>cpus[]\<close>, \<open>gdt_addr\<close> and \<open>tss_addr\<close> the addresses of the two structures of a CPU,
  \<open>gdtr\<close> and \<open>idtr\<close> the limit and base that were loaded. \<open>printf_buffer\<close> is the address of the local array of
  \<^verbatim>\<open>printf_\<close>.
\<close>

record int_sys = con_sys +
  gdts :: "nat \<Rightarrow> gdt"
  gdt_addr :: "nat \<Rightarrow> ptr"
  tss_addr :: "nat \<Rightarrow> ptr"
  gdtr :: "u16 \<times> ptr"
  idt :: "interrupt_gate list"
  idt_addr :: ptr
  idtr :: "u16 \<times> ptr"
  vectors :: "nat \<Rightarrow> u64"
  cr2 :: u64
  printf_buffer :: ptr

text \<open>\<^verbatim>\<open>tss_setup\<close> is not called by the kernel; \<^verbatim>\<open>gdt_setup\<close> points the descriptor at a task state segment in static memory.\<close>

definition tss_setup :: "nat \<Rightarrow> 'z int_sys_scheme \<Rightarrow> (unit \<times> 'z int_sys_scheme) outcome" where
  "tss_setup c s = Ret ((), s\<lparr>mem := memset (tss_addr s c) 0 sizeof_tss (mem s)\<rparr>)"

definition gdt_setup :: "nat \<Rightarrow> 'z int_sys_scheme \<Rightarrow> (unit \<times> 'z int_sys_scheme) outcome" where
  "gdt_setup c s = Ret ((), s\<lparr>gdts := (gdts s)(c := gdt_table (tss_addr s c)), gdtr := (ucast (sizeof_gdt - 1), gdt_addr s c)\<rparr>)"

definition cpu_bsp_init :: "'z int_sys_scheme \<Rightarrow> (unit \<times> 'z int_sys_scheme) outcome" where
  "cpu_bsp_init s =
     gdt_setup 0 (s\<lparr>ncpu := 1, cpus := (cpus s)[0 := (cpus s ! 0)\<lparr>apicid := lapic_id s, started := 1, int_disable_layer := 0\<rparr>]\<rparr>)"

definition load_idt :: "'z int_sys_scheme \<Rightarrow> (unit \<times> 'z int_sys_scheme) outcome" where
  "load_idt s = Ret ((), s\<lparr>idtr := (16 * 256 - 1, idt_addr s)\<rparr>)"

primrec idt_loop :: "nat \<Rightarrow> nat \<Rightarrow> (nat \<Rightarrow> u64) \<Rightarrow> interrupt_gate list \<Rightarrow> interrupt_gate list" where
  "idt_loop 0 i v d = d"
| "idt_loop (Suc n) i v d = idt_loop n (Suc i) v
     (d[i := mk_idt_entry (v i) 0 (ucast (IDT_GATE_FLAGS_P OR IDT_GATE_FLAGS_DPL_KRNL OR IDT_GATE_FLAGS_INT)) (ucast (GDT_KERNEL_CODE * 8))])"

definition interrupt_init :: "'z int_sys_scheme \<Rightarrow> (unit \<times> 'z int_sys_scheme) outcome" where
  "interrupt_init s =
     (let d = idt_loop 256 0 (vectors s) (replicate 256 zero_gate);
          d1 = d[VECTOR_SYSCALL := mk_idt_entry (vectors s VECTOR_SYSCALL) 0
                   (ucast (IDT_GATE_FLAGS_P OR IDT_GATE_FLAGS_DPL_USER OR IDT_GATE_FLAGS_TRAP)) (ucast (GDT_KERNEL_CODE * 8))]
      in load_idt (s\<lparr>idt := d1\<rparr>))"

section \<open>System calls (\<^verbatim>\<open>syscall.c\<close>)\<close>

definition SYS_YIELD :: u64 where "SYS_YIELD = 0x01"
definition SYS_CON_READ :: u64 where "SYS_CON_READ = 0x10"

definition kprintf :: "u8 list \<Rightarrow> va_item list \<Rightarrow> 'z int_sys_scheme \<Rightarrow> (unit \<times> 'z int_sys_scheme) outcome" where
  "kprintf fmt va s = bindk (printf' (printf_buffer s) fmt va) (\<lambda>_. retk ()) s"

definition text_bytes :: "string \<Rightarrow> u8 list" where "text_bytes = map of_char"

definition sys_yield :: "'z int_sys_scheme ctxsw \<Rightarrow> 'z int_sys_scheme \<Rightarrow> (u64 \<times> 'z int_sys_scheme) outcome" where
  "sys_yield ctxsw = bindk (sched_yield ctxsw) (\<lambda>_. retk 0)"

definition sys_con_read :: "'z int_sys_scheme \<Rightarrow> (u64 \<times> 'z int_sys_scheme) outcome" where
  "sys_con_read =
     bindk curproc (\<lambda>p.
     bindk push_int_disable (\<lambda>_ s.
       if p = NULL then Undef ''null proc''
       else bindk pop_int_disable (\<lambda>_. retk 0)
         (if p_state (procs s p) = RUNNING then upd_proc p (\<lambda>q. q\<lparr>p_state := RUNNABLE\<rparr>) s else s)))"

text \<open>The fields of the trap frame at \<open>t\<close> that the kernel reads and writes.\<close>

definition tf_rax :: "memory \<Rightarrow> ptr \<Rightarrow> u64" where "tf_rax m t = ld64 m t"
definition tf_trap_no :: "memory \<Rightarrow> ptr \<Rightarrow> u64" where "tf_trap_no m t = ld64 m (t + 120)"
definition tf_rip :: "memory \<Rightarrow> ptr \<Rightarrow> u64" where "tf_rip m t = ld64 m (t + 136)"
definition set_tf_rax :: "ptr \<Rightarrow> u64 \<Rightarrow> 'z int_sys_scheme \<Rightarrow> (unit \<times> 'z int_sys_scheme) outcome" where
  "set_tf_rax t v s = Ret ((), s\<lparr>mem := st64 (mem s) t v\<rparr>)"

definition handle_syscall :: "'z int_sys_scheme ctxsw \<Rightarrow> ptr \<Rightarrow> 'z int_sys_scheme \<Rightarrow> (unit \<times> 'z int_sys_scheme) outcome" where
  "handle_syscall ctxsw t s =
     (let syscallno = tf_rax (mem s) t in
      if syscallno = SYS_YIELD then bindk (sys_yield ctxsw) (\<lambda>v. set_tf_rax t v) s
      else if syscallno = SYS_CON_READ then bindk sys_con_read (\<lambda>v. set_tf_rax t v) s
      else kprintf (text_bytes ''unknown syscall %d'' @ [10]) [VWord syscallno] s)"

section \<open>The dispatcher (\<^verbatim>\<open>interrupt.c\<close>)\<close>

definition IDT_ENTRY_BP :: u64 where "IDT_ENTRY_BP = 3"
definition IDT_ENTRY_DOUBLE_FAULT :: u64 where "IDT_ENTRY_DOUBLE_FAULT = 8"
definition IDT_ENTRY_GP :: u64 where "IDT_ENTRY_GP = 13"
definition IDT_ENTRY_PAGE_FAULT :: u64 where "IDT_ENTRY_PAGE_FAULT = 14"

definition rcr2 :: "'z int_sys_scheme \<Rightarrow> (u64 \<times> 'z int_sys_scheme) outcome" where
  "rcr2 s = Ret (cr2 s, s)"

text \<open>\<^verbatim>\<open>if (curproc() && test(curproc()->state)) action\<close>; every \<^verbatim>\<open>curproc()\<close> is a call.\<close>

definition if_curproc :: "(proc_state \<Rightarrow> bool) \<Rightarrow> ('z int_sys_scheme \<Rightarrow> (unit \<times> 'z int_sys_scheme) outcome)
    \<Rightarrow> 'z int_sys_scheme \<Rightarrow> (unit \<times> 'z int_sys_scheme) outcome" where
  "if_curproc test action =
     bindk curproc (\<lambda>p.
       if p = NULL then retk ()
       else bindk curproc (\<lambda>q s.
         if q = NULL then Undef ''null proc''
         else if test (p_state (procs s q)) then action s else Ret ((), s)))"

definition timer_tick :: "'z int_sys_scheme \<Rightarrow> (unit \<times> 'z int_sys_scheme) outcome" where
  "timer_tick =
     bindk cpu_id (\<lambda>i.
     bindk (if i = 0 then systick_increment else retk ()) (\<lambda>_.
     bindk (if_curproc (\<lambda>st. st = RUNNING)
              (bindk curproc (\<lambda>r s. if r = NULL then Undef ''null proc'' else Ret ((), upd_proc r (\<lambda>q. q\<lparr>p_state := RUNNABLE\<rparr>) s)))) (\<lambda>_.
     lapic_eoi)))"

text \<open>
  The handler calls \<^verbatim>\<open>panic\<close> in four places. What that call does is the parameter \<open>halt\<close> of the next two definitions,
  so that the state in which the kernel gives up can be observed; \<open>handle_interrupt\<close> is the handler with the outcome
  \<open>Panic\<close>, and the theory \<open>Kpanic\<close> puts the steps of \<^verbatim>\<open>panic\<close> itself in its place.
\<close>

type_synonym 's halt = "string \<Rightarrow> 's \<Rightarrow> (unit \<times> 's) outcome"

definition dispatch :: "'z int_sys_scheme halt \<Rightarrow> 'z int_sys_scheme ctxsw \<Rightarrow> ptr \<Rightarrow> 'z int_sys_scheme \<Rightarrow> (unit \<times> 'z int_sys_scheme) outcome" where
  "dispatch halt ctxsw t s =
     (let no = tf_trap_no (mem s) t; pc = tf_rip (mem s) t in
      if no = ucast IDT_ENTRY_IRQ_SPURIOUS then lapic_eoi s
      else if no = IDT_ENTRY_BP then kprintf (text_bytes ''breakpoint at pc: %p'' @ [10]) [VWord pc] s
      else if no = ucast IDT_ENTRY_IRQ_0 then timer_tick s
      else if no = ucast IDT_ENTRY_IRQ_COM1 then bindk console_isr_handler (\<lambda>_. lapic_eoi) s
      else if no = of_nat VECTOR_SYSCALL then handle_syscall ctxsw t s
      else if no = IDT_ENTRY_PAGE_FAULT then
        bindk rcr2 (\<lambda>faulting_addr.
        bindk (kprintf (text_bytes ''pg fault on %p at '' @ [10] @ text_bytes ''rip=%p'' @ [10]) [VWord faulting_addr, VWord pc]) (\<lambda>_.
        halt ''pgfault'')) s
      else bindk (kprintf (text_bytes ''unhandled %d'' @ [10]) [VWord no]) (\<lambda>_. halt ''interrupt_handler'') s)"

definition handle_interrupt_with :: "'z int_sys_scheme halt \<Rightarrow> 'z int_sys_scheme ctxsw \<Rightarrow> ptr \<Rightarrow> 'z int_sys_scheme \<Rightarrow> (unit \<times> 'z int_sys_scheme) outcome" where
  "handle_interrupt_with halt ctxsw t s =
     (let no = tf_trap_no (mem s) t; pc = tf_rip (mem s) t in
      if no = IDT_ENTRY_DOUBLE_FAULT
      then bindk (kprintf (text_bytes ''DF rip = %p'' @ [10]) [VWord pc]) (\<lambda>_. halt ''A double fault has occurred'') s
      else if no = IDT_ENTRY_GP
      then bindk (kprintf (text_bytes ''rip = %p'' @ [10]) [VWord pc]) (\<lambda>_. halt ''GP'') s
      else bindk (dispatch halt ctxsw t) (\<lambda>_. if_curproc (\<lambda>st. st \<noteq> RUNNING) (sched_yield ctxsw)) s)"

definition handle_interrupt :: "'z int_sys_scheme ctxsw \<Rightarrow> ptr \<Rightarrow> 'z int_sys_scheme \<Rightarrow> (unit \<times> 'z int_sys_scheme) outcome" where
  "handle_interrupt = handle_interrupt_with panic"

lemmas handle_interrupt_unfold = handle_interrupt_def handle_interrupt_with_def

section \<open>The tables as the processor reads them\<close>

definition gate_offset :: "interrupt_gate \<Rightarrow> u64" where
  "gate_offset g = push_bit 32 (ucast (offset_3 g)) OR push_bit 16 (ucast (offset_2 g)) OR ucast (offset_1 g)"

definition gate_present :: "interrupt_gate \<Rightarrow> bool" where
  "gate_present g \<longleftrightarrow> bit (type_attributes g) 7"

definition gate_dpl :: "interrupt_gate \<Rightarrow> nat" where
  "gate_dpl g = unat (drop_bit 5 (type_attributes g) AND 3)"

text \<open>Gate type 14 turns interrupts off on entry, 15 leaves them on.\<close>

definition gate_type :: "interrupt_gate \<Rightarrow> nat" where
  "gate_type g = unat (type_attributes g AND 0xF)"

definition desc_base :: "tss_descriptor \<Rightarrow> u64" where
  "desc_base d = push_bit 32 (ucast (base_63_32 d)) OR push_bit 24 (ucast (base_31_24 d)) OR push_bit 16 (ucast (base_23_16 d))
     OR ucast (base_15_0 d)"

lemma mask_words: "(0xFFFF :: u64) = mask 16" "(0xFFFFFFFF :: u64) = mask 32" "(0xFF :: u64) = mask 8"
  by (simp_all add: mask_eq_decr_exp)

lemma split_16_16_32:
  "push_bit 32 (ucast (ucast (drop_bit 32 (h :: u64)) :: u32)) OR push_bit 16 (ucast (ucast (drop_bit 16 h) :: u16)) OR ucast (ucast h :: u16) = h" (is "?l = h")
proof (rule bit_eqI)
  fix n assume "possible_bit TYPE(u64) n"
  then have "n < 64" by simp
  then consider "n < 16" | "16 \<le> n" "n < 32" | "32 \<le> n" "n < 64" by linarith
  then show "bit ?l n = bit h n"
    by cases (auto simp: bit_simps)
qed

lemma split_16_8_8_32:
  "push_bit 32 (ucast (ucast (drop_bit 32 (h :: u64)) :: u32)) OR push_bit 24 (ucast (ucast (drop_bit 24 h) :: u8))
     OR push_bit 16 (ucast (ucast (drop_bit 16 h) :: u8)) OR ucast (ucast h :: u16) = h" (is "?l = h")
proof (rule bit_eqI)
  fix n assume "possible_bit TYPE(u64) n"
  then have "n < 64" by simp
  then consider "n < 16" | "16 \<le> n" "n < 24" | "24 \<le> n" "n < 32" | "32 \<le> n" "n < 64" by linarith
  then show "bit ?l n = bit h n"
    by cases (auto simp: bit_simps)
qed

lemma masked_casts:
  "ucast ((h :: u64) AND 0xFFFF) = (ucast h :: u16)" "ucast (h AND 0xFF) = (ucast h :: u8)" "ucast (h AND 0xFFFFFFFF) = (ucast h :: u32)"
  unfolding mask_words by (rule bit_eqI, auto simp: bit_simps)+

lemma gate_offset_entry: "gate_offset (mk_idt_entry h st ty cs) = h"
  using split_16_16_32 [of h]
  by (simp add: gate_offset_def mk_idt_entry_def IDT_OFFSET_1_def IDT_OFFSET_2_def IDT_OFFSET_3_def masked_casts)

lemma idt_loop_nth:
  assumes "i + n \<le> length d"
  shows "length (idt_loop n i v d) = length d"
    and "k < length d \<Longrightarrow> idt_loop n i v d ! k = (if i \<le> k \<and> k < i + n
      then mk_idt_entry (v k) 0 (ucast (IDT_GATE_FLAGS_P OR IDT_GATE_FLAGS_DPL_KRNL OR IDT_GATE_FLAGS_INT)) (ucast (GDT_KERNEL_CODE * 8)) else d ! k)"
  using assms by (induction n arbitrary: i d) (auto simp: nth_list_update)

lemma gate_attributes:
  "ucast (IDT_GATE_FLAGS_P OR IDT_GATE_FLAGS_DPL_KRNL OR IDT_GATE_FLAGS_INT) = (0x8E :: u8)"
  "ucast (IDT_GATE_FLAGS_P OR IDT_GATE_FLAGS_DPL_USER OR IDT_GATE_FLAGS_TRAP) = (0xEF :: u8)"
  "ucast (GDT_KERNEL_CODE * 8) = (8 :: u8)"
  by (simp_all add: IDT_GATE_FLAGS_P_def IDT_GATE_FLAGS_DPL_KRNL_def IDT_GATE_FLAGS_INT_def IDT_GATE_FLAGS_DPL_USER_def
      IDT_GATE_FLAGS_TRAP_def GDT_KERNEL_CODE_def)

lemma interrupt_init_gates:
  fixes s :: "'z int_sys_scheme"
  shows "\<exists>t. interrupt_init s = Ret ((), t) \<and> idtr t = (4095, idt_addr s) \<and> length (idt t) = 256
     \<and> (\<forall>k < 256. gate_offset (idt t ! k) = vectors s k \<and> gate_present (idt t ! k) \<and> selector (idt t ! k) = ucast (GDT_KERNEL_CODE * 8)
          \<and> ist (idt t ! k) = 0 \<and> g_zero (idt t ! k) = 0
          \<and> gate_dpl (idt t ! k) = (if k = VECTOR_SYSCALL then 3 else 0)
          \<and> gate_type (idt t ! k) = (if k = VECTOR_SYSCALL then 15 else 14))"
proof -
  let ?d = "idt_loop 256 0 (vectors s) (replicate 256 zero_gate)"
  have len: "length ?d = 256" by (simp add: idt_loop_nth(1))
  have nth: "?d ! k = mk_idt_entry (vectors s k) 0 0x8E 8" if "k < 256" for k
    using idt_loop_nth(2) [of 0 256 "replicate 256 zero_gate" k "vectors s"] that by (simp add: gate_attributes)
  let ?d1 = "?d[VECTOR_SYSCALL := mk_idt_entry (vectors s VECTOR_SYSCALL) 0 0xEF 8]"
  have V: "VECTOR_SYSCALL < 256" by (simp add: VECTOR_SYSCALL_def)
  have run: "interrupt_init s = Ret ((), s\<lparr>idt := ?d1, idtr := (4095, idt_addr s)\<rparr>)"
    by (simp add: interrupt_init_def load_idt_def Let_def gate_attributes)
  have g: "?d1 ! k = mk_idt_entry (vectors s k) 0 (if k = VECTOR_SYSCALL then 0xEF else 0x8E) 8" if "k < 256" for k
    using nth [OF that] len V by (simp add: nth_list_update)
  have "gate_offset (?d1 ! k) = vectors s k \<and> gate_present (?d1 ! k) \<and> selector (?d1 ! k) = ucast (GDT_KERNEL_CODE * 8)
          \<and> ist (?d1 ! k) = 0 \<and> g_zero (?d1 ! k) = 0
          \<and> gate_dpl (?d1 ! k) = (if k = VECTOR_SYSCALL then 3 else 0)
          \<and> gate_type (?d1 ! k) = (if k = VECTOR_SYSCALL then 15 else 14)" if "k < 256" for k
    unfolding g [OF that] gate_offset_entry
    by (simp add: gate_present_def gate_dpl_def gate_type_def mk_idt_entry_def GDT_KERNEL_CODE_def bit_numeral_rec)
  then show ?thesis using run len by (intro exI [of _ "s\<lparr>idt := ?d1, idtr := (4095, idt_addr s)\<rparr>"]) simp
qed

text \<open>C33: \<^verbatim>\<open>interrupt_init\<close> loads a well-formed table of 256 gates: as the processor reads them, every vector is present,
  enters its own stub in the kernel code segment, on the current stack, and the only gate that user code may call
  (privilege 3) and that leaves interrupts on is the system call.\<close>

theorem interrupt_init_table:
  fixes s :: "'z int_sys_scheme"
  shows "\<exists>t. interrupt_init s = Ret ((), t) \<and> idtr t = (4095, idt_addr s) \<and> length (idt t) = 256
     \<and> (\<forall>k < 256. gate_offset (idt t ! k) = vectors s k \<and> gate_present (idt t ! k) \<and> selector (idt t ! k) = ucast (GDT_KERNEL_CODE * 8)
          \<and> ist (idt t ! k) = 0 \<and> g_zero (idt t ! k) = 0
          \<and> gate_dpl (idt t ! k) = (if k = VECTOR_SYSCALL then 3 else 0)
          \<and> gate_type (idt t ! k) = (if k = VECTOR_SYSCALL then 15 else 14))"
  by (rule interrupt_init_gates)

text \<open>\<^verbatim>\<open>cpu_bsp_init\<close> makes the running CPU the only one that \<^verbatim>\<open>cur_cpu\<close> finds and loads its descriptor table: a null
  descriptor, present 64-bit code and data segments for the kernel (privilege 0) and for user code (privilege 3),
  and a descriptor whose base, as the processor assembles it, is this CPU's task state segment.\<close>

theorem cpu_bsp_init_tables:
  fixes s :: "'z int_sys_scheme"
  assumes "0 < length (cpus s)"
  shows "\<exists>t. cpu_bsp_init s = Ret ((), t) \<and> cpu_lookup t = Some 0 \<and> int_disable_layer (cpus t ! 0) = 0
     \<and> gdtr t = (55, gdt_addr s 0) \<and> length (seg_descs (gdts t 0)) = 5 \<and> seg_descs (gdts t 0) ! 0 = zero_desc
     \<and> (\<forall>i \<in> {1..4}. d_p (seg_descs (gdts t 0) ! i) = 1 \<and> dpl (seg_descs (gdts t 0) ! i) = (if i \<le> 2 then 0 else 3)
          \<and> d_type (seg_descs (gdts t 0) ! i) = (if odd i then GDT_DESC_TYPE_CODE else GDT_DESC_TYPE_DATA)
          \<and> bit (d_flags (seg_descs (gdts t 0) ! i)) 1)
     \<and> desc_base (tss_entry (gdts t 0)) = tss_addr s 0"
proof -
  have i: "i = 1 \<or> i = 2 \<or> i = 3 \<or> i = 4" if "i \<in> {1..4}" for i :: nat using that by auto
  have base: "desc_base (tss_entry (gdt_table a)) = a" for a
    using split_16_8_8_32 [of a] by (simp add: gdt_table_def Let_def desc_base_def masked_casts)
  let ?g = "gdt_table (tss_addr s 0)"
  let ?t = "s\<lparr>ncpu := 1, cpus := (cpus s)[0 := (cpus s ! 0)\<lparr>apicid := lapic_id s, started := 1, int_disable_layer := 0\<rparr>],
      gdts := (gdts s)(0 := ?g), gdtr := (55, gdt_addr s 0)\<rparr>"
  have run: "cpu_bsp_init s = Ret ((), ?t)"
    by (simp add: cpu_bsp_init_def gdt_setup_def sizeof_gdt_def)
  have ix: "unat GDT_KERNEL_CODE = Suc 0" "unat GDT_KERNEL_DATA = Suc (Suc 0)" "GDT_USER_CODE = Suc (Suc (Suc 0))"
      "GDT_USER_DATA = Suc (Suc (Suc (Suc 0)))"
    by (simp_all add: GDT_KERNEL_CODE_def GDT_KERNEL_DATA_def GDT_USER_CODE_def GDT_USER_DATA_def)
  have r: "replicate 5 zero_desc = [zero_desc, zero_desc, zero_desc, zero_desc, zero_desc]" by (simp add: numeral_eq_Suc)
  have descs: "seg_descs ?g = [zero_desc,
      zero_desc\<lparr>d_type := GDT_DESC_TYPE_CODE, dpl := 0, d_p := 1, d_flags := 10\<rparr>,
      zero_desc\<lparr>d_type := GDT_DESC_TYPE_DATA, dpl := 0, d_p := 1, d_flags := 10\<rparr>,
      zero_desc\<lparr>d_type := GDT_DESC_TYPE_CODE, dpl := 3, d_p := 1, d_flags := 10\<rparr>,
      zero_desc\<lparr>d_type := GDT_DESC_TYPE_DATA, dpl := 3, d_p := 1, d_flags := 10\<rparr>]"
    unfolding gdt_table_def Let_def zero_gdt_def r ix by (simp add: GDT_DESC_FLAGS_L_def GDT_DESC_FLAGS_G_def)
  have "cpu_lookup ?t = Some 0" using assms by (simp add: cpu_lookup_def lapic_id_def)
  moreover have "d_p (seg_descs ?g ! i) = 1 \<and> dpl (seg_descs ?g ! i) = (if i \<le> 2 then 0 else 3)
          \<and> d_type (seg_descs ?g ! i) = (if odd i then GDT_DESC_TYPE_CODE else GDT_DESC_TYPE_DATA)
          \<and> bit (d_flags (seg_descs ?g ! i)) 1" if "i \<in> {1..4}" for i
    using i [OF that] unfolding descs by (auto simp: bit_numeral_rec)
  ultimately show ?thesis using run base assms descs by (intro exI [of _ ?t]) simp
qed

section \<open>Faults\<close>

text \<open>The vectors after which the interrupted code goes on.\<close>

definition handled :: "u64 \<Rightarrow> bool" where
  "handled no \<longleftrightarrow> no = ucast IDT_ENTRY_IRQ_SPURIOUS \<or> no = IDT_ENTRY_BP \<or> no = ucast IDT_ENTRY_IRQ_0
     \<or> no = ucast IDT_ENTRY_IRQ_COM1 \<or> no = of_nat VECTOR_SYSCALL"

definition fault_message :: "u64 \<Rightarrow> string" where
  "fault_message no = (if no = IDT_ENTRY_DOUBLE_FAULT then ''A double fault has occurred''
     else if no = IDT_ENTRY_GP then ''GP'' else if no = IDT_ENTRY_PAGE_FAULT then ''pgfault'' else ''interrupt_handler'')"

text \<open>The format and the arguments that are printed first, for the vector \<open>no\<close>, the faulting instruction \<open>pc\<close> and the
  faulting address \<open>ad\<close>.\<close>

definition fault_format :: "u64 \<Rightarrow> u64 \<Rightarrow> u64 \<Rightarrow> u8 list \<times> va_item list" where
  "fault_format no pc ad = (if no = IDT_ENTRY_DOUBLE_FAULT then (text_bytes ''DF rip = %p'' @ [10], [VWord pc])
     else if no = IDT_ENTRY_GP then (text_bytes ''rip = %p'' @ [10], [VWord pc])
     else if no = IDT_ENTRY_PAGE_FAULT then
       (text_bytes ''pg fault on %p at '' @ [10] @ text_bytes ''rip=%p'' @ [10], [VWord ad, VWord pc])
     else (text_bytes ''unhandled %d'' @ [10], [VWord no]))"

text \<open>A vector without a handler is reported and given to \<open>halt\<close>; what follows in the handler is not reached.\<close>

lemma bindk_halt:
  fixes m :: "'s \<Rightarrow> (unit \<times> 's) outcome" and g :: "unit \<Rightarrow> 's \<Rightarrow> (unit \<times> 's) outcome"
  assumes "\<forall>u v. h u \<noteq> Ret v"
  shows "bindk (bindk m (\<lambda>_. h)) g s = bindk m (\<lambda>_. h) s"
  using assms by (auto simp: bindk_def split: outcome.splits)

lemma fault_runs:
  fixes s :: "'z int_sys_scheme" and t :: ptr
  assumes h: "\<not> handled (tf_trap_no (mem s) t)" and halt: "\<forall>m u v. halt m u \<noteq> Ret v"
  defines "ft \<equiv> fault_format (tf_trap_no (mem s) t) (tf_rip (mem s) t) (cr2 s)"
  shows "handle_interrupt_with halt ctxsw t s = bindk (kprintf (fst ft) (snd ft)) (\<lambda>_. halt (fault_message (tf_trap_no (mem s) t))) s"
proof (cases "tf_trap_no (mem s) t = IDT_ENTRY_DOUBLE_FAULT \<or> tf_trap_no (mem s) t = IDT_ENTRY_GP")
  case True
  then show ?thesis by (auto simp: handle_interrupt_with_def ft_def fault_format_def fault_message_def)
next
  case False
  let ?m = "fault_message (tf_trap_no (mem s) t)"
  have "dispatch halt ctxsw t s = bindk (kprintf (fst ft) (snd ft)) (\<lambda>_. halt ?m) s"
    using False h by (simp add: dispatch_def handled_def rcr2_def ft_def fault_format_def fault_message_def bindk_def)
  then have "handle_interrupt_with halt ctxsw t s = bindk (bindk (kprintf (fst ft) (snd ft)) (\<lambda>_. halt ?m))
      (\<lambda>_ :: unit. if_curproc (\<lambda>st. st \<noteq> RUNNING) (sched_yield ctxsw)) s"
    using False by (simp add: handle_interrupt_with_def Let_def) (simp add: bindk_def)
  then show ?thesis using bindk_halt [of "halt ?m"] halt by simp
qed

section \<open>Preemption\<close>

lemma curproc_settled:
  assumes rd: "cpu_ready (Suc d) c s"
  shows "curproc s = Ret (cpu_proc (cpus s ! c), s\<lparr>cpus := settled c s\<rparr>)"
proof -
  have c: "c < length (cpus s)" and l: "cpu_lookup s = Some c" using rd by (auto simp: cpu_ready_def)
  have "pop_int_disable (entered c s) = Ret ((), s\<lparr>cpus := settled c s\<rparr>)"
    using pop_entered [OF rd, of "entered c s"] by (simp add: same_cpu_def) (simp add: entered_def)
  moreover have "cpu_proc (cpus (entered c s) ! c) = cpu_proc (cpus s ! c)" using c by (simp add: entered_def pushed_def)
  ultimately show ?thesis
    using c l by (simp add: curproc_def bindk_def push_int_disable_entered cur_cpu_eq retk_def)
qed

lemma settled_cpu:
  assumes "c < length (cpus s)"
  shows "cpu_proc (settled c s ! c) = cpu_proc (cpus s ! c)" "scheduler_ctx (settled c s ! c) = scheduler_ctx (cpus s ! c)"
    "int_disable_layer (settled c s ! c) = int_disable_layer (cpus s ! c)"
  using assms by (simp_all add: settled_def)

lemma settled_fix:
  assumes "cpus t = settled c s" and "rflags t = rflags s" and "c < length (cpus s)"
  shows "settled c t = cpus t"
  using assms by (simp add: settled_def cong: if_cong)

lemma if_curproc_eq:
  fixes s :: "'z int_sys_scheme"
  assumes rd: "cpu_ready (Suc d) c s" and st: "settled c s = cpus s" and p: "cpu_proc (cpus s ! c) \<noteq> NULL"
  shows "if_curproc test action s = (if test (p_state (procs s (cpu_proc (cpus s ! c)))) then action s else Ret ((), s))"
  using curproc_settled [OF rd] st p by (simp add: if_curproc_def bindk_def)

definition ticked :: "nat \<Rightarrow> ptr \<Rightarrow> 'z int_sys_scheme \<Rightarrow> 'z int_sys_scheme" where
  "ticked c p s = s\<lparr>cpus := settled c s, sys_tick := (if c = 0 then sys_tick s + 1 else sys_tick s),
     procs := (procs s)(p := (procs s p)\<lparr>p_state := RUNNABLE\<rparr>),
     io_trace := io_trace s @ [Wr (lapic_reg (lapic s) 0xB0) 0,
       Rd (lapic_reg (lapic s) 0x20) (dev_rd s (io_trace s @ [Wr (lapic_reg (lapic s) 0xB0) 0]) (lapic_reg (lapic s) 0x20))]\<rparr>"

lemma timer_tick_running:
  fixes s :: "'z int_sys_scheme"
  assumes rd: "cpu_ready (Suc d) c s" and off: "\<not> if_set (rflags s)" and la: "lapic s \<noteq> NULL"
    and p: "cpu_proc (cpus s ! c) = p" "p \<noteq> NULL" "p_state (procs s p) = RUNNING"
  shows "timer_tick s = Ret ((), ticked c p s)"
proof -
  have c: "c < length (cpus s)" and l: "cpu_lookup s = Some c" using rd by (auto simp: cpu_ready_def)
  have "c < unat (ncpu s)" using l by (auto simp: cpu_lookup_def find_Some_iff)
  then have "c < 65536" using unsigned_less [of "ncpu s", where 'a = nat] by simp
  then have z: "(of_nat c :: u16) = 0 \<longleftrightarrow> c = 0" by (simp add: of_nat_eq_0_iff take_bit_nat_eq_self word_unat_eq_iff unat_of_nat)
  let ?s1 = "s\<lparr>sys_tick := (if c = 0 then sys_tick s + 1 else sys_tick s)\<rparr>"
  have one: "bindk (if of_nat c = (0 :: u16) then systick_increment else retk ()) g s = g () ?s1"
    for g :: "unit \<Rightarrow> 'z int_sys_scheme \<Rightarrow> (unit \<times> 'z int_sys_scheme) outcome"
    unfolding z by (simp add: bindk_def systick_increment_def retk_def)
  have sm: "same_cpu s ?s1" by (simp add: same_cpu_def)
  have rd1: "cpu_ready (Suc d) c ?s1" using rd cpu_ready_same [OF sm] by blast
  let ?s2 = "?s1\<lparr>cpus := settled c s\<rparr>"
  have st1: "settled c ?s1 = settled c s" by (simp add: settled_def cong: if_cong)
  have rd2: "cpu_ready (Suc d) c ?s2" by (rule cpu_ready_settled [OF rd]) simp_all
  have st2: "settled c ?s2 = cpus ?s2" by (rule settled_fix [of _ _ s]) (use c in simp_all)
  have c1: "curproc ?s1 = Ret (p, ?s2)" using curproc_settled [OF rd1] p st1 by simp
  have c2: "curproc ?s2 = Ret (p, ?s2)" using curproc_settled [OF rd2] p st2 settled_cpu(1) [OF c] by simp
  have cid: "cpu_id s = Ret (of_nat c, s)" using cur_cpu_eq [OF off l] by (simp add: cpu_id_def bindk_def retk_def)
  let ?s3 = "upd_proc p (\<lambda>q. q\<lparr>p_state := RUNNABLE\<rparr>) ?s2"
  have "if_curproc (\<lambda>st. st = RUNNING)
      (bindk curproc (\<lambda>r s. if r = NULL then Undef ''null proc'' else Ret ((), upd_proc r (\<lambda>q. q\<lparr>p_state := RUNNABLE\<rparr>) s))) ?s1
    = Ret ((), ?s3)"
    using c1 c2 p by (simp add: if_curproc_def bindk_def)
  moreover have "lapic_eoi ?s3 = Ret ((), ticked c p s)"
    using la by (simp add: lapic_eoi_def lapicw_def mmio_write_def mmio_read_def bindk_def retk_def Let_def upd_proc_def ticked_def)
  ultimately show ?thesis using cid one by (simp add: timer_tick_def bindk_def)
qed

text \<open>C34: The timer preempts: when the tick interrupts a running process that holds no lock, the handler counts the
  tick (on CPU 0), acknowledges the interrupt, marks the process runnable and switches to the scheduler with the
  scheduler's lock held, so that the scheduler will queue the process again and run the next one.\<close>

theorem timer_preempts:
  fixes s :: "'z int_sys_scheme"
  assumes no: "tf_trap_no (mem s) t = ucast IDT_ENTRY_IRQ_TIMER"
    and rd: "cpu_ready 4 c s" and ly: "int_disable_layer (cpus s ! c) = 0" and off: "\<not> if_set (rflags s)"
    and la: "lapic s \<noteq> NULL" and lk: "lock_free Sched_lock s"
    and p: "cpu_proc (cpus s ! c) = p" "p \<noteq> NULL" "p_state (procs s p) = RUNNING"
  shows "\<exists>s1 resume. handle_interrupt ctxsw t s = bindk (ctxsw (Proc_slot p) (scheduler_ctx (cpus s ! c))) resume s1
     \<and> p_state (procs s1 p) = RUNNABLE \<and> lock_held c Sched_lock s1 \<and> int_disable_layer (cpus s1 ! c) = 1
     \<and> sys_tick s1 = (if c = 0 then sys_tick s + 1 else sys_tick s) \<and> mem s1 = mem s
     \<and> (\<exists>v. io_trace s1 = io_trace s @ [Wr (lapic_reg (lapic s) 0xB0) 0, Rd (lapic_reg (lapic s) 0x20) v])"
proof -
  let ?k = "ticked c p s" let ?a = "acquired c Sched_lock ?k"
  have c: "c < length (cpus s)" using rd by (simp add: cpu_ready_def)
  have n: "tf_trap_no (mem s) t = 32" using no by (simp add: IDT_ENTRY_IRQ_TIMER_def IDT_ENTRY_IRQ_0_def)
  have r3: "cpu_ready (Suc 3) c s" using rd by simp
  have tick: "timer_tick s = Ret ((), ?k)" by (rule timer_tick_running [OF r3 off la p])
  have f: "cpus ?k = settled c s" "rflags ?k = rflags s" "ncpu ?k = ncpu s" "lapic_id_reg ?k = lapic_id_reg s" "locks ?k = locks s"
    "p_state (procs ?k p) = RUNNABLE" by (simp_all add: ticked_def)
  have rk: "cpu_ready 4 c ?k" by (rule cpu_ready_settled [OF rd f(1-4)])
  have stk: "settled c ?k = cpus ?k" by (rule settled_fix [OF f(1,2) c])
  have pk: "cpu_proc (cpus ?k ! c) = p" "scheduler_ctx (cpus ?k ! c) = scheduler_ctx (cpus s ! c)" "int_disable_layer (cpus ?k ! c) = 0"
    using settled_cpu [OF c] p ly by (simp_all add: f(1))
  have ck: "c < length (cpus ?k)" using rk by (simp add: cpu_ready_def)
  have "dispatch panic ctxsw t s = Ret ((), ?k)"
    using tick n by (simp add: dispatch_def IDT_ENTRY_IRQ_SPURIOUS_def IDT_ENTRY_IRQ_0_def IDT_ENTRY_BP_def)
  moreover have "if_curproc (\<lambda>st. st \<noteq> RUNNING) (sched_yield ctxsw) ?k = sched_yield ctxsw ?k"
    using if_curproc_eq [of 3 c ?k, OF _ stk] rk pk p f by simp
  ultimately have run: "handle_interrupt ctxsw t s = sched_yield ctxsw ?k"
    using n by (simp add: handle_interrupt_unfold IDT_ENTRY_DOUBLE_FAULT_def IDT_ENTRY_GP_def bindk_def)
  have rk2: "cpu_ready (Suc (Suc 2)) c ?k" using rk by simp
  have lkk: "lock_free Sched_lock ?k" using lk f by (simp add: lock_free_def)
  have aq: "acquire Sched_lock ?k = Ret ((), ?a)" by (rule acquire_free [OF rk2 lkk])
  have ra: "cpu_ready 3 c ?a" using settled_acquired(2) [of 3 c ?k Sched_lock] rk by simp
  have ha: "lock_held c Sched_lock ?a" by (simp add: lock_held_def acquired_def)
  have ca: "cpus ?a ! c = pushed (rflags ?k) (cpus ?k ! c)" using ck by (simp add: acquired_def entered_def)
  have la1: "int_disable_layer (cpus ?a ! c) = 1" "cpu_proc (cpus ?a ! c) = p" "scheduler_ctx (cpus ?a ! c) = scheduler_ctx (cpus s ! c)"
    using pk by (simp_all add: ca pushed_def)
  have na: "int_disable_layer (cpus ?a ! c) \<noteq> 0" using la1(1) by simp
  have r2: "cpu_ready (Suc 2) c ?a" using ra by simp
  have pa: "p_state (procs ?a p) = RUNNABLE" using f by simp
  have cu: "curproc ?a = Ret (p, ?a)" using curproc_nested [OF r2 na] la1 by simp
  have "p_state (procs ?a p) \<noteq> RUNNING" using pa by simp
  note sw = switch_out_goes [OF r2 la1(1) ha la1(2) p(2) this, of ctxsw]
  have "sched_yield ctxsw ?k = bindk (sched_switch_out ctxsw) (\<lambda>_. release Sched_lock) ?a"
    using aq cu p(2) pa by (simp add: sched_yield_def bindk_def)
  also have "\<dots> = bindk (ctxsw (Proc_slot p) (scheduler_ctx (cpus s ! c))) (\<lambda>_.
      bindk (bindk cur_cpu (\<lambda>e t. Ret ((), t\<lparr>cpus := (cpus t)[e := (cpus t ! e)\<lparr>int_enabled := int_enabled (cpus ?a ! c)\<rparr>]\<rparr>)))
        (\<lambda>_. release Sched_lock)) ?a"
    using sw la1(3) by (simp add: bindk_def split: outcome.splits)
  finally have "handle_interrupt ctxsw t s = bindk (ctxsw (Proc_slot p) (scheduler_ctx (cpus s ! c))) (\<lambda>_.
      bindk (bindk cur_cpu (\<lambda>e t. Ret ((), t\<lparr>cpus := (cpus t)[e := (cpus t ! e)\<lparr>int_enabled := int_enabled (cpus ?a ! c)\<rparr>]\<rparr>)))
        (\<lambda>_. release Sched_lock)) ?a"
    using run by simp
  moreover have "sys_tick ?a = (if c = 0 then sys_tick s + 1 else sys_tick s)" "mem ?a = mem s"
    "\<exists>v. io_trace ?a = io_trace s @ [Wr (lapic_reg (lapic s) 0xB0) 0, Rd (lapic_reg (lapic s) 0x20) v]"
    by (simp_all add: acquired_def entered_def ticked_def)
  ultimately show ?thesis using pa ha la1(1) by blast
qed

section \<open>Instances\<close>

text \<open>One CPU that runs a process, interrupted with the vector stored in the trap frame at address 0.\<close>

definition demo_int :: "u64 \<Rightarrow> int_sys" where
  "demo_int no = \<lparr>mem = st64 (\<lambda>_. 0) 120 no, rflags = 0, lapic_id_reg = 0, ncpu = 1,
     cpus = [demo_cpu\<lparr>cpu_proc := 0x4000, scheduler_ctx := 0x5000\<rparr>],
     locks = (\<lambda>l. \<lparr>locked = 0, lk_name = [], lk_cpu = None\<rparr>),
     begin_kva = 0, end_kva = 0, boot_alloc_initialized = True, pgalloc_bins = [], max_addr = 0, size_list = 0, kern_pml4 = 0, cr3 = 0,
     procs = (\<lambda>_. zero_proc\<lparr>p_state := RUNNING\<rparr>), next_pid = 1, ptable_proc = 0x4000, idle_proc = 0x40000,
     ready_queue = 0x1000, waiting_queue = 0x1100, addr_of = (\<lambda>_. 0x1000),
     dev_in = (\<lambda>_ _. 0), dev_rd = (\<lambda>_ _. 0), msr = (\<lambda>_. 0), io_trace = [], lapic = P2KV 0xFEE00000, ioapic = 0, sys_tick = 41,
     con_uart = \<lparr>mmio_base = NULL, pio_base = UART_COM1\<rparr>, uart_enable = False, console_fifo = demo_fifo, console_fifo_addr = 7,
     gdts = (\<lambda>_. zero_gdt), gdt_addr = (\<lambda>_. 0x6000), tss_addr = (\<lambda>_. 0xFFFF800000106040), gdtr = (0, 0), idt = [], idt_addr = 0x7000,
     idtr = (0, 0), vectors = (\<lambda>i. 0xFFFF800000101000 + 8 * of_nat i), cr2 = 0, printf_buffer = 0x8000\<rparr>"

theorem interrupt_init_table_witness:
  "\<exists>t. interrupt_init (demo_int 0) = Ret ((), t) \<and> gate_offset (idt t ! 14) = 0xFFFF800000101070 \<and> gate_dpl (idt t ! 14) = 0
     \<and> gate_dpl (idt t ! 128) = 3"
proof -
  obtain t where t: "interrupt_init (demo_int 0) = Ret ((), t)"
      "\<And>k. k < 256 \<Longrightarrow> gate_offset (idt t ! k) = vectors (demo_int 0) k \<and> gate_dpl (idt t ! k) = (if k = VECTOR_SYSCALL then 3 else 0)"
    using interrupt_init_table [of "demo_int 0"] by blast
  show ?thesis using t(1) t(2) [of 14] t(2) [of 128] by (simp add: demo_int_def VECTOR_SYSCALL_def)
qed

theorem cpu_bsp_init_tables_witness:
  "\<exists>t. cpu_bsp_init (demo_int 0) = Ret ((), t) \<and> cpu_lookup t = Some 0 \<and> desc_base (tss_entry (gdts t 0)) = 0xFFFF800000106040"
proof -
  have "0 < length (cpus (demo_int 0))" by (simp add: demo_int_def)
  from cpu_bsp_init_tables [OF this] show ?thesis by (auto simp: demo_int_def)
qed

theorem timer_preempts_witness:
  "handle_interrupt (\<lambda>_ _. panic ''switched'') 0 (demo_int 32) = Panic ''switched''"
proof -
  have n: "tf_trap_no (mem (demo_int 32)) 0 = ucast IDT_ENTRY_IRQ_TIMER"
    by (simp add: tf_trap_no_def demo_int_def IDT_ENTRY_IRQ_TIMER_def IDT_ENTRY_IRQ_0_def)
  have rd: "cpu_ready 4 0 (demo_int 32)"
    by (simp add: cpu_ready_def demo_int_def demo_cpu_def cpu_lookup_def lapic_id_def if_set_def)
  have f: "int_disable_layer (cpus (demo_int 32) ! 0) = 0" "\<not> if_set (rflags (demo_int 32))" "lapic (demo_int 32) \<noteq> NULL"
    "lock_free Sched_lock (demo_int 32)" "cpu_proc (cpus (demo_int 32) ! 0) = 0x4000" "(0x4000 :: ptr) \<noteq> NULL"
    "p_state (procs (demo_int 32) 0x4000) = RUNNING"
    by (simp_all add: demo_int_def demo_cpu_def if_set_def lock_free_def P2KV_def KERNBASE_def)
  from timer_preempts [OF n rd f, of "\<lambda>_ _. panic ''switched''"] show ?thesis by (auto simp: bindk_def panic_def)
qed

end
