(* ===== verification/Kshell.thy ===== *)
theory Kshell
  imports Interrupts
begin

text \<open>
  The kernel shell \<^verbatim>\<open>kernel/src/kshell.c\<close>: reading a line from the console with echo and backspace, splitting it
  into words in place, the built-in command and the command loop. The two local arrays of \<^verbatim>\<open>kshell_main\<close> and the
  name of the built-in are objects at the addresses that the state gives. The positions in a line are \<^verbatim>\<open>int\<close>s in
  the source; the model counts them as \<open>nat\<close>, which is the same for lines below 2 GB.
\<close>

section \<open>Definitions\<close>

definition CMD_MAX_LEN :: nat where "CMD_MAX_LEN = 1024"
definition CMD_MAX_PARTS :: nat where "CMD_MAX_PARTS = 32"

record ksh_sys = int_sys +
  ksh_buffer :: ptr
  ksh_parts :: ptr
  echo_name :: ptr

text \<open>The endless loop of \<^verbatim>\<open>ksh_read_line\<close>.\<close>

partial_function (option) read_line_loop ::
  "'z con_sys_scheme ctxsw \<Rightarrow> ptr \<Rightarrow> u64 \<Rightarrow> 'z con_sys_scheme \<Rightarrow> (unit \<times> 'z con_sys_scheme) outcome option" where
  "read_line_loop ctxsw buf input_len s =
     (case console_getc ctxsw s of
        Ret (c, t) \<Rightarrow>
          if c <s 0 then Some (Panic ''getc'')
          else if c = BACKSPACE \<and> input_len > 0 then
            (case putchar BACKSPACE t of
               Ret (x, u) \<Rightarrow> read_line_loop ctxsw buf (input_len - 1) u
             | Panic e \<Rightarrow> Some (Panic e) | Hang \<Rightarrow> Some Hang | Undef e \<Rightarrow> Some (Undef e))
          else if c = 13 \<or> c = 10 then
            (case putchar 10 t of
               Ret (x, u) \<Rightarrow> Some (Ret ((), u\<lparr>mem := (mem u)(buf + input_len := 0)\<rparr>))
             | Panic e \<Rightarrow> Some (Panic e) | Hang \<Rightarrow> Some Hang | Undef e \<Rightarrow> Some (Undef e))
          else if input_len < of_nat CMD_MAX_LEN \<and> 0 <s c \<and> c <s 0xFF then
            (case putchar c (t\<lparr>mem := (mem t)(buf + input_len := ucast c)\<rparr>) of
               Ret (x, u) \<Rightarrow> read_line_loop ctxsw buf (input_len + 1) u
             | Panic e \<Rightarrow> Some (Panic e) | Hang \<Rightarrow> Some Hang | Undef e \<Rightarrow> Some (Undef e))
          else read_line_loop ctxsw buf input_len t
      | Panic e \<Rightarrow> Some (Panic e) | Hang \<Rightarrow> Some Hang | Undef e \<Rightarrow> Some (Undef e))"

definition ksh_read_line :: "'z con_sys_scheme ctxsw \<Rightarrow> ptr \<Rightarrow> 'z con_sys_scheme \<Rightarrow> (unit \<times> 'z con_sys_scheme) outcome" where
  "ksh_read_line ctxsw buf s = (case read_line_loop ctxsw buf 0 s of None \<Rightarrow> Hang | Some r \<Rightarrow> r)"

partial_function (option) word_end :: "ptr \<Rightarrow> nat \<Rightarrow> memory \<Rightarrow> nat option" where
  "word_end line pos m = (if m (line + of_nat pos) \<noteq> 32 \<and> m (line + of_nat pos) \<noteq> 0 then word_end line (pos + 1) m else Some pos)"

partial_function (option) blank_out :: "ptr \<Rightarrow> nat \<Rightarrow> memory \<Rightarrow> (nat \<times> memory) option" where
  "blank_out line pos m = (if m (line + of_nat pos) = 32 \<and> m (line + of_nat pos) \<noteq> 0
     then blank_out line (pos + 1) (m(line + of_nat pos := 0)) else Some (pos, m))"

partial_function (option) split_loop :: "ptr \<Rightarrow> ptr \<Rightarrow> nat \<Rightarrow> nat \<Rightarrow> memory \<Rightarrow> (nat \<times> memory) option" where
  "split_loop line tokens token_position line_position m =
     (if m (line + of_nat line_position) \<noteq> 0 \<and> line_position < CMD_MAX_LEN \<and> token_position < CMD_MAX_LEN then
        let m1 = st64 m (tokens + 8 * of_nat token_position) (line + of_nat line_position) in
        case word_end line line_position m1 of
          None \<Rightarrow> None
        | Some e \<Rightarrow>
            (case blank_out line e m1 of
               None \<Rightarrow> None
             | Some (e2, m2) \<Rightarrow> split_loop line tokens (token_position + 1) e2 m2)
      else Some (token_position, m))"

definition ksh_split_line :: "ptr \<Rightarrow> ptr \<Rightarrow> memory \<Rightarrow> (nat \<times> memory) option" where
  "ksh_split_line line tokens m =
     (if line = NULL \<or> tokens = NULL then Some (0, m)
      else case split_loop line tokens 0 0 m of
        None \<Rightarrow> None
      | Some (n, m1) \<Rightarrow> Some (n, st64 m1 (tokens + 8 * of_nat n) NULL))"

text \<open>\<^verbatim>\<open>%s\<close> with a string in memory; a string without end is read for ever.\<close>

definition kprintf_str :: "u8 list \<Rightarrow> ptr \<Rightarrow> 'z int_sys_scheme \<Rightarrow> (unit \<times> 'z int_sys_scheme) outcome" where
  "kprintf_str fmt p s = (case strlen p (mem s) of None \<Rightarrow> Hang | Some n \<Rightarrow> kprintf fmt [VStr p (ld_bytes (mem s) p n)] s)"

primrec echo_loop :: "nat \<Rightarrow> nat \<Rightarrow> ptr \<Rightarrow> 'z int_sys_scheme \<Rightarrow> (unit \<times> 'z int_sys_scheme) outcome" where
  "echo_loop 0 i argv = retk ()"
| "echo_loop (Suc n) i argv =
     bindk (\<lambda>s. kprintf_str (text_bytes ''%s '') (ld64 (mem s) (argv + 8 * of_nat i)) s) (\<lambda>_. echo_loop n (Suc i) argv)"

definition echo :: "nat \<Rightarrow> ptr \<Rightarrow> 'z int_sys_scheme \<Rightarrow> (int \<times> 'z int_sys_scheme) outcome" where
  "echo argc argv = bindk (echo_loop (argc - 1) 1 argv) (\<lambda>_. bindk (kprintf [10] []) (\<lambda>_. retk 0))"

text \<open>The table of built-in commands: their names in memory and their functions.\<close>

definition built_ins :: "'z ksh_sys_scheme \<Rightarrow> (ptr \<times> (nat \<Rightarrow> ptr \<Rightarrow> 'z ksh_sys_scheme \<Rightarrow> (int \<times> 'z ksh_sys_scheme) outcome)) list" where
  "built_ins s = [(echo_name s, echo)]"

primrec find_builtin :: "(ptr \<times> 'f) list \<Rightarrow> ptr \<Rightarrow> memory \<Rightarrow> 'f option option" where
  "find_builtin [] cmd m = Some None"
| "find_builtin (b # bs) cmd m = (case strcmp (fst b) cmd m of
      None \<Rightarrow> None
    | Some r \<Rightarrow> if r = 0 then Some (Some (snd b)) else find_builtin bs cmd m)"

text \<open>One turn of the loop of \<^verbatim>\<open>kshell_main\<close>; the loop never ends, \<open>n\<close> is the number of turns that are observed.\<close>

definition kshell_turn :: "'z ksh_sys_scheme ctxsw \<Rightarrow> 'z ksh_sys_scheme \<Rightarrow> (unit \<times> 'z ksh_sys_scheme) outcome" where
  "kshell_turn ctxsw =
     bindk (kprintf (text_bytes ''$> '') []) (\<lambda>_.
     bindk (\<lambda>s. ksh_read_line ctxsw (ksh_buffer s) s) (\<lambda>_.
     bindk (\<lambda>s. case ksh_split_line (ksh_buffer s) (ksh_parts s) (mem s) of
                  None \<Rightarrow> Hang | Some (argc, m) \<Rightarrow> Ret (argc, s\<lparr>mem := m\<rparr>)) (\<lambda>argc.
       if argc = 0 then kprintf [10] []
       else (\<lambda>s. let cmd = ld64 (mem s) (ksh_parts s) in
         case find_builtin (built_ins s) cmd (mem s) of
           None \<Rightarrow> Hang
         | Some (Some fn) \<Rightarrow> bindk (fn argc (ksh_parts s)) (\<lambda>_. retk ()) s
         | Some None \<Rightarrow> kprintf_str (text_bytes ''Command not found: %s'' @ [10]) cmd s))))"

primrec kshell_main :: "nat \<Rightarrow> 'z ksh_sys_scheme ctxsw \<Rightarrow> 'z ksh_sys_scheme \<Rightarrow> (unit \<times> 'z ksh_sys_scheme) outcome" where
  "kshell_main 0 ctxsw = retk ()"
| "kshell_main (Suc n) ctxsw = bindk (kshell_turn ctxsw) (\<lambda>_. kshell_main n ctxsw)"

section \<open>Splitting a line\<close>

text \<open>
  The reference: words are separated by runs of blanks; a blank at the start of the line gives an empty first word.
  \<open>starts i w\<close> are the positions of the words of \<open>w\<close> when \<open>w\<close> starts at position \<open>i\<close>.
\<close>

definition blanks :: "u8 list \<Rightarrow> u8 list" where
  "blanks w = takeWhile (\<lambda>c. c = 32) (dropWhile (\<lambda>c. c \<noteq> 32) w)"

definition rest :: "u8 list \<Rightarrow> u8 list" where
  "rest w = dropWhile (\<lambda>c. c = 32) (dropWhile (\<lambda>c. c \<noteq> 32) w)"

lemma line_parts: "takeWhile (\<lambda>c. c \<noteq> 32) w @ blanks w @ rest w = w"
  by (simp add: blanks_def rest_def)

lemma rest_shorter: "w \<noteq> [] \<Longrightarrow> length (rest w) < length w"
proof -
  assume "w \<noteq> []"
  then obtain c v where w: "w = c # v" by (cases w) auto
  have "length (rest v) \<le> length v" unfolding rest_def using length_dropWhile_le le_trans by blast
  moreover have "length (dropWhile (\<lambda>c. c = 32) v) \<le> length v" by (rule length_dropWhile_le)
  ultimately show ?thesis using w by (auto simp: rest_def less_Suc_eq_le)
qed

function ksh_words :: "u8 list \<Rightarrow> u8 list list" where
  "ksh_words w = (if w = [] then [] else takeWhile (\<lambda>c. c \<noteq> 32) w # ksh_words (rest w))"
  by auto
termination by (relation "measure length") (auto simp: rest_shorter)

function starts :: "nat \<Rightarrow> u8 list \<Rightarrow> nat list" where
  "starts i w = (if w = [] then [] else i # starts (i + length (takeWhile (\<lambda>c. c \<noteq> 32) w) + length (blanks w)) (rest w))"
  by auto
termination by (relation "measure (length o snd)") (auto simp: rest_shorter)

declare ksh_words.simps [simp del] starts.simps [simp del]

lemma ksh_words_length: "length (starts i w) = length (ksh_words w)" "length (ksh_words w) \<le> length w"
proof (induction w arbitrary: i rule: ksh_words.induct)
  case (1 w)
  { case 1 then show ?case using "1.IH"(1) by (subst starts.simps, subst ksh_words.simps) simp }
  { case 2 then show ?case using "1.IH"(2) rest_shorter [of w] by (subst ksh_words.simps) auto }
qed

lemma starts_inside:
  "k < length (ksh_words w) \<Longrightarrow> starts i w ! k + length (ksh_words w ! k) \<le> i + length w"
proof (induction w arbitrary: i k rule: ksh_words.induct)
  case (1 w)
  have ne: "w \<noteq> []" using "1.prems" by (auto simp: ksh_words.simps)
  let ?u = "takeWhile (\<lambda>c. c \<noteq> 32) w"
  have W: "ksh_words w = ?u # ksh_words (rest w)" "starts i w = i # starts (i + length ?u + length (blanks w)) (rest w)"
    using ne by (subst ksh_words.simps, simp) (subst starts.simps, simp add: ne)
  have l: "length ?u + length (blanks w) + length (rest w) = length w" using arg_cong [OF line_parts [of w], of length] by simp
  show ?case
  proof (cases k)
    case 0
    then show ?thesis using l by (simp add: W)
  next
    case (Suc j)
    then show ?thesis using "1.IH" [OF ne, of j "i + length ?u + length (blanks w)"] "1.prems" l by (simp add: W)
  qed
qed

lemma word_end_eq:
  "cstr m (line + of_nat pos) w \<Longrightarrow> word_end line pos m = Some (pos + length (takeWhile (\<lambda>c. c \<noteq> 32) w))"
proof (induction w arbitrary: pos)
  case Nil
  then show ?case by (subst word_end.simps) simp
next
  case (Cons c w)
  have "cstr m (line + of_nat (pos + 1)) w" using Cons.prems by (simp add: algebra_simps)
  then show ?case using Cons.IH [of "pos + 1"] Cons.prems by (subst word_end.simps) simp
qed

lemma blank_out_eq:
  "cstr m (line + of_nat pos) w \<Longrightarrow> length w < 2 ^ 64 \<Longrightarrow>
   blank_out line pos m = Some (pos + length (takeWhile (\<lambda>c. c = 32) w),
     \<lambda>x. if x \<in> region (line + of_nat pos) (length (takeWhile (\<lambda>c. c = 32) w)) then 0 else m x)"
proof (induction w arbitrary: pos m)
  case Nil
  then show ?case by (subst blank_out.simps) (simp add: region_def)
next
  case (Cons c w)
  show ?case
  proof (cases "c = 32")
    case True
    let ?m = "m(line + of_nat pos := 0)" and ?k = "length (takeWhile (\<lambda>c. c = 32) w)"
    have k: "?k < 2 ^ 64" using length_takeWhile_le [of "\<lambda>c. c = 32" w] Cons.prems(2) by simp
    have p1: "line + of_nat pos + 1 = line + of_nat (pos + 1)" by (simp add: algebra_simps)
    have "line + of_nat pos \<in> region (line + of_nat pos) 1" by (simp add: region_def)
    moreover have "region (line + of_nat pos) 1 \<inter> region (line + of_nat pos + of_nat 1) (Suc (length w)) = {}"
      by (rule region_adjacent) (use Cons.prems(2) in simp)
    ultimately have "line + of_nat pos \<notin> region (line + of_nat pos + of_nat 1) (Suc (length w))" by blast
    then have "line + of_nat pos \<notin> region (line + of_nat pos + 1) (Suc (length w))" by simp
    then have "cstr ?m (line + of_nat (pos + 1)) w"
      using Cons.prems p1 cstr_upd [of "line + of_nat pos" "line + of_nat (pos + 1)" w m 0] by simp
    moreover have "length w < 2 ^ 64" using Cons.prems(2) by simp
    ultimately have "blank_out line (pos + 1) ?m = Some (pos + 1 + ?k,
        \<lambda>x. if x \<in> region (line + of_nat (pos + 1)) ?k then 0 else ?m x)" by (rule Cons.IH)
    moreover have "(\<lambda>x. if x \<in> region (line + of_nat (pos + 1)) ?k then 0 else ?m x)
        = (\<lambda>x. if x \<in> region (line + of_nat pos) (Suc ?k) then 0 else m x)"
      using in_region_Suc [OF k, of _ "line + of_nat pos"] p1 by auto
    ultimately show ?thesis using True Cons.prems by (subst blank_out.simps) simp
  next
    case False
    then show ?thesis using Cons.prems by (subst blank_out.simps) (simp add: region_def)
  qed
qed

lemma rest_blanks: "blanks w = [] \<Longrightarrow> rest w = []"
proof -
  assume b: "blanks w = []"
  have hd: "dropWhile (\<lambda>c. c \<noteq> 32) w \<noteq> [] \<Longrightarrow> hd (dropWhile (\<lambda>c. c \<noteq> 32) w) = 32"
    using hd_dropWhile [of "\<lambda>c. c \<noteq> 32" w] by blast
  have "dropWhile (\<lambda>c. c \<noteq> 32) w = []" using b hd by (cases "dropWhile (\<lambda>c. c \<noteq> 32) w") (simp_all add: blanks_def)
  then show "rest w = []" unfolding rest_def by (simp only: dropWhile.simps)
qed

text \<open>One round of the loop on the memory \<open>m1\<close> after the token has been stored.\<close>

lemma split_step:
  assumes c: "cstr m1 (line + of_nat lp) w" and len: "length w < 2 ^ 63"
  defines "u \<equiv> takeWhile (\<lambda>c. c \<noteq> 32) w"
  shows "\<exists>m2. word_end line lp m1 = Some (lp + length u) \<and> blank_out line (lp + length u) m1 = Some (lp + length u + length (blanks w), m2)
     \<and> cstr m2 (line + of_nat lp) u \<and> cstr m2 (line + of_nat (lp + length u + length (blanks w))) (rest w)
     \<and> eq_on (- region (line + of_nat (lp + length u)) (length (blanks w))) m1 m2"
proof -
  let ?b = "blanks w" and ?r = "rest w"
  have w: "w = u @ ?b @ ?r" using line_parts [of w] by (simp add: u_def)
  have l: "length u + length ?b + length ?r = length w"
    using arg_cong [OF w, of length] by simp
  have c1: "cstr m1 (line + of_nat (lp + length u)) (?b @ ?r)"
    using cstr_drop [of m1 "line + of_nat lp" u "?b @ ?r"] c w by (simp add: algebra_simps)
  have c2: "cstr m1 (line + of_nat (lp + length u) + of_nat (length ?b)) ?r" by (rule cstr_drop [OF c1])
  define m2 where "m2 = (\<lambda>x. if x \<in> region (line + of_nat (lp + length u)) (length ?b) then 0 else m1 x)"
  have tb: "takeWhile (\<lambda>c. c = 32) (?b @ ?r) = ?b" by (simp add: blanks_def rest_def)
  have bo: "blank_out line (lp + length u) m1 = Some (lp + length u + length ?b, m2)"
    using blank_out_eq [OF c1] l len unfolding tb m2_def by simp
  have eq: "eq_on (- region (line + of_nat (lp + length u)) (length ?b)) m1 m2" by (simp add: eq_on_def m2_def)
  have cr: "cstr m2 (line + of_nat (lp + length u + length ?b)) ?r"
  proof -
    have "region (line + of_nat (lp + length u)) (length ?b) \<inter> region (line + of_nat (lp + length u) + of_nat (length ?b)) (Suc (length ?r)) = {}"
      by (rule region_adjacent) (use l len in simp)
    then have "eq_on (region (line + of_nat (lp + length u) + of_nat (length ?b)) (Suc (length ?r))) m1 m2"
      by (intro eq_on_mono [OF eq]) blast
    from cstr_cong [OF this] c2 l len show ?thesis by (simp add: algebra_simps)
  qed
  have cu: "cstr m2 (line + of_nat lp) u"
  proof (cases "?b = []")
    case True
    then have "?r = []" by (rule rest_blanks)
    then have "w = u" using w True by simp
    then show ?thesis using c True by (simp add: m2_def region_def)
  next
    case False
    have dj: "region (line + of_nat lp) (length u) \<inter> region (line + of_nat lp + of_nat (length u)) (length ?b) = {}"
      by (rule region_adjacent) (use l len in simp)
    have "m2 (line + of_nat lp + of_nat i) = u ! i \<and> u ! i \<noteq> 0" if i: "i < length u" for i
    proof -
      have "line + of_nat lp + of_nat i \<in> region (line + of_nat lp) (length u)" using i l len by (intro mem_region_add) auto
      then have "m2 (line + of_nat lp + of_nat i) = m1 (line + of_nat lp + of_nat i)"
        using dj by (auto simp: m2_def algebra_simps)
      moreover have "i < length w" using i l by simp
      then have "m1 (line + of_nat lp + of_nat i) = w ! i \<and> w ! i \<noteq> 0" using c unfolding cstr_nth by blast
      moreover have "w ! i = u ! i" using i by (subst w) (simp add: nth_append)
      ultimately show ?thesis by simp
    qed
    moreover have "line + of_nat (lp + length u) \<in> region (line + of_nat (lp + length u)) (length ?b)"
      using False by (simp add: region_def)
    then have "m2 (line + of_nat lp + of_nat (length u)) = 0" by (simp add: m2_def algebra_simps)
    ultimately show ?thesis unfolding cstr_nth by blast
  qed
  show ?thesis using word_end_eq [OF c] bo cu cr eq by (auto simp: u_def)
qed

lemma region_tail: "i + n \<le> 2 ^ 64 \<Longrightarrow> region (a + of_nat i) n \<subseteq> region a (i + n)"
  using region_split [of i n _ a] by blast

text \<open>The line and the token array are separate objects below the end of the address space.\<close>

definition ksh_arrays :: "ptr \<Rightarrow> ptr \<Rightarrow> bool" where
  "ksh_arrays line tokens \<longleftrightarrow> unat line + Suc CMD_MAX_LEN \<le> 2 ^ 64 \<and> unat tokens + 8 * Suc CMD_MAX_LEN \<le> 2 ^ 64
     \<and> region line (Suc CMD_MAX_LEN) \<inter> region tokens (8 * Suc CMD_MAX_LEN) = {}"

lemma ksh_regions:
  assumes "ksh_arrays line tokens"
  shows "j + n \<le> Suc CMD_MAX_LEN \<Longrightarrow> region (line + of_nat j) n \<subseteq> region line (Suc CMD_MAX_LEN)"
    and "k + i \<le> Suc CMD_MAX_LEN \<Longrightarrow> region (tokens + 8 * of_nat k) (8 * i) \<subseteq> region tokens (8 * Suc CMD_MAX_LEN)"
proof -
  show "region (line + of_nat j) n \<subseteq> region line (Suc CMD_MAX_LEN)" if le: "j + n \<le> Suc CMD_MAX_LEN"
  proof (cases "n = 0")
    case False
    then have "unat (line + of_nat j) = unat line + j" using assms le by (intro unat_add_of_nat) (auto simp: ksh_arrays_def)
    then show ?thesis using assms le by (intro region_subset_nat) (simp_all add: ksh_arrays_def)
  qed (simp add: region_def)
  show "region (tokens + 8 * of_nat k) (8 * i) \<subseteq> region tokens (8 * Suc CMD_MAX_LEN)" if le: "k + i \<le> Suc CMD_MAX_LEN"
  proof (cases "i = 0")
    case False
    have "unat (tokens + of_nat (8 * k)) = unat tokens + 8 * k" using assms le False by (intro unat_add_of_nat) (auto simp: ksh_arrays_def)
    then show ?thesis using assms le by (intro region_subset_nat) (simp_all add: ksh_arrays_def)
  qed (simp add: region_def)
qed

lemma line_regions:
  assumes l: "j + k + n = L" and b: "L < 2 ^ 63"
  shows "region (line + of_nat (lp + j)) k \<subseteq> region (line + of_nat lp) L"
    and "region (line + of_nat (lp + j + k)) n \<subseteq> region (line + of_nat lp) L"
    and "(k = 0 \<Longrightarrow> n = 0) \<Longrightarrow> region (line + of_nat lp) (Suc j) \<inter> region (line + of_nat (lp + j + k)) n = {}"
proof -
  have e: "line + of_nat (lp + j) = line + of_nat lp + of_nat j" "line + of_nat (lp + j + k) = line + of_nat lp + of_nat (j + k)"
    by (simp_all add: algebra_simps)
  have bb: "j + k \<le> 2 ^ 64" "j + k + n \<le> 2 ^ 64" using l b by simp_all
  show "region (line + of_nat (lp + j)) k \<subseteq> region (line + of_nat lp) L"
    unfolding e by (rule subset_trans [OF region_tail [OF bb(1)] region_mono]) (use l in simp)
  show "region (line + of_nat (lp + j + k)) n \<subseteq> region (line + of_nat lp) L"
    unfolding e using region_tail [OF bb(2)] l by simp
  show "region (line + of_nat lp) (Suc j) \<inter> region (line + of_nat (lp + j + k)) n = {}" if k: "k = 0 \<Longrightarrow> n = 0"
  proof (cases "n = 0")
    case False
    then have "region (line + of_nat lp) (Suc j) \<subseteq> region (line + of_nat lp) (j + k)" using k by (intro region_mono) (cases k, auto)
    then show ?thesis unfolding e using region_adjacent [OF bb(2)] by blast
  qed (simp add: region_def)
qed

lemma token_regions:
  assumes "n < 2 ^ 60"
  shows "region (tokens + 8 * of_nat tp) 8 \<subseteq> region (tokens + 8 * of_nat tp) (8 * Suc n)"
    and "region (tokens + 8 * of_nat (tp + 1)) (8 * n) \<subseteq> region (tokens + 8 * of_nat tp) (8 * Suc n)"
    and "region (tokens + 8 * of_nat tp) 8 \<inter> region (tokens + 8 * of_nat (tp + 1)) (8 * n) = {}"
proof -
  have e: "tokens + 8 * of_nat (tp + 1) = tokens + 8 * of_nat tp + of_nat 8" by (simp add: algebra_simps)
  have b: "8 + 8 * n \<le> 2 ^ 64" and s: "8 * Suc n = 8 + 8 * n" using assms by simp_all
  show "region (tokens + 8 * of_nat tp) 8 \<subseteq> region (tokens + 8 * of_nat tp) (8 * Suc n)" by (rule region_mono) simp
  show "region (tokens + 8 * of_nat (tp + 1)) (8 * n) \<subseteq> region (tokens + 8 * of_nat tp) (8 * Suc n)"
    unfolding e s by (rule region_tail [OF b])
  show "region (tokens + 8 * of_nat tp) 8 \<inter> region (tokens + 8 * of_nat (tp + 1)) (8 * n) = {}"
    unfolding e by (rule region_adjacent [OF b])
qed

lemma split_loop_ok:
  assumes ar: "ksh_arrays line tokens"
  shows "cstr m (line + of_nat lp) w \<Longrightarrow> lp + length w \<le> CMD_MAX_LEN \<Longrightarrow> tp + length w \<le> CMD_MAX_LEN \<Longrightarrow>
    \<exists>m'. split_loop line tokens tp lp m = Some (tp + length (ksh_words w), m')
      \<and> (\<forall>i < length (ksh_words w). ld64 m' (tokens + 8 * of_nat (tp + i)) = line + of_nat (starts lp w ! i)
           \<and> cstr m' (line + of_nat (starts lp w ! i)) (ksh_words w ! i))
      \<and> eq_on (- (region (line + of_nat lp) (length w) \<union> region (tokens + 8 * of_nat tp) (8 * length (ksh_words w)))) m m'"
proof (induction w arbitrary: m lp tp rule: ksh_words.induct)
  case (1 w)
  show ?case
  proof (cases "w = []")
    case True
    then show ?thesis using "1.prems" by (subst split_loop.simps, subst ksh_words.simps) (simp add: eq_on_def ksh_words.simps)
  next
    case False
    let ?u = "takeWhile (\<lambda>c. c \<noteq> 32) w" and ?b = "blanks w" and ?r = "rest w"
    let ?e = "lp + length ?u + length ?b" and ?n = "length (ksh_words (rest w))"
    have l: "length ?u + length ?b + length ?r = length w" using arg_cong [OF line_parts [of w], of length] by simp
    have big: "CMD_MAX_LEN < 2 ^ 62" by (simp add: CMD_MAX_LEN_def)
    have nw: "?n \<le> length ?r" by (rule ksh_words_length(2))
    have sh: "length ?r < length w" by (rule rest_shorter [OF False])
    define m1 where "m1 = st64 m (tokens + 8 * of_nat tp) (line + of_nat lp)"
    have T: "region (tokens + 8 * of_nat tp) (8 * Suc ?n) \<subseteq> region tokens (8 * Suc CMD_MAX_LEN)"
      "region (tokens + 8 * of_nat tp) 8 \<subseteq> region tokens (8 * Suc CMD_MAX_LEN)"
      using ksh_regions(2) [OF ar, of tp "Suc ?n"] ksh_regions(2) [OF ar, of tp 1] "1.prems"(3) nw sh by simp_all
    have L: "region (line + of_nat lp) (Suc (length w)) \<subseteq> region line (Suc CMD_MAX_LEN)"
      using ksh_regions(1) [OF ar, of lp "Suc (length w)"] "1.prems"(2) by simp
    have dj: "region line (Suc CMD_MAX_LEN) \<inter> region tokens (8 * Suc CMD_MAX_LEN) = {}" using ar by (simp add: ksh_arrays_def)
    have "eq_on (region (line + of_nat lp) (Suc (length w))) m m1"
      unfolding m1_def by (rule eq_on_st64) (use L T dj in blast)
    then have c1: "cstr m1 (line + of_nat lp) w" using cstr_cong [of "line + of_nat lp" w m m1] "1.prems" big by simp
    have "length w < 2 ^ 63" using "1.prems"(2) big by simp
    from split_step [OF c1 this] obtain m2 where m2: "word_end line lp m1 = Some (lp + length ?u)"
        "blank_out line (lp + length ?u) m1 = Some (?e, m2)" "cstr m2 (line + of_nat lp) ?u" "cstr m2 (line + of_nat ?e) ?r"
        "eq_on (- region (line + of_nat (lp + length ?u)) (length ?b)) m1 m2" by blast
    have pr: "?e + length ?r \<le> CMD_MAX_LEN" "tp + 1 + length ?r \<le> CMD_MAX_LEN" using "1.prems"(2,3) l sh by simp_all
    from "1.IH" [OF False m2(4) pr] obtain m3 where m3: "split_loop line tokens (tp + 1) ?e m2 = Some (tp + 1 + ?n, m3)"
        "\<And>i. i < ?n \<Longrightarrow> ld64 m3 (tokens + 8 * of_nat (tp + 1 + i)) = line + of_nat (starts ?e ?r ! i)
           \<and> cstr m3 (line + of_nat (starts ?e ?r ! i)) (ksh_words ?r ! i)"
        "eq_on (- (region (line + of_nat ?e) (length ?r) \<union> region (tokens + 8 * of_nat (tp + 1)) (8 * ?n))) m2 m3" by blast
    have run: "split_loop line tokens tp lp m = Some (tp + Suc ?n, m3)"
      using "1.prems" False m2(1,2) m3(1) by (subst split_loop.simps) (cases w; simp add: Let_def flip: m1_def)
    have wl: "length w < 2 ^ 63" using "1.prems"(2) big by simp
    note R1 = line_regions(1,2) [OF l wl, of line lp] and R3 = line_regions(3) [OF l wl, of line lp]
    have "?n < 2 ^ 60" using nw sh "1.prems"(2) by (simp add: CMD_MAX_LEN_def)
    note R2 = token_regions [OF this, of tokens tp]
    have Lw: "region (line + of_nat lp) (length w) \<subseteq> region line (Suc CMD_MAX_LEN)"
      using L region_mono [of "length w" "Suc (length w)" "line + of_nat lp"] by simp
    have Lu: "region (line + of_nat lp) (Suc (length ?u)) \<subseteq> region line (Suc CMD_MAX_LEN)"
      using L region_mono [of "Suc (length ?u)" "Suc (length w)" "line + of_nat lp"] l by simp
    have rest_blanks': "length ?b = 0 \<Longrightarrow> length ?r = 0" using rest_blanks [of w] by simp
    have e3: "eq_on (region (line + of_nat lp) (Suc (length ?u))) m2 m3"
      by (rule eq_on_mono [OF m3(3)]) (use R3 [OF rest_blanks'] Lu T(1) R2(2) dj in blast)
    have cu: "cstr m3 (line + of_nat lp) ?u" using cstr_cong [OF e3] m2(3) l \<open>length w < 2 ^ 63\<close> by simp
    have e1: "eq_on (region (tokens + 8 * of_nat tp) 8) m1 m2" by (rule eq_on_mono [OF m2(5)]) (use R1(1) Lw T(2) dj in blast)
    have e2: "eq_on (region (tokens + 8 * of_nat tp) 8) m2 m3"
      by (rule eq_on_mono [OF m3(3)]) (use R1(2) Lw T(2) R2(3) dj in blast)
    have t0: "ld64 m3 (tokens + 8 * of_nat tp) = line + of_nat lp"
      using ld64_cong [OF eq_on_trans [OF e1 e2]] by (simp add: m1_def)
    have W: "ksh_words w = ?u # ksh_words ?r" "starts lp w = lp # starts ?e ?r"
      using False by (subst ksh_words.simps, simp) (subst starts.simps, simp add: False)
    have items: "ld64 m3 (tokens + 8 * of_nat (tp + i)) = line + of_nat (starts lp w ! i)
        \<and> cstr m3 (line + of_nat (starts lp w ! i)) (ksh_words w ! i)" if "i < length (ksh_words w)" for i
    proof (cases i)
      case 0
      then show ?thesis using t0 cu by (simp add: W)
    next
      case (Suc k)
      then show ?thesis using m3(2) [of k] that by (simp add: W)
    qed
    let ?S = "- (region (line + of_nat lp) (length w) \<union> region (tokens + 8 * of_nat tp) (8 * Suc ?n))"
    have f1: "eq_on ?S m m1" unfolding m1_def by (rule eq_on_st64) (use R2(1) in blast)
    have f2: "eq_on ?S m1 m2" by (rule eq_on_mono [OF m2(5)]) (use R1(1) in blast)
    have f3: "eq_on ?S m2 m3" by (rule eq_on_mono [OF m3(3)]) (use R1(2) R2(2) in blast)
    have "eq_on ?S m m3" by (rule eq_on_trans [OF eq_on_trans [OF f1 f2] f3])
    then show ?thesis using run items by (intro exI [of _ m3]) (simp add: W)
  qed
qed

text \<open>C38: \<^verbatim>\<open>ksh_split_line\<close> returns and splits a line of at most \<^verbatim>\<open>CMD_MAX_LEN\<close> characters in place: it returns the number
  of words, the token array points to the words in order, each now a terminated string, followed by NULL; apart
  from the blanks of the line and the \<open>n + 1\<close> used entries of the array nothing changes. The number of entries is
  not bounded by the array size \<^verbatim>\<open>CMD_MAX_PARTS\<close>.\<close>

theorem ksh_split_line_words:
  assumes ar: "ksh_arrays line tokens" and nn: "line \<noteq> NULL" "tokens \<noteq> NULL" and c: "cstr m line w" and len: "length w \<le> CMD_MAX_LEN"
  shows "\<exists>m'. ksh_split_line line tokens m = Some (length (ksh_words w), m')
     \<and> (\<forall>i < length (ksh_words w). ld64 m' (tokens + 8 * of_nat i) = line + of_nat (starts 0 w ! i)
          \<and> cstr m' (line + of_nat (starts 0 w ! i)) (ksh_words w ! i))
     \<and> ld64 m' (tokens + 8 * of_nat (length (ksh_words w))) = NULL
     \<and> eq_on (- (region line (length w) \<union> region tokens (8 * Suc (length (ksh_words w))))) m m'"
proof -
  let ?n = "length (ksh_words w)"
  have nw: "?n \<le> length w" by (rule ksh_words_length(2))
  have "cstr m (line + of_nat 0) w" using c by simp
  from split_loop_ok [OF ar this, of 0] len obtain m1 where m1: "split_loop line tokens 0 0 m = Some (?n, m1)"
      "\<And>i. i < ?n \<Longrightarrow> ld64 m1 (tokens + 8 * of_nat i) = line + of_nat (starts 0 w ! i) \<and> cstr m1 (line + of_nat (starts 0 w ! i)) (ksh_words w ! i)"
      "eq_on (- (region line (length w) \<union> region tokens (8 * ?n))) m m1" by auto
  let ?z = "tokens + 8 * of_nat ?n" let ?m = "st64 m1 ?z NULL"
  have run: "ksh_split_line line tokens m = Some (?n, ?m)" using nn m1(1) by (simp add: ksh_split_line_def)
  have dj: "region line (Suc CMD_MAX_LEN) \<inter> region tokens (8 * Suc CMD_MAX_LEN) = {}" using ar by (simp add: ksh_arrays_def)
  have T: "region ?z 8 \<subseteq> region tokens (8 * Suc CMD_MAX_LEN)" using ksh_regions(2) [OF ar, of ?n 1] nw len by simp
  have e: "eq_on (- region ?z 8) m1 ?m" by (rule eq_on_st64) blast
  have tok: "ld64 ?m (tokens + 8 * of_nat i) = ld64 m1 (tokens + 8 * of_nat i)" if i: "i < ?n" for i
  proof (rule ld64_st64_other)
    have "unat (tokens + of_nat (8 * i)) = unat tokens + 8 * i" "unat (tokens + of_nat (8 * ?n)) = unat tokens + 8 * ?n"
      using ar i nw len by (intro unat_add_of_nat; simp add: ksh_arrays_def)+
    then show "region (tokens + 8 * of_nat i) 8 \<inter> region ?z 8 = {}"
      using ar i nw len by (intro region_disjoint_nat) (simp_all add: ksh_arrays_def)
  qed
  have word: "cstr ?m (line + of_nat (starts 0 w ! i)) (ksh_words w ! i)" if i: "i < ?n" for i
  proof -
    have b: "starts 0 w ! i + length (ksh_words w ! i) \<le> length w" by (rule starts_inside [OF i, of 0, simplified])
    then have "region (line + of_nat (starts 0 w ! i)) (Suc (length (ksh_words w ! i))) \<subseteq> region line (Suc CMD_MAX_LEN)"
      by (intro ksh_regions(1) [OF ar]) (use len in simp)
    then have "eq_on (region (line + of_nat (starts 0 w ! i)) (Suc (length (ksh_words w ! i)))) m1 ?m"
      by (intro eq_on_mono [OF e]) (use T dj in blast)
    from cstr_cong [OF this] m1(2) [OF i] b len show ?thesis by (simp add: CMD_MAX_LEN_def)
  qed
  have "region tokens (8 * ?n) \<subseteq> region tokens (8 * Suc ?n)" "region ?z 8 \<subseteq> region tokens (8 * Suc ?n)"
    using region_mono [of "8 * ?n" "8 * Suc ?n" tokens] region_tail [of "8 * ?n" 8 tokens] nw len by (simp_all add: CMD_MAX_LEN_def add.commute)
  then have "eq_on (- (region line (length w) \<union> region tokens (8 * Suc ?n))) m ?m"
    by (intro eq_on_trans [OF eq_on_mono [OF m1(3)] eq_on_mono [OF e]]) blast+
  then show ?thesis using run tok word m1(2) by (intro exI [of _ ?m]) simp
qed

definition demo_line_mem :: memory where
  "demo_line_mem = (\<lambda>_. 0)(0x1000 := 0x6C, 0x1001 := 0x73, 0x1002 := 0x20, 0x1003 := 0x61)"

theorem ksh_split_line_words_witness:
  "\<exists>m. ksh_split_line 0x1000 0x4000 demo_line_mem = Some (2, m) \<and> ld64 m 0x4000 = 0x1000 \<and> ld64 m 0x4008 = 0x1003
     \<and> cstr m 0x1000 [0x6C, 0x73] \<and> cstr m 0x1003 [0x61] \<and> ld64 m 0x4010 = NULL"
proof -
  have ar: "ksh_arrays 0x1000 0x4000"
    using region_disjoint_nat [of "0x1000" "Suc CMD_MAX_LEN" "0x4000" "8 * Suc CMD_MAX_LEN"] by (simp add: ksh_arrays_def CMD_MAX_LEN_def)
  have c: "cstr demo_line_mem 0x1000 [0x6C, 0x73, 0x20, 0x61]" by (simp add: demo_line_mem_def)
  have l: "length [0x6C, 0x73, 0x20, 0x61 :: u8] \<le> CMD_MAX_LEN" by (simp add: CMD_MAX_LEN_def)
  have r: "rest [0x6C, 0x73, 0x20, 0x61] = [0x61]" "rest [0x61] = []" "length (blanks [0x6C, 0x73, 0x20, 0x61]) = 1"
    by (simp_all add: rest_def blanks_def)
  have w: "ksh_words [0x6C, 0x73, 0x20, 0x61] = [[0x6C, 0x73], [0x61]]"
    by (subst ksh_words.simps, simp add: r, subst ksh_words.simps, simp add: r, subst ksh_words.simps, simp)
  have st: "starts 0 [0x6C, 0x73, 0x20, 0x61] = [0, 3]"
    by (subst starts.simps, simp add: r, subst starts.simps, simp add: r, subst starts.simps, simp)
  obtain m where m: "ksh_split_line 0x1000 0x4000 demo_line_mem = Some (2, m)"
      "\<And>i. i < 2 \<Longrightarrow> ld64 m (0x4000 + 8 * of_nat i) = 0x1000 + of_nat ([0, 3] ! i)
         \<and> cstr m (0x1000 + of_nat ([0, 3] ! i)) ([[0x6C, 0x73], [0x61]] ! i)"
      "ld64 m (0x4000 + 8 * of_nat 2) = NULL"
    using ksh_split_line_words [OF ar _ _ c l, unfolded w st] by auto
  show ?thesis using m(1,3) m(2) [of 0] m(2) [of 1] by (intro exI [of _ m]) simp
qed

section \<open>Reading a line\<close>

text \<open>
  The reference line editor: what the keys make of the line typed so far, and the keys left over after the end of
  the line.
\<close>

fun typed :: "u8 list \<Rightarrow> u32 list \<Rightarrow> (u8 list \<times> u32 list) option" where
  "typed acc [] = None"
| "typed acc (k # ks) =
     (if k = BACKSPACE \<and> acc \<noteq> [] then typed (butlast acc) ks
      else if k = 13 \<or> k = 10 then Some (acc, ks)
      else if length acc < CMD_MAX_LEN \<and> 0 < k \<and> k < 0xFF then typed (acc @ [ucast k]) ks
      else typed acc ks)"

lemma con_key_sign: "\<not> con_key b <s 0" "0 <s con_key b \<longleftrightarrow> 0 < con_key b" "con_key b <s 0xFF \<longleftrightarrow> con_key b < 0xFF"
proof -
  have u: "uint b < 256" using unsigned_less [of b, where 'a = int] by simp
  have s: "sint (con_key b) = uint (con_key b)"
  proof (cases "b = 0x7F \<or> b = 0x08")
    case True
    then show ?thesis by (simp add: con_key_def BACKSPACE_def)
  next
    case False
    have e: "uint (ucast b :: u32) = uint b" using u by (simp add: unsigned_ucast_eq take_bit_int_eq_self)
    have "- (2 ^ 31) \<le> uint b" by (rule order_trans [of _ 0]) simp_all
    then have "signed_take_bit 31 (uint b) = uint b" by (rule signed_take_bit_int_eq_self) (use u in simp)
    then show ?thesis using False by (simp add: con_key_def sint_uint e)
  qed
  show "\<not> con_key b <s 0" "0 <s con_key b \<longleftrightarrow> 0 < con_key b" "con_key b <s 0xFF \<longleftrightarrow> con_key b < 0xFF"
    by (simp_all add: word_sless_alt word_less_def s)
qed

text \<open>The console can be read and written without waiting.\<close>

definition console_up :: "nat \<Rightarrow> 'z con_sys_scheme \<Rightarrow> bool" where
  "console_up c s \<longleftrightarrow> cpu_ready 6 c s \<and> lock_free Console_lock s \<and> lock_free Console_read_lock s \<and> fifo_ok (console_fifo s)
     \<and> crt_device (dev_in s) \<and> cursor (io_trace s) < SCREEN_CELLS \<and> uart_ready s"

lemma getc_up:
  fixes s :: "'z con_sys_scheme"
  assumes up: "console_up c s" and cs: "contents (console_fifo s) = b # bs"
  shows "\<exists>t. console_getc ctxsw s = Ret (con_key b, t) \<and> console_up c t \<and> contents (console_fifo t) = bs \<and> mem t = mem s"
proof -
  have u: "cpu_ready 6 c s" "lock_free Console_read_lock s" "fifo_ok (console_fifo s)" using up by (simp_all add: console_up_def)
  obtain t where t: "console_getc ctxsw s = Ret (con_key b, t)" "cpu_ready 6 c t" "fifo_ok (console_fifo t)" "contents (console_fifo t) = bs"
      "t = s\<lparr>cpus := settled c s, console_fifo := console_fifo t\<rparr>"
    using console_getc_ready [OF u cs, of ctxsw] by blast
  have f: "locks t = locks s" "dev_in t = dev_in s" "io_trace t = io_trace s" "uart_enable t = uart_enable s" "con_uart t = con_uart s" "mem t = mem s"
    by (subst t(5), simp)+
  have "console_up c t" using up t(2,3) f by (simp add: console_up_def lock_free_def uart_ready_def)
  then show ?thesis using t f by blast
qed

lemma putchar_up:
  fixes s :: "'z con_sys_scheme"
  assumes up: "console_up c s"
  shows "\<exists>t. putchar ch s = Ret ((), t) \<and> console_up c t \<and> console_fifo t = console_fifo s \<and> eq_on (- frame) (mem s) (mem t)"
proof -
  have u: "cpu_ready 6 c s" "lock_free Console_lock s" "crt_device (dev_in s)" "cursor (io_trace s) < SCREEN_CELLS" "uart_ready s"
    using up by (simp_all add: console_up_def)
  obtain t where t: "putchar ch s = Ret ((), t)" "cursor (io_trace t) < SCREEN_CELLS" "eq_on (- frame) (mem s) (mem t)"
      "t = s\<lparr>io_trace := io_trace t, mem := mem t, cpus := settled c s\<rparr>"
    using putchar_ok [OF u, of ch] by blast
  have f: "locks t = locks s" "dev_in t = dev_in s" "uart_enable t = uart_enable s" "con_uart t = con_uart s" "console_fifo t = console_fifo s"
    "cpus t = settled c s" "rflags t = rflags s" "ncpu t = ncpu s" "lapic_id_reg t = lapic_id_reg s"
    by (subst t(4), simp)+
  have "cpu_ready 6 c t" by (rule cpu_ready_settled [OF u(1) f(6-9)])
  then have "console_up c t" using up t(2) f by (simp add: console_up_def lock_free_def uart_ready_def)
  then show ?thesis using t(1,3) f(5) by blast
qed

lemma console_up_mem [simp]: "console_up c (s\<lparr>mem := m\<rparr>) \<longleftrightarrow> console_up c s"
  by (simp add: console_up_def lock_free_def uart_ready_def cpu_ready_def cpu_lookup_def lapic_id_def)

text \<open>The buffer at \<open>buf\<close> starts with the bytes \<open>w\<close>.\<close>

definition holds :: "memory \<Rightarrow> ptr \<Rightarrow> u8 list \<Rightarrow> bool" where
  "holds m buf w \<longleftrightarrow> (\<forall>i < length w. m (buf + of_nat i) = w ! i)"

lemma holds_eq_on:
  assumes "holds m buf w" and "eq_on (- frame) m m'" and "region buf (Suc CMD_MAX_LEN) \<inter> frame = {}" and "length w \<le> CMD_MAX_LEN"
  shows "holds m' buf w"
proof -
  have "m' (buf + of_nat i) = m (buf + of_nat i)" if "i < length w" for i
  proof -
    have "buf + of_nat i \<in> region buf (Suc CMD_MAX_LEN)" using that assms(4) by (intro mem_region_add) (auto simp: CMD_MAX_LEN_def)
    then have "buf + of_nat i \<in> - frame" using assms(3) by blast
    then show ?thesis using assms(2) by (simp add: eq_on_def)
  qed
  then show ?thesis using assms(1) by (simp add: holds_def)
qed

lemma buf_offsets: "i < j \<Longrightarrow> j \<le> CMD_MAX_LEN \<Longrightarrow> buf + of_nat i \<noteq> buf + (of_nat j :: u64)"
proof -
  assume "i < j" "j \<le> CMD_MAX_LEN"
  then have "unat (of_nat i :: u64) = i" "unat (of_nat j :: u64) = j" by (intro unat_of_nat_lt; simp add: CMD_MAX_LEN_def)+
  then show ?thesis using \<open>i < j\<close> by (metis add_left_cancel less_irrefl)
qed

lemma holds_snoc: "holds m buf w \<Longrightarrow> length w \<le> CMD_MAX_LEN \<Longrightarrow> holds (m(buf + of_nat (length w) := c)) buf (w @ [c])"
  unfolding holds_def using buf_offsets by (auto simp: nth_append less_Suc_eq)

lemma holds_butlast: "holds m buf w \<Longrightarrow> holds m buf (butlast w)"
  by (auto simp: holds_def nth_butlast)

lemma holds_cstr:
  assumes "holds m buf w" and "m (buf + of_nat (length w)) = 0" and "\<forall>c \<in> set w. c \<noteq> 0"
  shows "cstr m buf w"
  using assms by (auto simp: cstr_nth holds_def)

lemma key_byte: "0 < k \<Longrightarrow> k < 0xFF \<Longrightarrow> ucast (k :: u32) \<noteq> (0 :: u8)"
proof -
  assume k: "0 < k" "k < 0xFF"
  then have "unat (ucast k :: u8) = unat k" by (simp add: unsigned_ucast_eq take_bit_nat_eq_self word_less_nat_alt)
  then show "ucast k \<noteq> (0 :: u8)" using k by (auto simp: word_less_nat_alt)
qed

lemma frame_buf:
  assumes "eq_on (- (frame \<union> region buf n)) m1 m2" and "eq_on (- frame) m m1"
  shows "eq_on (- (frame \<union> region buf n)) m m2"
  using assms by (auto simp: eq_on_def)

lemma read_line_loop_ok:
  fixes s :: "'z con_sys_scheme"
  assumes sep: "region buf (Suc CMD_MAX_LEN) \<inter> frame = {}"
  shows "console_up c s \<Longrightarrow> contents (console_fifo s) = bs \<Longrightarrow> typed acc (map con_key bs) = Some (line, ks) \<Longrightarrow>
    holds (mem s) buf acc \<Longrightarrow> length acc \<le> CMD_MAX_LEN \<Longrightarrow> \<forall>x \<in> set acc. x \<noteq> 0 \<Longrightarrow>
    \<exists>t. read_line_loop ctxsw buf (of_nat (length acc)) s = Some (Ret ((), t)) \<and> cstr (mem t) buf line \<and> length line \<le> CMD_MAX_LEN
      \<and> map con_key (contents (console_fifo t)) = ks \<and> console_up c t \<and> eq_on (- (frame \<union> region buf (Suc CMD_MAX_LEN))) (mem s) (mem t)"
proof (induction bs arbitrary: s acc)
  case Nil
  then show ?case by simp
next
  case (Cons b bs)
  let ?n = "of_nat (length acc) :: u64" and ?k = "con_key b"
  have at: "buf + ?n \<in> region buf (Suc CMD_MAX_LEN)" using Cons.prems(5) by (intro mem_region_add) (auto simp: CMD_MAX_LEN_def)
  have un: "unat ?n = length acc" using Cons.prems(5) by (intro unat_of_nat_lt) (simp add: CMD_MAX_LEN_def)
  have pos: "?n > 0 \<longleftrightarrow> acc \<noteq> []" "?n < of_nat CMD_MAX_LEN \<longleftrightarrow> length acc < CMD_MAX_LEN"
    using un by (simp_all add: word_less_nat_alt CMD_MAX_LEN_def)
  obtain t where t: "console_getc ctxsw s = Ret (?k, t)" "console_up c t" "contents (console_fifo t) = bs" "mem t = mem s"
    using getc_up [OF Cons.prems(1,2), of ctxsw] by blast
  note keep = holds_eq_on [OF _ _ sep]
  consider (bs) "?k = BACKSPACE" "acc \<noteq> []" | (nl) "\<not> (?k = BACKSPACE \<and> acc \<noteq> [])" "?k = 13 \<or> ?k = 10"
    | (ch) "\<not> (?k = BACKSPACE \<and> acc \<noteq> [])" "\<not> (?k = 13 \<or> ?k = 10)" "length acc < CMD_MAX_LEN \<and> 0 < ?k \<and> ?k < 0xFF"
    | (no) "\<not> (?k = BACKSPACE \<and> acc \<noteq> [])" "\<not> (?k = 13 \<or> ?k = 10)" "\<not> (length acc < CMD_MAX_LEN \<and> 0 < ?k \<and> ?k < 0xFF)" by blast
  then show ?case
  proof cases
    case bs
    obtain u where u: "putchar BACKSPACE t = Ret ((), u)" "console_up c u" "console_fifo u = console_fifo t" "eq_on (- frame) (mem s) (mem u)"
      using putchar_up [OF t(2), of BACKSPACE] t(4) by auto
    have le: "length (butlast acc) \<le> CMD_MAX_LEN" using Cons.prems(5) by simp
    have n1: "?n - 1 = of_nat (length (butlast acc))" using bs(2) by (cases acc rule: rev_cases) simp_all
    have "read_line_loop ctxsw buf ?n s = read_line_loop ctxsw buf (of_nat (length (butlast acc))) u"
      using t(1) u(1) bs pos(1) n1 con_key_sign(1) [of b] by (subst read_line_loop.simps) simp
    moreover have "typed (butlast acc) (map con_key bs) = Some (line, ks)" using Cons.prems(3) bs by simp
    moreover have "holds (mem u) buf (butlast acc)" by (rule keep [OF holds_butlast [OF Cons.prems(4)] u(4) le])
    moreover have "\<forall>x \<in> set (butlast acc). x \<noteq> 0" using Cons.prems(6) in_set_butlastD by metis
    ultimately show ?thesis using Cons.IH [OF u(2), of "butlast acc"] u(3) t(3) le frame_buf [OF _ u(4)] by auto
  next
    case nl
    obtain u where u: "putchar 10 t = Ret ((), u)" "console_up c u" "console_fifo u = console_fifo t" "eq_on (- frame) (mem s) (mem u)"
      using putchar_up [OF t(2), of 10] t(4) by auto
    let ?u = "u\<lparr>mem := (mem u)(buf + ?n := 0)\<rparr>"
    have run: "read_line_loop ctxsw buf ?n s = Some (Ret ((), ?u))"
      using t(1) u(1) nl pos(1) con_key_sign(1) [of b] by (subst read_line_loop.simps) auto
    have hu: "holds (mem u) buf acc" by (rule keep [OF Cons.prems(4) u(4) Cons.prems(5)])
    have "holds (mem ?u) buf acc" using hu buf_offsets Cons.prems(5) by (simp add: holds_def)
    then have "cstr (mem ?u) buf acc" by (rule holds_cstr) (use Cons.prems(6) in simp_all)
    moreover have "eq_on (- (frame \<union> region buf (Suc CMD_MAX_LEN))) (mem s) (mem ?u)"
      by (rule frame_buf [OF _ u(4)]) (use at in \<open>auto simp: eq_on_def\<close>)
    moreover have "typed acc (?k # map con_key bs) = Some (acc, map con_key bs)" using nl by auto
    then have "line = acc" "ks = map con_key bs" using Cons.prems(3) by simp_all
    ultimately show ?thesis using run u(2,3) t(3) Cons.prems(5) by (intro exI [of _ ?u]) (simp del: fun_upd_apply)
  next
    case ch
    let ?t = "t\<lparr>mem := (mem t)(buf + ?n := ucast ?k)\<rparr>"
    obtain u where u: "putchar ?k ?t = Ret ((), u)" "console_up c u" "console_fifo u = console_fifo t" "eq_on (- frame) (mem ?t) (mem u)"
      using putchar_up [of c ?t ?k] t(2) by auto
    let ?a = "acc @ [ucast ?k]"
    have le: "length ?a \<le> CMD_MAX_LEN" using ch by simp
    have n1: "?n + 1 = of_nat (length ?a)" by simp
    have nb: "?k \<noteq> BACKSPACE" using ch(3) by (auto simp: BACKSPACE_def)
    have "read_line_loop ctxsw buf ?n s = read_line_loop ctxsw buf (of_nat (length ?a)) u"
      unfolding n1 [symmetric] using t(1) u(1) ch pos nb con_key_sign [of b] by (subst read_line_loop.simps) simp
    moreover have "typed ?a (map con_key bs) = Some (line, ks)" using Cons.prems(3) ch by auto
    moreover have "holds (mem ?t) buf ?a" using holds_snoc [OF Cons.prems(4,5)] t(4) by simp
    then have "holds (mem u) buf ?a" by (rule keep [OF _ u(4) le])
    moreover have "\<forall>x \<in> set ?a. x \<noteq> 0" using Cons.prems(6) key_byte [of ?k] ch(3) by auto
    moreover have "eq_on (- (frame \<union> region buf (Suc CMD_MAX_LEN))) (mem s) (mem ?t)"
      using at t(4) by (auto simp: eq_on_def)
    then have "eq_on (- (frame \<union> region buf (Suc CMD_MAX_LEN))) (mem s) (mem u)"
      by (rule eq_on_trans) (rule eq_on_mono [OF u(4)], blast)
    ultimately show ?thesis using Cons.IH [OF u(2), of ?a] u(3) t(3) le eq_on_trans by auto
  next
    case no
    have "read_line_loop ctxsw buf ?n s = read_line_loop ctxsw buf ?n t"
      using t(1) no pos con_key_sign [of b] by (subst read_line_loop.simps) auto
    moreover have "typed acc (map con_key bs) = Some (line, ks)" using Cons.prems(3) no by auto
    ultimately show ?thesis using Cons.IH [OF t(2), of acc] Cons.prems(4-6) t(3,4) by simp
  qed
qed

text \<open>C39: \<^verbatim>\<open>ksh_read_line\<close> returns once a complete line has been typed, and leaves in the buffer, as a terminated string,
  exactly what the reference editor makes of the keys: backspace deletes the last character, other keys below 255 are
  appended until the line has \<^verbatim>\<open>CMD_MAX_LEN\<close> characters. The keys behind the line stay in the input, and memory
  outside the screen and \<^verbatim>\<open>CMD_MAX_LEN + 1\<close> bytes from the buffer's start is unchanged.\<close>

theorem ksh_read_line_edits:
  fixes s :: "'z con_sys_scheme"
  assumes "region buf (Suc CMD_MAX_LEN) \<inter> frame = {}" and "console_up c s"
    and "typed [] (map con_key (contents (console_fifo s))) = Some (line, ks)"
  shows "\<exists>t. ksh_read_line ctxsw buf s = Ret ((), t) \<and> cstr (mem t) buf line \<and> length line \<le> CMD_MAX_LEN
      \<and> map con_key (contents (console_fifo t)) = ks \<and> eq_on (- (frame \<union> region buf (Suc CMD_MAX_LEN))) (mem s) (mem t)"
  using read_line_loop_ok [OF assms(1,2) refl assms(3), of ctxsw] by (auto simp: ksh_read_line_def holds_def)

text \<open>The full line of \<^verbatim>\<open>CMD_MAX_LEN\<close> characters is possible; its terminator is then stored behind the buffer of that size.\<close>

lemma typed_full:
  "0 < k \<Longrightarrow> k < 0xFF \<Longrightarrow> k \<noteq> 13 \<Longrightarrow> k \<noteq> 10 \<Longrightarrow> length acc + n \<le> CMD_MAX_LEN \<Longrightarrow>
   typed acc (replicate n k @ [13]) = Some (acc @ replicate n (ucast k), [])"
proof (induction n arbitrary: acc)
  case 0
  then show ?case by (simp add: BACKSPACE_def)
next
  case (Suc n)
  have "k \<noteq> BACKSPACE" using Suc.prems(2) by (auto simp: BACKSPACE_def)
  then show ?case using Suc by simp
qed

definition demo_tty :: con_sys where
  "demo_tty = \<lparr>mem = (\<lambda>_. 0), rflags = 0, lapic_id_reg = 0, ncpu = 1, cpus = [demo_cpu],
     locks = (\<lambda>l. \<lparr>locked = 0, lk_name = [], lk_cpu = None\<rparr>),
     begin_kva = 0, end_kva = 0, boot_alloc_initialized = True, pgalloc_bins = [], max_addr = 0, size_list = 0, kern_pml4 = 0, cr3 = 0,
     procs = (\<lambda>_. zero_proc), next_pid = 1, ptable_proc = 0x4000, idle_proc = 0x40000,
     ready_queue = 0x1000, waiting_queue = 0x1100, addr_of = (\<lambda>_. 0x1000),
     dev_in = (\<lambda>tr p. if p = UART_COM1 + 5 then 0x20 else snd (crt_state tr) (fst (crt_state tr))), dev_rd = (\<lambda>_ _. 0), msr = (\<lambda>_. 0),
     io_trace = [], lapic = 0, ioapic = 0, sys_tick = 0,
     con_uart = \<lparr>mmio_base = NULL, pio_base = UART_COM1\<rparr>, uart_enable = True,
     console_fifo = \<lparr>fbuf = (\<lambda>i. [104, 127, 105, 13] ! i), fsize = 32, fread = 0, fwatermark = 0, fwrite = 4\<rparr>, console_fifo_addr = 7\<rparr>"

lemma demo_tty_up: "console_up 0 demo_tty" "map con_key (contents (console_fifo demo_tty)) = [104, BACKSPACE, 105, 13]"
proof -
  have "UART_COM1 \<noteq> CRTPORT" "UART_COM1 \<noteq> CRTPORT + 1" "CRTPORT + 1 \<noteq> UART_COM1 + 5" by (simp_all add: UART_COM1_def CRTPORT_def)
  then show "console_up 0 demo_tty"
    by (simp add: console_up_def demo_tty_def cpu_ready_def cpu_lookup_def lapic_id_def demo_cpu_def lock_free_def fifo_ok_def
        crt_device_def cursor_def crt_state_def SCREEN_CELLS_def uart_ready_def if_set_def)
  show "map con_key (contents (console_fifo demo_tty)) = [104, BACKSPACE, 105, 13]"
    by (simp add: demo_tty_def contents_def used_def Let_def upt_rec con_key_def)
qed

theorem ksh_read_line_edits_witness:
  "\<exists>t. ksh_read_line (\<lambda>_ _. retk ()) 0x1000 demo_tty = Ret ((), t) \<and> cstr (mem t) 0x1000 [105]"
proof -
  have d: "region 0x1000 (Suc CMD_MAX_LEN) \<inter> frame = {}"
    unfolding frame_def using unat_crt by (intro region_disjoint_nat) (simp_all add: CMD_MAX_LEN_def SCREEN_CELLS_def crt_def P2KV_def KERNBASE_def)
  have "typed [] (map con_key (contents (console_fifo demo_tty))) = Some ([105], [])"
    unfolding demo_tty_up(2) by (simp add: BACKSPACE_def CMD_MAX_LEN_def)
  from ksh_read_line_edits [OF d demo_tty_up(1) this, of "\<lambda>_ _. retk ()"] show ?thesis by blast
qed

end
