(* ===== verification/Printf_Spec.thy ===== *)
theory Printf_Spec
  imports Kprintf
begin

text \<open>
  What \<^verbatim>\<open>printf\<close> has to print, written from the language standard and not from the code, and the proof that the
  formatter of \<^verbatim>\<open>util/kprintf.c\<close> prints it. A call is a list of pieces, each with the values of its arguments as
  integers: \<open>render\<close> and \<open>args\<close> give its format string and its argument list, \<open>piece_text\<close> the text, by arithmetic
  on naturals and integers. The first three sections use no definition of the formatter.
\<close>

unbundle bit_operations_syntax

section \<open>Calls\<close>

datatype flag = Zero | Minus | Plus | Space | Hash
datatype amount = Absent | Num nat | Star int
datatype modifier = No_mod | Mod_hh | Mod_h | Mod_l | Mod_ll | Mod_j | Mod_z | Mod_t
datatype int_conv = Conv_d | Conv_i | Conv_u | Conv_x | Conv_X | Conv_o | Conv_b

record layout =
  flags_of :: "flag list"
  width_at :: amount
  prec_at :: amount

datatype piece =
    Lit u8
  | Percent
  | Integer layout modifier int_conv int
  | Character layout modifier int
  | Text layout modifier ptr "u8 list"
  | Pointer int

section \<open>The call\<close>

primrec flag_byte :: "flag \<Rightarrow> u8" where
  "flag_byte Zero = ascii (CHR ''0'')"
| "flag_byte Minus = ascii (CHR ''-'')"
| "flag_byte Plus = ascii (CHR ''+'')"
| "flag_byte Space = ascii (CHR '' '')"
| "flag_byte Hash = ascii (CHR ''#'')"

definition digit_byte :: "bool \<Rightarrow> nat \<Rightarrow> u8" where
  "digit_byte upper d = of_char ((if upper then ''0123456789ABCDEF'' else ''0123456789abcdef'') ! d)"

fun numeral_text :: "nat \<Rightarrow> bool \<Rightarrow> nat \<Rightarrow> u8 list" where
  "numeral_text b upper n =
     (if b < 2 \<or> n < b then [digit_byte upper n] else numeral_text b upper (n div b) @ [digit_byte upper (n mod b)])"

primrec modifier_bytes :: "modifier \<Rightarrow> u8 list" where
  "modifier_bytes No_mod = []"
| "modifier_bytes Mod_hh = [ascii (CHR ''h''), ascii (CHR ''h'')]"
| "modifier_bytes Mod_h = [ascii (CHR ''h'')]"
| "modifier_bytes Mod_l = [ascii (CHR ''l'')]"
| "modifier_bytes Mod_ll = [ascii (CHR ''l''), ascii (CHR ''l'')]"
| "modifier_bytes Mod_j = [ascii (CHR ''j'')]"
| "modifier_bytes Mod_z = [ascii (CHR ''z'')]"
| "modifier_bytes Mod_t = [ascii (CHR ''t'')]"

primrec conv_byte :: "int_conv \<Rightarrow> u8" where
  "conv_byte Conv_d = ascii (CHR ''d'')"
| "conv_byte Conv_i = ascii (CHR ''i'')"
| "conv_byte Conv_u = ascii (CHR ''u'')"
| "conv_byte Conv_x = ascii (CHR ''x'')"
| "conv_byte Conv_X = ascii (CHR ''X'')"
| "conv_byte Conv_o = ascii (CHR ''o'')"
| "conv_byte Conv_b = ascii (CHR ''b'')"

primrec amount_bytes :: "amount \<Rightarrow> u8 list" where
  "amount_bytes Absent = []"
| "amount_bytes (Num n) = numeral_text 10 False n"
| "amount_bytes (Star n) = [ascii (CHR ''*'')]"

primrec amount_args :: "amount \<Rightarrow> va_item list" where
  "amount_args Absent = []"
| "amount_args (Num n) = []"
| "amount_args (Star n) = [VWord (of_int n)]"

definition layout_bytes :: "layout \<Rightarrow> modifier \<Rightarrow> u8 list" where
  "layout_bytes l m = map flag_byte (flags_of l) @ amount_bytes (width_at l) @
     (if prec_at l = Absent then [] else ascii (CHR ''.'') # amount_bytes (prec_at l)) @ modifier_bytes m"

definition layout_args :: "layout \<Rightarrow> va_item list" where
  "layout_args l = amount_args (width_at l) @ amount_args (prec_at l)"

primrec render :: "piece \<Rightarrow> u8 list" where
  "render (Lit c) = [c]"
| "render Percent = [37, 37]"
| "render (Integer l m c v) = 37 # layout_bytes l m @ [conv_byte c]"
| "render (Character l m v) = 37 # layout_bytes l m @ [ascii (CHR ''c'')]"
| "render (Text l m p bs) = 37 # layout_bytes l m @ [ascii (CHR ''s'')]"
| "render (Pointer v) = [37, ascii (CHR ''p'')]"

primrec args :: "piece \<Rightarrow> va_item list" where
  "args (Lit c) = []"
| "args Percent = []"
| "args (Integer l m c v) = layout_args l @ [VWord (of_int v)]"
| "args (Character l m v) = layout_args l @ [VWord (of_int v)]"
| "args (Text l m p bs) = layout_args l @ [VStr p bs]"
| "args (Pointer v) = [VWord (of_int v)]"

section \<open>The text\<close>

definition left_adjusted :: "layout \<Rightarrow> bool" where
  "left_adjusted l \<longleftrightarrow> Minus \<in> set (flags_of l) \<or> (case width_at l of Star w \<Rightarrow> w < 0 | _ \<Rightarrow> False)"

definition field_width :: "layout \<Rightarrow> nat" where
  "field_width l = (case width_at l of Absent \<Rightarrow> 0 | Num n \<Rightarrow> n | Star w \<Rightarrow> nat \<bar>w\<bar>)"

definition precision :: "layout \<Rightarrow> nat option" where
  "precision l = (case prec_at l of Absent \<Rightarrow> None | Num n \<Rightarrow> Some n | Star p \<Rightarrow> if p < 0 then None else Some (nat p))"

text \<open>\<open>t\<close> in a field: spaces before it, or after it when the field is left-adjusted.\<close>

definition in_field :: "layout \<Rightarrow> u8 list \<Rightarrow> u8 list" where
  "in_field l t = (let pad = replicate (field_width l - length t) 32 in if left_adjusted l then t @ pad else pad @ t)"

definition type_bits :: "modifier \<Rightarrow> nat" where
  "type_bits m = (case m of Mod_hh \<Rightarrow> 8 | Mod_h \<Rightarrow> 16 | No_mod \<Rightarrow> 32 | _ \<Rightarrow> 64)"

definition is_signed :: "int_conv \<Rightarrow> bool" where
  "is_signed c \<longleftrightarrow> c = Conv_d \<or> c = Conv_i"

primrec conv_base :: "int_conv \<Rightarrow> nat" where
  "conv_base Conv_d = 10" | "conv_base Conv_i = 10" | "conv_base Conv_u = 10" | "conv_base Conv_x = 16"
| "conv_base Conv_X = 16" | "conv_base Conv_o = 8" | "conv_base Conv_b = 2"

text \<open>The argument as a value of the type that modifier and conversion name.\<close>

definition typed_value :: "modifier \<Rightarrow> int_conv \<Rightarrow> int \<Rightarrow> int" where
  "typed_value m c v = (let k = type_bits m in
     if is_signed c then (v + 2 ^ (k - 1)) mod 2 ^ k - 2 ^ (k - 1) else v mod 2 ^ k)"

definition sign_text :: "layout \<Rightarrow> int_conv \<Rightarrow> int \<Rightarrow> u8 list" where
  "sign_text l c v = (if v < 0 then [ascii (CHR ''-'')]
     else if is_signed c \<and> Plus \<in> set (flags_of l) then [ascii (CHR ''+'')]
     else if is_signed c \<and> Space \<in> set (flags_of l) then [32] else [])"

definition base_prefix :: "layout \<Rightarrow> int_conv \<Rightarrow> int \<Rightarrow> u8 list" where
  "base_prefix l c v = (if Hash \<in> set (flags_of l) \<and> v \<noteq> 0 then
     (case c of Conv_x \<Rightarrow> [48, ascii (CHR ''x'')] | Conv_X \<Rightarrow> [48, ascii (CHR ''X'')] | Conv_b \<Rightarrow> [48, ascii (CHR ''b'')]
      | Conv_o \<Rightarrow> [48] | _ \<Rightarrow> []) else [])"

definition digits_text :: "layout \<Rightarrow> int_conv \<Rightarrow> int \<Rightarrow> u8 list" where
  "digits_text l c v = (if v = 0 \<and> precision l = Some 0 then [] else numeral_text (conv_base c) (c = Conv_X) (nat \<bar>v\<bar>))"

definition zeros_count :: "layout \<Rightarrow> int_conv \<Rightarrow> int \<Rightarrow> nat" where
  "zeros_count l c v = (case precision l of
       Some p \<Rightarrow> p - length (digits_text l c v)
     | None \<Rightarrow> if Zero \<in> set (flags_of l) \<and> \<not> left_adjusted l
               then field_width l - length (sign_text l c v @ base_prefix l c v @ digits_text l c v) else 0)"

definition int_number :: "layout \<Rightarrow> int_conv \<Rightarrow> int \<Rightarrow> u8 list" where
  "int_number l c v = sign_text l c v @ base_prefix l c v @ replicate (zeros_count l c v) 48 @ digits_text l c v"

definition cut_text :: "layout \<Rightarrow> u8 list \<Rightarrow> u8 list" where
  "cut_text l bs = (case precision l of None \<Rightarrow> bs | Some p \<Rightarrow> take p bs)"

primrec piece_text :: "piece \<Rightarrow> u8 list" where
  "piece_text (Lit c) = [c]"
| "piece_text Percent = [ascii (CHR ''%'')]"
| "piece_text (Integer l m c v) = in_field l (int_number l c (typed_value m c v))"
| "piece_text (Character l m v) = in_field l [of_int v]"
| "piece_text (Text l m p bs) = in_field l (cut_text l bs)"
| "piece_text (Pointer v) = (let h = numeral_text 16 True (nat (v mod 2 ^ 64)) in replicate (16 - length h) 48 @ h)"

section \<open>The calls that the formatter supports\<close>

definition layout_ok :: "layout \<Rightarrow> bool" where
  "layout_ok l \<longleftrightarrow> (case width_at l of Absent \<Rightarrow> True | Num n \<Rightarrow> 0 < n \<and> n < 2 ^ 32 | Star w \<Rightarrow> \<bar>w\<bar> < 2 ^ 31)
     \<and> (case prec_at l of Absent \<Rightarrow> True | Num n \<Rightarrow> n < 2 ^ 32 | Star p \<Rightarrow> 0 \<le> p \<and> p < 2 ^ 31)"

text \<open>
  For integers: the most negative \<^verbatim>\<open>int\<close> and \<^verbatim>\<open>long\<close> cannot be negated; sign, prefix and digits fit into the 32-byte
  buffer; a left-adjusted field ignores the precision; and with \<^verbatim>\<open>#\<close> the code makes room for the prefix by dropping
  digits when their number equals the width.
\<close>

definition hash_ok :: "layout \<Rightarrow> int_conv \<Rightarrow> int \<Rightarrow> bool" where
  "hash_ok l c v \<longleftrightarrow> (base_prefix l c v \<noteq> [] \<longrightarrow>
     (case precision l of
        Some p \<Rightarrow> c \<noteq> Conv_o
      | None \<Rightarrow> field_width l = 0
          \<or> (if Zero \<in> set (flags_of l) \<and> \<not> left_adjusted l
             then c \<noteq> Conv_b \<and> length (base_prefix l c v @ digits_text l c v) \<le> field_width l \<or> field_width l < length (digits_text l c v)
             else length (digits_text l c v) \<noteq> field_width l)))
   \<and> (c = Conv_o \<and> Hash \<in> set (flags_of l) \<longrightarrow> precision l = None)"

definition int_ok :: "layout \<Rightarrow> modifier \<Rightarrow> int_conv \<Rightarrow> int \<Rightarrow> bool" where
  "int_ok l m c v \<longleftrightarrow> (is_signed c \<and> 32 \<le> type_bits m \<longrightarrow> v \<noteq> - (2 ^ (type_bits m - 1)))
     \<and> length (int_number l c v) \<le> 32
     \<and> (left_adjusted l \<longrightarrow> (case precision l of None \<Rightarrow> True | Some p \<Rightarrow> p = 0 \<or> v \<noteq> 0 \<and> p \<le> length (digits_text l c v)))
     \<and> hash_ok l c v"

primrec supported :: "piece \<Rightarrow> bool" where
  "supported (Lit c) \<longleftrightarrow> c \<noteq> 0 \<and> c \<noteq> 37"
| "supported Percent \<longleftrightarrow> True"
| "supported (Integer l m c v) \<longleftrightarrow> layout_ok l \<and> int_ok l m c (typed_value m c v)"
| "supported (Character l m v) \<longleftrightarrow> layout_ok l"
| "supported (Text l m p bs) \<longleftrightarrow> layout_ok l \<and> 0 \<notin> set bs \<and> length bs < 2 ^ 32"
| "supported (Pointer v) \<longleftrightarrow> True"

declare numeral_text.simps [simp del]

section \<open>Numerals\<close>

lemma upto_10: "(\<forall>d < (10 :: nat). P d) \<longleftrightarrow> P 0 \<and> P 1 \<and> P 2 \<and> P 3 \<and> P 4 \<and> P 5 \<and> P 6 \<and> P 7 \<and> P 8 \<and> P 9"
  by (simp add: numeral_eq_Suc All_less_Suc) blast

lemma upto_16: "(\<forall>d < (16 :: nat). P d) \<longleftrightarrow> (\<forall>d < 10. P d) \<and> P 10 \<and> P 11 \<and> P 12 \<and> P 13 \<and> P 14 \<and> P 15"
  by (simp add: numeral_eq_Suc All_less_Suc) blast

lemma digit_byte_decimal:
  assumes "d < 10"
  shows "is_digit (digit_byte u d)" "ucast (digit_byte u d) - 48 = (of_nat d :: u32)" "digit_byte u d = 48 \<longleftrightarrow> d = 0"
proof -
  have "\<forall>d < 10. is_digit (digit_byte u d)"
    unfolding upto_10 by (cases u) (simp_all add: digit_byte_def is_digit_def of_char_def)
  moreover have "\<forall>d < 10. ucast (digit_byte u d) - 48 = (of_nat d :: u32)"
    unfolding upto_10 by (cases u) (simp_all add: digit_byte_def of_char_def)
  moreover have "\<forall>d < 10. digit_byte u d = 48 \<longleftrightarrow> d = 0"
    unfolding upto_10 by (cases u) (simp_all add: digit_byte_def of_char_def)
  ultimately show "is_digit (digit_byte u d)" "ucast (digit_byte u d) - 48 = (of_nat d :: u32)" "digit_byte u d = 48 \<longleftrightarrow> d = 0"
    using assms by blast+
qed

lemma numeral_text_nonempty [simp]: "numeral_text b u n \<noteq> []"
  by (subst numeral_text.simps) simp

lemma atoi_numeral_text: "atoi_loop i (numeral_text 10 False n @ r) = atoi_loop (i * 10 ^ length (numeral_text 10 False n) + of_nat n) r"
proof (induction n arbitrary: r rule: less_induct)
  case (less n)
  show ?case
  proof (cases "n < 10")
    case True
    then show ?thesis using digit_byte_decimal(1,2) [OF True, of False] by (simp add: numeral_text.simps [of 10 False n])
  next
    case False
    have m: "n mod 10 < 10" by simp
    let ?k = "length (numeral_text 10 False (n div 10))"
    have v: "(of_nat n :: u32) = of_nat (n div 10) * 10 + of_nat (n mod 10)"
      by (metis div_mult_mod_eq of_nat_add of_nat_mult of_nat_numeral)
    have "atoi_loop i (numeral_text 10 False n @ r) = atoi_loop (i * 10 ^ ?k + of_nat (n div 10)) (digit_byte False (n mod 10) # r)"
      using False less.IH [of "n div 10" "digit_byte False (n mod 10) # r"] by (simp add: numeral_text.simps [of 10 False n])
    also have "\<dots> = atoi_loop ((i * 10 ^ ?k + of_nat (n div 10)) * 10 + of_nat (n mod 10)) r"
      using digit_byte_decimal(1,2) [OF m, of False] by simp
    also have "(i * 10 ^ ?k + of_nat (n div 10)) * 10 + of_nat (n mod 10) = i * 10 ^ Suc ?k + of_nat n"
      unfolding v by (simp add: algebra_simps)
    finally show ?thesis using False by (simp add: numeral_text.simps [of 10 False n])
  qed
qed

lemma atoi_stop: "\<not> is_digit (peek r) \<Longrightarrow> atoi_loop i r = (i, r)"
  by (cases r) (auto simp: peek_def)

lemma atoi_amount: "\<not> is_digit (peek r) \<Longrightarrow> atoi (numeral_text 10 False n @ r) = (of_nat n, r)"
  by (simp add: atoi_def atoi_numeral_text atoi_stop)

lemma numeral_peek: "is_digit (peek (numeral_text 10 False n @ r)) \<and> (0 < n \<longrightarrow> peek (numeral_text 10 False n @ r) \<noteq> 48)"
proof (induction n arbitrary: r rule: less_induct)
  case (less n)
  show ?case
  proof (cases "n < 10")
    case True
    then show ?thesis using digit_byte_decimal(1,3) [OF True, of False] by (simp add: numeral_text.simps [of 10 False n] peek_def)
  next
    case False
    then show ?thesis using less.IH [of "n div 10" "digit_byte False (n mod 10) # r"]
      by (simp add: numeral_text.simps [of 10 False n] div_greater_zero_iff)
  qed
qed

lemma digit_char_byte:
  assumes "d < (16 :: u64)"
  shows "digit_char flags d = digit_byte (has flags FLAGS_UPPERCASE) (unat d)"
proof -
  let ?u = "has flags FLAGS_UPPERCASE"
  have "\<forall>n < 16. digit_char flags (of_nat n) = digit_byte ?u n"
    unfolding upto_16 upto_10 by (cases ?u) (simp_all add: digit_char_def digit_byte_def of_char_def)
  moreover have "unat d < 16" using assms by (simp add: word_less_nat_alt)
  ultimately show ?thesis by (metis word_nat_cast_id)
qed

lemma ntoa_numeral:
  assumes "2 \<le> base" "base \<le> 16"
  shows "length (numeral_text (unat base) (has flags FLAGS_UPPERCASE) (unat v)) \<le> room \<Longrightarrow>
    rev (ntoa_digits room flags base v) = numeral_text (unat base) (has flags FLAGS_UPPERCASE) (unat v)"
proof (induction room arbitrary: v)
  case 0
  then show ?case by simp
next
  case (Suc room)
  have b: "2 \<le> unat base" "unat base \<le> 16" using assms by (simp_all add: word_le_nat_alt)
  have "unat v mod unat base < unat base" using b by simp
  then have "unat (v mod base) < 16" using b unfolding unat_mod by linarith
  then have "v mod base < 16" by (simp add: word_less_nat_alt)
  note d = digit_char_byte [OF this, of flags, unfolded unat_mod]
  show ?case
  proof (cases "unat v < unat base")
    case True
    then have "v div base = 0" by (simp add: word_unat_eq_iff unat_div)
    then show ?thesis using True d by (simp add: numeral_text.simps [of "unat base" _ "unat v"])
  next
    case False
    then have n: "v div base \<noteq> 0" using b by (simp add: word_unat_eq_iff unat_div div_eq_0_iff)
    have s: "numeral_text (unat base) (has flags FLAGS_UPPERCASE) (unat v) = numeral_text (unat base) (has flags FLAGS_UPPERCASE) (unat (v div base))
       @ [digit_byte (has flags FLAGS_UPPERCASE) (unat v mod unat base)]"
      using False b by (subst numeral_text.simps) (simp add: unat_div)
    show ?thesis using Suc n d unfolding s by simp
  qed
qed

section \<open>Flags\<close>

lemma has_bits:
  "has x FLAGS_ZEROPAD = bit x 0" "has x FLAGS_LEFT = bit x 1" "has x FLAGS_PLUS = bit x 2" "has x FLAGS_SPACE = bit x 3"
  "has x FLAGS_HASH = bit x 4" "has x FLAGS_UPPERCASE = bit x 5" "has x FLAGS_CHAR = bit x 6" "has x FLAGS_SHORT = bit x 7"
  "has x FLAGS_LONG = bit x 8" "has x FLAGS_LONG_LONG = bit x 9" "has x FLAGS_PRECISION = bit x 10"
  "has x (FLAGS_PLUS OR FLAGS_SPACE) \<longleftrightarrow> bit x 2 \<or> bit x 3"
proof -
  have one: "has x (2 ^ k) = bit x k" for k
    by (simp add: has_def bit_iff_and_push_bit_not_eq_0 push_bit_eq_mult)
  have "has x (a OR b) \<longleftrightarrow> has x a \<or> has x b" for a b
    by (simp add: has_def word_bw_comms word_ao_dist2 bit_eq_iff bit_simps) blast
  from this [of FLAGS_PLUS FLAGS_SPACE] show "has x FLAGS_ZEROPAD = bit x 0" "has x FLAGS_LEFT = bit x 1" "has x FLAGS_PLUS = bit x 2" "has x FLAGS_SPACE = bit x 3"
  "has x FLAGS_HASH = bit x 4" "has x FLAGS_UPPERCASE = bit x 5" "has x FLAGS_CHAR = bit x 6" "has x FLAGS_SHORT = bit x 7"
  "has x FLAGS_LONG = bit x 8" "has x FLAGS_LONG_LONG = bit x 9" "has x FLAGS_PRECISION = bit x 10"
  "has x (FLAGS_PLUS OR FLAGS_SPACE) \<longleftrightarrow> bit x 2 \<or> bit x 3"
    using one [of 0] one [of 1] one [of 2] one [of 3] one [of 4] one [of 5] one [of 6] one [of 7] one [of 8] one [of 9] one [of 10]
    by (simp_all add: flag_defs)
qed

lemma flag_bits:
  "bit FLAGS_ZEROPAD n \<longleftrightarrow> n = 0" "bit FLAGS_LEFT n \<longleftrightarrow> n = 1" "bit FLAGS_PLUS n \<longleftrightarrow> n = 2" "bit FLAGS_SPACE n \<longleftrightarrow> n = 3"
  "bit FLAGS_HASH n \<longleftrightarrow> n = 4" "bit FLAGS_UPPERCASE n \<longleftrightarrow> n = 5" "bit FLAGS_CHAR n \<longleftrightarrow> n = 6" "bit FLAGS_SHORT n \<longleftrightarrow> n = 7"
  "bit FLAGS_LONG n \<longleftrightarrow> n = 8" "bit FLAGS_LONG_LONG n \<longleftrightarrow> n = 9" "bit FLAGS_PRECISION n \<longleftrightarrow> n = 10"
proof -
  have one: "bit (2 ^ k :: u32) n \<longleftrightarrow> n = k" if "k < 32" for k using that by (auto simp: bit_simps)
  show "bit FLAGS_ZEROPAD n \<longleftrightarrow> n = 0" "bit FLAGS_LEFT n \<longleftrightarrow> n = 1" "bit FLAGS_PLUS n \<longleftrightarrow> n = 2" "bit FLAGS_SPACE n \<longleftrightarrow> n = 3"
  "bit FLAGS_HASH n \<longleftrightarrow> n = 4" "bit FLAGS_UPPERCASE n \<longleftrightarrow> n = 5" "bit FLAGS_CHAR n \<longleftrightarrow> n = 6" "bit FLAGS_SHORT n \<longleftrightarrow> n = 7"
  "bit FLAGS_LONG n \<longleftrightarrow> n = 8" "bit FLAGS_LONG_LONG n \<longleftrightarrow> n = 9" "bit FLAGS_PRECISION n \<longleftrightarrow> n = 10"
    using one [of 0] one [of 1] one [of 2] one [of 3] one [of 4] one [of 5] one [of 6] one [of 7] one [of 8] one [of 9] one [of 10]
    by (simp_all add: flag_defs)
qed

primrec flag_index :: "flag \<Rightarrow> nat" where
  "flag_index Zero = 0" | "flag_index Minus = 1" | "flag_index Plus = 2" | "flag_index Space = 3" | "flag_index Hash = 4"

lemma flag_of_byte: "\<exists>w. flag_of (flag_byte f) = Some w \<and> (\<forall>n. bit w n \<longleftrightarrow> n = flag_index f)"
  by (cases f) (simp_all add: flag_of_def of_char_def flag_bits)

lemma parse_flags_list:
  assumes "flag_of (peek r) = None"
  shows "\<exists>w. parse_flags f (map flag_byte fs @ r) = (w, r) \<and> (\<forall>n. bit w n \<longleftrightarrow> bit f n \<or> n \<in> flag_index ` set fs)"
proof (induction fs arbitrary: f)
  case Nil
  then show ?case using assms by (cases r) (simp_all add: peek_def)
next
  case (Cons x fs)
  obtain w where w: "flag_of (flag_byte x) = Some w" "\<And>n. bit w n \<longleftrightarrow> n = flag_index x" using flag_of_byte by blast
  from Cons.IH [of "f OR w"] show ?case using w by (auto simp: bit_simps)
qed

lemma flag_index_mem:
  "0 \<in> flag_index ` S \<longleftrightarrow> Zero \<in> S" "Suc 0 \<in> flag_index ` S \<longleftrightarrow> Minus \<in> S" "2 \<in> flag_index ` S \<longleftrightarrow> Plus \<in> S"
  "3 \<in> flag_index ` S \<longleftrightarrow> Space \<in> S" "4 \<in> flag_index ` S \<longleftrightarrow> Hash \<in> S" "5 \<le> n \<Longrightarrow> n \<notin> flag_index ` S"
proof -
  have inj: "inj flag_index"
  proof (rule injI)
    fix x y assume "flag_index x = flag_index y" then show "x = y" by (cases x; cases y) simp_all
  qed
  show "0 \<in> flag_index ` S \<longleftrightarrow> Zero \<in> S" "Suc 0 \<in> flag_index ` S \<longleftrightarrow> Minus \<in> S" "2 \<in> flag_index ` S \<longleftrightarrow> Plus \<in> S"
    "3 \<in> flag_index ` S \<longleftrightarrow> Space \<in> S" "4 \<in> flag_index ` S \<longleftrightarrow> Hash \<in> S"
    using inj_image_mem_iff [OF inj, of _ S] flag_index.simps by (metis One_nat_def)+
  have "flag_index x < 5" for x by (cases x) simp_all
  then show "5 \<le> n \<Longrightarrow> n \<notin> flag_index ` S" by (auto simp: image_iff) (metis not_le)
qed

section \<open>Reading a directive\<close>

text \<open>A byte that can follow a width or a precision.\<close>

definition stops :: "u8 \<Rightarrow> bool" where
  "stops c \<longleftrightarrow> \<not> is_digit c \<and> c \<noteq> ascii (CHR ''*'') \<and> flag_of c = None"

lemma of_int_star:
  assumes "\<bar>w\<bar> < 2 ^ 31"
  shows "(of_int w :: u32) \<noteq> INT_MIN" "(of_int w :: u32) <s 0 \<longleftrightarrow> w < 0" "0 <s (of_int w :: u32) \<longleftrightarrow> 0 < w"
    "0 \<le> w \<Longrightarrow> unat (of_int w :: u32) = nat w" "w < 0 \<Longrightarrow> unat (- of_int w :: u32) = nat (- w)"
proof -
  have s: "sint (of_int w :: u32) = w" using assms by (simp add: signed_of_int signed_take_bit_int_eq_self)
  show "(of_int w :: u32) <s 0 \<longleftrightarrow> w < 0" "0 <s (of_int w :: u32) \<longleftrightarrow> 0 < w" using s by (simp_all add: word_sless_alt)
  have "sint INT_MIN = - (2 ^ 31)" by (simp add: INT_MIN_def)
  then show "(of_int w :: u32) \<noteq> INT_MIN" using s assms by auto
  have p: "unat (of_int v :: u32) = nat v" if "0 \<le> v" "v < 2 ^ 32" for v
    using that by (simp add: unat_eq_nat_uint uint_word_of_int_eq take_bit_int_eq_self)
  show "0 \<le> w \<Longrightarrow> unat (of_int w :: u32) = nat w" using p [of w] assms by simp
  show "w < 0 \<Longrightarrow> unat (- of_int w :: u32) = nat (- w)" using p [of "- w"] assms by simp
qed

lemma va_u32_int: "va_u32 (VWord (of_int v) # va) = Some (of_int v, va)"
proof -
  have "ucast (of_int v :: u64) = (of_int v :: u32)" by (rule bit_eqI) (simp add: bit_simps)
  then show ?thesis by (simp add: va_u32_def)
qed

lemma parse_width_amount:
  assumes ok: "case a of Absent \<Rightarrow> True | Num n \<Rightarrow> 0 < n \<and> n < 2 ^ 32 | Star w \<Rightarrow> \<bar>w\<bar> < 2 ^ 31" and r: "stops (peek r)"
  shows "\<exists>f' w. parse_width f (amount_bytes a @ r) (amount_args a @ va) = Some (f', w, r, va)
     \<and> unat w = (case a of Absent \<Rightarrow> 0 | Num n \<Rightarrow> n | Star w \<Rightarrow> nat \<bar>w\<bar>)
     \<and> (\<forall>n. bit f' n \<longleftrightarrow> bit f n \<or> n = 1 \<and> (case a of Star w \<Rightarrow> w < 0 | _ \<Rightarrow> False))"
proof (cases a)
  case Absent
  then show ?thesis using r by (simp add: parse_width_def stops_def)
next
  case (Num n)
  have "unat (of_nat n :: u32) = n" using ok Num by (simp add: unat_of_nat)
  then show ?thesis using Num r numeral_peek [of n r] by (simp add: parse_width_def stops_def atoi_amount)
next
  case (Star w)
  then have w: "\<bar>w\<bar> < 2 ^ 31" using ok by simp
  have "\<not> is_digit 42" by (simp add: is_digit_def)
  then show ?thesis using Star of_int_star [OF w]
    by (cases "w < 0") (auto simp: parse_width_def peek_def of_char_def va_u32_int bit_simps flag_bits)
qed

lemma parse_precision_amount:
  assumes ok: "case a of Absent \<Rightarrow> True | Num n \<Rightarrow> n < 2 ^ 32 | Star p \<Rightarrow> 0 \<le> p \<and> p < 2 ^ 31"
    and r: "stops (peek r)" "peek r \<noteq> ascii (CHR ''.'')"
  shows "\<exists>f' p. parse_precision f ((if a = Absent then [] else ascii (CHR ''.'') # amount_bytes a) @ r) (amount_args a @ va) = Some (f', p, r, va)
     \<and> unat p = (case a of Absent \<Rightarrow> 0 | Num n \<Rightarrow> n | Star p \<Rightarrow> nat p)
     \<and> (\<forall>n. bit f' n \<longleftrightarrow> bit f n \<or> n = 10 \<and> a \<noteq> Absent)"
proof (cases a)
  case Absent
  then show ?thesis using r by (simp add: parse_precision_def)
next
  case (Num n)
  have "unat (of_nat n :: u32) = n" using ok Num by (simp add: unat_of_nat)
  moreover have "peek (ascii (CHR ''.'') # x) = ascii (CHR ''.'')" for x by (simp add: peek_def)
  ultimately show ?thesis using Num r numeral_peek [of n r]
    by (simp add: parse_precision_def stops_def atoi_amount bit_simps flag_bits)
next
  case (Star p)
  then have p: "\<bar>p\<bar> < 2 ^ 31" "0 \<le> p" using ok by simp_all
  have "\<not> is_digit 42" by (simp add: is_digit_def)
  then show ?thesis using Star of_int_star [OF p(1)] p(2)
    by (auto simp: parse_precision_def peek_def of_char_def va_u32_int bit_simps flag_bits)
qed

definition conv_char_ok :: "u8 \<Rightarrow> bool" where
  "conv_char_ok c \<longleftrightarrow> stops c \<and> c \<noteq> ascii (CHR ''.'') \<and> c \<notin> {ascii (CHR ''l''), ascii (CHR ''h''), ascii (CHR ''t''), ascii (CHR ''j''), ascii (CHR ''z'')}"

lemma parse_length_modifier:
  assumes "conv_char_ok c"
  shows "\<exists>f'. parse_length f (modifier_bytes m @ c # rest) = (f', c # rest)
     \<and> (\<forall>n. bit f' n \<longleftrightarrow> bit f n \<or> n = 6 \<and> m = Mod_hh \<or> n = 7 \<and> m \<in> {Mod_hh, Mod_h} \<or> n = 8 \<and> 64 \<le> type_bits m \<or> n = 9 \<and> m = Mod_ll)"
  using assms by (cases m) (auto simp: parse_length_def conv_char_ok_def peek_def Let_def of_char_def bit_simps flag_bits type_bits_def)

lemma modifier_stops: "conv_char_ok c \<Longrightarrow> stops (peek (modifier_bytes m @ c # rest)) \<and> peek (modifier_bytes m @ c # rest) \<noteq> ascii (CHR ''.'')"
  by (cases m) (auto simp: peek_def conv_char_ok_def stops_def is_digit_def flag_of_def of_char_def)

text \<open>The bits of the flag word of a directive.\<close>

definition flag_set :: "layout \<Rightarrow> modifier \<Rightarrow> nat \<Rightarrow> bool" where
  "flag_set l m n \<longleftrightarrow> n = 0 \<and> Zero \<in> set (flags_of l) \<or> n = 1 \<and> left_adjusted l \<or> n = 2 \<and> Plus \<in> set (flags_of l)
     \<or> n = 3 \<and> Space \<in> set (flags_of l) \<or> n = 4 \<and> Hash \<in> set (flags_of l) \<or> n = 6 \<and> m = Mod_hh \<or> n = 7 \<and> m \<in> {Mod_hh, Mod_h}
     \<or> n = 8 \<and> 64 \<le> type_bits m \<or> n = 9 \<and> m = Mod_ll \<or> n = 10 \<and> precision l \<noteq> None"

lemma parse_layout:
  assumes ok: "layout_ok l" and c: "conv_char_ok c"
  shows "\<exists>d. parse_directive (layout_bytes l m @ c # rest) (layout_args l @ va) = Some (d, rest, va) \<and> dspec d = c
     \<and> unat (dwidth d) = field_width l \<and> unat (dprec d) = (case precision l of None \<Rightarrow> 0 | Some p \<Rightarrow> p)
     \<and> (\<forall>n. bit (dflags d) n \<longleftrightarrow> flag_set l m n)"
proof -
  let ?r3 = "modifier_bytes m @ c # rest"
  let ?r2 = "(if prec_at l = Absent then [] else ascii (CHR ''.'') # amount_bytes (prec_at l)) @ ?r3"
  let ?r1 = "amount_bytes (width_at l) @ ?r2"
  note s3 = modifier_stops [OF c, of m rest]
  have s2: "stops (peek ?r2)" using s3 by (auto simp: peek_def stops_def is_digit_def flag_of_def of_char_def split: if_splits)
  have okw: "case width_at l of Absent \<Rightarrow> True | Num n \<Rightarrow> 0 < n \<and> n < 2 ^ 32 | Star w \<Rightarrow> \<bar>w\<bar> < 2 ^ 31"
    and okp: "case prec_at l of Absent \<Rightarrow> True | Num n \<Rightarrow> n < 2 ^ 32 | Star p \<Rightarrow> 0 \<le> p \<and> p < 2 ^ 31" using ok by (simp_all add: layout_ok_def)
  have s1: "flag_of (peek ?r1) = None"
  proof (cases "width_at l")
    case (Num n)
    have "flag_of x = None" if "is_digit x" "x \<noteq> 48" for x using that by (auto simp: flag_of_def is_digit_def of_char_def)
    then show ?thesis using Num okw numeral_peek [of n ?r2] by simp
  qed (use s2 in \<open>auto simp: stops_def peek_def flag_of_def of_char_def\<close>)
  obtain f1 where f1: "parse_flags 0 (map flag_byte (flags_of l) @ ?r1) = (f1, ?r1)" "\<And>n. bit f1 n \<longleftrightarrow> n \<in> flag_index ` set (flags_of l)"
    using parse_flags_list [OF s1, of 0 "flags_of l"] by auto
  obtain f2 w where f2: "parse_width f1 ?r1 (layout_args l @ va) = Some (f2, w, ?r2, amount_args (prec_at l) @ va)"
      "unat w = field_width l" "\<And>n. bit f2 n \<longleftrightarrow> bit f1 n \<or> n = 1 \<and> (case width_at l of Star w \<Rightarrow> w < 0 | _ \<Rightarrow> False)"
    using parse_width_amount [OF okw s2, of f1 "amount_args (prec_at l) @ va"] by (auto simp: layout_args_def field_width_def)
  have pr: "(case prec_at l of Absent \<Rightarrow> 0 | Num n \<Rightarrow> n | Star p \<Rightarrow> nat p) = (case precision l of None \<Rightarrow> 0 | Some p \<Rightarrow> p)"
    "prec_at l \<noteq> Absent \<longleftrightarrow> precision l \<noteq> None" using okp by (auto simp: precision_def split: amount.splits)
  obtain f3 p where f3: "parse_precision f2 ?r2 (amount_args (prec_at l) @ va) = Some (f3, p, ?r3, va)"
      "unat p = (case precision l of None \<Rightarrow> 0 | Some p \<Rightarrow> p)" "\<And>n. bit f3 n \<longleftrightarrow> bit f2 n \<or> n = 10 \<and> precision l \<noteq> None"
    using parse_precision_amount [OF okp conjunct1 [OF s3] conjunct2 [OF s3], of f2 va] unfolding pr by blast
  obtain f4 where f4: "parse_length f3 ?r3 = (f4, c # rest)"
      "\<And>n. bit f4 n \<longleftrightarrow> bit f3 n \<or> n = 6 \<and> m = Mod_hh \<or> n = 7 \<and> m \<in> {Mod_hh, Mod_h} \<or> n = 8 \<and> 64 \<le> type_bits m \<or> n = 9 \<and> m = Mod_ll"
    using parse_length_modifier [OF c, of f3 m rest] by blast
  have e: "layout_bytes l m @ c # rest = map flag_byte (flags_of l) @ ?r1" by (simp add: layout_bytes_def)
  have mem: "n \<in> flag_index ` set (flags_of l) \<longleftrightarrow> n = 0 \<and> Zero \<in> set (flags_of l) \<or> n = 1 \<and> Minus \<in> set (flags_of l)
      \<or> n = 2 \<and> Plus \<in> set (flags_of l) \<or> n = 3 \<and> Space \<in> set (flags_of l) \<or> n = 4 \<and> Hash \<in> set (flags_of l)" for n
  proof (cases "n < 5")
    case True
    then have "n \<in> {0, Suc 0, 2, 3, 4}" by auto
    then show ?thesis by (elim insertE) (simp_all add: flag_index_mem)
  qed (simp add: flag_index_mem(6))
  have "parse_directive (layout_bytes l m @ c # rest) (layout_args l @ va) = Some (\<lparr>dflags = f4, dwidth = w, dprec = p, dspec = c\<rparr>, rest, va)"
    unfolding e parse_directive_def using f1(1) f2(1) f3(1) f4(1) by simp
  moreover have "bit f4 n \<longleftrightarrow> flag_set l m n" for n
    unfolding f4(2) f3(3) f2(3) f1(2) mem flag_set_def left_adjusted_def by auto
  ultimately show ?thesis using f2(2) f3(2) by simp
qed

section \<open>Arguments\<close>

lemma typed_signed: "is_signed c \<Longrightarrow> typed_value m c v = signed_take_bit (type_bits m - 1) v"
  by (cases m) (simp_all add: typed_value_def type_bits_def signed_take_bit_eq_take_bit_shift take_bit_eq_mod Let_def)

lemma typed_unsigned: "\<not> is_signed c \<Longrightarrow> typed_value m c v = take_bit (type_bits m) v"
  by (simp add: typed_value_def Let_def take_bit_eq_mod)

lemma unat_ucast_up: "unat (ucast (x :: u8) :: u32) = unat x" "unat (ucast (y :: u16) :: u32) = unat y" "unat (ucast (z :: u32) :: u64) = unat z"
  using unsigned_less [of x, where 'a = nat] unsigned_less [of y, where 'a = nat] unsigned_less [of z, where 'a = nat]
  by (simp_all add: unsigned_ucast_eq take_bit_nat_eq_self_iff)

lemma signed_magnitude:
  fixes w :: "'l :: len word"
  assumes "sint w = t" and "t \<noteq> - (2 ^ (LENGTH('l) - 1))"
  shows "w <s 0 \<longleftrightarrow> t < 0" "unat (if 0 <s w then w else 0 - w) = nat \<bar>t\<bar>"
proof -
  show "w <s 0 \<longleftrightarrow> t < 0" using assms by (simp add: word_sless_alt)
  have r: "- (2 ^ (LENGTH('l) - 1)) \<le> t" "t < 2 ^ (LENGTH('l) - 1)"
    using assms(1) sint_greater_eq [of w] sint_less [of w] by simp_all
  have w: "w = of_int t" using assms(1) by (metis of_int_sint scast_id)
  have b: "(2 :: int) ^ (LENGTH('l) - 1) < 2 ^ LENGTH('l)" by simp
  have p: "unat (of_int x :: 'l word) = nat x" if "0 \<le> x" "x < 2 ^ (LENGTH('l) - 1)" for x
  proof -
    have "x < 2 ^ LENGTH('l)" using that(2) b by linarith
    then show ?thesis using that(1) by (simp add: unat_eq_nat_uint uint_word_of_int_eq take_bit_int_eq_self)
  qed
  have "0 <s w \<longleftrightarrow> 0 < t" using assms(1) by (simp add: word_sless_alt)
  then show "unat (if 0 <s w then w else 0 - w) = nat \<bar>t\<bar>"
    using p [of t] p [of "- t"] r assms(2) unfolding w by (cases "0 < t") auto
qed

lemma sint_u8_u32: "sint (scast (ucast (of_int v :: u32) :: u8) :: u32) = signed_take_bit 7 v"
  "sint (scast (ucast (of_int v :: u32) :: u16) :: u32) = signed_take_bit 15 v"
  "sint (of_int v :: u32) = signed_take_bit 31 v" "sint (of_int v :: u64) = signed_take_bit 63 v"
proof -
  have e: "ucast (of_int v :: u32) = (of_int v :: u8)" "ucast (of_int v :: u32) = (of_int v :: u16)"
    by (rule bit_eqI, simp add: bit_simps)+
  show "sint (scast (ucast (of_int v :: u32) :: u8) :: u32) = signed_take_bit 7 v"
    "sint (scast (ucast (of_int v :: u32) :: u16) :: u32) = signed_take_bit 15 v"
    unfolding e by (simp_all add: signed_scast_eq signed_of_int)
  show "sint (of_int v :: u32) = signed_take_bit 31 v" "sint (of_int v :: u64) = signed_take_bit 63 v"
    by (simp_all add: signed_of_int)
qed

definition modifier_flags :: "modifier \<Rightarrow> u32 \<Rightarrow> bool" where
  "modifier_flags m f \<longleftrightarrow> (bit f 6 \<longleftrightarrow> m = Mod_hh) \<and> (bit f 7 \<longleftrightarrow> m \<in> {Mod_hh, Mod_h}) \<and> (bit f 8 \<longleftrightarrow> 64 \<le> type_bits m)
     \<and> (bit f 9 \<longleftrightarrow> m = Mod_ll)"

lemma signed_arg_value:
  assumes f: "modifier_flags m f" and c: "is_signed c" and r: "32 \<le> type_bits m \<longrightarrow> typed_value m c v \<noteq> - (2 ^ (type_bits m - 1))"
  shows "\<exists>x. signed_arg f (VWord (of_int v) # va) = Some (x, typed_value m c v < 0, va) \<and> unat x = nat \<bar>typed_value m c v\<bar>"
proof -
  let ?t = "typed_value m c v"
  note t = typed_signed [OF c, of m v]
  show ?thesis
  proof (cases "64 \<le> type_bits m")
    case True
    then have k: "type_bits m = 64" by (cases m) (simp_all add: type_bits_def)
    let ?w = "of_int v :: u64"
    have s: "sint ?w = ?t" using t k sint_u8_u32(4) by simp
    have ne: "?t \<noteq> - (2 ^ (LENGTH(64) - 1))" using r k by simp
    have "sint LONG_MIN = - (2 ^ 63)" by (simp add: LONG_MIN_def)
    then have "?w \<noteq> LONG_MIN" using s ne by auto
    then show ?thesis using f True signed_magnitude [OF s ne] by (simp add: signed_arg_def has_bits modifier_flags_def)
  next
    case False
    let ?w = "(if bit f 6 then scast (ucast (of_int v :: u32) :: u8) else if bit f 7 then scast (ucast (of_int v :: u32) :: u16) else of_int v) :: u32"
    have s: "sint ?w = ?t" using f False t sint_u8_u32(1-3) by (cases m) (simp_all add: modifier_flags_def type_bits_def)
    have "type_bits m = 32 \<or> - (2 ^ 15) \<le> ?t"
      using signed_take_bit_int_greater_eq_minus_exp [of 7 v] signed_take_bit_int_greater_eq_minus_exp [of 15 v] t False
      by (cases m) (simp_all add: type_bits_def)
    then have ne: "?t \<noteq> - (2 ^ (LENGTH(32) - 1))" using r by auto
    have "sint INT_MIN = - (2 ^ 31)" by (simp add: INT_MIN_def)
    then have "?w \<noteq> INT_MIN" using s ne by auto
    moreover have "\<not> bit f 8" "\<not> bit f 9" using f False by (auto simp: modifier_flags_def type_bits_def)
    then have "signed_arg f (VWord (of_int v) # va) = (if ?w = INT_MIN then None else Some (ucast (if 0 <s ?w then ?w else 0 - ?w), ?w <s 0, va))"
      by (simp add: signed_arg_def has_bits va_u32_int Let_def)
    ultimately show ?thesis using signed_magnitude [OF s ne] unat_ucast_up(3) [of "if 0 <s ?w then ?w else 0 - ?w"] by simp
  qed
qed

lemma unsigned_arg_value:
  assumes f: "modifier_flags m f" and c: "\<not> is_signed c"
  shows "\<exists>x. unsigned_arg f (VWord (of_int v) # va) = Some (x, va) \<and> unat x = nat (typed_value m c v)"
proof -
  have e: "ucast (of_int v :: u32) = (of_int v :: u8)" "ucast (of_int v :: u32) = (of_int v :: u16)"
    by (rule bit_eqI, simp add: bit_simps)+
  have u: "unat (of_int v :: 'l :: len word) = nat (take_bit LENGTH('l) v)" by (simp add: unat_eq_nat_uint uint_word_of_int_eq)
  show ?thesis using f typed_unsigned [OF c, of m v]
    by (cases m) (simp_all add: unsigned_arg_def has_bits modifier_flags_def va_u32_int Let_def type_bits_def e u unat_ucast_up)
qed

section \<open>Numbers\<close>

lemma zero_fill_rev: "zero_fill n (rev E) = rev (replicate (min (unat n) 32 - length E) 48 @ E)"
  by (simp add: zero_fill_def PRINTF_NTOA_BUFFER_SIZE_def)

text \<open>The flag word of an integer conversion.\<close>

definition int_bits :: "layout \<Rightarrow> int_conv \<Rightarrow> u32 \<Rightarrow> bool" where
  "int_bits l c f \<longleftrightarrow> (bit f 0 \<longleftrightarrow> Zero \<in> set (flags_of l) \<and> precision l = None) \<and> (bit f 1 \<longleftrightarrow> left_adjusted l)
     \<and> (bit f 2 \<longleftrightarrow> is_signed c \<and> Plus \<in> set (flags_of l)) \<and> (bit f 3 \<longleftrightarrow> is_signed c \<and> Space \<in> set (flags_of l))
     \<and> (bit f 4 \<longleftrightarrow> Hash \<in> set (flags_of l) \<and> conv_base c \<noteq> 10) \<and> (bit f 5 \<longleftrightarrow> c = Conv_X) \<and> (bit f 10 \<longleftrightarrow> precision l \<noteq> None)"

lemma conv_bases: "unat b = conv_base c \<Longrightarrow> (b :: u32) = 16 \<longleftrightarrow> c = Conv_x \<or> c = Conv_X" "unat b = conv_base c \<Longrightarrow> b = 2 \<longleftrightarrow> c = Conv_b"
  by (cases c; auto simp: word_unat_eq_iff)+

lemma hash_kept:
  assumes b: "unat base = conv_base c" "conv_base c \<noteq> 10" and f: "int_bits l c f" and h: "Hash \<in> set (flags_of l)" and v: "v \<noteq> 0"
    and k: "has f FLAGS_PRECISION \<or> length B \<noteq> unat prec \<and> length B \<noteq> unat width" and len: "length B + length (base_prefix l c v) \<le> 32"
  shows "ntoa_hash base prec width f B = B @ rev (base_prefix l c v)"
proof -
  have k: "\<not> (\<not> has f FLAGS_PRECISION \<and> B \<noteq> [] \<and> (length B = unat prec \<or> length B = unat width))" using k by blast
  have "has f FLAGS_UPPERCASE \<longleftrightarrow> c = Conv_X" using f by (simp add: has_bits int_bits_def)
  then have "ntoa_hash base prec width f B = put_bounded 48 (if c = Conv_x then put_bounded (ascii (CHR ''x'')) B
      else if c = Conv_X then put_bounded (ascii (CHR ''X'')) B else if c = Conv_b then put_bounded (ascii (CHR ''b'')) B else B)"
    unfolding ntoa_hash_def Let_def if_not_P [OF k] conv_bases [OF b(1)] by (cases c) simp_all
  then show ?thesis using b(2) h v len by (cases c) (simp_all add: base_prefix_def put_bounded_def PRINTF_NTOA_BUFFER_SIZE_def)
qed

lemma hash_dropped:
  assumes b: "unat base = conv_base c" "conv_base c \<noteq> 10" "c \<noteq> Conv_b" and f: "int_bits l c f" and h: "Hash \<in> set (flags_of l)" and v: "v \<noteq> 0"
    and p: "precision l = None" and k: "k + length D = unat width" "unat width \<le> 32" "length (base_prefix l c v) \<le> k"
  shows "ntoa_hash base prec width f (rev (replicate k 48 @ D)) = rev (base_prefix l c v @ replicate (k - length (base_prefix l c v)) 48 @ D)"
proof -
  have np: "\<not> has f FLAGS_PRECISION" using f p by (simp add: has_bits int_bits_def)
  note S = ntoa_hash_def base_prefix_def put_bounded_def PRINTF_NTOA_BUFFER_SIZE_def Let_def butlast_append
  have up: "has f FLAGS_UPPERCASE \<longleftrightarrow> c = Conv_X" using f by (simp add: has_bits int_bits_def)
  show ?thesis
  proof (cases "c = Conv_o")
    case True
    then obtain j where "k = Suc j" using k(3) h v by (cases k) (auto simp: base_prefix_def)
    then show ?thesis using True k np up h v conv_bases [OF b(1)] by (simp add: S replicate_append_same [symmetric])
  next
    case False
    then have c: "c = Conv_x \<or> c = Conv_X" using b by (cases c) auto
    then have "2 \<le> k" using k(3) h v by (auto simp: base_prefix_def)
    then obtain j where "k = Suc (Suc j)" by (metis One_nat_def Suc_1 Suc_le_D Suc_le_mono not_less_eq_eq)
    then show ?thesis using c k np up h v conv_bases [OF b(1)] by (auto simp: S replicate_append_same [symmetric])
  qed
qed

text \<open>The digits as the buffer holds them after the precision has been applied.\<close>

lemma prec_fill:
  assumes p: "precision l = Some p" and pr: "unat prec = p" and ok: "int_ok l m c t" and f: "int_bits l c f"
  defines "E \<equiv> if t = 0 then [] else digits_text l c t"
  shows "(if \<not> has f FLAGS_LEFT then zero_fill prec (rev E) else rev E) = rev (replicate (zeros_count l c t) 48 @ digits_text l c t)"
proof -
  have len: "length (replicate (zeros_count l c t) (48 :: u8) @ digits_text l c t) \<le> 32" using ok by (simp add: int_ok_def int_number_def)
  have z: "zeros_count l c t = p - length (digits_text l c t)" using p by (simp add: zeros_count_def)
  have d0: "digits_text l c 0 = (if p = 0 then [] else [48])"
    using p by (cases c) (simp_all add: digits_text_def numeral_text.simps [of _ _ 0] digit_byte_def of_char_def)
  show ?thesis
  proof (cases "left_adjusted l")
    case True
    then have lp: "p = 0 \<or> t \<noteq> 0 \<and> p \<le> length (digits_text l c t)" using ok p by (simp add: int_ok_def)
    then have "E = digits_text l c t" "zeros_count l c t = 0" using z d0 by (auto simp: E_def)
    then show ?thesis using True f by (simp add: has_bits int_bits_def)
  next
    case False
    have "min p 32 - length E = p - length E" using len z d0 by (auto simp: E_def min_def split: if_splits)
    moreover have "replicate (p - length E) 48 @ E = replicate (zeros_count l c t) 48 @ digits_text l c t"
    proof (cases "t = 0 \<and> p \<noteq> 0")
      case True
      then obtain q where "p = Suc q" by (cases p) auto
      then show ?thesis using True z d0 by (simp add: E_def replicate_append_same [symmetric])
    qed (use z d0 in \<open>auto simp: E_def\<close>)
    ultimately show ?thesis using False f pr by (simp add: zero_fill_rev has_bits int_bits_def)
  qed
qed
lemma number_digits:
  fixes base :: u32
  assumes b: "unat base = conv_base c" and f: "int_bits l c f" and v: "unat x = nat \<bar>t\<bar>"
    and len: "length (digits_text l c t) \<le> 32" and fu: "has g FLAGS_UPPERCASE \<longleftrightarrow> c = Conv_X" and nz: "\<not> (t = 0 \<and> precision l \<noteq> None)"
  shows "ntoa_digits 32 g (ucast base) x = rev (digits_text l c t)"
proof -
  have u: "unat (ucast base :: u64) = conv_base c" using b unat_ucast_up(3) by simp
  then have "2 \<le> (ucast base :: u64)" "(ucast base :: u64) \<le> 16" by (cases c; simp add: word_le_nat_alt)+
  note N = ntoa_numeral [OF this, of g x 32, unfolded u v fu]
  have d: "digits_text l c t = numeral_text (conv_base c) (c = Conv_X) (nat \<bar>t\<bar>)" using nz by (auto simp: digits_text_def)
  show ?thesis using N len unfolding d by (metis rev_rev_ident)
qed

lemma start_digits:
  fixes base :: u32
  assumes b: "unat base = conv_base c" and f: "int_bits l c f" and v: "unat x = nat \<bar>t\<bar>" and ok: "int_ok l m c t"
  shows "\<exists>g. ntoa_start x (ucast base) f = (rev (if t = 0 \<and> precision l \<noteq> None then [] else digits_text l c t), g)
     \<and> (\<forall>n. bit g n \<longleftrightarrow> bit f n \<and> (n = 4 \<longrightarrow> t \<noteq> 0))"
proof -
  have x0: "x = 0 \<longleftrightarrow> t = 0" using v by (auto simp: word_unat_eq_iff)
  let ?g = "if x = 0 then f AND NOT FLAGS_HASH else f"
  have g: "bit ?g n \<longleftrightarrow> bit f n \<and> (n = 4 \<longrightarrow> t \<noteq> 0)" for n
    using x0 bit_imp_le_length [of f n] by (auto simp: bit_simps flag_bits)
  have len: "length (digits_text l c t) \<le> 32" using ok by (simp add: int_ok_def int_number_def)
  have "has ?g FLAGS_UPPERCASE \<longleftrightarrow> c = Conv_X" "has ?g FLAGS_PRECISION \<longleftrightarrow> precision l \<noteq> None"
    using g f by (simp_all add: has_bits int_bits_def)
  then show ?thesis using number_digits [OF b f v len, of ?g] x0 g by (simp add: ntoa_start_def Let_def PRINTF_NTOA_BUFFER_SIZE_def)
qed

lemma sign_appended:
  assumes f: "\<forall>n. n \<noteq> 4 \<longrightarrow> bit g n = bit f n" "int_bits l c f" and neg: "neg \<longleftrightarrow> t < 0" and len: "length B + length (sign_text l c t) \<le> 32"
  shows "ntoa_sign neg g B = B @ rev (sign_text l c t)"
proof -
  have "has g FLAGS_PLUS \<longleftrightarrow> is_signed c \<and> Plus \<in> set (flags_of l)" "has g FLAGS_SPACE \<longleftrightarrow> is_signed c \<and> Space \<in> set (flags_of l)"
    using f by (simp_all add: has_bits int_bits_def)
  then show ?thesis using neg len by (auto simp: ntoa_sign_def sign_text_def PRINTF_NTOA_BUFFER_SIZE_def)
qed

lemma sign_present:
  assumes "int_bits l c f" and "\<not> is_signed c \<longrightarrow> 0 \<le> t"
  shows "t < 0 \<or> has f (FLAGS_PLUS OR FLAGS_SPACE) \<longleftrightarrow> sign_text l c t \<noteq> []"
  using assms by (auto simp: has_bits int_bits_def sign_text_def)

lemma unsigned_sign: "\<not> is_signed c \<Longrightarrow> 0 \<le> t \<Longrightarrow> sign_text l c t = []"
  by (simp add: sign_text_def)

lemma sign_length: "length (sign_text l c t) = (if sign_text l c t = [] then 0 else 1)"
  by (simp add: sign_text_def)

lemma prefix_base: "base_prefix l c t \<noteq> [] \<Longrightarrow> Hash \<in> set (flags_of l) \<and> t \<noteq> 0 \<and> conv_base c \<noteq> 10 \<and> \<not> is_signed c"
  by (cases c) (auto simp: base_prefix_def is_signed_def split: if_splits)

lemma prefix_none: "Hash \<in> set (flags_of l) \<and> conv_base c \<noteq> 10 \<and> t \<noteq> 0 \<longleftrightarrow> base_prefix l c t \<noteq> []"
  by (cases c) (auto simp: base_prefix_def)

lemma int_bits_transfer: "\<forall>n. n \<noteq> 4 \<longrightarrow> bit g n = bit f n \<Longrightarrow> int_bits l c f \<Longrightarrow>
   (bit g 0 \<longleftrightarrow> Zero \<in> set (flags_of l) \<and> precision l = None) \<and> (bit g 1 \<longleftrightarrow> left_adjusted l) \<and> (bit g 10 \<longleftrightarrow> precision l \<noteq> None)"
  by (simp add: int_bits_def)

text \<open>The buffer before sign, prefix and digits are put out.\<close>

lemma buffer_number:
  fixes base prec width :: u32
  assumes b: "unat base = conv_base c" and f: "int_bits l c f" and t: "\<not> is_signed c \<longrightarrow> 0 \<le> t" and ok: "int_ok l m c t"
    and w: "unat width = field_width l" and pr: "unat prec = (case precision l of None \<Rightarrow> 0 | Some p \<Rightarrow> p)"
    and g: "\<And>n. bit g n \<longleftrightarrow> bit f n \<and> (n = 4 \<longrightarrow> t \<noteq> 0)" and neg: "neg \<longleftrightarrow> t < 0"
  defines "E \<equiv> if t = 0 \<and> precision l \<noteq> None then [] else digits_text l c t"
  shows "\<exists>w'. ntoa_buffer (rev E) neg base prec width g = (rev (int_number l c t), w')
     \<and> (Zero \<in> set (flags_of l) \<and> precision l = None \<and> \<not> left_adjusted l \<or> w' = width)"
proof -
  let ?zp = "Zero \<in> set (flags_of l) \<and> precision l = None" and ?L = "left_adjusted l"
  let ?s = "sign_text l c t" and ?p = "base_prefix l c t" and ?D = "digits_text l c t" and ?z = "zeros_count l c t"
  have gb: "bit g 0 \<longleftrightarrow> ?zp" "bit g 1 \<longleftrightarrow> ?L" "bit g 10 \<longleftrightarrow> precision l \<noteq> None" "bit g 4 \<longleftrightarrow> ?p \<noteq> []"
    using g f prefix_none [of l c t] by (auto simp: int_bits_def)
  have gf: "\<forall>n. n \<noteq> 4 \<longrightarrow> bit g n = bit f n" using g by blast
  have sg: "neg \<or> has g (FLAGS_PLUS OR FLAGS_SPACE) \<longleftrightarrow> ?s \<noteq> []"
    using sign_present [OF f t] gf neg by (simp add: has_bits)
  have fit: "length ?s + length ?p + ?z + length ?D \<le> 32" using ok by (simp add: int_ok_def int_number_def)
  define w' where "w' = (if \<not> ?L \<and> width \<noteq> 0 \<and> ?zp \<and> ?s \<noteq> [] then width - 1 else width)"
  define B where "B = (if \<not> ?L then zero_fill prec (rev E) else rev E)"
  define B2 where "B2 = (if \<not> ?L \<and> ?zp then zero_fill w' B else B)"
  have buf: "ntoa_buffer (rev E) neg base prec width g = (ntoa_sign neg g (if ?p \<noteq> [] then ntoa_hash base prec w' g B2 else B2), w')"
    using gb sg unfolding ntoa_buffer_def Let_def has_bits w'_def B_def B2_def by simp
  have kept: "ntoa_hash base prec w' g C = C @ rev ?p" if "?p \<noteq> []" "length C + length ?p \<le> 32"
      "precision l \<noteq> None \<or> length C \<noteq> unat prec \<and> length C \<noteq> unat w'" for C
  proof -
    note p = prefix_base [OF that(1)]
    have "g = f" by (rule bit_eqI) (use g p in simp)
    moreover have "has f FLAGS_PRECISION \<longleftrightarrow> precision l \<noteq> None" using f by (simp add: has_bits int_bits_def)
    ultimately show ?thesis using hash_kept [OF b _ f] p that by simp
  qed
  have fin: "(if ?p \<noteq> [] then ntoa_hash base prec w' g B2 else B2) = rev (?p @ replicate ?z 48 @ ?D)"
  proof (cases "precision l")
    case (Some p)
    have L: "has f FLAGS_LEFT \<longleftrightarrow> ?L" using f by (simp add: has_bits int_bits_def)
    have pp: "unat prec = p" and E: "E = (if t = 0 then [] else ?D)" using pr Some by (simp_all add: E_def)
    have "B = rev (replicate ?z 48 @ ?D)" unfolding B_def E by (rule prec_fill [OF Some pp ok f, unfolded L])
    then have "B2 = rev (replicate ?z 48 @ ?D)" using Some by (simp add: B2_def)
    then show ?thesis using kept [of B2] fit Some by simp
  next
    case None
    have D: "?D \<noteq> []" using None by (simp add: digits_text_def)
    have B: "B = rev ?D" using None pr by (simp add: B_def E_def zero_fill_rev)
    have us: "?s = [] \<and> w' = width" if "?p \<noteq> []" using prefix_base [OF that] unsigned_sign [of c t l] t by (simp add: w'_def)
    show ?thesis
    proof (cases "?zp \<and> \<not> ?L")
      case True
      have z: "?z = field_width l - (length ?s + length ?p + length ?D)" using True by (simp add: zeros_count_def)
      have uw: "unat w' = field_width l - length ?s"
        using w True sign_length [of l c t] unat_gt_0 [of width] by (auto simp: w'_def unat_minus_one)
      have B2: "B2 = rev (replicate (min (unat w') 32 - length ?D) 48 @ ?D)" using True B by (simp add: B2_def zero_fill_rev)
      show ?thesis
      proof (cases "?p = []")
        case p: True
        have "min (unat w') 32 - length ?D = ?z" using z uw fit p by (auto simp: min_def)
        then show ?thesis using B2 p by simp
      next
        case p: False
        note pb = prefix_base [OF p]
        consider (none) "field_width l = 0" | (room) "c \<noteq> Conv_b" "length ?p + length ?D \<le> field_width l" | (big) "field_width l < length ?D"
          using ok p None True by (auto simp: int_ok_def hash_ok_def)
        then show ?thesis
        proof cases
          case room
          have "g = f" by (rule bit_eqI) (use g pb in simp)
          moreover have "field_width l \<le> 32" using fit z us [OF p] room by simp
          ultimately show ?thesis
            using hash_dropped [OF b _ room(1) f, where D = ?D and v = t and width = w' and prec = prec and k = "field_width l - length ?D"]
              pb None p us [OF p] w room z B2 by (simp add: diff_diff_left add.commute)
        qed (use kept [of "rev ?D"] B2 p pb uw us [OF p] w fit z pr None D in auto)
      qed
    next
      case False
      then have z: "?z = 0" and B2: "B2 = rev ?D" using None B by (auto simp: zeros_count_def B2_def)
      have "field_width l = 0 \<or> length ?D \<noteq> field_width l" if "?p \<noteq> []" using that ok None False by (auto simp: int_ok_def hash_ok_def)
      then show ?thesis using kept [of "rev ?D"] z B2 us w fit pr None D by auto
    qed
  qed
  have "ntoa_sign neg g (rev (?p @ replicate ?z 48 @ ?D)) = rev (?p @ replicate ?z 48 @ ?D) @ rev ?s"
    by (rule sign_appended [OF gf f neg]) (use fit in simp)
  then have "ntoa_sign neg g (if ?p \<noteq> [] then ntoa_hash base prec w' g B2 else B2) = rev (int_number l c t)"
    unfolding fin by (simp add: int_number_def)
  then show ?thesis unfolding buf w'_def by auto
qed

lemma number_text_spec:
  fixes base prec width :: u32
  assumes b: "unat base = conv_base c" and f: "int_bits l c f" and t: "\<not> is_signed c \<longrightarrow> 0 \<le> t" and ok: "int_ok l m c t"
    and w: "unat width = field_width l" and pr: "unat prec = (case precision l of None \<Rightarrow> 0 | Some p \<Rightarrow> p)"
    and v: "unat x = nat \<bar>t\<bar>" and neg: "neg \<longleftrightarrow> t < 0"
  shows "number_text x neg base prec width f = in_field l (int_number l c t)"
proof -
  obtain g where g: "ntoa_start x (ucast base) f = (rev (if t = 0 \<and> precision l \<noteq> None then [] else digits_text l c t), g)"
      "\<And>n. bit g n \<longleftrightarrow> bit f n \<and> (n = 4 \<longrightarrow> t \<noteq> 0)"
    using start_digits [OF b f v ok] by blast
  obtain w' where w': "ntoa_buffer (rev (if t = 0 \<and> precision l \<noteq> None then [] else digits_text l c t)) neg base prec width g = (rev (int_number l c t), w')"
      "Zero \<in> set (flags_of l) \<and> precision l = None \<and> \<not> left_adjusted l \<or> w' = width"
    using buffer_number [OF b f t ok w pr g(2) neg] by blast
  have gb: "has g FLAGS_ZEROPAD \<longleftrightarrow> Zero \<in> set (flags_of l) \<and> precision l = None" "has g FLAGS_LEFT \<longleftrightarrow> left_adjusted l"
    using g(2) f by (simp_all add: has_bits int_bits_def)
  have "field_width l \<le> length (int_number l c t)" if "Zero \<in> set (flags_of l)" "precision l = None" "\<not> left_adjusted l"
    using that by (simp add: int_number_def zeros_count_def)
  then show ?thesis using g(1) w' w gb by (auto simp: number_text_def rev_text_def pad_left_def in_field_def Let_def)
qed

section \<open>Conversions\<close>

lemma int_conv_bytes:
  "is_int_spec (conv_byte c)" "is_signed_spec (conv_byte c) \<longleftrightarrow> is_signed c" "unat (int_base (conv_byte c)) = conv_base c"
  "int_base (conv_byte c) = 10 \<longleftrightarrow> conv_base c = 10" "conv_byte c = ascii (CHR ''X'') \<longleftrightarrow> c = Conv_X" "conv_char_ok (conv_byte c)"
  by (cases c; simp add: is_int_spec_def is_signed_spec_def int_base_def is_signed_def of_char_def conv_char_ok_def stops_def is_digit_def flag_of_def)+

lemma int_flags_bits:
  assumes "\<And>n. bit F n \<longleftrightarrow> flag_set l m n"
  shows "int_bits l c (int_flags (conv_byte c) F)" "modifier_flags m (int_flags (conv_byte c) F)"
proof -
  have clear: "bit (f AND NOT FLAGS_HASH) n \<longleftrightarrow> bit f n \<and> n \<noteq> 4" "bit (f AND NOT FLAGS_ZEROPAD) n \<longleftrightarrow> bit f n \<and> n \<noteq> 0"
    "bit (f AND NOT (FLAGS_PLUS OR FLAGS_SPACE)) n \<longleftrightarrow> bit f n \<and> n \<noteq> 2 \<and> n \<noteq> 3" for f n
    using bit_imp_le_length [of f n] by (auto simp: bit_simps flag_bits)
  define f1 where "f1 = (if conv_base c = 10 then F AND NOT FLAGS_HASH else F)"
  define f2 where "f2 = (if c = Conv_X then f1 OR FLAGS_UPPERCASE else f1)"
  define f3 where "f3 = (if is_signed c then f2 else f2 AND NOT (FLAGS_PLUS OR FLAGS_SPACE))"
  have b1: "bit f1 n \<longleftrightarrow> flag_set l m n \<and> \<not> (n = 4 \<and> conv_base c = 10)" for n unfolding f1_def using clear(1) assms by auto
  have b2: "bit f2 n \<longleftrightarrow> bit f1 n \<or> n = 5 \<and> c = Conv_X" for n unfolding f2_def by (auto simp: bit_simps flag_bits)
  have b3: "bit f3 n \<longleftrightarrow> bit f2 n \<and> (is_signed c \<or> n \<noteq> 2 \<and> n \<noteq> 3)" for n unfolding f3_def using clear(3) by auto
  have p: "has f3 FLAGS_PRECISION \<longleftrightarrow> precision l \<noteq> None" using b1 b2 b3 by (simp add: has_bits flag_set_def)
  have e: "int_flags (conv_byte c) F = (if precision l \<noteq> None then f3 AND NOT FLAGS_ZEROPAD else f3)"
    unfolding p [symmetric] f1_def f2_def f3_def int_flags_def Let_def int_conv_bytes by simp
  have b4: "bit (int_flags (conv_byte c) F) n \<longleftrightarrow> bit f3 n \<and> (n = 0 \<longrightarrow> precision l = None)" for n unfolding e using clear(2) by auto
  show "int_bits l c (int_flags (conv_byte c) F)" "modifier_flags m (int_flags (conv_byte c) F)"
    unfolding int_bits_def modifier_flags_def b4 b3 b2 b1 by (auto simp: flag_set_def)
qed

lemma typed_nonneg: "\<not> is_signed c \<Longrightarrow> 0 \<le> typed_value m c v"
  by (simp add: typed_value_def Let_def)

lemma integer_directive:
  assumes F: "\<And>n. bit (dflags d) n \<longleftrightarrow> flag_set l m n" and d: "dspec d = conv_byte c" "unat (dwidth d) = field_width l"
      "unat (dprec d) = (case precision l of None \<Rightarrow> 0 | Some p \<Rightarrow> p)" and ok: "int_ok l m c (typed_value m c v)"
  shows "directive_text d (VWord (of_int v) # va) = Some (piece_text (Integer l m c v), va)"
proof -
  let ?f = "int_flags (conv_byte c) (dflags d)" and ?t = "typed_value m c v"
  note B = int_flags_bits [OF F, of c]
  have t: "\<not> is_signed c \<longrightarrow> 0 \<le> ?t" using typed_nonneg by blast
  note N = number_text_spec [OF int_conv_bytes(3) B(1) t ok d(2,3)]
  show ?thesis
  proof (cases "is_signed c")
    case True
    obtain x where x: "signed_arg ?f (VWord (of_int v) # va) = Some (x, ?t < 0, va)" "unat x = nat \<bar>?t\<bar>"
      using signed_arg_value [OF B(2) True] ok True by (auto simp: int_ok_def)
    show ?thesis using x(1) N [OF x(2) refl] True by (simp add: directive_text_def int_text_def d(1) int_conv_bytes Let_def)
  next
    case False
    obtain x where x: "unsigned_arg ?f (VWord (of_int v) # va) = Some (x, va)" "unat x = nat ?t"
      using unsigned_arg_value [OF B(2) False] by blast
    have "unat x = nat \<bar>?t\<bar>" "False \<longleftrightarrow> ?t < 0" using x(2) typed_nonneg [OF False, of m v] by simp_all
    from N [OF this] show ?thesis using x(1) False by (simp add: directive_text_def int_text_def d(1) int_conv_bytes Let_def)
  qed
qed

lemma other_bytes: "conv_char_ok (ascii (CHR ''c''))" "conv_char_ok (ascii (CHR ''s''))" "\<not> is_int_spec (ascii (CHR ''c''))" "\<not> is_int_spec (ascii (CHR ''s''))"
  "\<not> is_int_spec (ascii (CHR ''p''))" "\<not> is_int_spec 37"
  by (simp_all add: of_char_def conv_char_ok_def stops_def is_digit_def flag_of_def is_int_spec_def)

lemma character_directive:
  assumes F: "\<And>n. bit (dflags d) n \<longleftrightarrow> flag_set l m n" and d: "dspec d = ascii (CHR ''c'')" "unat (dwidth d) = field_width l"
  shows "directive_text d (VWord (of_int v) # va) = Some (piece_text (Character l m v), va)"
proof -
  have "has (dflags d) FLAGS_LEFT \<longleftrightarrow> left_adjusted l" using F by (simp add: has_bits flag_set_def)
  moreover have "ucast (of_int v :: u32) = (of_int v :: u8)" by (rule bit_eqI) (simp add: bit_simps)
  ultimately show ?thesis
    using d other_bytes(3) by (auto simp: directive_text_def char_text_def va_u32_int pad_left_def in_field_def Let_def)
qed

lemma strnlen_take: "unat k \<le> length p \<or> length p < 2 ^ 64 \<Longrightarrow> strnlen_s p k = min (length p) (unat k)"
proof (induction p arbitrary: k)
  case (Cons a p)
  have "unat k = Suc (unat (k - 1))" if "k \<noteq> 0" using that unat_gt_0 [of k] by (simp add: unat_minus_one)
  then show ?case using Cons by (cases "k = 0") auto
qed simp

lemma text_directive:
  assumes F: "\<And>n. bit (dflags d) n \<longleftrightarrow> flag_set l m n" and d: "dspec d = ascii (CHR ''s'')" "unat (dwidth d) = field_width l"
      "unat (dprec d) = (case precision l of None \<Rightarrow> 0 | Some p \<Rightarrow> p)" and len: "length bs < 2 ^ 32"
  shows "directive_text d (VStr p bs # va) = Some (piece_text (Text l m p bs), va)"
proof -
  have L: "has (dflags d) FLAGS_LEFT \<longleftrightarrow> left_adjusted l" "has (dflags d) FLAGS_PRECISION \<longleftrightarrow> precision l \<noteq> None"
    using F by (simp_all add: has_bits flag_set_def)
  let ?k = "if dprec d \<noteq> 0 then ucast (dprec d) else - 1 :: u64"
  have m1: "unat (- 1 :: u64) = 2 ^ 64 - 1" by (simp add: unsigned_minus_1_eq_mask mask_eq_exp_minus_1)
  have k: "unat ?k = (if dprec d \<noteq> 0 then unat (dprec d) else 2 ^ 64 - 1)" using m1 by (simp add: unat_ucast_up)
  have n: "strnlen_s bs ?k = min (length bs) (unat ?k)" by (rule strnlen_take) (use len in simp)
  have "strnlen_s bs ?k < 2 ^ 32" using n len by simp
  then have u: "unat (of_nat (strnlen_s bs ?k) :: u32) = strnlen_s bs ?k" by (simp add: unat_of_nat)
  have z: "dprec d = 0 \<longleftrightarrow> unat (dprec d) = 0" by (simp add: word_unat_eq_iff)
  have sl: "unat (str_len d bs) = length (cut_text l bs)"
  proof (cases "precision l")
    case None
    then show ?thesis using L(2) u n k z d(3) len by (simp add: str_len_def Let_def cut_text_def)
  next
    case (Some q)
    then have "unat (dprec d) = q" using d(3) by simp
    then show ?thesis using Some L(2) u n k z len by (auto simp: str_len_def Let_def cut_text_def word_less_nat_alt min_def)
  qed
  have "(if has (dflags d) FLAGS_PRECISION then take (unat (dprec d)) bs else bs) = cut_text l bs"
    using L(2) d(3) by (cases "precision l") (simp_all add: cut_text_def)
  then show ?thesis
    using L(1) sl d(1,2) other_bytes(4) by (auto simp: directive_text_def str_text_def pad_left_def in_field_def Let_def of_char_def)
qed

lemma numeral_text_length:
  assumes "2 \<le> b"
  shows "n < b ^ Suc k \<Longrightarrow> length (numeral_text b u n) \<le> Suc k"
proof (induction k arbitrary: n)
  case 0
  then show ?case by (simp add: numeral_text.simps [of b u n])
next
  case (Suc k)
  have "n div b < b ^ Suc k" using Suc.prems assms by (simp add: less_mult_imp_div_less mult.commute)
  from Suc.IH [OF this] show ?case by (subst numeral_text.simps) simp
qed

lemma pointer_directive:
  assumes d: "dflags d = 0" "dprec d = 0" "dspec d = ascii (CHR ''p'')"
  shows "directive_text d (VWord (of_int v) # va) = Some (piece_text (Pointer v), va)"
proof -
  let ?l = "\<lparr>flags_of = [Zero], width_at = Num 16, prec_at = Absent\<rparr>" and ?t = "v mod 2 ^ 64" and ?f = "FLAGS_ZEROPAD OR FLAGS_UPPERCASE"
  let ?h = "numeral_text 16 True (nat ?t)"
  have s: "sign_text ?l Conv_X ?t = []" "base_prefix ?l Conv_X ?t = []" "digits_text ?l Conv_X ?t = ?h" "precision ?l = None"
    "field_width ?l = 16" "\<not> left_adjusted ?l"
    by (simp_all add: sign_text_def is_signed_def base_prefix_def digits_text_def precision_def field_width_def left_adjusted_def)
  have h: "length ?h \<le> 16" using numeral_text_length [of 16 "nat ?t" 15 True] by (simp add: nat_less_iff)
  have z: "zeros_count ?l Conv_X ?t = 16 - length ?h" using s by (simp add: zeros_count_def)
  have n: "int_number ?l Conv_X ?t = replicate (16 - length ?h) 48 @ ?h" using s z by (simp add: int_number_def)
  have ok: "int_ok ?l Mod_l Conv_X ?t" using h n s by (simp add: int_ok_def hash_ok_def is_signed_def)
  have f: "int_bits ?l Conv_X ?f" using s by (simp add: int_bits_def bit_simps flag_bits is_signed_def)
  have v: "unat (of_int v :: u64) = nat \<bar>?t\<bar>" by (simp add: unat_eq_nat_uint uint_word_of_int_eq take_bit_eq_mod)
  have "number_text (of_int v) False 16 0 16 ?f = in_field ?l (int_number ?l Conv_X ?t)"
    by (rule number_text_spec [OF _ f _ ok _ _ v]) (simp_all add: s is_signed_def)
  then have "number_text (of_int v) False 16 0 16 ?f = piece_text (Pointer v)"
    using h n s by (simp add: in_field_def Let_def)
  then show ?thesis using d other_bytes(5) by (simp add: directive_text_def ptr_text_def of_char_def)
qed

abbreviation "plain_layout \<equiv> \<lparr>flags_of = [], width_at = Absent, prec_at = Absent\<rparr>"

lemma parse_plain:
  assumes "conv_char_ok c"
  shows "\<exists>d. parse_directive (c # rest) va = Some (d, rest, va) \<and> dspec d = c \<and> dflags d = 0 \<and> dprec d = 0"
proof -
  have "\<not> flag_set plain_layout No_mod n" for n by (simp add: flag_set_def left_adjusted_def precision_def type_bits_def)
  then have "(\<forall>n. bit w n \<longleftrightarrow> flag_set plain_layout No_mod n) \<longleftrightarrow> w = 0" for w :: u32 by (auto intro!: bit_eqI)
  moreover have "unat w = 0 \<longleftrightarrow> w = 0" for w :: u32 by (simp add: word_unat_eq_iff)
  ultimately show ?thesis using parse_layout [of plain_layout c No_mod rest va] assms
    by (auto simp: layout_ok_def layout_bytes_def layout_args_def precision_def)
qed

lemma piece_format:
  assumes "supported p"
  shows "format_text (render p @ fmt) (args p @ va) = map_option ((@) (piece_text p)) (format_text fmt va)"
proof (cases p)
  case (Lit c)
  then show ?thesis using assms by (cases "format_text fmt va") simp_all
next
  case Percent
  have "conv_char_ok 37" by (simp add: of_char_def conv_char_ok_def stops_def is_digit_def flag_of_def)
  from parse_plain [OF this, of fmt va] obtain d where "parse_directive (37 # fmt) va = Some (d, fmt, va)" "dspec d = 37" by blast
  then show ?thesis using Percent other_bytes(6) by (simp add: directive_text_def of_char_def)
next
  case (Pointer v)
  have "conv_char_ok (ascii (CHR ''p''))" by (simp add: of_char_def conv_char_ok_def stops_def is_digit_def flag_of_def)
  from parse_plain [OF this, of fmt "VWord (of_int v) # va"] obtain d where d: "parse_directive (ascii (CHR ''p'') # fmt) (VWord (of_int v) # va) = Some (d, fmt, VWord (of_int v) # va)"
    "dspec d = ascii (CHR ''p'')" "dflags d = 0" "dprec d = 0" by blast
  show ?thesis using Pointer d(1) pointer_directive [OF d(3,4,2)] by simp
next
  case (Integer l m c v)
  obtain d where d: "parse_directive (layout_bytes l m @ conv_byte c # fmt) (layout_args l @ VWord (of_int v) # va) = Some (d, fmt, VWord (of_int v) # va)"
      "dspec d = conv_byte c" "unat (dwidth d) = field_width l" "unat (dprec d) = (case precision l of None \<Rightarrow> 0 | Some p \<Rightarrow> p)"
      "\<And>n. bit (dflags d) n \<longleftrightarrow> flag_set l m n"
    using parse_layout [OF _ int_conv_bytes(6), of l m c fmt "VWord (of_int v) # va"] assms Integer by auto
  show ?thesis using Integer assms d(1) integer_directive [OF d(5,2,3,4), of v va] by simp
next
  case (Character l m v)
  obtain d where d: "parse_directive (layout_bytes l m @ ascii (CHR ''c'') # fmt) (layout_args l @ VWord (of_int v) # va) = Some (d, fmt, VWord (of_int v) # va)"
      "dspec d = ascii (CHR ''c'')" "unat (dwidth d) = field_width l" "\<And>n. bit (dflags d) n \<longleftrightarrow> flag_set l m n"
    using parse_layout [OF _ other_bytes(1), of l m fmt "VWord (of_int v) # va"] assms Character by auto
  show ?thesis using Character d(1) character_directive [OF d(4,2,3), of v va] by simp
next
  case (Text l m p bs)
  obtain d where d: "parse_directive (layout_bytes l m @ ascii (CHR ''s'') # fmt) (layout_args l @ VStr p bs # va) = Some (d, fmt, VStr p bs # va)"
      "dspec d = ascii (CHR ''s'')" "unat (dwidth d) = field_width l" "unat (dprec d) = (case precision l of None \<Rightarrow> 0 | Some p \<Rightarrow> p)"
      "\<And>n. bit (dflags d) n \<longleftrightarrow> flag_set l m n"
    using parse_layout [OF _ other_bytes(2), of l m fmt "VStr p bs # va"] assms Text by auto
  show ?thesis using Text assms d(1) text_directive [OF d(5,2,3,4), of bs p va] by simp
qed

lemma pieces_format:
  "\<forall>p \<in> set ps. supported p \<Longrightarrow> format_text (concat (map render ps)) (concat (map args ps) @ va) = Some (concat (map piece_text ps))"
proof (induction ps)
  case (Cons p ps)
  then show ?case using piece_format [of p "concat (map render ps)" "concat (map args ps) @ va"] by simp
qed simp

section \<open>The formatter prints the text\<close>

text \<open>C21: what is printed is the text that the format asks for, whatever function receives it: for every call made
  of plain bytes and of the directives \<^verbatim>\<open>%d %i %u %x %X %o %b %c %s %p %%\<close> with flags, width, precision and length modifier
  inside the supported range, \<^verbatim>\<open>_vsnprintf\<close> hands exactly the bytes of the reference text to its output function, one
  by one with increasing indices, then the terminating NUL at the index after the last byte or at the last byte of the
  buffer, and returns the length. The reference computes sign, base prefix, leading zeros, digits and padding by
  integer arithmetic from the rules of the language.\<close>

theorem vsnprintf_prints_text:
  fixes ps :: "piece list"
  assumes "buffer \<noteq> NULL" and "\<forall>p \<in> set ps. supported p"
  defines "t \<equiv> concat (map piece_text ps)"
  shows "vsnprintf out buffer maxlen (concat (map render ps)) (concat (map args ps) @ va) =
     bindk (emits out buffer maxlen t 0) (\<lambda>_.
     bindk (out 0 buffer (if of_nat (length t) < maxlen then of_nat (length t) else maxlen - 1) maxlen) (\<lambda>_.
     retk (sint (of_nat (length t) :: u32))))"
  unfolding t_def by (rule vsnprintf_text [OF assms(1) pieces_format [OF assms(2)]])
section \<open>A concrete call\<close>

definition demo_pieces :: "piece list" where
  "demo_pieces =
    [Lit 91, Text \<lparr>flags_of = [Minus], width_at = Num 6, prec_at = Num 3\<rparr> No_mod 0x9000 (bytes ''abcd''), Lit 124,
     Integer \<lparr>flags_of = [Plus], width_at = Star 5, prec_at = Absent\<rparr> No_mod Conv_d (- 42), Lit 124,
     Integer \<lparr>flags_of = [Hash], width_at = Absent, prec_at = Absent\<rparr> No_mod Conv_x 255, Lit 124,
     Integer \<lparr>flags_of = [Zero], width_at = Num 8, prec_at = Absent\<rparr> Mod_l Conv_X 48879, Lit 124,
     Integer \<lparr>flags_of = [], width_at = Absent, prec_at = Num 3\<rparr> Mod_hh Conv_u 300, Lit 124, Pointer 4096, Percent]"

lemma replicate_numeral_Cons: "replicate (numeral k) x = x # replicate (pred_numeral k) x"
  by (simp add: numeral_eq_Suc)

lemma collected:
  "0 \<notin> set t \<Longrightarrow> emits (out_fct (\<lambda>c _ s. Ret ((), s @ [c]), a)) b m t i s = Ret (i + of_nat (length t), s @ t)"
  by (induction t arbitrary: i s) (simp_all add: emit_def out_fct_def bindk_def retk_def)

theorem vsnprintf_prints_text_witness:
  "fctprintf (\<lambda>c _ s. Ret ((), s @ [c])) 0 0x1000 (bytes ''[%-6.3s|%+*d|%#x|%08lX|%.3hhu|%p%%'')
     [VStr 0x9000 (bytes ''abcd''), VWord 5, VWord (- 42), VWord 255, VWord 48879, VWord 300, VWord 4096] []
   = Ret (49, bytes ''[abc   |  -42|0xff|0000BEEF|044|0000000000001000%'')"
proof -
  let ?o = "out_fct (\<lambda>c _ s. Ret ((), s @ [c]), 0) :: u8 list out_fct"
  have ok: "\<forall>p \<in> set demo_pieces. supported p" 
    by (simp add: demo_pieces_def layout_ok_def int_ok_def hash_ok_def is_signed_def type_bits_def typed_value_def int_number_def sign_text_def
        base_prefix_def digits_text_def zeros_count_def precision_def left_adjusted_def field_width_def bytes_def of_char_def
        numeral_text.simps [of 10] numeral_text.simps [of 16])
  have fmt: "concat (map render demo_pieces) = bytes ''[%-6.3s|%+*d|%#x|%08lX|%.3hhu|%p%%''" by code_simp
  have va: "concat (map args demo_pieces) @ [] = [VStr 0x9000 (bytes ''abcd''), VWord 5, VWord (- 42), VWord 255, VWord 48879, VWord 300, VWord 4096]" by code_simp
  have t: "concat (map piece_text demo_pieces) = bytes ''[abc   |  -42|0xff|0000BEEF|044|0000000000001000%''"
    by (simp add: demo_pieces_def is_signed_def type_bits_def typed_value_def int_number_def sign_text_def in_field_def cut_text_def
        base_prefix_def digits_text_def zeros_count_def precision_def left_adjusted_def field_width_def bytes_def of_char_def digit_byte_def
        numeral_text.simps [of 10] numeral_text.simps [of 16] replicate_numeral_Cons)
  have "(0x1000 :: ptr) \<noteq> NULL" by simp
  note w = vsnprintf_prints_text [OF this ok, of ?o "- 1" "[]", unfolded fmt va t]
  have nz: "0 \<notin> set (bytes ''[abc   |  -42|0xff|0000BEEF|044|0000000000001000%'')"
    and len: "length (bytes ''[abc   |  -42|0xff|0000BEEF|044|0000000000001000%'') = 49" by (simp_all add: bytes_def of_char_def)
  show ?thesis unfolding fctprintf_def w len by (simp add: bindk_def collected [OF nz] retk_def out_fct_def)
qed

text \<open>Two calls outside the supported range: with \<^verbatim>\<open>#\<close> the code drops digits when their number equals the width, and a
  left-adjusted field ignores the precision.\<close>

lemma hash_width_drops_digits:
  "format_text (bytes ''%#4x'') [VWord 0x1234] = Some (bytes ''0x34'')"
  "format_text (bytes ''%-5.3d|'') [VWord 7] = Some (bytes ''7    |'')"
  by code_simp+

end
