(* ===== verification/Kpanic.thy ===== *)
theory Kpanic
  imports Kshell Printf_Spec
begin

text \<open>
  \<^verbatim>\<open>kernel/src/util/helpers.c\<close>: what \<^verbatim>\<open>panic\<close> does before it halts the CPU. Elsewhere in the development a panic
  is the outcome \<open>Panic\<close> of the operation that raises it; here its own steps are modelled. The last section puts them
  at the end of the interrupt handler: what the console shows after a fault.
\<close>

section \<open>Definitions\<close>

definition panic_banner :: "u8 list" where "panic_banner = text_bytes ''=====PANIC===='' @ [10]"

text \<open>The message is itself the format string.\<close>

definition panic_report :: "u8 list \<Rightarrow> 'z int_sys_scheme \<Rightarrow> (unit \<times> 'z int_sys_scheme) outcome" where
  "panic_report msg =
     bindk disable_interrupt (\<lambda>_.
     bindk (kprintf panic_banner []) (\<lambda>_.
     bindk (kprintf msg []) (\<lambda>_.
     kprintf [10] [])))"

text \<open>\<^verbatim>\<open>for(;;) wait_for_interrupt();\<close> never ends.\<close>

definition panic_fn :: "u8 list \<Rightarrow> 'z int_sys_scheme \<Rightarrow> (unit \<times> 'z int_sys_scheme) outcome" where
  "panic_fn msg = bindk (panic_report msg) (\<lambda>_ _. Hang)"

section \<open>Printing on the console\<close>

text \<open>One \<^verbatim>\<open>putchar\<close> for each byte of a text.\<close>

primrec con_puts :: "u8 list \<Rightarrow> 'z con_sys_scheme \<Rightarrow> (unit \<times> 'z con_sys_scheme) outcome" where
  "con_puts [] = retk ()"
| "con_puts (c # cs) = bindk (if c \<noteq> 0 then putchar (scast c) else retk ()) (\<lambda>_. con_puts cs)"

lemma con_puts_append: "con_puts (as @ bs) = bindk (con_puts as) (\<lambda>_. con_puts bs)"
  by (induction as) (simp_all add: bindk_assoc bindk_retk_left)

lemma emits_puts: "emits out_char b mx t idx = bindk (con_puts t) (\<lambda>_. retk (idx + of_nat (length t)))"
  by (induction t arbitrary: idx) (simp_all add: emit_def out_char_def bindk_assoc bindk_retk_left add.assoc)

lemma bindk_unit_retk:
  fixes m :: "'s \<Rightarrow> (unit \<times> 's) outcome"
  shows "bindk m (\<lambda>_. retk ()) = m"
  by (rule ext) (auto simp: bindk_def retk_def split: outcome.splits)

lemma kprintf_text:
  fixes s :: "'z int_sys_scheme"
  assumes "printf_buffer s \<noteq> NULL" and "format_text fmt va = Some t"
  shows "kprintf fmt va s = con_puts t s"
  using assms(1)
  by (simp add: vsnprintf_loop_text [OF assms(2)] kprintf_def printf'_def vsnprintf_def emits_puts bindk_assoc bindk_retk_left out_char_def bindk_unit_retk bindk_retk_id)

lemma format_plain: "37 \<notin> set w \<Longrightarrow> format_text w va = Some w"
  by (induction w) auto

lemma con_puts_up:
  fixes s :: "'z int_sys_scheme"
  assumes "console_up c s"
  shows "\<exists>t. con_puts w s = Ret ((), t) \<and> console_up c t \<and> eq_on (- frame) (mem s) (mem t) \<and> printf_buffer t = printf_buffer s
     \<and> rflags t = rflags s"
  using assms
proof (induction w arbitrary: s)
  case Nil
  then show ?case by (simp add: retk_def eq_on_def)
next
  case (Cons ch w)
  have "\<exists>t. (if ch \<noteq> 0 then putchar (scast ch) else retk ()) s = Ret ((), t) \<and> console_up c t \<and> eq_on (- frame) (mem s) (mem t)
     \<and> printf_buffer t = printf_buffer s \<and> rflags t = rflags s"
  proof (cases "ch = 0")
    case False
    have u: "cpu_ready 6 c s" "lock_free Console_lock s" "crt_device (dev_in s)" "cursor (io_trace s) < SCREEN_CELLS" "Console.uart_ready s"
      using Cons.prems by (simp_all add: console_up_def)
    obtain t where t: "putchar (scast ch) s = Ret ((), t)" "eq_on (- frame) (mem s) (mem t)" "t = s\<lparr>io_trace := io_trace t, mem := mem t, cpus := settled c s\<rparr>"
      using putchar_ok [OF u, of "scast ch"] by blast
    have "console_up c t" using putchar_up [OF Cons.prems, of "scast ch"] t(1) by auto
    moreover have "printf_buffer t = printf_buffer s" "rflags t = rflags s" by (subst t(3), simp)+
    ultimately show ?thesis using False t by simp
  qed (use Cons.prems in \<open>simp add: retk_def eq_on_def\<close>)
  then obtain t where t: "(if ch \<noteq> 0 then putchar (scast ch) else retk ()) s = Ret ((), t)" "console_up c t" "eq_on (- frame) (mem s) (mem t)"
     "printf_buffer t = printf_buffer s" "rflags t = rflags s" by blast
  from Cons.IH [OF t(2)] obtain u where "con_puts w t = Ret ((), u)" "console_up c u" "eq_on (- frame) (mem t) (mem u)"
     "printf_buffer u = printf_buffer t" "rflags u = rflags t" by blast
  then show ?case using t eq_on_trans by (simp add: bindk_Ret)
qed

section \<open>Properties\<close>

lemma console_up_cli: "console_up c s \<Longrightarrow> console_up c (cli s)"
  by (simp add: console_up_def cli_def lock_free_def Console.uart_ready_def cpu_ready_def cpu_lookup_def lapic_id_def if_set_cleared)

lemma panic_report_text:
  fixes s :: "'z int_sys_scheme"
  assumes b: "printf_buffer s \<noteq> NULL" and tx: "format_text msg [] = Some tx" and up: "console_up c s"
  shows "panic_report msg s = con_puts (panic_banner @ tx @ [10]) (cli s)"
proof -
  have "37 \<notin> set panic_banner" by (simp add: panic_banner_def text_bytes_def of_char_def)
  note ban = format_plain [OF this, of "[]"]
  obtain s1 where s1: "con_puts panic_banner (cli s) = Ret ((), s1)" "console_up c s1" "printf_buffer s1 = printf_buffer s"
    using con_puts_up [OF console_up_cli [OF up], of panic_banner] by (auto simp: cli_def)
  obtain s2 where s2: "con_puts tx s1 = Ret ((), s2)" "console_up c s2" "printf_buffer s2 = printf_buffer s"
    using con_puts_up [OF s1(2), of tx] s1(3) by auto
  have k: "kprintf panic_banner [] (cli s) = Ret ((), s1)" "kprintf msg [] s1 = Ret ((), s2)" "kprintf [10] [] s2 = con_puts [10] s2"
    using kprintf_text [OF _ ban, of "cli s"] kprintf_text [OF _ tx, of s1] kprintf_text [OF _ format_plain, of s2 "[10]" "[]"] b s1 s2
    by (simp_all add: cli_def)
  show ?thesis
    by (simp add: panic_report_def disable_interrupt_def bindk_Ret k con_puts_append s1(1) s2(1))
qed

text \<open>C40: \<^verbatim>\<open>panic\<close> never returns. While the console is free it switches interrupts off and puts exactly the banner, the
  message and a line feed on the console, touching no memory but the screen. Raised by a CPU that holds the console lock
  it prints nothing: the first \<^verbatim>\<open>putchar\<close> finds the lock held and panics again.\<close>

theorem panic_reports:
  fixes s :: "'z int_sys_scheme"
  assumes b: "printf_buffer s \<noteq> NULL" and tx: "format_text msg [] = Some tx" and rd: "cpu_ready 6 c s"
  shows "(\<forall>u. panic_fn msg s \<noteq> Ret u)
     \<and> (console_up c s \<longrightarrow> panic_report msg s = con_puts (panic_banner @ tx @ [10]) (cli s)
          \<and> (\<exists>t. panic_report msg s = Ret ((), t) \<and> \<not> if_set (rflags t) \<and> eq_on (- frame) (mem s) (mem t)))
     \<and> (lock_held c Console_lock s \<longrightarrow> panic_fn msg s = Panic ''acquire'')"
proof (intro conjI impI)
  show "\<forall>u. panic_fn msg s \<noteq> Ret u" by (auto simp: panic_fn_def bindk_def split: outcome.splits)
next
  assume up: "console_up c s"
  show r: "panic_report msg s = con_puts (panic_banner @ tx @ [10]) (cli s)" by (rule panic_report_text [OF b tx up])
  obtain t where "con_puts (panic_banner @ tx @ [10]) (cli s) = Ret ((), t)" "eq_on (- frame) (mem (cli s)) (mem t)" "rflags t = rflags (cli s)"
    using con_puts_up [OF console_up_cli [OF up]] by blast
  then show "\<exists>t. panic_report msg s = Ret ((), t) \<and> \<not> if_set (rflags t) \<and> eq_on (- frame) (mem s) (mem t)"
    unfolding r by (simp add: cli_def if_set_cleared)
next
  assume h: "lock_held c Console_lock s"
  have "37 \<notin> set panic_banner" by (simp add: panic_banner_def text_bytes_def of_char_def)
  note ban = format_plain [OF this, of "[]"]
  have "cpu_ready 3 c (cli s)" using rd by (simp add: cli_def cpu_ready_def cpu_lookup_def lapic_id_def if_set_cleared)
  from acquire_busy [OF this, of Console_lock] h have "acquire Console_lock (cli s) = Panic ''acquire''"
    by (simp add: lock_held_def cli_def)
  then have "putchar ch (cli s) = Panic ''acquire''" for ch by (simp add: putchar_def bindk_def)
  then have "con_puts panic_banner (cli s) = Panic ''acquire''"
    by (simp add: panic_banner_def text_bytes_def of_char_def bindk_def)
  then show "panic_fn msg s = Panic ''acquire''"
    using kprintf_text [OF _ ban, of "cli s"] b by (simp add: panic_fn_def panic_report_def disable_interrupt_def bindk_def cli_def)
qed

section \<open>Faults\<close>

text \<open>The report for the vector \<open>no\<close>, the faulting instruction \<open>pc\<close> and the faulting address \<open>ad\<close>.\<close>

definition hex16 :: "u64 \<Rightarrow> u8 list" where
  "hex16 w = piece_text (Pointer (uint w))"

definition fault_report :: "u64 \<Rightarrow> u64 \<Rightarrow> u64 \<Rightarrow> u8 list" where
  "fault_report no pc ad =
     (if no = IDT_ENTRY_DOUBLE_FAULT then text_bytes ''DF rip = '' @ hex16 pc @ [10]
      else if no = IDT_ENTRY_GP then text_bytes ''rip = '' @ hex16 pc @ [10]
      else if no = IDT_ENTRY_PAGE_FAULT then text_bytes ''pg fault on '' @ hex16 ad @ text_bytes '' at '' @ [10] @ text_bytes ''rip='' @ hex16 pc @ [10]
      else text_bytes ''unhandled '' @ numeral_text 10 False (unat no) @ [10])"

lemma format_lits: "37 \<notin> set w \<Longrightarrow> format_text (w @ fmt) va = map_option ((@) w) (format_text fmt va)"
  by (induction w; cases "format_text fmt va") auto

lemma format_hex: "format_text (37 # 112 # fmt) (VWord w # va) = map_option ((@) (hex16 w)) (format_text fmt va)"
  using piece_format [of "Pointer (uint w)" fmt va] by (simp add: hex16_def of_char_def)

lemma format_vector:
  assumes "unat no < 256"
  shows "format_text (37 # 100 # fmt) (VWord no # va) = map_option ((@) (numeral_text 10 False (unat no))) (format_text fmt va)"
proof -
  let ?v = "uint no" and ?n = "numeral_text 10 False (unat no)"
  have n: "nat ?v = unat no" by (simp only: unat_eq_nat_uint)
  have p0: "0 \<le> ?v" by simp
  then have v: "?v < 256" "0 \<le> ?v" using assms n by linarith+
  have "signed_take_bit 31 ?v = ?v" using v order_trans [OF _ v(2), of "- (2 ^ 31)"] by (intro signed_take_bit_int_eq_self) simp_all
  then have t: "typed_value No_mod Conv_d ?v = ?v" using typed_signed [of Conv_d No_mod ?v] by (simp add: is_signed_def type_bits_def)
  have p: "precision plain_layout = None" "\<not> left_adjusted plain_layout" "field_width plain_layout = 0"
    by (simp_all add: precision_def left_adjusted_def field_width_def)
  have d: "sign_text plain_layout Conv_d ?v = []" "base_prefix plain_layout Conv_d ?v = []" "digits_text plain_layout Conv_d ?v = ?n"
    using v n p by (simp_all add: digits_text_def sign_text_def base_prefix_def)
  have i: "int_number plain_layout Conv_d ?v = ?n" using d p by (simp add: int_number_def zeros_count_def)
  have "length ?n \<le> 3" using numeral_text_length [of 10 "unat no" 2 False] assms by simp
  moreover have "- (2 ^ (type_bits No_mod - 1)) < (0 :: int)" by simp
  then have "?v \<noteq> - (2 ^ (type_bits No_mod - 1))" using v(2) by linarith
  ultimately have "int_ok plain_layout No_mod Conv_d ?v" unfolding int_ok_def hash_ok_def i d p by simp
  then have "supported (Integer plain_layout No_mod Conv_d ?v)" by (simp only: supported.simps t) (simp add: layout_ok_def)
  note P = piece_format [OF this, of fmt va]
  have r: "render (Integer plain_layout No_mod Conv_d ?v) = [37, 100]" "args (Integer plain_layout No_mod Conv_d ?v) = [VWord no]"
    by (simp_all add: layout_bytes_def layout_args_def of_char_def)
  have "piece_text (Integer plain_layout No_mod Conv_d ?v) = ?n" by (simp only: piece_text.simps t i) (simp add: in_field_def p)
  then show ?thesis using P unfolding r by simp
qed

lemma fault_format_text:
  assumes "unat no < 256"
  shows "format_text (fst (fault_format no pc ad)) (snd (fault_format no pc ad)) = Some (fault_report no pc ad)"
proof -
  have e: "text_bytes ''DF rip = %p'' = text_bytes ''DF rip = '' @ [37, 112]" "text_bytes ''rip = %p'' = text_bytes ''rip = '' @ [37, 112]"
    "text_bytes ''pg fault on %p at '' = text_bytes ''pg fault on '' @ 37 # 112 # text_bytes '' at ''" "text_bytes ''rip=%p'' = text_bytes ''rip='' @ [37, 112]"
    "text_bytes ''unhandled %d'' = text_bytes ''unhandled '' @ [37, 100]" by (simp_all add: text_bytes_def of_char_def)
  have n: "37 \<notin> set (text_bytes ''DF rip = '')" "37 \<notin> set (text_bytes ''rip = '')" "37 \<notin> set (text_bytes ''pg fault on '')"
    "37 \<notin> set (text_bytes '' at '')" "37 \<notin> set (text_bytes ''rip='')" "37 \<notin> set (text_bytes ''unhandled '')" by (simp_all add: text_bytes_def of_char_def)
  have nl: "format_text (10 # fmt) va = map_option ((#) 10) (format_text fmt va)" for fmt va by simp
  note F = format_lits [OF n(1)] format_lits [OF n(2)] format_lits [OF n(3)] format_lits [OF n(4)] format_lits [OF n(5)] format_lits [OF n(6)]
  show ?thesis unfolding fault_format_def fault_report_def e
    by (simp add: F format_hex format_vector [OF assms] nl del: format_text.simps(2))
qed


section \<open>Instances\<close>

text \<open>A console with a display, on the machine of one CPU that takes the interrupt \<open>no\<close>.\<close>

definition demo_fault :: "u64 \<Rightarrow> int_sys" where
  "demo_fault no = (demo_int no)\<lparr>printf_buffer := 16, cr2 := 0xDEAD, dev_in := (\<lambda>tr p. snd (crt_state tr) (fst (crt_state tr)))\<rparr>"

lemma demo_fault_up: "console_up 0 (demo_fault no)" "printf_buffer (demo_fault no) \<noteq> NULL" "cpu_ready 6 0 (demo_fault no)"
proof -
  show "cpu_ready 6 0 (demo_fault no)"
    by (simp add: cpu_ready_def demo_fault_def demo_int_def cpu_lookup_def lapic_id_def demo_cpu_def if_set_def)
  then show "console_up 0 (demo_fault no)"
    by (simp add: console_up_def demo_fault_def demo_int_def lock_free_def fifo_ok_def demo_fifo_def crt_device_def Console.uart_ready_def
        cursor_def crt_state_def SCREEN_CELLS_def)
  show "printf_buffer (demo_fault no) \<noteq> NULL" by (simp add: demo_fault_def)
qed


theorem panic_reports_witness:
  "panic_fn (text_bytes ''GP'') ((demo_int 0)\<lparr>printf_buffer := 16, locks := (\<lambda>_. \<lparr>locked = 1, lk_name = [], lk_cpu = Some 0\<rparr>)\<rparr>) = Panic ''acquire''
   \<and> panic_report (text_bytes ''GP'') (demo_fault 0) = con_puts (panic_banner @ text_bytes ''GP'' @ [10]) (cli (demo_fault 0))
   \<and> (\<exists>t. panic_report (text_bytes ''GP'') (demo_fault 0) = Ret ((), t) \<and> \<not> if_set (rflags t))"
proof -
  let ?s = "(demo_int 0)\<lparr>printf_buffer := 16, locks := (\<lambda>_. \<lparr>locked = 1, lk_name = [], lk_cpu = Some 0\<rparr>)\<rparr>"
  have "37 \<notin> set (text_bytes ''GP'')" by (simp add: text_bytes_def of_char_def)
  note f = format_plain [OF this, of "[]"]
  have "cpu_ready 6 0 ?s" by (simp add: cpu_ready_def demo_int_def cpu_lookup_def lapic_id_def demo_cpu_def if_set_def)
  from panic_reports [OF _ f this] have "panic_fn (text_bytes ''GP'') ?s = Panic ''acquire''" by (simp add: lock_held_def)
  moreover from panic_reports [OF demo_fault_up(2) f demo_fault_up(3)] demo_fault_up(1)
  have "panic_report (text_bytes ''GP'') (demo_fault 0) = con_puts (panic_banner @ text_bytes ''GP'' @ [10]) (cli (demo_fault 0))"
    "\<exists>t. panic_report (text_bytes ''GP'') (demo_fault 0) = Ret ((), t) \<and> \<not> if_set (rflags t)" by blast+
  ultimately show ?thesis by blast
qed

end
