(* ===== verification/Usys.thy ===== *)
theory Usys
  imports Interrupts
begin

text \<open>
  The way into the kernel and back: the entry stubs \<^verbatim>\<open>arch/x86/asm/vector.s\<close> and \<^verbatim>\<open>arch/x86/asm/trap.s\<close>, which save
  the interrupted context as a \<^verbatim>\<open>trapframe_t\<close> and restore it, and the system call stubs \<^verbatim>\<open>lib/libsys/src/syscall.c\<close>
  on the caller's side. The stack is that of a kernel process, the only kind the kernel creates, so the processor
  stays on it.
\<close>

section \<open>Definitions\<close>

text \<open>The context that an interrupt saves; \<^verbatim>\<open>rflags\<close> is part of the machine.\<close>

record trap_regs =
  g_rax :: u64
  g_rcx :: u64
  g_rdx :: u64
  g_rbx :: u64
  g_rsi :: u64
  g_rdi :: u64
  g_rbp :: u64
  g_r8 :: u64
  g_r9 :: u64
  g_r10 :: u64
  g_r11 :: u64
  g_r12 :: u64
  g_r13 :: u64
  g_r14 :: u64
  g_r15 :: u64
  g_rip :: u64
  g_cs :: u64
  g_rsp :: u64
  g_ss :: u64

definition push64 :: "u64 \<Rightarrow> ptr \<times> memory \<Rightarrow> ptr \<times> memory" where
  "push64 v = (\<lambda>(sp, m). (sp - 8, st64 m (sp - 8) v))"

text \<open>
  What the processor pushes: the stack is aligned to 16 bytes first; a few exceptions have an error code.
\<close>

definition hw_error :: "nat \<Rightarrow> bool" where
  "hw_error no \<longleftrightarrow> no \<in> {8, 10, 11, 12, 13, 14, 17, 21, 29, 30}"

definition hw_pushes :: "nat \<Rightarrow> u64 \<Rightarrow> u64 \<Rightarrow> trap_regs \<Rightarrow> u64 list" where
  "hw_pushes no ec fl r = [g_ss r, g_rsp r, fl, g_cs r, g_rip r] @ (if hw_error no then [ec] else [])"

text \<open>The stub of a vector pushes its number, after a 0 in place of a missing error code.\<close>

definition vector_stub :: "nat \<Rightarrow> u64 list" where
  "vector_stub no = (if no \<in> {8, 10, 11, 12, 13, 14, 17} then [of_nat no] else [0, of_nat no])"

definition trap_enter_all :: "trap_regs \<Rightarrow> u64 list" where
  "trap_enter_all r = [g_r15 r, g_r14 r, g_r13 r, g_r12 r, g_r11 r, g_r10 r, g_r9 r, g_r8 r, g_rbp r, g_rdi r, g_rsi r,
     g_rbx r, g_rdx r, g_rcx r, g_rax r]"

text \<open>The pops of \<^verbatim>\<open>return_from_isr\<close>, the \<^verbatim>\<open>add rsp, 16\<close> and \<^verbatim>\<open>iretq\<close>.\<close>

definition return_from_isr :: "ptr \<Rightarrow> 'z machine_scheme \<Rightarrow> (trap_regs \<times> 'z machine_scheme) outcome" where
  "return_from_isr sp s =
     (let w = (\<lambda>i. ld64 (mem s) (sp + 8 * of_nat i))
      in Ret (\<lparr>g_rax = w 0, g_rcx = w 1, g_rdx = w 2, g_rbx = w 3, g_rsi = w 4, g_rdi = w 5, g_rbp = w 6, g_r8 = w 7, g_r9 = w 8,
            g_r10 = w 9, g_r11 = w 10, g_r12 = w 11, g_r13 = w 12, g_r14 = w 13, g_r15 = w 14,
            g_rip = w 17, g_cs = w 18, g_rsp = w 20, g_ss = w 21\<rparr>, s\<lparr>rflags := w 19\<rparr>))"

text \<open>
  One interrupt through the gate \<open>no\<close> of the loaded table: gates of type 14 turn interrupts off. The C code below
  \<^verbatim>\<open>handle_interrupt\<close> keeps the stack above it.
\<close>

definition interrupt_through :: "'z int_sys_scheme ctxsw \<Rightarrow> nat \<Rightarrow> u64 \<Rightarrow> trap_regs \<Rightarrow> 'z int_sys_scheme
    \<Rightarrow> (trap_regs \<times> 'z int_sys_scheme) outcome" where
  "interrupt_through ctxsw no ec r s =
     (let g = idt s ! no in
      if \<not> gate_present g \<or> gate_offset g \<noteq> vectors s no then Undef ''gate''
      else case fold push64 (hw_pushes no ec (rflags s) r @ vector_stub no @ trap_enter_all r) (g_rsp r AND NOT 0xF, mem s) of
        (sp, m) \<Rightarrow> bindk (handle_interrupt ctxsw sp) (\<lambda>_. return_from_isr sp)
          (s\<lparr>mem := m, rflags := (if gate_type g = 14 then rflags s AND NOT RFLAGS_IF else rflags s)\<rparr>))"

text \<open>
  The system call stubs (\<^verbatim>\<open>lib/libsys/src/syscall.c\<close>): \<open>r\<close> holds the registers at the \<^verbatim>\<open>int\<close> instruction. In
  \<^verbatim>\<open>syscall1\<close> the constraint \<^verbatim>\<open>"rdi"\<close> reads as the letters r, d and i, so the compiler puts \<^verbatim>\<open>arg0\<close> into a register of its
  choice: \<open>put\<close> is that choice.
\<close>

definition syscall0 :: "'z int_sys_scheme ctxsw \<Rightarrow> u64 \<Rightarrow> trap_regs \<Rightarrow> 'z int_sys_scheme
    \<Rightarrow> ((u64 \<times> trap_regs) \<times> 'z int_sys_scheme) outcome" where
  "syscall0 ctxsw syscallNo r =
     bindk (interrupt_through ctxsw VECTOR_SYSCALL 0 (r\<lparr>g_rax := syscallNo\<rparr>)) (\<lambda>r'. retk (g_rax r', r'))"

definition syscall1 :: "(u64 \<Rightarrow> trap_regs \<Rightarrow> trap_regs) \<Rightarrow> 'z int_sys_scheme ctxsw \<Rightarrow> u64 \<Rightarrow> u64 \<Rightarrow> trap_regs \<Rightarrow> 'z int_sys_scheme
    \<Rightarrow> ((u64 \<times> trap_regs) \<times> 'z int_sys_scheme) outcome" where
  "syscall1 put ctxsw syscallNo arg0 r =
     bindk (interrupt_through ctxsw VECTOR_SYSCALL 0 ((put arg0 r)\<lparr>g_rax := syscallNo\<rparr>)) (\<lambda>r'. retk (g_rax r', r'))"

definition yield :: "'z int_sys_scheme ctxsw \<Rightarrow> trap_regs \<Rightarrow> 'z int_sys_scheme \<Rightarrow> (trap_regs \<times> 'z int_sys_scheme) outcome" where
  "yield ctxsw r = bindk (syscall0 ctxsw SYS_YIELD r) (\<lambda>(_, r'). retk r')"

definition con_read :: "'z int_sys_scheme ctxsw \<Rightarrow> trap_regs \<Rightarrow> 'z int_sys_scheme \<Rightarrow> ((int \<times> trap_regs) \<times> 'z int_sys_scheme) outcome" where
  "con_read ctxsw r = bindk (syscall0 ctxsw SYS_CON_READ r) (\<lambda>(v, r'). retk (sint (ucast v :: u32), r'))"

section \<open>The trap frame\<close>

text \<open>The words of \<^verbatim>\<open>struct trapframe\<close> in the order of its fields.\<close>

definition frame_words :: "nat \<Rightarrow> u64 \<Rightarrow> u64 \<Rightarrow> trap_regs \<Rightarrow> u64 list" where
  "frame_words no ec fl r = [g_rax r, g_rcx r, g_rdx r, g_rbx r, g_rsi r, g_rdi r, g_rbp r, g_r8 r, g_r9 r, g_r10 r, g_r11 r,
     g_r12 r, g_r13 r, g_r14 r, g_r15 r, of_nat no, ec, g_rip r, g_cs r, fl, g_rsp r, g_ss r]"

lemma push_words:
  assumes "8 * length ws \<le> unat sp"
  shows "\<exists>m'. fold push64 (rev ws) (sp, m) = (sp - of_nat (8 * length ws), m')
     \<and> (\<forall>j < length ws. ld64 m' (sp - of_nat (8 * length ws) + 8 * of_nat j) = ws ! j)"
  using assms
proof (induction ws)
  case Nil
  then show ?case by simp
next
  case (Cons w ws)
  let ?n = "8 * length ws" let ?q = "sp - of_nat ?n"
  obtain m' where m': "fold push64 (rev ws) (sp, m) = (?q, m')" "\<And>j. j < length ws \<Longrightarrow> ld64 m' (?q + 8 * of_nat j) = ws ! j"
    using Cons by auto
  have b: "unat (of_nat ?n :: u64) = ?n" using Cons.prems unsigned_less [of sp, where 'a = nat] by (intro unat_of_nat_lt) simp
  have le: "(of_nat ?n :: u64) \<le> sp" using b Cons.prems by (simp add: word_le_nat_alt)
  have uq: "unat ?q = unat sp - ?n" using unat_sub_le [OF le] b by simp
  have "(8 :: u64) \<le> ?q" using uq Cons.prems by (simp add: word_le_nat_alt)
  then have q8: "unat (?q - 8) = unat ?q - 8" using unat_sub_le [of 8 ?q] by simp
  have other: "ld64 (st64 m' (?q - 8) w) (?q + 8 * of_nat j) = ws ! j" if j: "j < length ws" for j
  proof -
    have u8: "unat (8 * of_nat j :: u64) = 8 * j"
      using j Cons.prems unsigned_less [of sp, where 'a = nat] unat_of_nat_lt [of "8 * j"] by simp
    have "unat ?q + 8 * j < 2 ^ 64" using uq j Cons.prems unsigned_less [of sp, where 'a = nat] by simp
    then have uj: "unat (?q + 8 * of_nat j) = unat ?q + 8 * j" using u8 by (simp add: unat_add_nowrap)
    have "region (?q + 8 * of_nat j) 8 \<inter> region (?q - 8) 8 = {}"
      using uj q8 uq j Cons.prems unsigned_less [of sp, where 'a = nat] by (intro region_disjoint_nat) auto
    then show ?thesis using ld64_st64_other m'(2) [OF j] by simp
  qed
  have e: "sp - of_nat (8 * length (w # ws)) = ?q - 8" by simp
  have "ld64 (st64 m' (?q - 8) w) (?q - 8 + 8 * of_nat j) = (w # ws) ! j" if "j < length (w # ws)" for j
    using that other by (cases j) (simp_all add: algebra_simps)
  moreover have "fold push64 (rev (w # ws)) (sp, m) = (?q - 8, st64 m' (?q - 8) w)"
    using push64_def [of w] m'(1) by simp
  ultimately show ?case unfolding e by blast
qed

text \<open>The bytes of the frame that the interrupt leaves on the stack, and its address.\<close>

definition frame_at :: "trap_regs \<Rightarrow> ptr" where
  "frame_at r = (g_rsp r AND NOT 0xF) - 176"

definition framed :: "nat \<Rightarrow> u64 \<Rightarrow> u64 \<Rightarrow> trap_regs \<Rightarrow> memory \<Rightarrow> bool" where
  "framed no ec fl r m \<longleftrightarrow> (\<forall>j < 22. ld64 m (frame_at r + 8 * of_nat j) = frame_words no ec fl r ! j)"

lemma pushes_frame: "no \<notin> {21, 29, 30} \<Longrightarrow> hw_pushes no ec fl r @ vector_stub no @ trap_enter_all r
    = rev (frame_words no (if hw_error no then ec else 0) fl r)"
  by (auto simp: hw_pushes_def vector_stub_def trap_enter_all_def frame_words_def hw_error_def)

lemma frame_pushed:
  assumes "no \<notin> {21, 29, 30}" and "176 \<le> unat (g_rsp r AND NOT 0xF)"
  shows "\<exists>m'. fold push64 (hw_pushes no ec fl r @ vector_stub no @ trap_enter_all r) (g_rsp r AND NOT 0xF, m) = (frame_at r, m')
     \<and> framed no (if hw_error no then ec else 0) fl r m'"
proof -
  let ?ws = "frame_words no (if hw_error no then ec else 0) fl r"
  have l: "length ?ws = 22" by (simp add: frame_words_def)
  have "8 * length ?ws \<le> unat (g_rsp r AND NOT 0xF)" using assms(2) l by simp
  from push_words [OF this] show ?thesis unfolding pushes_frame [OF assms(1)] framed_def frame_at_def l by simp
qed

lemma upto_22: "(\<forall>j < (22 :: nat). P j) \<longleftrightarrow> P 0 \<and> P 1 \<and> P 2 \<and> P 3 \<and> P 4 \<and> P 5 \<and> P 6 \<and> P 7 \<and> P 8 \<and> P 9 \<and> P 10 \<and> P 11 \<and> P 12
    \<and> P 13 \<and> P 14 \<and> P 15 \<and> P 16 \<and> P 17 \<and> P 18 \<and> P 19 \<and> P 20 \<and> P 21"
  by (simp add: numeral_eq_Suc All_less_Suc) blast

text \<open>Returning over an intact frame restores the interrupted context.\<close>

lemma return_framed:
  assumes "framed no ec fl r (mem s)"
  shows "return_from_isr (frame_at r) s = Ret (r, s\<lparr>rflags := fl\<rparr>)"
  using assms unfolding framed_def upto_22
  by (simp add: return_from_isr_def frame_words_def)

lemma framed_fields:
  assumes "framed no ec fl r m"
  shows "tf_rax m (frame_at r) = g_rax r" "tf_trap_no m (frame_at r) = of_nat no" "tf_rip m (frame_at r) = g_rip r"
  using assms unfolding framed_def upto_22
  by (simp_all add: tf_rax_def tf_trap_no_def tf_rip_def frame_words_def)

lemma unat_8j: "j < 22 \<Longrightarrow> unat (8 * of_nat j :: u64) = 8 * j"
  using unat_of_nat_lt [of "8 * j"] by simp

lemma frame_word_in:
  assumes "j < 22"
  shows "region (f + 8 * of_nat j) 8 \<subseteq> region f 176"
proof
  fix x assume "x \<in> region (f + 8 * of_nat j) 8"
  then have d: "unat (x - (f + 8 * of_nat j)) < 8" by (simp add: region_def)
  have "x - f = (x - (f + 8 * of_nat j)) + 8 * of_nat j" by simp
  then have "unat (x - f) = unat (x - (f + 8 * of_nat j)) + 8 * j"
    using unat_add_nowrap [of "x - (f + 8 * of_nat j)" "8 * of_nat j"] d unat_8j [OF assms] assms by simp
  then show "x \<in> region f 176" using d assms by (simp add: region_def)
qed

lemma frame_word_off:
  assumes "0 < j" and "j < 22"
  shows "region (f + 8 * of_nat j) 8 \<inter> region f 8 = {}"
proof -
  have False if d: "unat (x - (f + 8 * of_nat j)) < 8" and e: "unat (x - f) < 8" for x
  proof -
    have "x - f = (x - (f + 8 * of_nat j)) + 8 * of_nat j" by simp
    then have "unat (x - f) = unat (x - (f + 8 * of_nat j)) + 8 * j"
      using unat_add_nowrap [of "x - (f + 8 * of_nat j)" "8 * of_nat j"] d unat_8j [OF assms(2)] assms(2) by simp
    then show False using e assms(1) by simp
  qed
  then show ?thesis by (auto simp: region_def)
qed

lemma framed_eq_on:
  assumes "framed no ec fl r m" and "eq_on (region (frame_at r) 176) m m'"
  shows "framed no ec fl r m'"
proof -
  have "ld64 m (frame_at r + 8 * of_nat j) = ld64 m' (frame_at r + 8 * of_nat j)" if "j < 22" for j
    by (rule ld64_cong) (rule eq_on_mono [OF assms(2) frame_word_in [OF that]])
  then show ?thesis using assms(1) by (simp add: framed_def)
qed

lemma framed_rax:
  assumes "framed no ec fl r m"
  shows "framed no ec fl (r\<lparr>g_rax := v\<rparr>) (st64 m (frame_at r) v)"
proof -
  have f: "frame_at (r\<lparr>g_rax := v\<rparr>) = frame_at r" by (simp add: frame_at_def)
  have "ld64 (st64 m (frame_at r) v) (frame_at r + 8 * of_nat j) = frame_words no ec fl (r\<lparr>g_rax := v\<rparr>) ! j" if j: "j < 22" for j
  proof (cases j)
    case 0
    then show ?thesis by (simp add: frame_words_def)
  next
    case (Suc k)
    then have "0 < j" by simp
    then have "ld64 (st64 m (frame_at r) v) (frame_at r + 8 * of_nat j) = ld64 m (frame_at r + 8 * of_nat j)"
      using ld64_st64_other [OF frame_word_off] j by blast
    also have "\<dots> = frame_words no ec fl r ! j" using j assms by (simp add: framed_def)
    finally have "ld64 (st64 m (frame_at r) v) (frame_at r + 8 * of_nat j) = frame_words no ec fl r ! j" .
    then show ?thesis using Suc by (simp add: frame_words_def)
  qed
  then show ?thesis unfolding framed_def f by blast
qed

section \<open>Giving up the CPU and coming back\<close>

text \<open>
  \<open>switched_back ctxsw c p f\<close>: whenever process \<open>p\<close> switches out on CPU \<open>c\<close> in the scheduler's critical section, the
  scheduler switches it in again on this CPU, marked \<^verbatim>\<open>RUNNING\<close>, in its critical section, with the trap frame at
  \<open>f\<close> on its stack untouched.
\<close>

definition on_cpu :: "nat \<Rightarrow> ptr \<Rightarrow> u32 \<Rightarrow> 'z proc_sys_scheme \<Rightarrow> bool" where
  "on_cpu c p l s \<longleftrightarrow> cpu_ready 6 c s \<and> int_disable_layer (cpus s ! c) = l \<and> cpu_proc (cpus s ! c) = p"

definition switched_back :: "'z proc_sys_scheme ctxsw \<Rightarrow> nat \<Rightarrow> ptr \<Rightarrow> ptr \<Rightarrow> bool" where
  "switched_back ctxsw c p f \<longleftrightarrow> (\<forall>q s. on_cpu c p 1 s \<and> lock_held c Sched_lock s \<longrightarrow>
     (\<exists>t. ctxsw (Proc_slot p) q s = Ret ((), t) \<and> on_cpu c p 1 t \<and> lock_held c Sched_lock t
        \<and> p_state (procs t p) = RUNNING \<and> eq_on (region f 176) (mem s) (mem t)))"

text \<open>
  \<open>same_rest s t\<close>: the two states differ at most in memory, the CPUs, the flags, the locks and the process table; the
  console's input buffer, the devices, the queues and all other variables of the kernel are the same.
  \<open>through_switch ctxsw p s t\<close>: what leads from \<open>s\<close> to \<open>t\<close> is one switch of process \<open>p\<close> to the scheduler and back, with
  nothing else changed before it and after it.
\<close>

definition same_rest :: "'z proc_sys_scheme \<Rightarrow> 'z proc_sys_scheme \<Rightarrow> bool" where
  "same_rest s t \<longleftrightarrow> (\<exists>m cs fl lk ps. t = s\<lparr>mem := m, cpus := cs, rflags := fl, locks := lk, procs := ps\<rparr>)"

definition through_switch :: "'z proc_sys_scheme ctxsw \<Rightarrow> ptr \<Rightarrow> 'z proc_sys_scheme \<Rightarrow> 'z proc_sys_scheme \<Rightarrow> bool" where
  "through_switch ctxsw p s t \<longleftrightarrow> (\<exists>q a b. same_rest s a \<and> ctxsw (Proc_slot p) q a = Ret ((), b) \<and> same_rest b t)"

lemma same_rest_trans: "same_rest s t \<Longrightarrow> same_rest t u \<Longrightarrow> same_rest s u"
  unfolding same_rest_def by (elim exE) (simp, blast)

lemma same_restI: "t = s\<lparr>mem := mem t, cpus := cpus t, rflags := rflags t, locks := locks t, procs := procs t\<rparr> \<Longrightarrow> same_rest s t"
  unfolding same_rest_def by blast

lemma through_switch_extend:
  assumes "same_rest s a" and "through_switch ctxsw p a b" and "same_rest b t"
  shows "through_switch ctxsw p s t"
  using assms same_rest_trans unfolding through_switch_def by blast

lemma release_last:
  fixes t :: "'z machine_scheme"
  assumes "cpu_ready (Suc d) c t" and "int_disable_layer (cpus t ! c) = 1" and "lock_held c lk t"
  shows "\<exists>u. release lk t = Ret ((), u) \<and> u = t\<lparr>cpus := cpus u, rflags := rflags u, locks := locks u\<rparr> \<and> lock_free lk u
     \<and> cpus u = (cpus t)[c := (cpus t ! c)\<lparr>int_disable_layer := 0\<rparr>]"
proof -
  let ?t = "t\<lparr>locks := (locks t)(lk := (locks t lk)\<lparr>lk_cpu := None, locked := 0\<rparr>)\<rparr>"
  have "holding lk t = Ret (True, t)" using holding_nested [OF assms(1), of lk] assms by simp
  moreover have "cpu_lookup ?t = Some c" "\<not> if_set (rflags ?t)" using assms by (auto simp: cpu_ready_def)
  ultimately show ?thesis
    using pop_int_disable_eq [of ?t c] assms(2) by (simp add: release_def bindk_def lock_free_def)
qed

lemma on_cpu_upd:
  fixes t :: "'z proc_sys_scheme"
  assumes "on_cpu c p l t" and "apicid x = apicid (cpus t ! c)" and "int_disable_layer x = 0" and "cpu_proc x = p"
    and "cpus u = (cpus t)[c := x]" and "ncpu u = ncpu t" and "lapic_id_reg u = lapic_id_reg t"
  shows "on_cpu c p 0 u"
proof -
  have c: "c < length (cpus t)" "cpu_lookup t = Some c" using assms(1) by (simp_all add: on_cpu_def cpu_ready_def)
  have "cpu_lookup u = cpu_lookup (t\<lparr>cpus := (cpus t)[c := x]\<rparr>)" using assms by (simp add: cpu_lookup_def lapic_id_def)
  then have "cpu_lookup u = Some c" using cpu_lookup_upd_cpus [OF assms(2)] c by simp
  then show ?thesis using assms c by (simp add: on_cpu_def cpu_ready_def)
qed

lemma sched_yield_returns:
  fixes s :: "'z proc_sys_scheme"
  assumes oc: "on_cpu c p 0 s" and f: "lock_free Sched_lock s" and p: "p \<noteq> NULL" and cb: "switched_back ctxsw c p fa"
  shows "\<exists>u. sched_yield ctxsw s = Ret ((), u) \<and> on_cpu c p 0 u \<and> lock_free Sched_lock u \<and> p_state (procs u p) = RUNNING
     \<and> eq_on (region fa 176) (mem s) (mem u) \<and> through_switch ctxsw p s u"
proof -
  let ?a = "acquired c Sched_lock s"
  have rd: "cpu_ready 6 c s" and c: "c < length (cpus s)" using oc by (auto simp: on_cpu_def cpu_ready_def)
  have r: "cpu_ready (Suc (Suc 4)) c s" using rd by simp
  have aq: "acquire Sched_lock s = Ret ((), ?a)" by (rule acquire_free [OF r f])
  have ra: "cpu_ready 5 c ?a" using settled_acquired(2) [of 5 c s Sched_lock] rd by simp
  have ca: "cpus ?a ! c = pushed (rflags s) (cpus s ! c)" using c by (simp add: acquired_def entered_def)
  have l1: "int_disable_layer (cpus ?a ! c) = 1" "cpu_proc (cpus ?a ! c) = p"
    using oc by (simp_all add: ca pushed_def on_cpu_def)
  let ?b = "if p_state (procs ?a p) = RUNNING then upd_proc p (\<lambda>q. q\<lparr>p_state := RUNNABLE\<rparr>) ?a else ?a"
  have bb: "cpus ?b = cpus ?a" "same_cpu ?a ?b" "locks ?b = locks ?a" "mem ?b = mem s" "p_state (procs ?b p) \<noteq> RUNNING"
    by (simp_all add: upd_proc_def same_cpu_def) (simp_all add: acquired_def entered_def)
  have rb: "cpu_ready 5 c ?b" using cpu_ready_same [OF bb(2)] ra by blast
  have ob: "on_cpu c p 1 ?b" using rb l1 bb(1) by (simp add: on_cpu_def cpu_ready_def)
  have hb: "lock_held c Sched_lock ?b" unfolding lock_held_def bb(3) by (simp add: acquired_def)
  have r5: "cpu_ready (Suc 4) c ?a" "cpu_ready (Suc 4) c ?b" using ra rb by simp_all
  have na: "int_disable_layer (cpus ?a ! c) \<noteq> 0" using l1(1) by simp
  have lb: "int_disable_layer (cpus ?b ! c) = 1" "cpu_proc (cpus ?b ! c) = p" using l1 bb(1) by simp_all
  obtain t where t: "ctxsw (Proc_slot p) (scheduler_ctx (cpus ?b ! c)) ?b = Ret ((), t)" "on_cpu c p 1 t" "lock_held c Sched_lock t"
      "p_state (procs t p) = RUNNING" "eq_on (region fa 176) (mem s) (mem t)"
    using cb ob hb unfolding switched_back_def bb(4) [symmetric] by blast
  have tt: "cpu_ready 6 c t" "c < length (cpus t)" "int_disable_layer (cpus t ! c) = 1" "cpu_proc (cpus t ! c) = p"
    using t(2) by (auto simp: on_cpu_def cpu_ready_def)
  let ?x = "(cpus t ! c)\<lparr>int_enabled := int_enabled (cpus ?b ! c)\<rparr>"
  let ?t = "t\<lparr>cpus := (cpus t)[c := ?x]\<rparr>"
  have "cur_cpu t = Ret (c, t)" using tt by (intro cur_cpu_eq) (auto simp: cpu_ready_def)
  then have so: "sched_switch_out ctxsw ?b = Ret ((), ?t)"
    using switch_out_goes [OF r5(2) lb(1) hb lb(2) p bb(5), of ctxsw] t(1) by (simp add: bindk_def)
  have "cpu_lookup ?t = Some c" using cpu_lookup_upd_cpus [of ?x t c] tt by (simp add: cpu_ready_def)
  then have rt: "cpu_ready (Suc 5) c ?t" "int_disable_layer (cpus ?t ! c) = 1" "lock_held c Sched_lock ?t"
    using tt t(3) by (simp_all add: cpu_ready_def lock_held_def)
  obtain u where u: "release Sched_lock ?t = Ret ((), u)" "u = ?t\<lparr>cpus := cpus u, rflags := rflags u, locks := locks u\<rparr>"
      "lock_free Sched_lock u" "cpus u = (cpus ?t)[c := (cpus ?t ! c)\<lparr>int_disable_layer := 0\<rparr>]"
    using release_last [OF rt] by blast
  have uf: "ncpu u = ncpu t" "lapic_id_reg u = lapic_id_reg t" "mem u = mem t" "procs u = procs t"
    by (subst u(2), simp)+
  have "sched_yield ctxsw s = bindk (sched_switch_out ctxsw) (\<lambda>_. release Sched_lock) ?b"
    using aq curproc_nested [OF r5(1) na] l1(2) p by (simp add: sched_yield_def bindk_def)
  also have "\<dots> = Ret ((), u)" using so u(1) by (simp add: bindk_def)
  finally have run: "sched_yield ctxsw s = Ret ((), u)" .
  have "on_cpu c p 0 u"
    by (rule on_cpu_upd [OF t(2), where x = "?x\<lparr>int_disable_layer := 0\<rparr>"]) (use tt u(4) uf in simp_all)
  moreover have "same_rest s ?b" "same_rest t u"
    by (rule same_restI, simp add: acquired_def entered_def upd_proc_def) (rule same_restI, subst u(2), simp add: uf)
  then have "through_switch ctxsw p s u" unfolding through_switch_def using t(1) by blast
  ultimately show ?thesis using run u(3) t(4,5) uf by simp
qed

section \<open>Interrupts of a running process\<close>

text \<open>The table that \<^verbatim>\<open>interrupt_init\<close> loads is in force.\<close>

definition gates_ready :: "'z int_sys_scheme \<Rightarrow> bool" where
  "gates_ready s \<longleftrightarrow> (\<exists>s0 :: 'z int_sys_scheme. \<exists>t0. interrupt_init s0 = Ret ((), t0) \<and> vectors s0 = vectors s \<and> idt s = idt t0)"

lemma gates_ready_gate:
  fixes s :: "'z int_sys_scheme"
  assumes "gates_ready s" and "k < 256"
  shows "gate_present (idt s ! k)" "gate_offset (idt s ! k) = vectors s k" "gate_type (idt s ! k) = (if k = VECTOR_SYSCALL then 15 else 14)"
proof -
  obtain s0 t0 :: "'z int_sys_scheme" where t: "interrupt_init s0 = Ret ((), t0)" "vectors s0 = vectors s" "idt s = idt t0"
    using assms(1) unfolding gates_ready_def by blast
  show "gate_present (idt s ! k)" "gate_offset (idt s ! k) = vectors s k" "gate_type (idt s ! k) = (if k = VECTOR_SYSCALL then 15 else 14)"
    using interrupt_init_gates [of s0] t assms(2) by auto
qed

text \<open>The state in which the handler of vector \<open>no\<close> starts.\<close>

lemma interrupt_enters:
  fixes s :: "'z int_sys_scheme"
  assumes g: "gates_ready s" and no: "no < 256" "\<not> hw_error no" and sp: "176 \<le> unat (g_rsp r AND NOT 0xF)"
  shows "\<exists>m. framed no 0 (rflags s) r m \<and> (\<forall>ec ctxsw. interrupt_through ctxsw no ec r s =
     bindk (handle_interrupt ctxsw (frame_at r)) (\<lambda>_. return_from_isr (frame_at r))
       (s\<lparr>mem := m, rflags := (if no = VECTOR_SYSCALL then rflags s else rflags s AND NOT RFLAGS_IF)\<rparr>))"
proof -
  have n: "no \<notin> {21, 29, 30}" using no(2) by (auto simp: hw_error_def)
  have hp: "hw_pushes no ec = hw_pushes no 0" for ec using no(2) by (simp add: hw_pushes_def fun_eq_iff)
  obtain m where m: "fold push64 (hw_pushes no 0 (rflags s) r @ vector_stub no @ trap_enter_all r) (g_rsp r AND NOT 0xF, mem s) = (frame_at r, m)"
      "framed no 0 (rflags s) r m"
    using frame_pushed [OF n sp, of 0 "rflags s" "mem s"] no(2) by auto
  have "interrupt_through ctxsw no ec r s = bindk (handle_interrupt ctxsw (frame_at r)) (\<lambda>_. return_from_isr (frame_at r))
       (s\<lparr>mem := m, rflags := (if no = VECTOR_SYSCALL then rflags s else rflags s AND NOT RFLAGS_IF)\<rparr>)" for ec ctxsw
    using gates_ready_gate [OF g no(1)] m(1) unfolding interrupt_through_def hp [of ec] Let_def by simp
  then show ?thesis using m(2) by blast
qed

lemma on_cpu_settled:
  fixes s :: "'z proc_sys_scheme"
  assumes "on_cpu c p l s"
  shows "on_cpu c p l (s\<lparr>cpus := settled c s\<rparr>)" "settled c (s\<lparr>cpus := settled c s\<rparr>) = settled c s"
    "curproc s = Ret (p, s\<lparr>cpus := settled c s\<rparr>)"
proof -
  have rd: "cpu_ready 6 c s" "c < length (cpus s)" using assms by (auto simp: on_cpu_def cpu_ready_def)
  have "cpu_ready 6 c (s\<lparr>cpus := settled c s\<rparr>)" by (rule cpu_ready_settled [OF rd(1)]) simp_all
  then show "on_cpu c p l (s\<lparr>cpus := settled c s\<rparr>)" using assms settled_cpu [OF rd(2)] by (simp add: on_cpu_def)
  show "settled c (s\<lparr>cpus := settled c s\<rparr>) = settled c s" using settled_fix [of "s\<lparr>cpus := settled c s\<rparr>" c s] rd(2) by simp
  have "cpu_ready (Suc 5) c s" using rd by simp
  from curproc_settled [OF this] show "curproc s = Ret (p, s\<lparr>cpus := settled c s\<rparr>)" using assms by (simp add: on_cpu_def)
qed

lemma if_curproc_on_cpu:
  fixes s :: "'z int_sys_scheme"
  assumes oc: "on_cpu c p l s" and p: "p \<noteq> NULL"
  shows "if_curproc test action s = (if test (p_state (procs s p)) then action (s\<lparr>cpus := settled c s\<rparr>) else Ret ((), s\<lparr>cpus := settled c s\<rparr>))"
proof -
  have "curproc (s\<lparr>cpus := settled c s\<rparr>) = Ret (p, s\<lparr>cpus := settled c s\<rparr>)"
    using on_cpu_settled(3) [OF on_cpu_settled(1) [OF oc]] on_cpu_settled(2) [OF oc] by simp
  then show ?thesis using on_cpu_settled(3) [OF oc] p by (simp add: if_curproc_def bindk_def)
qed

lemma on_cpu_same: "same_cpu s t \<Longrightarrow> on_cpu c p l t \<longleftrightarrow> on_cpu c p l s"
  using cpu_ready_same [of s t 6 c] by (simp add: on_cpu_def same_cpu_def)

lemma handle_yield:
  fixes s :: "'z int_sys_scheme"
  assumes n: "framed VECTOR_SYSCALL 0 fl r (mem s)" "g_rax r = SYS_YIELD"
    and oc: "on_cpu c p 0 s" and p: "p \<noteq> NULL" and lk: "lock_free Sched_lock s" and cb: "switched_back ctxsw c p (frame_at r)"
  shows "\<exists>u. handle_interrupt ctxsw (frame_at r) s = Ret ((), u) \<and> on_cpu c p 0 u \<and> p_state (procs u p) = RUNNING
     \<and> lock_free Sched_lock u \<and> framed VECTOR_SYSCALL 0 fl (r\<lparr>g_rax := 0\<rparr>) (mem u) \<and> through_switch ctxsw p s u"
proof -
  have tn: "tf_trap_no (mem s) (frame_at r) = 128" "tf_rax (mem s) (frame_at r) = 1"
    using framed_fields [OF n(1)] n(2) by (simp_all add: VECTOR_SYSCALL_def SYS_YIELD_def)
  obtain u where u: "sched_yield ctxsw s = Ret ((), u)" "on_cpu c p 0 u" "lock_free Sched_lock u" "p_state (procs u p) = RUNNING"
      "eq_on (region (frame_at r) 176) (mem s) (mem u)" "through_switch ctxsw p s u"
    using sched_yield_returns [OF oc lk p cb] by blast
  let ?v = "u\<lparr>mem := st64 (mem u) (frame_at r) 0\<rparr>"
  have fv: "framed VECTOR_SYSCALL 0 fl (r\<lparr>g_rax := 0\<rparr>) (mem ?v)"
    using framed_rax [OF framed_eq_on [OF n(1) u(5)], of 0] by simp
  have "same_cpu u ?v" by (simp add: same_cpu_def)
  then have ov: "on_cpu c p 0 ?v" using on_cpu_same u(2) by blast
  have "dispatch panic ctxsw (frame_at r) s = Ret ((), ?v)"
    using tn u(1) by (simp add: dispatch_def handle_syscall_def sys_yield_def set_tf_rax_def bindk_def retk_def Let_def
        IDT_ENTRY_IRQ_SPURIOUS_def IDT_ENTRY_BP_def IDT_ENTRY_IRQ_0_def IDT_ENTRY_IRQ_COM1_def VECTOR_SYSCALL_def SYS_YIELD_def)
  then have "handle_interrupt ctxsw (frame_at r) s = Ret ((), ?v\<lparr>cpus := settled c ?v\<rparr>)"
    using tn if_curproc_on_cpu [OF ov p] u(4)
    by (simp add: handle_interrupt_unfold bindk_def Let_def IDT_ENTRY_DOUBLE_FAULT_def IDT_ENTRY_GP_def)
  moreover have "through_switch ctxsw p s (?v\<lparr>cpus := settled c ?v\<rparr>)"
    by (rule through_switch_extend [OF _ u(6)]) (rule same_restI, simp)+
  ultimately show ?thesis using on_cpu_settled(1) [OF ov] u(3,4) fv by (intro exI conjI) (assumption | simp add: lock_free_def)+
qed

lemma handle_con_read:
  fixes s :: "'z int_sys_scheme"
  assumes n: "framed VECTOR_SYSCALL 0 fl r (mem s)" "g_rax r = SYS_CON_READ"
    and oc: "on_cpu c p 0 s" and p: "p \<noteq> NULL" "p_state (procs s p) = RUNNING"
    and lk: "lock_free Sched_lock s" and cb: "switched_back ctxsw c p (frame_at r)"
  shows "\<exists>u. handle_interrupt ctxsw (frame_at r) s = Ret ((), u) \<and> on_cpu c p 0 u \<and> p_state (procs u p) = RUNNING
     \<and> lock_free Sched_lock u \<and> framed VECTOR_SYSCALL 0 fl (r\<lparr>g_rax := 0\<rparr>) (mem u) \<and> through_switch ctxsw p s u"
proof -
  have tn: "tf_trap_no (mem s) (frame_at r) = 128" "tf_rax (mem s) (frame_at r) = 16"
    using framed_fields [OF n(1)] n(2) by (simp_all add: VECTOR_SYSCALL_def SYS_CON_READ_def)
  let ?s1 = "s\<lparr>cpus := settled c s\<rparr>"
  have o1: "on_cpu c p 0 ?s1" and st: "settled c ?s1 = settled c s" using on_cpu_settled [OF oc] by simp_all
  have r1: "cpu_ready (Suc 5) c ?s1" "cpu_lookup ?s1 = Some c" using o1 by (simp_all add: on_cpu_def cpu_ready_def)
  let ?e = "entered c ?s1"
  let ?e1 = "upd_proc p (\<lambda>q. q\<lparr>p_state := RUNNABLE\<rparr>) ?e"
  have "same_cpu ?e ?e1" by (simp add: same_cpu_def upd_proc_def)
  from pop_entered [OF r1(1) this]
  have pop: "pop_int_disable ?e1 = Ret ((), upd_proc p (\<lambda>q. q\<lparr>p_state := RUNNABLE\<rparr>) ?s1)"
    using st by (simp add: upd_proc_def entered_def)
  let ?s2 = "upd_proc p (\<lambda>q. q\<lparr>p_state := RUNNABLE\<rparr>) ?s1"
  let ?s3 = "?s2\<lparr>mem := st64 (mem s) (frame_at r) 0\<rparr>"
  have pe: "p_state (procs ?e p) = RUNNING" using p by (simp add: entered_def)
  have cr: "sys_con_read s = Ret (0, ?s2)"
    using on_cpu_settled(3) [OF oc] push_int_disable_entered [OF r1(2)] p(1) pe pop by (simp add: sys_con_read_def bindk_def retk_def)
  have ms2: "mem ?s2 = mem s" by (simp add: upd_proc_def)
  have ds: "dispatch panic ctxsw (frame_at r) s = Ret ((), ?s3)"
    using tn cr ms2 by (simp add: dispatch_def handle_syscall_def set_tf_rax_def bindk_def Let_def
        IDT_ENTRY_IRQ_SPURIOUS_def IDT_ENTRY_BP_def IDT_ENTRY_IRQ_0_def IDT_ENTRY_IRQ_COM1_def VECTOR_SYSCALL_def SYS_YIELD_def SYS_CON_READ_def)
  have "same_cpu ?s1 ?s3" by (simp add: same_cpu_def upd_proc_def)
  then have o3: "on_cpu c p 0 ?s3" using on_cpu_same o1 by blast
  let ?s4 = "?s3\<lparr>cpus := settled c ?s3\<rparr>"
  have o4: "on_cpu c p 0 ?s4" by (rule on_cpu_settled(1) [OF o3])
  have l4: "lock_free Sched_lock ?s4" using lk by (simp add: lock_free_def upd_proc_def)
  have f4: "framed VECTOR_SYSCALL 0 fl (r\<lparr>g_rax := 0\<rparr>) (mem ?s4)" using framed_rax [OF n(1), of 0] by simp
  have fa: "frame_at (r\<lparr>g_rax := 0\<rparr>) = frame_at r" by (simp add: frame_at_def)
  obtain u where u: "sched_yield ctxsw ?s4 = Ret ((), u)" "on_cpu c p 0 u" "lock_free Sched_lock u" "p_state (procs u p) = RUNNING"
      "eq_on (region (frame_at r) 176) (mem ?s4) (mem u)" "through_switch ctxsw p ?s4 u"
    using sched_yield_returns [OF o4 l4 p(1) cb] by blast
  have "through_switch ctxsw p s u"
    by (rule through_switch_extend [OF _ u(6)]) (rule same_restI, simp add: upd_proc_def)+
  have fu: "framed VECTOR_SYSCALL 0 fl (r\<lparr>g_rax := 0\<rparr>) (mem u)"
    by (rule framed_eq_on [OF f4]) (use u(5) fa in simp)
  have ps: "p_state (procs ?s3 p) = RUNNABLE" by (simp add: upd_proc_def)
  have "handle_interrupt ctxsw (frame_at r) s = Ret ((), u)"
    using tn ds if_curproc_on_cpu [OF o3 p(1), of "\<lambda>st. st \<noteq> RUNNING"] ps u(1)
    by (simp add: handle_interrupt_unfold bindk_def Let_def IDT_ENTRY_DOUBLE_FAULT_def IDT_ENTRY_GP_def)
  then show ?thesis using u(2,3,4) fu \<open>through_switch ctxsw p s u\<close> by blast
qed

lemma on_cpu_flags: "on_cpu c p 0 s \<Longrightarrow> on_cpu c p 0 (s\<lparr>mem := m, rflags := x\<rparr>)" "on_cpu c p 0 s \<Longrightarrow> on_cpu c p 0 (s\<lparr>rflags := x\<rparr>)"
  by (simp_all add: on_cpu_def cpu_ready_def)

text \<open>\<open>resumed c p s t\<close>: process \<open>p\<close> runs again on CPU \<open>c\<close> as before the interrupt.\<close>

definition resumed :: "nat \<Rightarrow> ptr \<Rightarrow> 'z proc_sys_scheme \<Rightarrow> 'z proc_sys_scheme \<Rightarrow> bool" where
  "resumed c p s t \<longleftrightarrow> rflags t = rflags s \<and> on_cpu c p 0 t \<and> p_state (procs t p) = RUNNING \<and> lock_free Sched_lock t"

lemma resumed_return:
  fixes u :: "'z int_sys_scheme"
  assumes "on_cpu c p 0 u" and "p_state (procs u p) = RUNNING" and "lock_free Sched_lock u" and "framed no ec (rflags s) r (mem u)"
  shows "\<exists>t. return_from_isr (frame_at r) u = Ret (r, t) \<and> resumed c p s t \<and> same_rest u t"
proof -
  have "same_rest u (u\<lparr>rflags := rflags s\<rparr>)" by (rule same_restI) simp
  then show ?thesis using return_framed [OF assms(4)] on_cpu_flags(2) [OF assms(1)] assms(2,3) by (simp add: resumed_def lock_free_def)
qed

lemma system_call:
  fixes s :: "'z int_sys_scheme"
  assumes g: "gates_ready s" and oc: "on_cpu c p 0 s" and p: "p \<noteq> NULL" "p_state (procs s p) = RUNNING"
    and lk: "lock_free Sched_lock s" and sp: "176 \<le> unat (g_rsp r AND NOT 0xF)" and cb: "switched_back ctxsw c p (frame_at r)"
    and n: "g_rax r = SYS_YIELD \<or> g_rax r = SYS_CON_READ"
  shows "\<exists>t. interrupt_through ctxsw VECTOR_SYSCALL ec r s = Ret (r\<lparr>g_rax := 0\<rparr>, t) \<and> resumed c p s t \<and> through_switch ctxsw p s t"
proof -
  have v: "VECTOR_SYSCALL < 256" "\<not> hw_error VECTOR_SYSCALL" by (simp_all add: VECTOR_SYSCALL_def hw_error_def)
  obtain m where m: "framed VECTOR_SYSCALL 0 (rflags s) r m" "interrupt_through ctxsw VECTOR_SYSCALL ec r s =
      bindk (handle_interrupt ctxsw (frame_at r)) (\<lambda>_. return_from_isr (frame_at r)) (s\<lparr>mem := m, rflags := rflags s\<rparr>)"
    using interrupt_enters [OF g v sp] by auto
  let ?s = "s\<lparr>mem := m, rflags := rflags s\<rparr>"
  have e: "framed VECTOR_SYSCALL 0 (rflags s) r (mem ?s)" "on_cpu c p 0 ?s" "p_state (procs ?s p) = RUNNING" "lock_free Sched_lock ?s"
    using m(1) on_cpu_flags(1) [OF oc, where m = m and x = "rflags s"] p lk by (simp_all add: lock_free_def)
  obtain u where u: "handle_interrupt ctxsw (frame_at r) ?s = Ret ((), u)" "on_cpu c p 0 u" "p_state (procs u p) = RUNNING"
      "lock_free Sched_lock u" "framed VECTOR_SYSCALL 0 (rflags s) (r\<lparr>g_rax := 0\<rparr>) (mem u)" "through_switch ctxsw p ?s u"
    using n handle_yield [OF e(1) _ e(2) p(1) e(4) cb] handle_con_read [OF e(1) _ e(2) p(1) e(3,4) cb] by metis
  have fa: "frame_at (r\<lparr>g_rax := 0\<rparr>) = frame_at r" by (simp add: frame_at_def)
  obtain t where t: "return_from_isr (frame_at r) u = Ret (r\<lparr>g_rax := 0\<rparr>, t)" "resumed c p s t" "same_rest u t"
    using resumed_return [OF u(2-5)] unfolding fa by blast
  have "same_rest s ?s" by (rule same_restI) simp
  from through_switch_extend [OF this u(6) t(3)] show ?thesis using t(1,2) m(2) u(1) by (simp add: bindk_def)
qed

text \<open>C36: the system calls return to their caller: made by a running process that holds no lock and that the
  scheduler brings back, \<^verbatim>\<open>yield\<close> and \<^verbatim>\<open>con_read\<close> come back with the value 0 in \<^verbatim>\<open>rax\<close> and with every other register, the
  flags and the stack pointer as they were. Neither call does anything but give up the CPU: apart from memory, the CPUs,
  the locks and the process table the state at the switch is the one of the call, and the state at the return is
  the one the switch has left. In particular \<^verbatim>\<open>con_read\<close> returns 0 and takes no byte from the console's input buffer,
  whatever has been typed. The argument of \<^verbatim>\<open>syscall1\<close> has no effect on either call, in whichever register the compiler
  places it.\<close>

theorem system_calls_return:
  fixes s :: "'z int_sys_scheme"
  assumes g: "gates_ready s" and oc: "on_cpu c p 0 s" and p: "p \<noteq> NULL" "p_state (procs s p) = RUNNING"
    and lk: "lock_free Sched_lock s" and sp: "176 \<le> unat (g_rsp r AND NOT 0xF)" and cb: "switched_back ctxsw c p (frame_at r)"
    and put: "g_rsp (put a r) = g_rsp r"
  shows "(\<exists>t. yield ctxsw r s = Ret (r\<lparr>g_rax := 0\<rparr>, t) \<and> resumed c p s t \<and> through_switch ctxsw p s t)
     \<and> (\<exists>t. con_read ctxsw r s = Ret ((0, r\<lparr>g_rax := 0\<rparr>), t) \<and> resumed c p s t \<and> through_switch ctxsw p s t
          \<and> ((\<forall>q a b. ctxsw (Proc_slot p) q a = Ret ((), b) \<longrightarrow> console_fifo b = console_fifo a) \<longrightarrow> console_fifo t = console_fifo s))
     \<and> (\<forall>no \<in> {SYS_YIELD, SYS_CON_READ}. \<exists>t. syscall1 put ctxsw no a r s = Ret ((0, (put a r)\<lparr>g_rax := 0\<rparr>), t) \<and> resumed c p s t
          \<and> through_switch ctxsw p s t)"
proof -
  have call: "\<exists>t. interrupt_through ctxsw VECTOR_SYSCALL 0 (x\<lparr>g_rax := no\<rparr>) s = Ret (x\<lparr>g_rax := 0\<rparr>, t) \<and> resumed c p s t \<and> through_switch ctxsw p s t"
    if "g_rsp x = g_rsp r" and "no \<in> {SYS_YIELD, SYS_CON_READ}" for x no
  proof -
    have "frame_at (x\<lparr>g_rax := no\<rparr>) = frame_at r" using that by (simp add: frame_at_def)
    then show ?thesis using system_call [OF g oc p lk, of "x\<lparr>g_rax := no\<rparr>" ctxsw 0] sp cb that by auto
  qed
  have fifo: "console_fifo t = console_fifo s"
    if "through_switch ctxsw p s t" "\<forall>q a b. ctxsw (Proc_slot p) q a = Ret ((), b) \<longrightarrow> console_fifo b = console_fifo a" for t
    using that by (auto simp: through_switch_def same_rest_def)
  obtain t where t: "interrupt_through ctxsw VECTOR_SYSCALL 0 (r\<lparr>g_rax := SYS_CON_READ\<rparr>) s = Ret (r\<lparr>g_rax := 0\<rparr>, t)" "resumed c p s t" "through_switch ctxsw p s t"
    using call [of r SYS_CON_READ] by auto
  have "con_read ctxsw r s = Ret ((0, r\<lparr>g_rax := 0\<rparr>), t)" using t(1) by (simp add: con_read_def syscall0_def bindk_def retk_def)
  then have "\<exists>t. con_read ctxsw r s = Ret ((0, r\<lparr>g_rax := 0\<rparr>), t) \<and> resumed c p s t \<and> through_switch ctxsw p s t
          \<and> ((\<forall>q a b. ctxsw (Proc_slot p) q a = Ret ((), b) \<longrightarrow> console_fifo b = console_fifo a) \<longrightarrow> console_fifo t = console_fifo s)"
    using t(2,3) fifo [OF t(3)] by blast
  then show ?thesis
    using call [of r SYS_YIELD] call [OF put, of SYS_YIELD] call [OF put, of SYS_CON_READ]
    by (auto simp: yield_def syscall0_def syscall1_def bindk_def retk_def)
qed

text \<open>C35: preemption is invisible to the process: a timer interrupt at any instruction of a running process that
  holds no lock, followed by a switch to the scheduler and back, returns to this instruction with all registers, the
  stack pointer and the flags (interrupts on or off) exactly as they were, the process running and no lock left.\<close>

theorem preemption_transparent:
  fixes s :: "'z int_sys_scheme"
  assumes g: "gates_ready s" and oc: "on_cpu c p 0 s" and p: "p \<noteq> NULL" "p_state (procs s p) = RUNNING"
    and lk: "lock_free Sched_lock s" and sp: "176 \<le> unat (g_rsp r AND NOT 0xF)" and cb: "switched_back ctxsw c p (frame_at r)"
    and la: "lapic s \<noteq> NULL"
  shows "\<exists>t. interrupt_through ctxsw (unat IDT_ENTRY_IRQ_TIMER) ec r s = Ret (r, t) \<and> resumed c p s t"
proof -
  have v: "unat IDT_ENTRY_IRQ_TIMER = 32" by (simp add: IDT_ENTRY_IRQ_TIMER_def IDT_ENTRY_IRQ_0_def)
  have v2: "(32 :: nat) < 256" "\<not> hw_error 32" "32 \<noteq> VECTOR_SYSCALL" by (simp_all add: VECTOR_SYSCALL_def hw_error_def)
  obtain m where m: "framed 32 0 (rflags s) r m" "interrupt_through ctxsw 32 ec r s =
      bindk (handle_interrupt ctxsw (frame_at r)) (\<lambda>_. return_from_isr (frame_at r)) (s\<lparr>mem := m, rflags := rflags s AND NOT RFLAGS_IF\<rparr>)"
    using interrupt_enters [OF g v2(1,2) sp] v2(3) by auto
  let ?s = "s\<lparr>mem := m, rflags := rflags s AND NOT RFLAGS_IF\<rparr>"
  let ?k = "ticked c p ?s"
  have e: "on_cpu c p 0 ?s" by (rule on_cpu_flags(1) [OF oc])
  have rd: "cpu_ready (Suc 5) c ?s" "c < length (cpus ?s)" using e by (simp_all add: on_cpu_def cpu_ready_def)
  have pe: "cpu_proc (cpus ?s ! c) = p" "p_state (procs ?s p) = RUNNING" using e p by (simp_all add: on_cpu_def)
  have tk: "timer_tick ?s = Ret ((), ?k)"
    by (rule timer_tick_running [OF rd(1) _ _ pe(1) p(1) pe(2)]) (use la in simp_all)
  have tn: "tf_trap_no (mem ?s) (frame_at r) = 32" using framed_fields [OF m(1)] by simp
  have ds: "dispatch panic ctxsw (frame_at r) ?s = Ret ((), ?k)"
    using tk tn by (simp add: dispatch_def Let_def IDT_ENTRY_IRQ_SPURIOUS_def IDT_ENTRY_BP_def IDT_ENTRY_IRQ_0_def)
  have kf: "cpus ?k = settled c ?s" "rflags ?k = rflags ?s" "ncpu ?k = ncpu ?s" "lapic_id_reg ?k = lapic_id_reg ?s"
    "locks ?k = locks s" "mem ?k = m" "p_state (procs ?k p) = RUNNABLE" by (simp_all add: ticked_def)
  have "same_cpu (?s\<lparr>cpus := settled c ?s\<rparr>) ?k" using kf(1-4) by (simp add: same_cpu_def)
  then have ok: "on_cpu c p 0 ?k" using on_cpu_same on_cpu_settled(1) [OF e] by blast
  let ?j = "?k\<lparr>cpus := settled c ?k\<rparr>"
  have lj: "lock_free Sched_lock ?j" using lk kf(5) by (simp add: lock_free_def)
  obtain u where u: "sched_yield ctxsw ?j = Ret ((), u)" "on_cpu c p 0 u" "lock_free Sched_lock u" "p_state (procs u p) = RUNNING"
      "eq_on (region (frame_at r) 176) (mem ?j) (mem u)"
    using sched_yield_returns [OF on_cpu_settled(1) [OF ok] lj p(1) cb] by blast
  have "framed 32 0 (rflags s) r (mem u)" by (rule framed_eq_on [OF m(1)]) (use u(5) kf(6) in simp)
  note rr = resumed_return [OF u(2,4,3) this]
  have "handle_interrupt ctxsw (frame_at r) ?s = Ret ((), u)"
    using tn ds if_curproc_on_cpu [OF ok p(1), of "\<lambda>st. st \<noteq> RUNNING"] kf(7) u(1)
    by (simp add: handle_interrupt_unfold bindk_def Let_def IDT_ENTRY_DOUBLE_FAULT_def IDT_ENTRY_GP_def)
  then show ?thesis using rr m(2) unfolding v by (auto simp: bindk_def)
qed

section \<open>Instances\<close>

text \<open>A scheduler with one process switches straight back to it.\<close>

definition demo_switch :: "'z proc_sys_scheme ctxsw" where
  "demo_switch sl q s = (case sl of Proc_slot p \<Rightarrow> Ret ((), upd_proc p (\<lambda>x. x\<lparr>p_state := RUNNING\<rparr>) s) | Cpu_slot _ \<Rightarrow> Ret ((), s))"

lemma demo_switch_back: "switched_back demo_switch c p f"
proof -
  have "on_cpu c p 1 (upd_proc p (\<lambda>x. x\<lparr>p_state := RUNNING\<rparr>) s) = on_cpu c p 1 s" for s :: "'a proc_sys_scheme"
    by (rule on_cpu_same) (simp add: same_cpu_def upd_proc_def)
  then show ?thesis by (simp add: switched_back_def demo_switch_def lock_held_def) (simp add: upd_proc_def)
qed

definition demo_regs :: trap_regs where
  "demo_regs = \<lparr>g_rax = 7, g_rcx = 1, g_rdx = 2, g_rbx = 3, g_rsi = 4, g_rdi = 5, g_rbp = 6, g_r8 = 8, g_r9 = 9, g_r10 = 10, g_r11 = 11,
     g_r12 = 12, g_r13 = 13, g_r14 = 14, g_r15 = 15, g_rip = 0xFFFF800000101000, g_cs = 8, g_rsp = 0xFFFF800000200FF8, g_ss = 16\<rparr>"

definition demo_running :: int_sys where
  "demo_running = (case interrupt_init (demo_int 0) of Ret (_, t) \<Rightarrow> t | _ \<Rightarrow> demo_int 0)\<lparr>rflags := RFLAGS_IF\<rparr>"

lemma demo_running_ok:
  "gates_ready demo_running" "on_cpu 0 0x4000 0 demo_running" "p_state (procs demo_running 0x4000) = RUNNING"
  "lock_free Sched_lock demo_running" "lapic demo_running \<noteq> NULL" "176 \<le> unat (g_rsp demo_regs AND NOT 0xF)"
proof -
  obtain d where d: "interrupt_init (demo_int 0) = Ret ((), (demo_int 0)\<lparr>idt := d, idtr := (16 * 256 - 1, 0x7000)\<rparr>)"
    by (simp add: interrupt_init_def load_idt_def Let_def demo_int_def)
  then have e: "demo_running = (demo_int 0)\<lparr>idt := d, idtr := (16 * 256 - 1, 0x7000), rflags := RFLAGS_IF\<rparr>" by (simp add: demo_running_def)
  have "interrupt_init (demo_int 0) = Ret ((), (demo_int 0)\<lparr>idt := d, idtr := (16 * 256 - 1, 0x7000)\<rparr>)
      \<and> vectors (demo_int 0) = vectors demo_running \<and> idt demo_running = idt ((demo_int 0)\<lparr>idt := d, idtr := (16 * 256 - 1, 0x7000)\<rparr>)"
    using d by (simp add: e)
  then show "gates_ready demo_running" unfolding gates_ready_def by blast
  show "on_cpu 0 0x4000 0 demo_running"
    by (simp add: e on_cpu_def cpu_ready_def cpu_lookup_def lapic_id_def demo_int_def demo_cpu_def)
  show "p_state (procs demo_running 0x4000) = RUNNING" "lock_free Sched_lock demo_running" "lapic demo_running \<noteq> NULL"
    by (simp_all add: e demo_int_def lock_free_def P2KV_def KERNBASE_def)
  show "176 \<le> unat (g_rsp demo_regs AND NOT 0xF)" by (simp add: demo_regs_def)
qed

text \<open>The same machine with a byte in the console's input buffer.\<close>

definition demo_typed :: int_sys where
  "demo_typed = demo_running\<lparr>console_fifo := (case spsc_fifo_write (Some demo_fifo) 65 of Ret (_, Some f) \<Rightarrow> f | _ \<Rightarrow> demo_fifo)\<rparr>"

lemma demo_typed_ok:
  "gates_ready demo_typed" "on_cpu 0 0x4000 0 demo_typed" "p_state (procs demo_typed 0x4000) = RUNNING" "lock_free Sched_lock demo_typed"
  using demo_running_ok(1-4) by (simp_all add: demo_typed_def gates_ready_def on_cpu_def cpu_ready_def cpu_lookup_def lapic_id_def lock_free_def)

theorem system_calls_return_witness:
  "(\<exists>t. con_read demo_switch demo_regs demo_typed = Ret ((0, demo_regs\<lparr>g_rax := 0\<rparr>), t) \<and> rflags t = RFLAGS_IF \<and> contents (console_fifo t) = [65])
   \<and> (\<exists>t. syscall1 (\<lambda>a r. r\<lparr>g_rdx := a\<rparr>) demo_switch SYS_YIELD 42 demo_regs demo_typed = Ret ((0, demo_regs\<lparr>g_rdx := 42, g_rax := 0\<rparr>), t))"
proof -
  have "(0x4000 :: ptr) \<noteq> NULL" "g_rsp ((\<lambda>a r. r\<lparr>g_rdx := a\<rparr>) 42 demo_regs) = g_rsp demo_regs" by simp_all
  note w = system_calls_return [where put = "\<lambda>a r. r\<lparr>g_rdx := a\<rparr>" and a = 42, OF demo_typed_ok(1,2) this(1) demo_typed_ok(3,4) demo_running_ok(6)
      demo_switch_back this(2)]
  have q: "\<forall>q a b. demo_switch (Proc_slot 0x4000) q a = Ret ((), b) \<longrightarrow> console_fifo b = console_fifo (a :: int_sys)"
    by (auto simp: demo_switch_def upd_proc_def)
  have r: "rflags demo_typed = RFLAGS_IF" by (simp add: demo_typed_def demo_running_def)
  have f: "contents (console_fifo demo_typed) = [65]"
    by (simp add: demo_typed_def spsc_fifo_write_def demo_fifo_def contents_def used_def Let_def)
  from w have "\<exists>t. con_read demo_switch demo_regs demo_typed = Ret ((0, demo_regs\<lparr>g_rax := 0\<rparr>), t) \<and> rflags t = RFLAGS_IF \<and> contents (console_fifo t) = [65]"
    using q r f unfolding resumed_def by metis
  moreover from w have "\<exists>t. syscall1 (\<lambda>a r. r\<lparr>g_rdx := a\<rparr>) demo_switch SYS_YIELD 42 demo_regs demo_typed = Ret ((0, demo_regs\<lparr>g_rdx := 42, g_rax := 0\<rparr>), t)"
    by auto
  ultimately show ?thesis by blast
qed

theorem preemption_transparent_witness:
  "\<exists>t. interrupt_through demo_switch 32 0 demo_regs demo_running = Ret (demo_regs, t) \<and> rflags t = RFLAGS_IF"
proof -
  have "(0x4000 :: ptr) \<noteq> NULL" by simp
  note w = preemption_transparent [OF demo_running_ok(1,2) this demo_running_ok(3,4,6) demo_switch_back demo_running_ok(5), of 0]
  have "rflags demo_running = RFLAGS_IF" "unat IDT_ENTRY_IRQ_TIMER = 32"
    by (simp_all add: demo_running_def IDT_ENTRY_IRQ_TIMER_def IDT_ENTRY_IRQ_0_def)
  then show ?thesis using w by (auto simp: resumed_def)
qed

end
