(* ===== verification/Kmain.thy ===== *)
theory Kmain
  imports Kshell
begin

text \<open>
  The start of the kernel, \<^verbatim>\<open>kernel/src/kmain.c\<close>: all components brought up in the order of the source. The address
  \<open>kern_end\<close> of the end of the kernel image comes from the linker.
\<close>

section \<open>Definitions\<close>

definition kmain_devices :: "'z int_sys_scheme \<Rightarrow> (unit \<times> 'z int_sys_scheme) outcome" where
  "kmain_devices =
     bindk lapic_init (\<lambda>_.
     bindk cpu_bsp_init (\<lambda>_.
     bindk interrupt_init (\<lambda>_.
     bindk pic_init (\<lambda>_.
     ioapic_init))))"

definition kmain_memory :: "ptr \<Rightarrow> 'z int_sys_scheme \<Rightarrow> (unit \<times> 'z int_sys_scheme) outcome" where
  "kmain_memory kern_end =
     bindk (\<lambda>s. Ret ((), boot_alloc_init kern_end (64 * 1024 * 1024) s)) (\<lambda>_.
     bindk vmm_init (\<lambda>_.
     bindk (pgalloc_init (4 * 1024 * 1024 * 1024)) (\<lambda>_.
     bindk kmain_devices (\<lambda>_ s.
       let (bootalloc_avail, s1) = boot_alloc_disable s
       in bindk kmalloc_init (\<lambda>_. pgalloc_free_range bootalloc_avail (P2KV (64 * 1024 * 1024))) s1))))"

text \<open>\<^verbatim>\<open>sched_start\<close> does not return; \<open>n\<close> turns of its loop are observed.\<close>

definition mpmain :: "'z int_sys_scheme ctxsw \<Rightarrow> nat \<Rightarrow> 'z int_sys_scheme \<Rightarrow> (ptr list \<times> 'z int_sys_scheme) outcome" where
  "mpmain ctxsw n =
     bindk proc_alloc (\<lambda>p.
     bindk (sched_create_kproc p Kshell_main) (\<lambda>_.
     bindk (sched_add p) (\<lambda>_.
     sched_start ctxsw n)))"

definition kmain :: "'z int_sys_scheme ctxsw \<Rightarrow> nat \<Rightarrow> ptr \<Rightarrow> 'z int_sys_scheme \<Rightarrow> (ptr list \<times> 'z int_sys_scheme) outcome" where
  "kmain ctxsw n kern_end =
     bindk (kmain_memory kern_end) (\<lambda>_.
     bindk console_init (\<lambda>_.
     bindk systick_init (\<lambda>_.
     bindk proc_init (\<lambda>_.
     mpmain ctxsw n))))"

section \<open>Bringing up the devices\<close>

text \<open>\<open>io_only Q m\<close>: while the devices satisfy \<open>Q\<close>, \<open>m\<close> returns and does nothing but access devices.\<close>

definition io_only :: "((io_event list \<Rightarrow> u16 \<Rightarrow> u8) \<Rightarrow> (io_event list \<Rightarrow> u64 \<Rightarrow> u32) \<Rightarrow> ptr \<Rightarrow> bool) \<Rightarrow> ('z dev_sys_scheme \<Rightarrow> ('a \<times> 'z dev_sys_scheme) outcome) \<Rightarrow> bool" where
  "io_only Q m \<longleftrightarrow> (\<forall>s. Q (dev_in s) (dev_rd s) (lapic s) \<longrightarrow> (\<exists>r tr. m s = Ret (r, s\<lparr>io_trace := tr\<rparr>)))"

lemma io_onlyI: "(\<And>s. Q (dev_in s) (dev_rd s) (lapic s) \<Longrightarrow> \<exists>r tr. m s = Ret (r, s\<lparr>io_trace := tr\<rparr>)) \<Longrightarrow> io_only Q m"
  by (simp add: io_only_def)

lemma io_only_unit:
  fixes m :: "'z dev_sys_scheme \<Rightarrow> (unit \<times> 'z dev_sys_scheme) outcome"
  assumes "io_only Q m" and "Q (dev_in s) (dev_rd s) (lapic s)"
  obtains tr where "m s = Ret ((), s\<lparr>io_trace := tr\<rparr>)"
  using assms unfolding io_only_def by fastforce

lemma io_only_bindk [intro!]:
  fixes m :: "'z dev_sys_scheme \<Rightarrow> ('a \<times> 'z dev_sys_scheme) outcome"
  assumes "io_only Q m" and "\<And>r. io_only Q (f r)"
  shows "io_only Q (bindk m f)"
proof (rule io_onlyI)
  fix s :: "'z dev_sys_scheme" assume q: "Q (dev_in s) (dev_rd s) (lapic s)"
  obtain r tr where m: "m s = Ret (r, s\<lparr>io_trace := tr\<rparr>)" using assms(1) q by (auto simp: io_only_def)
  have "Q (dev_in (s\<lparr>io_trace := tr\<rparr>)) (dev_rd (s\<lparr>io_trace := tr\<rparr>)) (lapic (s\<lparr>io_trace := tr\<rparr>))" using q by simp
  then obtain r2 tr2 where "f r (s\<lparr>io_trace := tr\<rparr>) = Ret (r2, s\<lparr>io_trace := tr\<rparr>\<lparr>io_trace := tr2\<rparr>)"
    using assms(2) unfolding io_only_def by blast
  then show "\<exists>r tr. bindk m f s = Ret (r, s\<lparr>io_trace := tr\<rparr>)" using m by (auto simp: bindk_def)
qed

lemma io_same: "\<exists>r tr. Ret (x, s) = Ret (r, s\<lparr>io_trace := tr\<rparr>)" "\<exists>tr. s = s\<lparr>io_trace := tr\<rparr>"
  by (auto intro!: exI [of _ "io_trace s"])

lemma io_only_prims [intro!]:
  "io_only Q (outb p v)" "io_only Q (lapicw i w)" "io_only Q (ioapicread q)" "io_only Q (ioapicwrite q w)" "io_only Q (retk x)"
  "io_only Q (inb p)"
  "io_only Q (\<lambda>s. mmio_read (lapic_reg (lapic s) i) s)"
  by (rule io_onlyI, simp add: inb_def outb_def lapicw_def ioapicread_def ioapicwrite_def mmio_read_def mmio_write_def bindk_def retk_def Let_def io_same;
      blast)+

lemma io_only_if [intro!]: "io_only Q m \<Longrightarrow> io_only Q m' \<Longrightarrow> io_only Q (if b then m else m')"
  by simp

text \<open>The local interrupt controller reports the initial message as delivered.\<close>

definition icr_ready :: "(io_event list \<Rightarrow> u64 \<Rightarrow> u32) \<Rightarrow> ptr \<Rightarrow> bool" where
  "icr_ready d l \<longleftrightarrow> (\<forall>tr. d tr (lapic_reg l 0x300) AND 0x1000 = 0)"

lemma io_only_wait: "io_only (\<lambda>_. icr_ready) (\<lambda>s. case lapic_wait s of None \<Rightarrow> Hang | Some t \<Rightarrow> Ret ((), t))"
proof (rule io_onlyI)
  fix s :: "'z dev_sys_scheme" assume "icr_ready (dev_rd s) (lapic s)"
  then have "\<exists>tr. lapic_wait s = Some (s\<lparr>io_trace := tr\<rparr>)"
    by (subst lapic_wait.simps) (auto simp: icr_ready_def mmio_read_def Let_def)
  then show "\<exists>r tr. (case lapic_wait s of None \<Rightarrow> Hang | Some t \<Rightarrow> Ret ((), t)) = Ret (r, s\<lparr>io_trace := tr\<rparr>)" by auto
qed

lemma ioapic_mask_from_io: "io_only Q (ioapic_mask_from n i)"
  by (induction n arbitrary: i) (auto simp: Let_def)

text \<open>The UART's transmitter is always ready.\<close>

definition tx_ready :: "uart_device \<Rightarrow> (io_event list \<Rightarrow> u16 \<Rightarrow> u8) \<Rightarrow> bool" where
  "tx_ready u d \<longleftrightarrow> mmio_base u = NULL \<and> (\<forall>tr. d tr (pio_base u + 5) AND 0x20 \<noteq> 0)"

lemma io_only_uart:
  assumes "mmio_base u = NULL"
  shows "io_only Q (uart_write u k v)" and "io_only Q (uart_read u k)"
  using assms io_only_prims unfolding uart_write_def uart_read_def by auto

lemma io_only_putc: "io_only (\<lambda>d _ _. tx_ready u d) (s_uart_putc u c)"
proof (rule io_onlyI)
  fix s :: "'z dev_sys_scheme" assume q: "tx_ready u (dev_in s)"
  then have "\<exists>tr. uart_wait u s = Some (s\<lparr>io_trace := tr\<rparr>)"
    by (subst uart_wait.simps) (auto simp: tx_ready_def uart_read_def inb_def Let_def)
  then show "\<exists>r tr. s_uart_putc u c s = Ret (r, s\<lparr>io_trace := tr\<rparr>)"
    using q by (auto simp: s_uart_putc_def tx_ready_def uart_write_def outb_def)
qed

lemma io_only_puts: "io_only (\<lambda>d _ _. tx_ready u d) (uart_puts u cs)"
  by (induction cs) (auto simp: uart_putc_def intro!: io_only_putc)

lemma uart_init_io:
  assumes "mmio_base u = NULL"
  shows "io_only (\<lambda>d _ _. tx_ready u d) (uart_init u)"
  unfolding uart_init_def by (intro io_only_bindk io_only_uart [OF assms] io_only_if io_only_prims io_only_puts)

text \<open>What is left alone: memory, locks, allocators, page table and the interrupt flag.\<close>

text \<open>What the linker placed, and the answers of the ports: fixed during the run.\<close>

definition statics :: "'z dev_sys_scheme \<Rightarrow> ptr \<times> ptr \<times> ptr \<times> ptr \<times> (symbol \<Rightarrow> ptr) \<times> (io_event list \<Rightarrow> u16 \<Rightarrow> u8)" where
  "statics s = (ready_queue s, waiting_queue s, ptable_proc s, idle_proc s, addr_of s, dev_in s)"

definition dev_step :: "'z int_sys_scheme \<Rightarrow> 'z int_sys_scheme \<Rightarrow> bool" where
  "dev_step s t \<longleftrightarrow> mem t = mem s \<and> rflags t = rflags s \<and> locks t = locks s \<and> begin_kva t = begin_kva s \<and> end_kva t = end_kva s
     \<and> pgalloc_bins t = pgalloc_bins s \<and> max_addr t = max_addr s \<and> size_list t = size_list s \<and> kern_pml4 t = kern_pml4 s \<and> cr3 t = cr3 s
     \<and> statics t = statics s"

lemma lapic_init_ok:
  fixes s :: "'z int_sys_scheme"
  assumes en: "msr s 0x1B AND push_bit 11 1 \<noteq> 0" and icr: "icr_ready (dev_rd s) (P2KV (msr s 0x1B AND NOT 0xFFF))"
  shows "\<exists>tr. lapic_init s = Ret ((), s\<lparr>lapic := P2KV (msr s 0x1B AND NOT 0xFFF), io_trace := tr\<rparr>)"
proof -
  let ?s = "s\<lparr>lapic := P2KV (msr s 0x1B AND NOT 0xFFF)\<rparr>"
  let ?m = "(bindk (lapicw 0xF0 (0x100 OR IDT_ENTRY_IRQ_SPURIOUS)) (\<lambda>_.
         bindk (lapicw 0x3E0 0xB) (\<lambda>_.
         bindk (lapicw 0x320 (0x20000 OR IDT_ENTRY_IRQ_TIMER)) (\<lambda>_.
         bindk (lapicw 0x380 10000000) (\<lambda>_.
         bindk (lapicw 0x350 0x10000) (\<lambda>_.
         bindk (lapicw 0x360 0x10000) (\<lambda>_.
         bindk (\<lambda>s. mmio_read (lapic_reg (lapic s) 0x30) s) (\<lambda>ver.
         bindk (if drop_bit 16 ver AND 0xFF \<ge> 4 then lapicw 0x340 0x10000 else retk ()) (\<lambda>_.
         bindk (lapicw 0x370 IDT_ENTRY_IRQ_ERROR) (\<lambda>_.
         bindk (lapicw 0x280 0) (\<lambda>_.
         bindk (lapicw 0x280 0) (\<lambda>_.
         bindk (lapicw 0xB0 0) (\<lambda>_.
         bindk (lapicw 0x310 0) (\<lambda>_.
         bindk (lapicw 0x300 (0x80000 OR 0x500 OR 0x8000)) (\<lambda>_.
         bindk (\<lambda>s. case lapic_wait s of None \<Rightarrow> Hang | Some t \<Rightarrow> Ret ((), t)) (\<lambda>_.
         lapicw 0x80 0)))))))))))))))) :: 'z int_sys_scheme \<Rightarrow> (unit \<times> 'z int_sys_scheme) outcome"
  have "io_only (\<lambda>_. icr_ready) ?m" by (intro io_only_bindk io_only_prims io_only_if io_only_wait)
  then obtain tr where tr: "?m ?s = Ret ((), ?s\<lparr>io_trace := tr\<rparr>)"
    by (rule io_only_unit [where s = ?s]) (use icr in simp)
  have "rdmsr 0x1B s = Ret (msr s 0x1B, s)" by (simp add: rdmsr_def)
  then have "lapic_init s = ?m ?s" using en unfolding lapic_init_def by (simp only: bindk_Ret if_False)
  then show ?thesis using tr by (simp only:) blast
qed

lemma kmain_devices_ok:
  fixes s :: "'z int_sys_scheme"
  assumes en: "msr s 0x1B AND push_bit 11 1 \<noteq> 0" and icr: "icr_ready (dev_rd s) (P2KV (msr s 0x1B AND NOT 0xFFF))"
    and cp: "0 < length (cpus s)" and off: "\<not> if_set (rflags s)"
  shows "\<exists>t. kmain_devices s = Ret ((), t) \<and> dev_step s t \<and> cpu_ready 9 0 t \<and> length (idt t) = 256
     \<and> int_disable_layer (cpus t ! 0) = 0"
proof -
  obtain tr where l: "lapic_init s = Ret ((), s\<lparr>lapic := P2KV (msr s 0x1B AND NOT 0xFFF), io_trace := tr\<rparr>)"
    using lapic_init_ok [OF en icr] by blast
  let ?s1 = "s\<lparr>lapic := P2KV (msr s 0x1B AND NOT 0xFFF), io_trace := tr\<rparr>"
  let ?s2 = "?s1\<lparr>ncpu := 1, cpus := (cpus s)[0 := (cpus s ! 0)\<lparr>apicid := lapic_id s, started := 1, int_disable_layer := 0\<rparr>],
    gdts := (gdts s)(0 := gdt_table (tss_addr s 0)), gdtr := (55, gdt_addr s 0)\<rparr>"
  have b: "cpu_bsp_init ?s1 = Ret ((), ?s2)"
    by (simp add: cpu_bsp_init_def gdt_setup_def sizeof_gdt_def lapic_id_def)
  obtain d where i: "interrupt_init ?s2 = Ret ((), ?s2\<lparr>idt := d, idtr := (4095, idt_addr s)\<rparr>)" "length d = 256"
    by (simp add: interrupt_init_def load_idt_def Let_def idt_loop_nth(1))
  let ?s3 = "?s2\<lparr>idt := d, idtr := (4095, idt_addr s)\<rparr>"
  have "io_only (\<lambda>_ _ _. True) (pic_init :: 'z int_sys_scheme \<Rightarrow> _)" unfolding pic_init_def by auto
  then obtain t4 where p: "pic_init ?s3 = Ret ((), ?s3\<lparr>io_trace := t4\<rparr>)" by (rule io_only_unit [where s = ?s3]) simp
  let ?s4 = "?s3\<lparr>io_trace := t4, ioapic := P2KV IOAPIC\<rparr>"
  have "io_only (\<lambda>_ _ _. True) (bindk (ioapicread 1) (\<lambda>ver.
       let maxintr = drop_bit 16 ver AND 0xFF in ioapic_mask_from (unat maxintr + 1) 0) :: 'z int_sys_scheme \<Rightarrow> _)"
    using ioapic_mask_from_io by (auto simp: Let_def simp del: ioapic_mask_from.simps)
  then obtain t5 where "bindk (ioapicread 1) (\<lambda>ver.
       let maxintr = drop_bit 16 ver AND 0xFF in ioapic_mask_from (unat maxintr + 1) 0) ?s4 = Ret ((), ?s4\<lparr>io_trace := t5\<rparr>)"
    by (rule io_only_unit [where s = ?s4]) simp
  then have io: "ioapic_init (?s3\<lparr>io_trace := t4\<rparr>) = Ret ((), ?s4\<lparr>io_trace := t5\<rparr>)" by (simp add: ioapic_init_def)
  let ?t = "?s4\<lparr>io_trace := t5\<rparr>"
  have "kmain_devices s = Ret ((), ?t)" unfolding kmain_devices_def by (subst bindk_Ret, rule l, subst bindk_Ret, rule b, subst bindk_Ret, rule i(1), subst bindk_Ret, rule p, rule io)
  moreover have "cpu_ready 9 0 ?t" using cp off by (simp add: cpu_ready_def cpu_lookup_def lapic_id_def)
  ultimately show ?thesis using i(2) cp by (intro exI [of _ ?t]) (simp add: dev_step_def statics_def)
qed

section \<open>Bringing up memory\<close>

text \<open>
  The machine as the boot loader leaves it: the kernel image ends between 1 MB and 32 MB, the 64 MB behind it are
  clear, interrupts are off, and the local interrupt controller is enabled and delivers.
\<close>

definition boot_ready :: "ptr \<Rightarrow> 'z int_sys_scheme \<Rightarrow> bool" where
  "boot_ready ke s \<longleftrightarrow> \<not> boot_alloc_initialized s \<and> max_addr s = 0
     \<and> unat (pva 256) \<le> unat ke \<and> unat ke \<le> unat (pva 8192)
     \<and> (\<forall>x. unat ke \<le> unat x \<and> unat x < unat ke + 67108864 \<longrightarrow> mem s x = 0)
     \<and> 0 < length (cpus s) \<and> \<not> if_set (rflags s)
     \<and> msr s 0x1B AND push_bit 11 1 \<noteq> 0 \<and> icr_ready (dev_rd s) (P2KV (msr s 0x1B AND NOT 0xFFF))"

lemma mapped_same_out:
  assumes t: "two_tables p4 p3" and o: "same_out R m m'" and d: "{unat p4..<unat p4 + 8192} \<inter> R = {}" and m: "mapped m p4 p3 i"
  shows "mapped m' p4 p3 i"
proof -
  have tb: "table_at p4" "table_at p3" "unat p4 + 4096 = unat p3" using t by (simp_all add: two_tables_def)
  have "tab m' p j = tab m p j" if p: "p = p4 \<or> p = p3" and j: "j < 512" for p j
  proof -
    have tp: "table_at p" using p tb by auto
    note u = unat_entry [OF tp j]
    have "{unat (p + 8 * of_nat j)..<unat (p + 8 * of_nat j) + 8} \<subseteq> {unat p4..<unat p4 + 8192}"
      unfolding u using p j tb(3) by auto
    moreover have "unat (p + 8 * of_nat j) + 8 \<le> 2 ^ 64" unfolding u using tp j by (simp add: table_at_def)
    ultimately show ?thesis unfolding tab_def using d by (intro ld64_same_out [OF o]) blast+
  qed
  then show ?thesis using m by (simp add: mapped_def)
qed

lemma boot_bounds:
  assumes "boot_ready ke s"
  shows "unat KERNBASE + 1048576 \<le> unat ke" "unat ke \<le> unat KERNBASE + 33554432"
    "unat KERNBASE + 4096 * page_limit = 2 ^ 64"
  using assms unat_pva [of 256] unat_pva [of 8192] unat_KERNBASE(1) by (simp_all add: boot_ready_def page_limit_num)

text \<open>The boot zone covers the first free page behind the image; the page table takes the first two pages of it.\<close>

lemma boot_zone_start:
  assumes b: "boot_ready ke s"
  defines "s0 \<equiv> boot_alloc_init ke (64 * 1024 * 1024) s"
  shows "boot_zone s0" and "s0 = s\<lparr>boot_alloc_initialized := True, begin_kva := ROUNDUP_PWR2 ke PG_SIZE, end_kva := ke + 67108864\<rparr>"
    and "unat ke \<le> unat (begin_kva s0)" and "unat (begin_kva s0) < unat ke + 4096" and "unat (end_kva s0) = unat ke + 67108864"
proof -
  note bb = boot_bounds [OF b]
  show s0: "s0 = s\<lparr>boot_alloc_initialized := True, begin_kva := ROUNDUP_PWR2 ke PG_SIZE, end_kva := ke + 67108864\<rparr>"
    using b by (simp add: s0_def boot_alloc_init_def boot_ready_def)
  have r: "unat ke + 4095 < 2 ^ 64" using bb by (simp add: page_limit_num)
  note rb = roundup_bounds [OF r]
  show "unat ke \<le> unat (begin_kva s0)" "unat (begin_kva s0) < unat ke + 4096" using rb by (simp_all add: s0)
  show e: "unat (end_kva s0) = unat ke + 67108864" using bb unfolding s0 by (simp add: unat_add_numeral page_limit_num)
  have "0 < unat (begin_kva s0)" using rb(1) bb(1) unat_KERNBASE(2) by (simp add: s0)
  then show "boot_zone s0" using rb e bb unfolding boot_zone_def
    by (simp add: s0 max_request_def page_limit_num word_less_nat_alt)
qed

text \<open>The page table, the bitmaps and the pages given to the allocator, one behind the other.\<close>

lemma tables_ready:
  fixes s :: "'z int_sys_scheme"
  assumes b: "boot_ready ke s"
  defines "s0 \<equiv> boot_alloc_init ke (64 * 1024 * 1024) s" and "p \<equiv> ROUNDUP_PWR2 ke PG_SIZE"
  obtains s1 m p3 where "vmm_init s0 = Ret ((), s1)" and "s1 = s0\<lparr>begin_kva := p + 8192, mem := m, kern_pml4 := p, cr3 := KV2P p\<rparr>"
    and "unat (p + 8192) = unat p + 8192" and "unat ke \<le> unat p" and "unat p < unat ke + 4096"
    and "two_tables p p3" and "mapped m p p3 512" and "same_out {unat p..<unat p + 8192} (mem s) m" and "zone_ready (2 ^ 20) s1"
proof -
  note bb = boot_bounds [OF b] and z0 = boot_zone_start [OF b, folded s0_def]
  have bp: "begin_kva s0 = p" by (simp add: z0(2) p_def)
  note pk = z0(3,4) [unfolded bp]
  have "unat (begin_kva s0) + 8192 < unat (end_kva s0)" using z0(4,5) by simp
  from vmm_init_ok [OF z0(1) this] obtain m p3 where v: "vmm_init s0 = Ret ((), s0\<lparr>begin_kva := p + 8192, mem := m, kern_pml4 := p,
             cr3 := KV2P p\<rparr>)" and tt: "two_tables p p3" and mp: "mapped m p p3 512"
     and so: "same_out {unat p..<unat p + 8192} (mem s) m" unfolding bp by (auto simp: z0(2))
  let ?s1 = "s0\<lparr>begin_kva := p + 8192, mem := m, kern_pml4 := p, cr3 := KV2P p\<rparr>"
  have p8: "unat (p + 8192) = unat p + 8192" using pk bb by (simp add: unat_add_numeral page_limit_num)
  have z1: "boot_zone ?s1"
    using z0(1) pk bb unfolding boot_zone_def bp by (simp add: p8 word_less_nat_alt max_request_def page_limit_num)
  have zero: "mem ?s1 x = 0" if x: "unat (begin_kva ?s1) \<le> unat x" "unat x < unat (end_kva ?s1)" for x
  proof -
    have "unat p + 8192 \<le> unat x" "unat x < unat ke + 67108864" using x z0(5) by (simp_all add: p8)
    then have "unat x \<notin> {unat p..<unat p + 8192}" and "mem s x = 0" using b pk(1) by (simp_all add: boot_ready_def)
    then show ?thesis using so by (simp add: same_out_def)
  qed
  have "zone_ready (2 ^ 20) ?s1" unfolding zone_ready_def
  proof (intro conjI)
    show "max_addr ?s1 = 0" using b by (simp add: z0(2) boot_ready_def)
    show "unat (begin_kva ?s1) + 11 * (2 ^ 20 div 8 + 4096) < unat (end_kva ?s1)" using pk z0(5) by (simp add: p8)
    show "\<forall>x. unat (begin_kva ?s1) \<le> unat x \<and> unat x < unat (end_kva ?s1) \<longrightarrow> mem ?s1 x = 0" using zero by blast
  qed (use z1 in \<open>simp_all add: page_limit_num\<close>)
  then show thesis using that [OF v refl p8 pk tt mp so] by blast
qed

text \<open>A page boundary at most 35 MB above the kernel's base is the address of a page.\<close>

lemma page_of_address:
  assumes "unat KERNBASE \<le> unat x" and "unat x \<le> unat KERNBASE + 35057664" and "4096 dvd unat x"
  obtains a where "x = pva a" and "a \<le> 16384"
proof -
  let ?a = "(unat x - unat KERNBASE) div 4096"
  have "4096 dvd unat KERNBASE" by (simp add: KERNBASE_def)
  then have "4096 dvd unat x - unat KERNBASE" using assms(3) by (simp add: dvd_diff_nat)
  then have a4: "4096 * ?a = unat x - unat KERNBASE" by simp
  then have al: "?a \<le> 16384" using assms(2) by linarith
  then have "?a < page_limit" by (simp add: page_limit_num)
  then have "unat (pva ?a) = unat x" using a4 assms(1) by (simp only: unat_pva)
  then show thesis using that [of ?a] al by (simp add: word_unat_eq_iff)
qed

lemma early_memory_ok:
  fixes s :: "'z int_sys_scheme"
  assumes b: "boot_ready ke s"
  shows "\<exists>t p p3 a. bindk vmm_init (\<lambda>_. pgalloc_init (4 * 1024 * 1024 * 1024)) (boot_alloc_init ke (64 * 1024 * 1024) s) = Ret ((), t)
     \<and> begin_kva t = pva a \<and> a \<le> 16384 \<and> unat ke + 8192 \<le> unat (pva a) \<and> unat (pva a) \<le> unat ke + 1499136
     \<and> unat ke \<le> unat p \<and> unat p + 8192 \<le> unat (pva a) \<and> two_tables p p3 \<and> mapped (mem t) p p3 512 \<and> cr3 t = KV2P p
     \<and> rep (2 ^ 20) {a..<16384} (core t) (\<lambda>_. [])
     \<and> (\<forall>k \<le> MAX_ORDER. \<forall>x \<in> bm_region (2 ^ 20) (core t) k. unat p + 8192 \<le> unat x \<and> unat x < unat (pva a))
     \<and> same_out {unat ke..<unat (pva a)} (mem s) (mem t)
     \<and> lock_free Pgalloc_lock t \<and> cpus t = cpus s \<and> rflags t = rflags s \<and> msr t = msr s \<and> dev_rd t = dev_rd s \<and> statics t = statics s"
proof -
  note bb = boot_bounds [OF b]
  define s0 where "s0 = boot_alloc_init ke (64 * 1024 * 1024) s"
  define p where "p = ROUNDUP_PWR2 ke PG_SIZE"
  obtain s1 m p3 where v: "vmm_init s0 = Ret ((), s1)" and s1: "s1 = s0\<lparr>begin_kva := p + 8192, mem := m, kern_pml4 := p, cr3 := KV2P p\<rparr>"
    and p8: "unat (p + 8192) = unat p + 8192" and pk: "unat ke \<le> unat p" "unat p < unat ke + 4096"
    and tt: "two_tables p p3" and mp: "mapped m p p3 512" and so: "same_out {unat p..<unat p + 8192} (mem s) m" and zr: "zone_ready (2 ^ 20) s1"
    unfolding s0_def p_def by (rule tables_ready [OF b])
  note z0 = boot_zone_start(2) [OF b, folded s0_def]
  have N: "unat (PGROUNDUP (4 * 1024 * 1024 * 1024) div PG_SIZE) = 2 ^ 20" by (simp add: PGROUNDUP_def PG_SIZE_def)
  obtain t where t: "pgalloc_init (4 * 1024 * 1024 * 1024) s1 = Ret ((), t)" "lock_free Pgalloc_lock t" "boot_zone t"
      "unat p + 8192 \<le> unat (begin_kva t)" "unat (begin_kva t) \<le> unat p + 8192 + 11 * (2 ^ 20 div 8 + 4096)"
      "\<And>P. P \<subseteq> {..<2 ^ 20} \<and> (\<forall>i \<in> P. unat (begin_kva t) \<le> unat (pva i) \<or> unat (pva i) + 4096 \<le> unat p + 8192) \<Longrightarrow> rep (2 ^ 20) P (core t) (\<lambda>_. [])"
      "\<forall>k \<le> MAX_ORDER. \<forall>x \<in> bm_region (2 ^ 20) (core t) k. unat p + 8192 \<le> unat x \<and> unat x < unat (begin_kva t)"
      "t = s1\<lparr>begin_kva := begin_kva t, pgalloc_bins := pgalloc_bins t, max_addr := PGROUNDUP (4 * 1024 * 1024 * 1024),
                locks := (locks s1)(Pgalloc_lock := \<lparr>locked = 0, lk_name = ''pgalloc'', lk_cpu = None\<rparr>)\<rparr>"
    using pgalloc_init_zone [OF zr N] p8 by (auto simp: s1)
  have "unat KERNBASE \<le> unat (begin_kva t)" "unat (begin_kva t) \<le> unat KERNBASE + 35057664" "4096 dvd unat (begin_kva t)"
    using t(3-5) pk bb by (simp_all add: boot_zone_def)
  then obtain a where pa: "begin_kva t = pva a" and al: "a \<le> 16384" by (rule page_of_address)
  have apl: "a < page_limit" using al by (simp add: page_limit_num)
  have "rep (2 ^ 20) {a..<16384} (core t) (\<lambda>_. [])"
  proof (rule t(6), intro conjI ballI disjI1)
    fix i assume i: "i \<in> {a..<16384}"
    then have "i < page_limit" by (simp add: page_limit_num)
    then show "unat (begin_kva t) \<le> unat (pva i)" unfolding pa using i by (simp only: unat_pva [OF apl] unat_pva) simp
  qed auto
  moreover have fr: "mem t = m" "cr3 t = KV2P p" "cpus t = cpus s" "rflags t = rflags s" "msr t = msr s" "dev_rd t = dev_rd s" "statics t = statics s"
    by (subst t(8), simp add: s1 z0 statics_def)+
  moreover have "same_out {unat ke..<unat (pva a)} (mem s) m"
    using so pk t(4) unfolding same_out_def pa by (auto simp: z0)
  moreover have "unat (pva a) \<le> unat ke + 1499136" "unat ke + 8192 \<le> unat (pva a)" using t(4,5) pk unfolding pa by simp_all
  moreover have "bindk vmm_init (\<lambda>_. pgalloc_init (4 * 1024 * 1024 * 1024)) s0 = Ret ((), t)"
    using v t(1) by (simp only: bindk_Ret)
  ultimately show ?thesis using pk(1) t(2,4,7) tt mp al pa unfolding s0_def [symmetric]
    by - (rule exI [of _ t], rule exI [of _ p], rule exI [of _ p3], rule exI [of _ a], simp add: pa)
qed

lemma empty_pages: "pages (\<lambda>_. []) = {}"
  by (simp add: pages_def)

text \<open>The bytes of the bitmaps and of a range of pages above them.\<close>

lemma touched_bounds:
  assumes bm: "\<forall>k \<le> MAX_ORDER. \<forall>x \<in> bm_region N c k. lo \<le> unat x \<and> unat x < unat (pva a)"
    and ab: "a \<le> b" "b < page_limit" "lo \<le> unat (pva a)" and x: "x \<in> touched N c {a..<b}"
  shows "unat x \<in> {lo..<unat (pva b)}"
proof -
  have ap: "a < page_limit" and ha: "unat (pva a) \<le> unat (pva b)" using ab by (simp_all add: unat_pva)
  consider k where "k \<le> MAX_ORDER" "x \<in> bm_region N c k" | i where "i \<in> {a..<b}" "x \<in> pg_region i"
    using x by (auto simp: touched_def)
  then show ?thesis
  proof cases
    case 1
    then show ?thesis using bm ha by fastforce
  next
    case 2
    then have ip: "i < page_limit" using ab by simp
    show ?thesis using 2 ab(3) unfolding pg_region_def in_region_nat [OF pva_end [OF ip]] unat_pva [OF ip] unat_pva [OF ab(2)] unat_pva [OF ap]
      by auto
  qed
qed

text \<open>The hand-over of the unused boot memory: the last three calls.\<close>

lemma kmain_memory_eq:
  fixes s :: "'z int_sys_scheme"
  assumes "bindk vmm_init (\<lambda>_. pgalloc_init (4 * 1024 * 1024 * 1024)) (boot_alloc_init ke (64 * 1024 * 1024) s) = Ret ((), s1)"
    and "kmain_devices s1 = Ret ((), s2)" and "boot_alloc_disable s2 = (pva a, s3)" and "kmalloc_init s3 = Ret ((), s4)"
  shows "kmain_memory ke s = pgalloc_free_range (pva a) (pva 16384) s4"
proof -
  have e: "P2KV (64 * 1024 * 1024) = pva 16384" by (simp add: pva_def PG_SIZE_def)
  let ?g = "\<lambda>_ s. let (bootalloc_avail, s1) = boot_alloc_disable s
       in bindk kmalloc_init (\<lambda>_. pgalloc_free_range bootalloc_avail (pva 16384)) s1"
  have "kmain_memory ke s = bindk (bindk vmm_init (\<lambda>_. pgalloc_init (4 * 1024 * 1024 * 1024))) (\<lambda>_. bindk kmain_devices ?g)
        (boot_alloc_init ke (64 * 1024 * 1024) s)"
    unfolding kmain_memory_def e bindk_assoc by (subst bindk_Ret, rule refl) simp
  also have "\<dots> = bindk kmain_devices ?g s1" by (subst bindk_Ret, rule assms(1)) simp
  also have "\<dots> = bindk kmalloc_init (\<lambda>_. pgalloc_free_range (pva a) (pva 16384)) s3"
    by (subst bindk_Ret, rule assms(2)) (simp only: assms(3) Let_def prod.case)
  also have "\<dots> = pgalloc_free_range (pva a) (pva 16384) s4" by (subst bindk_Ret, rule assms(4)) simp
  finally show ?thesis .
qed

lemma kmain_memory_up:
  fixes s :: "'z int_sys_scheme"
  assumes b: "boot_ready ke s"
  shows "\<exists>t a F. kmain_memory ke s = Ret ((), t) \<and> kinv (2 ^ 20) {a..<16384} F [] t \<and> pages F = {a..<16384}
     \<and> unat ke + 8192 \<le> unat (pva a) \<and> unat (pva a) \<le> unat ke + 1499136
     \<and> cpu_ready 9 0 t \<and> lock_free Pgalloc_lock t \<and> lock_free Kmalloc_lock t \<and> length (idt t) = 256 \<and> begin_kva t = 0 \<and> end_kva t = 0
     \<and> (\<forall>va. canonical va \<longrightarrow> page_walk (mem t) (cr3 t) va = (if KERNBASE \<le> va \<and> va < KERN_PHYMAP_TOP then Some (KV2P va) else None))
     \<and> same_out {unat ke..<unat (pva 16384)} (mem s) (mem t) \<and> rflags t = rflags s \<and> statics t = statics s
     \<and> int_disable_layer (cpus t ! 0) = 0 \<and> kfoot (2 ^ 20) F [] t \<subseteq> {unat ke..<unat (pva 16384)} \<and> a \<le> 16384"
proof -
  obtain s1 p p3 a where s1: "bindk vmm_init (\<lambda>_. pgalloc_init (4 * 1024 * 1024 * 1024)) (boot_alloc_init ke (64 * 1024 * 1024) s) = Ret ((), s1)"
     and pa: "begin_kva s1 = pva a" "a \<le> 16384" "unat ke + 8192 \<le> unat (pva a)" "unat (pva a) \<le> unat ke + 1499136"
     and p: "unat ke \<le> unat p" "unat p + 8192 \<le> unat (pva a)" "two_tables p p3" "mapped (mem s1) p p3 512" "cr3 s1 = KV2P p"
     and r: "rep (2 ^ 20) {a..<16384} (core s1) (\<lambda>_. [])"
     and bm: "\<forall>k \<le> MAX_ORDER. \<forall>x \<in> bm_region (2 ^ 20) (core s1) k. unat p + 8192 \<le> unat x \<and> unat x < unat (pva a)"
     and so: "same_out {unat ke..<unat (pva a)} (mem s) (mem s1)"
     and fr: "lock_free Pgalloc_lock s1" "cpus s1 = cpus s" "rflags s1 = rflags s" "msr s1 = msr s" "dev_rd s1 = dev_rd s" "statics s1 = statics s"
    using early_memory_ok [OF b] by blast
  have dv: "msr s1 0x1B AND push_bit 11 1 \<noteq> 0" "icr_ready (dev_rd s1) (P2KV (msr s1 0x1B AND NOT 0xFFF))"
      "0 < length (cpus s1)" "\<not> if_set (rflags s1)" using b fr by (simp_all add: boot_ready_def)
  obtain s2 where s2: "kmain_devices s1 = Ret ((), s2)" "dev_step s1 s2" "cpu_ready 9 0 s2" "length (idt s2) = 256" "int_disable_layer (cpus s2 ! 0) = 0"
    using kmain_devices_ok [OF dv] by blast
  let ?s3 = "s2\<lparr>begin_kva := 0, end_kva := 0\<rparr>"
  let ?s4 = "?s3\<lparr>size_list := NULL, locks := (locks s2)(Kmalloc_lock := \<lparr>locked = 0, lk_name = ''kmalloc'', lk_cpu = None\<rparr>)\<rparr>"
  have bd: "boot_alloc_disable s2 = (pva a, ?s3)" using s2(2) pa(1) by (simp add: boot_alloc_disable_def dev_step_def)
  have ki: "kmalloc_init ?s3 = Ret ((), ?s4)" by (simp add: kmalloc_init_def init_lock_def)
  have c4: "core ?s4 = core s1" using s2(2) by (simp add: core_def dev_step_def)
  have "cpu_ready 9 0 ?s4" using s2(3) by (simp add: cpu_ready_def cpu_lookup_def lapic_id_def)
  then have r4: "cpu_ready 9 0 ?s4" "cpu_ready 2 0 ?s4" by (simp_all add: cpu_ready_def)
  have l4: "lock_free Pgalloc_lock ?s4" "lock_free Kmalloc_lock ?s4" using fr(1) s2(2) by (simp_all add: lock_free_def dev_step_def)
  have rr: "rep (2 ^ 20) {a..<16384} (core ?s4) (\<lambda>_. [])" using r by (simp only: c4)
  obtain t F where t: "pgalloc_free_range (pva a) (pva 16384) ?s4 = Ret ((), t)" "rep (2 ^ 20) {a..<16384} (core t) F"
      "pages F = pages (\<lambda>_. []) \<union> {a..<16384}" "evolves (2 ^ 20) (pages (\<lambda>_. []) \<union> {a..<16384}) (core ?s4) (core t)"
      "t = ?s4\<lparr>mem := mem t, pgalloc_bins := pgalloc_bins t, cpus := settled 0 ?s4\<rparr>"
    using pgalloc_free_range_refines [OF rr r4(2) l4(1) pa(2)] by (auto simp: page_limit_num empty_pages)
  have run: "kmain_memory ke s = Ret ((), t)" using kmain_memory_eq [OF s1 s2(1) bd ki] t(1) by simp
  have ha: "unat (pva a) \<le> unat (pva 16384)" using pa(2) by (simp add: unat_pva page_limit_num)
  have tch: "unat x \<in> {unat p + 8192..<unat (pva 16384)}" if "x \<in> touched (2 ^ 20) (core ?s4) {a..<16384}" for x
    by (rule touched_bounds [OF bm pa(2) _ p(2)]) (use that in \<open>simp_all add: c4 page_limit_num\<close>)
  have ev: "same_out {unat p + 8192..<unat (pva 16384)} (mem s1) (mem t)"
    unfolding same_out_def
  proof (intro allI impI)
    fix x :: ptr assume x: "unat x \<notin> {unat p + 8192..<unat (pva 16384)}"
    have "x \<notin> touched (2 ^ 20) (core ?s4) (pages (\<lambda>_. []) \<union> {a..<16384})" 
      using tch x by (auto simp: empty_pages)
    then show "mem t x = mem s1 x" using t(4) s2(2) by (simp add: evolves_def eq_on_def dev_step_def)
  qed
  have mp: "mapped (mem t) p p3 512" by (rule mapped_same_out [OF p(3) ev _ p(4)]) auto
  have frt: "locks t = locks ?s4" "size_list t = NULL" "cr3 t = KV2P p" "begin_kva t = 0" "end_kva t = 0" "idt t = idt s2"
      "rflags t = rflags s" "statics t = statics s"
    using s2(2) p(5) fr(3,6) by (subst t(5), simp add: dev_step_def statics_def)+
  have rt: "cpu_ready 9 0 t" by (rule cpu_ready_settled [OF r4(1)]) (subst t(5), simp)+
  have kv: "kinv (2 ^ 20) {a..<16384} F [] t" using t(2) frt(2) by (simp add: kinv_def hrep_def heap_def by_size_def page_limit_num)
  have "same_out {unat ke..<unat (pva 16384)} (mem s) (mem t)"
    using so ev p pa(2) ha unfolding same_out_def by auto
  moreover have "int_disable_layer (cpus t ! 0) = 0"
    using s2(5) r4(1) by (subst t(5)) (simp add: settled_def cpu_ready_def)
  moreover have "kfoot (2 ^ 20) F [] t \<subseteq> {unat ke..<unat (pva 16384)}"
  proof -
    have "pfoot (2 ^ 20) F ?s4 = pfoot (2 ^ 20) F t"
      by (rule pfoot_cong [OF t(2)]) (use t(4) in \<open>simp add: evolves_def\<close>)
    then have "kfoot (2 ^ 20) F [] t = unat ` touched (2 ^ 20) (core ?s4) {a..<16384}"
      using t(3) by (simp add: kfoot_def pfoot_def empty_pages)
    then show ?thesis using tch p(1) by fastforce
  qed
  moreover have "lock_free Pgalloc_lock t" "lock_free Kmalloc_lock t" using l4 unfolding lock_free_def frt by simp_all
  moreover have "pages F = {a..<16384}" using t(3) by (simp add: empty_pages)
  ultimately show ?thesis using run kv pa(2-4) rt frt s2(4) canonical_walk [OF p(3) mp]
    by (intro exI [of _ t] exI [of _ a] exI [of _ F]) simp
qed


text \<open>A machine with cleared memory, one CPU and interrupt controllers that answer 0.\<close>

definition demo_start :: int_sys where
  "demo_start = (demo_int 0)\<lparr>mem := (\<lambda>_. 0), boot_alloc_initialized := False, max_addr := 0,
     msr := (\<lambda>_. 0xFEE00900), dev_rd := (\<lambda>_ _. 0)\<rparr>"

lemma demo_start_ready: "boot_ready 0xFFFF800000200000 demo_start"
proof -
  have "unat (pva 256) \<le> unat (0xFFFF800000200000 :: u64)" "unat (0xFFFF800000200000 :: u64) \<le> unat (pva 8192)"
    by (simp_all add: unat_pva page_limit_num KERNBASE_def)
  then show ?thesis
    by (simp add: boot_ready_def demo_start_def demo_int_def icr_ready_def if_set_def)
qed


end
