(* ===== verification/Kmain_Start.thy ===== *)
theory Kmain_Start
  imports Kmain
begin

text \<open>
  The second half of \<^verbatim>\<open>kmain\<close>: console, process table, the shell's process and the scheduler. Everything the
  components promise separately is put together here for one run from the boot loader to the scheduler loop.
\<close>

section \<open>Starting processes over live queues\<close>

lemma page_st64: "unat b + 4096 \<le> 2 ^ 64 \<Longrightarrow> unat i + 8 \<le> 4096 \<Longrightarrow> same_out {unat b..<unat b + 4096} m (st64 m (b + i) v)"
  by (rule same_out_st64) (auto simp: unat_add_nowrap)

lemma page_memset:
  assumes b: "unat b + 4096 \<le> 2 ^ 64" and i: "unat i + unat n \<le> 4096" "unat i < 4096"
  shows "same_out {unat b..<unat b + 4096} m (memset (b + i) 0 n m)"
proof -
  have u: "unat (b + i) = unat b + unat i" using b i by (intro unat_add_nowrap) simp
  have "memset (b + i) 0 n m = (\<lambda>x. if x \<in> region (b + i) (unat n) then 0 else m x)"
    using memset_eq [of n "b + i" 0 m] i by auto
  moreover have "x \<in> region (b + i) (unat n) \<longleftrightarrow> unat b + unat i \<le> unat x \<and> unat x < unat b + unat i + unat n" for x
    using b i by (subst in_region_nat) (simp_all add: u)
  ultimately show ?thesis using i by (auto simp: same_out_def)
qed

lemma page_writes:
  assumes "unat b + 4096 \<le> 2 ^ 64"
  shows "same_out {unat b..<unat b + 4096} m0 m \<Longrightarrow> unat i + 8 \<le> 4096 \<Longrightarrow> same_out {unat b..<unat b + 4096} m0 (st64 m (b + i) v)"
    and "same_out {unat b..<unat b + 4096} m0 m \<Longrightarrow> unat i + unat n \<le> 4096 \<Longrightarrow> unat i < 4096 \<Longrightarrow>
      same_out {unat b..<unat b + 4096} m0 (memset (b + i) 0 n m)"
  using same_out_trans page_st64 [OF assms] page_memset [OF assms] by blast+

text \<open>The kernel stack page is all that the creation of a process writes; the record may be adjusted in between.\<close>

lemma create_page:
  fixes s :: "'z proc_sys_scheme"
  assumes b: "unat b + 4096 \<le> 2 ^ 64" and n: "b \<noteq> NULL" "p \<noteq> NULL" and al: "pgalloc_allocate 0 s = Ret (b, s1)"
    and g: "\<And>q. ctx (g q) = ctx q \<and> tf (g q) = tf q \<and> kstack_top (g q) = kstack_top q"
  shows "\<exists>t. bindk (proc_kern_init p) (\<lambda>_ u. sched_create_kproc p func (upd_proc p g u)) s = Ret ((), t)
     \<and> fresh_stack b (addr_of s1 Proc_kentry) (addr_of s1 Return_from_isr) (addr_of s1 func) (mem t)
     \<and> same_out {unat b..<unat b + 4096} (mem s1) (mem t)
     \<and> p_state (procs t p) = RUNNABLE \<and> pgtable (procs t p) = kern_pml4 s1 \<and> ctx (procs t p) = b + 3856 \<and> tf (procs t p) = b + 3920
     \<and> pid (procs t p) = pid (g ((procs s1 p)\<lparr>kstack := b, kstack_top := b + 4096, tf := b + 3920, ctx := b + 3856\<rparr>))
     \<and> t = s1\<lparr>mem := mem t, procs := (procs s1)(p := procs t p)\<rparr>"
proof -
  let ?m1 = "memset (b + 3856) 0 56 (st64 (mem s1) (b + 3912) (addr_of s1 Return_from_isr))"
  let ?m2 = "memset (b + 3920) 0 176 (st64 ?m1 (b + 3904) (addr_of s1 Proc_kentry))"
  let ?m = "st64 (st64 (st64 (st64 (st64 ?m2 (b + 4056) (addr_of s1 func)) (b + 4080) (b + 4096)) (b + 4064) 8) (b + 4088) 16) (b + 4072) RFLAGS_IF"
  let ?q = "g ((procs s1 p)\<lparr>kstack := b, kstack_top := b + 4096, tf := b + 3920, ctx := b + 3856\<rparr>)"
  let ?t = "s1\<lparr>mem := ?m, procs := (procs s1)(p := ?q\<lparr>p_name := idle_name @ drop 5 (p_name ?q), killed := 0,
                   pgtable := kern_pml4 s1, p_state := RUNNABLE, p_type := KERNEL\<rparr>)\<rparr>"
  have "same_out {unat b..<unat b + 4096} (mem s1) ?m"
    by (rule page_writes [OF b], rule page_writes [OF b], rule page_writes [OF b], rule page_writes [OF b], rule page_writes [OF b],
        rule page_writes(2) [OF b], rule page_writes [OF b], rule page_writes(2) [OF b], rule page_st64 [OF b]) simp_all
  moreover have "bindk (proc_kern_init p) (\<lambda>_ u. sched_create_kproc p func (upd_proc p g u)) s = Ret ((), ?t)"
    using n al g by (simp add: proc_kern_init_def sched_create_kproc_def bindk_def upd_proc_def Let_def PG_SIZE_def sizeof_trapframe_def
      sizeof_proc_context_def page_offsets set_ctx_rip_def set_tf_rip_def set_tf_cs_def set_tf_flags_def set_tf_rsp_def
      set_tf_ss_def GDT_KERNEL_CODE_def GDT_KERNEL_DATA_def vmm_get_kernel_pgtable_def add.commute)
  ultimately show ?thesis
    using proc_frame [OF b, of "addr_of s1 Proc_kentry" "addr_of s1 Return_from_isr" "addr_of s1 func"] g
    by (intro exI [of _ ?t]) simp
qed

text \<open>
  Creating a process over live queues: it takes one free page for the kernel stack and leaves the queues, the heap and
  every other page alone. The stack page is out of reach of both allocators and of the queue nodes.
\<close>

lemma queues_create:
  fixes s :: "'z proc_sys_scheme"
  assumes q: "queue_nodes N P F L M ns rs ms ws s" and rd: "cpu_ready 2 c s" and lk: "lock_free Pgalloc_lock s"
    and pg: "pages F \<noteq> {}" and p: "p \<noteq> NULL"
    and g: "\<And>q. ctx (g q) = ctx q \<and> tf (g q) = tf q \<and> kstack_top (g q) = kstack_top q"
  shows "\<exists>i t F'. bindk (proc_kern_init p) (\<lambda>_ u. sched_create_kproc p func (upd_proc p g u)) s = Ret ((), t)
     \<and> queue_nodes N P F' L M ns rs ms ws t \<and> pages F - {i} \<subseteq> pages F' \<and> i < page_limit
     \<and> pg_bytes i \<subseteq> kfoot N F L s \<and> kfoot N F' L t \<subseteq> kfoot N F L s - pg_bytes i \<and> same_out (kfoot N F L s) (mem s) (mem t)
     \<and> fresh_stack (pva i) (addr_of s Proc_kentry) (addr_of s Return_from_isr) (addr_of s func) (mem t)
     \<and> p_state (procs t p) = RUNNABLE \<and> pgtable (procs t p) = kern_pml4 s \<and> ctx (procs t p) = pva i + 3856 \<and> tf (procs t p) = pva i + 3920
     \<and> pid (procs t p) = pid (g ((procs s p)\<lparr>kstack := pva i, kstack_top := pva i + 4096, tf := pva i + 3920, ctx := pva i + 3856\<rparr>))
     \<and> t = s\<lparr>mem := mem t, pgalloc_bins := pgalloc_bins t, cpus := settled c s, procs := (procs s)(p := procs t p)\<rparr>"
proof -
  note D = queue_nodesD [OF q]
  have rep: "rep N P (core s) F" using D(1) by (simp add: kinv_def)
  obtain i F' where al: "a_alloc 0 F = Some (i, F')"
    using a_alloc_correct [OF rep_wf [OF rep], of 0] pg by (cases "a_alloc 0 F") (auto simp: pages_def)
  have i: "i \<in> pages F" "pages F' = pages F - {i}"
    using a_alloc_correct [OF rep_wf [OF rep], of 0] al by (auto simp: blk_def)
  obtain s1 where s1: "pgalloc_allocate 0 s = Ret (pva i, s1)" "rep N P (core s1) F'" "evolves N (pages F) (core s) (core s1)"
      "s1 = s\<lparr>mem := mem s1, pgalloc_bins := pgalloc_bins s1, cpus := settled c s\<rparr>"
    using pgalloc_allocate_refines [OF rep rd lk, of 0] al by auto
  have f1: "addr_of s1 = addr_of s" "kern_pml4 s1 = kern_pml4 s" "procs s1 = procs s" "size_list s1 = size_list s"
      "ready_queue s1 = ready_queue s" "waiting_queue s1 = waiting_queue s"
    by (subst s1(4), simp)+
  note tk = page_taken [OF D(1) s1(2,3) i(2,1) f1(4)]
  have il: "i < page_limit" using tk(4) lay_limit [OF rep_lay [OF rep] lay_bound [OF rep_lay [OF rep]]] by blast
  obtain t where t: "bindk (proc_kern_init p) (\<lambda>_ u. sched_create_kproc p func (upd_proc p g u)) s = Ret ((), t)"
      "fresh_stack (pva i) (addr_of s Proc_kentry) (addr_of s Return_from_isr) (addr_of s func) (mem t)"
      "same_out (pg_bytes i) (mem s1) (mem t)"
      "p_state (procs t p) = RUNNABLE \<and> pgtable (procs t p) = kern_pml4 s \<and> ctx (procs t p) = pva i + 3856 \<and> tf (procs t p) = pva i + 3920
       \<and> pid (procs t p) = pid (g ((procs s p)\<lparr>kstack := pva i, kstack_top := pva i + 4096, tf := pva i + 3920, ctx := pva i + 3856\<rparr>))"
      "t = s1\<lparr>mem := mem t, procs := (procs s)(p := procs t p)\<rparr>"
    using create_page [OF pva_end [OF il] pva_nonzero [OF il] p s1(1) g, of func, unfolded f1, folded pg_bytes_def] by blast
  have k1: "kfoot N F' L s1 = pfoot N F' s1 \<union> fr L" "kfoot N F L s = pfoot N F s \<union> fr L" by (simp_all add: kfoot_def)
  have away: "pg_bytes i \<inter> kfoot N F' L s1 = {}" using pfoot_pages [OF s1(2) tk(4)] tk(3) unfolding k1 by blast
  note pk = kinv_poke [OF tk(1) t(3) away]
  have v: "heap_view t = heap_view (s1\<lparr>mem := mem t\<rparr>)" by (subst t(5)) (simp add: heap_view_eq)
  have inv: "kinv N P F' L t" and kt: "kfoot N F' L t = kfoot N F' L s1"
    using pk view_cong(1,2) [OF v v] by simp_all
  have pgk: "pg_bytes i \<subseteq> kfoot N F L s" and sub: "kfoot N F' L t \<subseteq> kfoot N F L s - pg_bytes i"
    using tk(2) away unfolding kt unfolding k1 by blast+
  have so: "same_out (kfoot N F L s) (mem s) (mem t)"
    using same_out_trans [OF same_out_mono [OF tk(5)] same_out_mono [OF t(3)]] pgk unfolding k1 by blast
  have qq: "ready_queue t = ready_queue s" "waiting_queue t = waiting_queue s" by (subst t(5), simp add: f1)+
  note S = qsepD [OF D(2)] and fw = kgrant_frame_words [OF D(2) so]
  have hk: "span24 h \<inter> kfoot N F' L t = {}" if "h \<in> {ready_queue s, waiting_queue s}" for h using S(2) [OF that] sub by blast
  have "qsep N P F' L t {ready_queue s, waiting_queue s} M"
  proof (rule qsepI)
    fix n assume n: "n \<in> M"
    show "live N P F' L t n 24" by (rule live_frame [OF S(4) [OF n] so]) (use live_span(3) [OF S(4) [OF n]] sub in blast)+
  qed (rule S(1), assumption, rule hk, assumption, rule S(3), assumption+, rule S(5), assumption+, rule S(6), assumption+)
  moreover have "dq (mem t) (ready_queue s) ns rs" "dq (mem t) (waiting_queue s) ms ws"
    by (rule dq_cong [OF D(4)], use fw D(6) in blast) (rule dq_cong [OF D(5)], use fw D(7) in blast)
  ultimately have "queue_nodes N P F' L M ns rs ms ws t" using inv D(3,6-8) by (simp add: queue_nodes_def qq)
  moreover have "t = s\<lparr>mem := mem t, pgalloc_bins := pgalloc_bins t, cpus := settled c s, procs := (procs s)(p := procs t p)\<rparr>"
  proof -
    have "pgalloc_bins t = pgalloc_bins s1" by (subst t(5)) simp
    then show ?thesis by (subst t(5), subst s1(4)) simp
  qed
  ultimately show ?thesis using t(1,2,4) i(2) il pgk sub so by blast
qed

section \<open>The console\<close>

text \<open>\<open>alive s\<close>: CPU 0 runs with interrupts off and both allocators are free.\<close>

definition alive :: "'z machine_scheme \<Rightarrow> bool" where
  "alive s \<longleftrightarrow> cpu_ready 9 0 s \<and> \<not> if_set (rflags s) \<and> int_disable_layer (cpus s ! 0) = 0 \<and> lock_free Kmalloc_lock s \<and> lock_free Pgalloc_lock s"

lemma alive_settled:
  fixes s t :: "'z machine_scheme"
  assumes "alive s" and "cpus t = settled 0 s \<or> cpus t = cpus s" and "rflags t = rflags s" and "ncpu t = ncpu s" and "lapic_id_reg t = lapic_id_reg s"
    and "locks t Kmalloc_lock = locks s Kmalloc_lock" and "locks t Pgalloc_lock = locks s Pgalloc_lock"
  shows "alive t"
proof -
  have r: "cpu_ready 9 0 s" using assms(1) by (simp add: alive_def)
  have "cpu_ready 9 0 t"
    using assms(2) cpu_ready_settled [OF r _ assms(3-5)] cpu_ready_same [of s t] r assms(3-5) by (auto simp: same_cpu_def)
  moreover have "int_disable_layer (cpus t ! 0) = 0" using assms(1,2) r by (auto simp: alive_def settled_def cpu_ready_def)
  ultimately show ?thesis using assms by (simp add: alive_def lock_free_def)
qed

lemma console_init_ok:
  fixes s :: "'z con_sys_scheme"
  assumes inv: "kinv N P F L s" and al: "alive s" and pg: "pages F \<noteq> {}"
    and ur: "tx_ready \<lparr>mmio_base = NULL, pio_base = UART_COM1\<rparr> (dev_in s)"
  shows "\<exists>t F' L'. console_init s = Ret ((), t) \<and> kinv N P F' L' t \<and> (\<exists>i. pages F - {i} \<subseteq> pages F')
     \<and> kfoot N F' L' t \<subseteq> kfoot N F L s \<and> alive t \<and> statics t = statics s \<and> kern_pml4 t = kern_pml4 s"
proof -
  let ?u = "\<lparr>mmio_base = NULL, pio_base = UART_COM1\<rparr>"
  let ?s1 = "s\<lparr>locks := (locks s)(Console_lock := \<lparr>locked = 0, lk_name = ''console'', lk_cpu = None\<rparr>,
     Console_read_lock := \<lparr>locked = 0, lk_name = ''console read'', lk_cpu = None\<rparr>)\<rparr>"
  have v1: "heap_view ?s1 = heap_view s" by simp
  have al1: "alive ?s1" by (rule alive_settled [OF al]) simp_all
  have inv1: "kinv N P F L ?s1" using inv view_cong(1) [OF v1 v1] by simp
  have rd: "cpu_ready 4 0 ?s1" using al1 cpu_ready_mono [of 9 0 ?s1 4] by (simp add: alive_def)
  have lk: "lock_free Kmalloc_lock ?s1" "lock_free Pgalloc_lock ?s1" using al1 by (simp_all add: alive_def)
  have n: "0 < unat CON_FIFO_SIZE" "unat CON_FIFO_SIZE \<le> 4080" by (simp_all add: CON_FIFO_SIZE_def)
  have n2: "\<not> 4056 < unat CON_FIFO_SIZE" by (simp add: CON_FIFO_SIZE_def)
  obtain q s2 F' L' where k: "kmalloc CON_FIFO_SIZE ?s1 = Ret (q, s2)" "kstep 0 ?s1 s2" "kgrant N P F L CON_FIFO_SIZE ?s1 q s2 F' L'"
    using kmalloc_ok [OF inv1 rd lk n] pg n2 by blast
  have q0: "q \<noteq> NULL" using k(3) by (auto simp: kgrant_def)
  let ?s3 = "s2\<lparr>console_fifo := (case spsc_fifo_init (Some (console_fifo s2)) (\<lambda>i. mem s2 (q + of_nat i)) CON_FIFO_SIZE of
                   (e, Some f) \<Rightarrow> f | _ \<Rightarrow> console_fifo s2)\<rparr>"
  have e2: "cpus s2 = settled 0 ?s1" "rflags s2 = rflags s" "ncpu s2 = ncpu s" "lapic_id_reg s2 = lapic_id_reg s" "locks s2 = locks ?s1"
    "statics s2 = statics s" "kern_pml4 s2 = kern_pml4 s" "dev_in s2 = dev_in s"
    by (subst k(2) [unfolded kstep_def], simp add: statics_def)+
  have iu: "io_only (\<lambda>d _ _. tx_ready ?u d) (uart_init ?u :: 'z con_sys_scheme \<Rightarrow> _)" by (rule uart_init_io) simp
  have "tx_ready ?u (dev_in ?s3)" using ur e2(8) by simp
  then obtain r tr where ui: "uart_init ?u ?s3 = Ret (r, ?s3\<lparr>io_trace := tr\<rparr>)" using iu unfolding io_only_def by blast
  let ?s4 = "?s3\<lparr>io_trace := tr, con_uart := ?u\<rparr>"
  have "io_only (\<lambda>_ _ _. True) (ioapic_unmask 4 (ucast IDT_ENTRY_IRQ_COM1) (lapic_id ?s4) :: 'z con_sys_scheme \<Rightarrow> _)"
    unfolding ioapic_unmask_def by (intro io_only_bindk io_only_prims)
  then obtain tr2 where un: "ioapic_unmask 4 (ucast IDT_ENTRY_IRQ_COM1) (lapic_id ?s4) ?s4 = Ret ((), ?s4\<lparr>io_trace := tr2\<rparr>)"
    by (rule io_only_unit [where s = ?s4]) simp
  let ?t = "if r = 0 then ?s4\<lparr>io_trace := tr2, uart_enable := True\<rparr> else ?s4\<lparr>uart_enable := False\<rparr>"
  have run: "console_init s = Ret ((), ?t)"
  proof -
    have "console_init s = bindk (kmalloc CON_FIFO_SIZE) (\<lambda>con_buffer.
       if con_buffer = NULL then panic ''console init oom''
       else bindk (\<lambda>s. Ret ((), s\<lparr>console_fifo :=
                (case spsc_fifo_init (Some (console_fifo s)) (\<lambda>i. mem s (con_buffer + of_nat i)) CON_FIFO_SIZE of
                   (e, Some f) \<Rightarrow> f | _ \<Rightarrow> console_fifo s)\<rparr>)) (\<lambda>_.
            bindk (uart_pio_init UART_COM1) (\<lambda>(r, u).
            bindk (\<lambda>s. Ret ((), s\<lparr>con_uart := u\<rparr>)) (\<lambda>_.
              if r = 0
              then bindk (\<lambda>s. ioapic_unmask 4 (ucast IDT_ENTRY_IRQ_COM1) (lapic_id s) s) (\<lambda>_ s. Ret ((), s\<lparr>uart_enable := True\<rparr>))
              else (\<lambda>s. Ret ((), s\<lparr>uart_enable := False\<rparr>)))))) ?s1"
      unfolding console_init_def by (simp add: init_lock_def bindk_def)
    then show ?thesis using q0 ui un by (simp add: bindk_def k(1) uart_pio_init_def Let_def retk_def)
  qed
  have vt: "heap_view ?t = heap_view s2" by (simp add: heap_view_eq)
  have "kinv N P F' L' ?t" "kfoot N F' L' ?t = kfoot N F' L' s2" using k(3) view_cong(1,2) [OF vt vt] by (auto simp: kgrant_def)
  moreover have "kfoot N F' L' s2 \<subseteq> kfoot N F L s" using k(3) view_cong(2) [OF v1 v1, of N F L] by (auto simp: kgrant_def)
  moreover have "\<exists>i. pages F - {i} \<subseteq> pages F'" using k(3) by (simp add: kgrant_def)
  moreover have "alive ?t"
    by (rule alive_settled [OF al1]) (auto simp: e2)
  moreover have "statics ?t = statics s" "kern_pml4 ?t = kern_pml4 s" using e2 by (auto simp: statics_def)
  ultimately show ?thesis using run by (intro exI [of _ ?t] exI [of _ F'] exI [of _ L']) simp
qed

section \<open>The process table and the first process\<close>

lemma proc_init_ok:
  fixes s :: "'z dev_sys_scheme"
  assumes inv: "kinv N P F L s" and al: "alive s"
    and fit: "fits24 (ready_queue s)" "fits24 (waiting_queue s)"
    and dj: "span24 (ready_queue s) \<inter> kfoot N F L s = {}" "span24 (waiting_queue s) \<inter> kfoot N F L s = {}"
      "span24 (ready_queue s) \<inter> span24 (waiting_queue s) = {}"
  shows "\<exists>t. proc_init s = Ret ((), t) \<and> queues_ok N P F [] [] t \<and> alive t \<and> lock_free Sched_lock t \<and> lock_free Ptable_lock t
     \<and> statics t = statics s \<and> kern_pml4 t = kern_pml4 s \<and> next_pid t = 1 \<and> procs t (ptable_proc s) = zero_proc"
proof -
  let ?l = "(locks s)(Ptable_lock := \<lparr>locked = 0, lk_name = ''ptable'', lk_cpu = None\<rparr>)"
  let ?p1 = "\<lambda>p. if in_table (ptable_proc s) NPROC p then zero_proc else procs s p"
  let ?p2 = "\<lambda>p. if in_table (idle_proc s) NCPU p then zero_proc else ?p1 p"
  let ?s = "s\<lparr>locks := ?l, procs := ?p2, next_pid := 1\<rparr>"
  have v: "heap_view ?s = heap_view s" by (simp add: heap_view_eq)
  note vc = view_cong(1,2) [OF v v]
  have al1: "alive ?s" by (rule alive_settled [OF al]) simp_all
  have rd: "cpu_ready 3 0 ?s" using al1 cpu_ready_mono [of 9 0 ?s 3] by (simp add: alive_def)
  have "kinv N P F L ?s" using inv vc(1) by simp
  moreover have "fits24 (ready_queue ?s)" "fits24 (waiting_queue ?s)" using fit by simp_all
  moreover have "span24 (ready_queue ?s) \<inter> kfoot N F L ?s = {}" "span24 (waiting_queue ?s) \<inter> kfoot N F L ?s = {}"
      "span24 (ready_queue ?s) \<inter> span24 (waiting_queue ?s) = {}" using dj vc(2) by simp_all
  ultimately obtain t where t: "sched_init ?s = Ret ((), t)" "queues_ok N P F [] [] t" "lock_free Sched_lock t"
     "t = ?s\<lparr>mem := mem t, cpus := settled 0 ?s, locks := (locks ?s)(Sched_lock := \<lparr>locked = 0, lk_name = ''sched'', lk_cpu = None\<rparr>)\<rparr>"
    using sched_init_ok [of N P F L ?s 0] rd by blast
  have e: "cpus t = settled 0 ?s" "rflags t = rflags s" "ncpu t = ncpu s" "lapic_id_reg t = lapic_id_reg s"
    "locks t = ?l(Sched_lock := \<lparr>locked = 0, lk_name = ''sched'', lk_cpu = None\<rparr>)" "statics t = statics s" "kern_pml4 t = kern_pml4 s"
    "next_pid t = 1" "procs t = ?p2"
    by (subst t(4), simp add: statics_def)+
  have "alive t" by (rule alive_settled [OF al1]) (simp_all add: e)
  moreover have "in_table (ptable_proc s) NPROC (ptable_proc s)"
    unfolding in_table_def by (rule image_eqI [of _ _ 0]) (simp_all add: proc_slot_def NPROC_def)
  then have "procs t (ptable_proc s) = zero_proc" by (simp add: e(9))
  moreover have "proc_init s = Ret ((), t)" using t(1) by (simp add: proc_init_def init_lock_def bindk_def Let_def cong: if_cong)
  ultimately show ?thesis using t(2,3) e by (intro exI [of _ t]) (simp add: lock_free_def)
qed

text \<open>The first slot of an empty table is handed out.\<close>

lemma proc_claim_first:
  fixes s :: "'z proc_sys_scheme"
  assumes rd: "cpu_ready 2 c s" and lk: "lock_free Ptable_lock s" and un: "p_state (procs s (ptable_proc s)) = UNUSED"
  shows "locked_call Ptable_lock proc_claim s = Ret (ptable_proc s, s\<lparr>cpus := settled c s,
     procs := (procs s)(ptable_proc s := zero_proc\<lparr>p_state := CREATION, pid := ucast (next_pid s)\<rparr>), next_pid := next_pid s + 1\<rparr>)"
proof -
  let ?a = "acquired c Ptable_lock s" let ?p = "ptable_proc s"
  let ?u = "?a\<lparr>procs := (procs s)(?p := zero_proc\<lparr>p_state := CREATION, pid := ucast (next_pid s)\<rparr>), next_pid := next_pid s + 1\<rparr>"
  have f: "ptable_proc ?a = ?p" "procs ?a = procs s" "next_pid ?a = next_pid s" by (simp_all add: acquired_def entered_def)
  have "0 < NPROC" by (simp add: NPROC_def)
  then have "[0..<NPROC] = 0 # [Suc 0..<NPROC]" by (rule upt_conv_Cons)
  then have "proc_find ?a = Some ?p" using un by (simp add: proc_find_def f proc_slot_def)
  then have "proc_claim ?a = Ret (?p, ?u)" by (simp add: proc_claim_def f upd_proc_def)
  moreover have "same_cpu ?a ?u" "locks ?u Ptable_lock = locks ?a Ptable_lock" by (simp_all add: same_cpu_def)
  ultimately have "locked_call Ptable_lock proc_claim s = Ret (?p, ?u\<lparr>cpus := settled c s, rflags := rflags s,
           locks := (locks ?u)(Ptable_lock := locks s Ptable_lock)\<rparr>)"
    using locked_call_Ret [of 0 c s Ptable_lock proc_claim ?p ?u] rd lk by (simp add: numeral_2_eq_2)
  also have "?u\<lparr>cpus := settled c s, rflags := rflags s, locks := (locks ?u)(Ptable_lock := locks s Ptable_lock)\<rparr>
      = s\<lparr>cpus := settled c s,
     procs := (procs s)(?p := zero_proc\<lparr>p_state := CREATION, pid := ucast (next_pid s)\<rparr>), next_pid := next_pid s + 1\<rparr>"
    by (simp add: acquired_def entered_def)
  finally show ?thesis .
qed

lemma sched_add_ok:
  fixes s :: "'z proc_sys_scheme"
  assumes rd: "cpu_ready 5 c s" and lk: "lock_free Sched_lock s" "lock_free Kmalloc_lock s" "lock_free Pgalloc_lock s"
    and q: "queue_nodes N P F L M ns rs ms ws s" and st: "p_state (procs s p) = RUNNABLE" and pg: "pages F \<noteq> {}"
  shows "\<exists>t F' L' node. sched_add p s = Ret ((), t) \<and> kstep c s t
      \<and> queue_nodes N P F' L' (insert node M) (ns @ [node]) (rs @ [p]) ms ws t \<and> (\<exists>i. pages F - {i} \<subseteq> pages F')
      \<and> same_out (kfoot N F L s \<union> (\<Union>b \<in> {ready_queue s, waiting_queue s} \<union> M. span24 b)) (mem s) (mem t)
      \<and> kfoot N F' L' t \<subseteq> kfoot N F L s"
proof -
  let ?a = "acquired c Sched_lock s" and ?body = "\<lambda>s :: 'z proc_sys_scheme. dequeue_push_back (ready_queue s) p s"
  have n: "nested c ?a" by (rule nested_acquired [OF rd lk(2,3)]) simp_all
  have va: "heap_view ?a = heap_view s" by simp
  have fa: "ready_queue ?a = ready_queue s" "waiting_queue ?a = waiting_queue s" "mem ?a = mem s" by (simp_all add: acquired_def entered_def)
  have qa: "queue_nodes N P F L M ns rs ms ws ?a" using q queue_nodes_cong [OF va fa(1,2)] by simp
  from push_ready_ok [OF n qa, of p] pg obtain t node F' L' where t: "?body ?a = Ret ((), t)" "heap_step ?a t"
      "queue_nodes N P F' L' (insert node M) (ns @ [node]) (rs @ [p]) ms ws t" "\<exists>i. pages F - {i} \<subseteq> pages F'"
      "same_out (kfoot N F L ?a \<union> (\<Union>b \<in> {ready_queue ?a, waiting_queue ?a} \<union> M. span24 b)) (mem ?a) (mem t)"
      "kfoot N F' L' t \<subseteq> kfoot N F L ?a" by blast
  have r: "cpu_ready (Suc (Suc 3)) c s" using rd by simp
  obtain u where u: "locked_call Sched_lock ?body s = Ret ((), u)" "kstep c s u" "heap_view u = heap_view t"
    using locked_heap [where body = ?body, OF r lk(1) t(1,2)] by blast
  have fu: "ready_queue u = ready_queue t" "waiting_queue u = waiting_queue t"
    using kstep_fields [OF u(2)] heap_step_fields(7,8) [OF t(2)] fa by simp_all
  have "mem u = mem t" using u(3) by (simp add: heap_view_eq)
  moreover have "queue_nodes N P F' L' (insert node M) (ns @ [node]) (rs @ [p]) ms ws u" using t(3) queue_nodes_cong [OF u(3) fu] by simp
  moreover have "kfoot N F L ?a = kfoot N F L s" "kfoot N F' L' u = kfoot N F' L' t"
    using view_cong(2) [OF va va] view_cong(2) [OF u(3) u(3)] by simp_all
  moreover have "sched_add p s = Ret ((), u)"
  proof -
    have "locked_call Sched_lock ?body s = bindk (acquire Sched_lock) (\<lambda>_. bindk ?body (\<lambda>_. release Sched_lock)) s"
      by (simp add: locked_call_def bindk_retk_id)
    then show ?thesis using u(1) st by (simp add: sched_add_def)
  qed
  ultimately show ?thesis using u(2) t(4-6) unfolding fa by (intro exI [of _ u] exI [of _ F'] exI [of _ L'] exI [of _ node]) simp
qed

lemma fresh_stack_frame:
  assumes f: "fresh_stack b k r f m" and so: "same_out R m m'" and dj: "{unat b..<unat b + 4096} \<inter> R = {}" and b: "unat b + 4096 \<le> 2 ^ 64"
  shows "fresh_stack b k r f m'"
proof -
  have w: "ld64 m' (b + k) = ld64 m (b + k)" if k: "unat k + 8 \<le> 4096" for k
  proof -
    have u: "unat (b + k) = unat b + unat k" using b k by (intro unat_add_nowrap) simp
    have "{unat (b + k)..<unat (b + k) + 8} \<subseteq> {unat b..<unat b + 4096}" unfolding u using k by auto
    then have d: "{unat (b + k)..<unat (b + k) + 8} \<inter> R = {}" using dj by blast
    have "unat (b + k) + 8 \<le> 2 ^ 64" unfolding u using b k by linarith
    then show ?thesis by (rule ld64_same_out [OF so d])
  qed
  have "map (\<lambda>k. ld64 m' (b + 3856 + 8 * of_nat k)) [0..<6] = map (\<lambda>k. ld64 m (b + 3856 + 8 * of_nat k)) [0..<6]"
    "map (\<lambda>k. ld64 m' (b + 3920 + 8 * of_nat k)) [0..<17] = map (\<lambda>k. ld64 m (b + 3920 + 8 * of_nat k)) [0..<17]"
    by (simp_all add: upt_rec w add.assoc)
  then show ?thesis using f unfolding fresh_stack_def by (simp add: w)
qed

lemma card_pages: "pages F - {i} \<subseteq> pages F' \<Longrightarrow> k < card (pages F) \<Longrightarrow> k \<le> card (pages F')"
  using card_pages_drop [of F i F'] by simp

lemma card_pages_ne: "0 < card (pages F) \<Longrightarrow> pages F \<noteq> {}"
  by auto

lemma upd_proc_id [simp]: "upd_proc p (\<lambda>q. q) s = s"
  by (simp add: upd_proc_def)

text \<open>
  Creating a kernel process in the first slot and making it ready; \<open>shell_ready\<close> says what the rest of the kernel
  finds afterwards.
\<close>

definition shell_ready :: "nat \<Rightarrow> ptr \<Rightarrow> (symbol \<Rightarrow> ptr) \<Rightarrow> 'z proc_sys_scheme \<Rightarrow> bool" where
  "shell_ready i p ad t \<longleftrightarrow> i < page_limit \<and> p_state (procs t p) = RUNNABLE \<and> pid (procs t p) = 1 \<and> pgtable (procs t p) = kern_pml4 t
     \<and> ctx (procs t p) = pva i + 3856 \<and> tf (procs t p) = pva i + 3920
     \<and> fresh_stack (pva i) (ad Proc_kentry) (ad Return_from_isr) (ad Kshell_main) (mem t)"

lemma shell_ready_frame:
  fixes s t :: "'z proc_sys_scheme"
  assumes "shell_ready i p ad s" and "same_out R (mem s) (mem t)" and "pg_bytes i \<inter> R = {}" and "procs t p = procs s p" and "kern_pml4 t = kern_pml4 s"
  shows "shell_ready i p ad t"
  using assms fresh_stack_frame [OF _ assms(2), of "pva i"] pva_end [of i] by (simp add: shell_ready_def pg_bytes_def)

lemma shell_created:
  fixes s :: "'z dev_sys_scheme"
  assumes q: "queue_nodes N P F L M ns rs ms ws s" and al: "alive s" and lk: "lock_free Sched_lock s" "lock_free Ptable_lock s"
    and z: "procs s (ptable_proc s) = zero_proc" "next_pid s = 1" and p: "ptable_proc s \<noteq> NULL" and pg: "2 < card (pages F)"
  shows "\<exists>t F' L' M' node i. bindk proc_alloc (\<lambda>p. bindk (sched_create_kproc p Kshell_main) (\<lambda>_. sched_add p)) s = Ret ((), t)
     \<and> queue_nodes N P F' L' M' (ns @ [node]) (rs @ [ptable_proc s]) ms ws t \<and> alive t \<and> lock_free Sched_lock t \<and> 0 < card (pages F')
     \<and> statics t = statics s \<and> shell_ready i (ptable_proc s) (addr_of s) t \<and> pg_bytes i \<inter> kfoot N F' L' t = {}"
proof -
  let ?p = "ptable_proc s"
  let ?s1 = "s\<lparr>cpus := settled 0 s, procs := (procs s)(?p := zero_proc\<lparr>p_state := CREATION, pid := ucast (next_pid s)\<rparr>), next_pid := next_pid s + 1\<rparr>"
  have rd: "cpu_ready 9 0 s" using al by (simp add: alive_def)
  have c1: "locked_call Ptable_lock proc_claim s = Ret (?p, ?s1)"
    by (rule proc_claim_first [OF cpu_ready_mono [OF rd] lk(2)]) (use z in \<open>simp_all add: zero_proc_def\<close>)
  have al1: "alive ?s1" by (rule alive_settled [OF al]) simp_all
  have v1: "heap_view ?s1 = heap_view s" by (simp add: heap_view_eq)
  have q1: "queue_nodes N P F L M ns rs ms ws ?s1" using q queue_nodes_cong [OF v1] by simp
  have r1: "cpu_ready 2 0 ?s1" "lock_free Pgalloc_lock ?s1" using al1 cpu_ready_mono [of 9 0 ?s1 2] by (simp_all add: alive_def)
  have ne: "pages F \<noteq> {}" using pg by (intro card_pages_ne) simp
  obtain i s2 F2 where s2: "bindk (proc_kern_init ?p) (\<lambda>_. sched_create_kproc ?p Kshell_main) ?s1 = Ret ((), s2)"
     "queue_nodes N P F2 L M ns rs ms ws s2" "pages F - {i} \<subseteq> pages F2" "i < page_limit"
     "pg_bytes i \<subseteq> kfoot N F L ?s1" "kfoot N F2 L s2 \<subseteq> kfoot N F L ?s1 - pg_bytes i"
     "fresh_stack (pva i) (addr_of ?s1 Proc_kentry) (addr_of ?s1 Return_from_isr) (addr_of ?s1 Kshell_main) (mem s2)"
     "p_state (procs s2 ?p) = RUNNABLE" "pgtable (procs s2 ?p) = kern_pml4 ?s1" "ctx (procs s2 ?p) = pva i + 3856" "tf (procs s2 ?p) = pva i + 3920"
     "pid (procs s2 ?p) = pid (procs ?s1 ?p)"
     "s2 = ?s1\<lparr>mem := mem s2, pgalloc_bins := pgalloc_bins s2, cpus := settled 0 ?s1, procs := (procs ?s1)(?p := procs s2 ?p)\<rparr>"
    using queues_create [OF q1 r1 ne p, of "\<lambda>q. q" Kshell_main] by auto
  have e2: "cpus s2 = settled 0 ?s1" "rflags s2 = rflags s" "ncpu s2 = ncpu s" "lapic_id_reg s2 = lapic_id_reg s" "locks s2 = locks s"
      "statics s2 = statics s" "kern_pml4 s2 = kern_pml4 s" "ready_queue s2 = ready_queue s" "waiting_queue s2 = waiting_queue s"
    by (subst s2(13), simp add: statics_def)+
  have al2: "alive s2" by (rule alive_settled [OF al1]) (simp_all add: e2)
  have sh2: "shell_ready i ?p (addr_of s) s2" using s2(4,7-12) z(2) by (simp add: shell_ready_def e2(7))
  have ne2: "2 \<le> card (pages F2)" by (rule card_pages [OF s2(3) pg])
  then have "pages F2 \<noteq> {}" by (intro card_pages_ne) simp
  moreover have "cpu_ready 5 0 s2" "lock_free Sched_lock s2" "lock_free Kmalloc_lock s2" "lock_free Pgalloc_lock s2"
    using al2 cpu_ready_mono [of 9 0 s2 5] lk(1) e2(5) by (simp_all add: alive_def lock_free_def)
  ultimately obtain t F' L' node where t: "sched_add ?p s2 = Ret ((), t)" "kstep 0 s2 t"
      "queue_nodes N P F' L' (insert node M) (ns @ [node]) (rs @ [?p]) ms ws t" "\<exists>i. pages F2 - {i} \<subseteq> pages F'"
      "same_out (kfoot N F2 L s2 \<union> (\<Union>b \<in> {ready_queue s2, waiting_queue s2} \<union> M. span24 b)) (mem s2) (mem t)"
      "kfoot N F' L' t \<subseteq> kfoot N F2 L s2"
    using sched_add_ok [OF _ _ _ _ s2(2) s2(8), of 0] by blast
  have et: "cpus t = settled 0 s2" "rflags t = rflags s2" "ncpu t = ncpu s2" "lapic_id_reg t = lapic_id_reg s2" "locks t = locks s2"
      "statics t = statics s2" "kern_pml4 t = kern_pml4 s2" "procs t = procs s2"
    by (subst t(2) [unfolded kstep_def], simp add: statics_def)+
  have "span24 b \<inter> pg_bytes i = {}" if "b \<in> {ready_queue s2, waiting_queue s2} \<union> M" for b
    using qsep_spans(2) [OF queue_nodesD(2) [OF q1], of b] that s2(5) by (auto simp: e2)
  then have "shell_ready i ?p (addr_of s) t"
    by (intro shell_ready_frame [OF sh2 t(5)]) (use s2(6) et in auto)
  moreover have "alive t" by (rule alive_settled [OF al2]) (simp_all add: et)
  moreover have "0 < card (pages F')" using card_pages [of F2 _ F' 1] t(4) ne2 by fastforce
  moreover have "lock_free Sched_lock t" using lk(1) by (simp add: lock_free_def et e2)
  moreover have "pg_bytes i \<inter> kfoot N F' L' t = {}" using t(6) s2(6) by blast
  moreover have "bindk proc_alloc (\<lambda>p. bindk (sched_create_kproc p Kshell_main) (\<lambda>_. sched_add p)) s = Ret ((), t)"
  proof -
    have "bindk proc_alloc (\<lambda>p. bindk (sched_create_kproc p Kshell_main) (\<lambda>_. sched_add p)) s
        = bindk (bindk (proc_kern_init ?p) (\<lambda>_. sched_create_kproc ?p Kshell_main)) (\<lambda>_. sched_add ?p) ?s1"
      unfolding proc_alloc_def bindk_assoc by (subst bindk_Ret, rule c1) (simp add: p bindk_assoc bindk_retk_left)
    also have "\<dots> = Ret ((), t)" by (subst bindk_Ret, rule s2(1)) (rule t(1))
    finally show ?thesis .
  qed
  ultimately show ?thesis using t(3) et(6) e2(6) by (simp, blast)
qed

section \<open>Into the scheduler\<close>

lemma sched_start_ok:
  fixes s :: "'z dev_sys_scheme"
  assumes q: "queue_nodes N P F L M ns rs ms ws s" and al: "alive s" and lk: "lock_free Sched_lock s"
    and id: "idle_proc s \<noteq> NULL" "idle_proc s \<noteq> p" and pg: "0 < card (pages F)" and sh: "shell_ready i p ad s"
    and away: "pg_bytes i \<inter> kfoot N F L s = {}" and nz: "NULL \<notin> set rs"
  shows "\<exists>t. (\<forall>n. sched_start ctxsw n s = sched_rounds ctxsw 0 n t) \<and> scheduling 0 N P rs ws t \<and> lock_held 0 Sched_lock t
     \<and> shell_ready i p ad t"
proof -
  let ?idle = "idle_proc s"
  let ?s1 = "set_cpu_proc 0 NULL s" let ?s2 = "upd_proc ?idle (\<lambda>q. q\<lparr>p_state := RUNNING\<rparr>) ?s1"
  have rd: "cpu_ready 9 0 s" and off: "\<not> if_set (rflags s)" and len: "0 < length (cpus s)" and lay: "int_disable_layer (cpus s ! 0) = 0"
    using al by (simp_all add: alive_def cpu_ready_def)
  have lu: "cpu_lookup s = Some 0" using rd by (simp add: cpu_ready_def)
  have lu1: "cpu_lookup ?s1 = Some 0"
    using cpu_lookup_upd_cpus [of "(cpus s ! 0)\<lparr>cpu_proc := NULL\<rparr>" s 0] len lu by (simp add: set_cpu_proc_def)
  have cc: "cur_cpu s = Ret (0, s)" by (rule cur_cpu_eq [OF off lu])
  have ci: "cpu_id ?s1 = Ret (0, ?s1)"
    using cur_cpu_eq [of ?s1 0] lu1 off by (simp add: cpu_id_def bindk_def retk_def set_cpu_proc_def)
  have al2: "alive ?s2"
    using al lu1 len unfolding alive_def cpu_ready_def lock_free_def by (simp add: set_cpu_proc_def upd_proc_def cpu_lookup_def lapic_id_def)
  have v: "heap_view ?s2 = heap_view s" by (simp add: heap_view_eq set_cpu_proc_def upd_proc_def)
  have f2: "ready_queue ?s2 = ready_queue s" "waiting_queue ?s2 = waiting_queue s" "mem ?s2 = mem s" "kern_pml4 ?s2 = kern_pml4 s"
    "procs ?s2 p = procs s p" "locks ?s2 = locks s" "idle_proc ?s1 = ?idle" "kfoot N F L ?s2 = kfoot N F L s"
    using id view_cong(2) [OF v v, of N F L] by (simp_all add: set_cpu_proc_def upd_proc_def)
  have q2: "queue_nodes N P F L M ns rs ms ws ?s2" using q queue_nodes_cong [OF v f2(1,2)] by simp
  have r2: "cpu_ready 2 0 ?s2" "lock_free Pgalloc_lock ?s2" using al2 cpu_ready_mono [of 9 0 ?s2 2] by (simp_all add: alive_def)
  obtain j s3 F3 where s3: "bindk (proc_kern_init ?idle) (\<lambda>_ u. sched_create_kproc ?idle Idle_function (upd_proc ?idle (\<lambda>q. q\<lparr>pid := 0\<rparr>) u)) ?s2 = Ret ((), s3)"
     "queue_nodes N P F3 L M ns rs ms ws s3" "same_out (kfoot N F L ?s2) (mem ?s2) (mem s3)"
     "s3 = ?s2\<lparr>mem := mem s3, pgalloc_bins := pgalloc_bins s3, cpus := settled 0 ?s2, procs := (procs ?s2)(?idle := procs s3 ?idle)\<rparr>"
    using queues_create [OF q2 r2 card_pages_ne [OF pg] id(1), of "\<lambda>q. q\<lparr>pid := 0\<rparr>" Idle_function] by auto
  have e3: "cpus s3 = settled 0 ?s2" "rflags s3 = rflags ?s2" "ncpu s3 = ncpu ?s2" "lapic_id_reg s3 = lapic_id_reg ?s2" "locks s3 = locks s"
      "kern_pml4 s3 = kern_pml4 s" "procs s3 p = procs s p"
    using id by (subst s3(4), simp add: f2 set_cpu_proc_def upd_proc_def)+
  have al3: "alive s3" by (rule alive_settled [OF al2]) (simp_all add: e3 f2)
  have sh3: "shell_ready i p ad s3" by (rule shell_ready_frame [OF sh, of "kfoot N F L s"]) (use s3(3) away e3 f2 in simp_all)
  let ?s4 = "sti s3" let ?t = "acquired 0 Sched_lock ?s4"
  have "cpu_ready 9 0 ?s4" using al3 by (simp add: alive_def cpu_ready_def sti_def cpu_lookup_def lapic_id_def)
  then have r4: "cpu_ready 5 0 ?s4" "cpu_ready (Suc (Suc 7)) 0 ?s4" using cpu_ready_mono [of 9 0 ?s4 5] by simp_all
  have l4: "lock_free Sched_lock ?s4" "lock_free Kmalloc_lock ?s4" "lock_free Pgalloc_lock ?s4"
    using lk al3 by (simp_all add: lock_free_def alive_def sti_def e3)
  have n: "nested 0 ?t" by (rule nested_acquired [OF r4(1) l4(2,3)]) simp_all
  have vt: "heap_view ?t = heap_view s3" by (simp add: heap_view_eq acquired_def entered_def sti_def)
  have "queue_nodes N P F3 L M ns rs ms ws ?t"
    using s3(2) queue_nodes_cong [OF vt] by (simp add: acquired_def entered_def sti_def)
  then have "scheduling 0 N P rs ws ?t" by (rule schedulingI [OF n _ nz])
  moreover have "sched_start ctxsw m s = sched_rounds ctxsw 0 m ?t" for m
  proof -
    have a: "acquire Sched_lock ?s4 = Ret ((), ?t)" by (rule acquire_free [OF r4(2) l4(1)])
    have b: "bindk (sched_setup_idle_proc ?idle) (\<lambda>_. bindk enable_interrupt (\<lambda>_. bindk (acquire Sched_lock) (\<lambda>_. sched_rounds ctxsw 0 m))) ?s2
       = sched_rounds ctxsw 0 m ?t"
      unfolding sched_setup_idle_proc_def
      by (subst bindk_Ret, rule s3(1), subst bindk_Ret, rule enable_interrupt_def, subst bindk_Ret, rule a) simp
    have "sched_start ctxsw m s = bindk cpu_id (\<lambda>i u. let idle = proc_slot (idle_proc u) (unat i)
       in bindk (sched_setup_idle_proc idle) (\<lambda>_. bindk enable_interrupt (\<lambda>_. bindk (acquire Sched_lock) (\<lambda>_. sched_rounds ctxsw 0 m)))
          (upd_proc idle (\<lambda>q. q\<lparr>p_state := RUNNING\<rparr>) u)) ?s1"
      unfolding sched_start_def by (subst bindk_Ret, rule cc, subst bindk_Ret, rule refl) simp
    also have "\<dots> = sched_rounds ctxsw 0 m ?t"
      by (subst bindk_Ret, rule ci) (simp add: Let_def proc_slot_def f2(7) b)
    finally show ?thesis .
  qed
  moreover have "lock_held 0 Sched_lock ?t" by (simp add: lock_held_def acquired_def)
  moreover have "shell_ready i p ad ?t" using sh3 by (simp add: shell_ready_def acquired_def entered_def sti_def)
  ultimately show ?thesis by blast
qed

section \<open>From the boot loader to the shell\<close>

text \<open>
  What the linker provides: the scheduler's two queues are separate objects inside the kernel image, and the process
  table and the idle process have addresses of their own.
\<close>

definition linked :: "ptr \<Rightarrow> 'z proc_sys_scheme \<Rightarrow> bool" where
  "linked ke s \<longleftrightarrow> fits24 (ready_queue s) \<and> fits24 (waiting_queue s)
     \<and> unat (ready_queue s) + 24 \<le> unat ke \<and> unat (waiting_queue s) + 24 \<le> unat ke
     \<and> span24 (ready_queue s) \<inter> span24 (waiting_queue s) = {}
     \<and> ptable_proc s \<noteq> NULL \<and> idle_proc s \<noteq> NULL \<and> idle_proc s \<noteq> ptable_proc s"

lemma kmain_to_scheduler:
  fixes s :: "'z int_sys_scheme"
  assumes b: "boot_ready ke s" and ln: "linked ke s" and ur: "tx_ready \<lparr>mmio_base = NULL, pio_base = UART_COM1\<rparr> (dev_in s)"
  shows "\<exists>t a i. (\<forall>n. kmain ctxsw n ke s = sched_rounds ctxsw 0 n t) \<and> scheduling 0 (2 ^ 20) {a..<16384} [ptable_proc s] [] t
     \<and> lock_held 0 Sched_lock t \<and> shell_ready i (ptable_proc s) (addr_of s) t"
proof -
  let ?N = "2 ^ 20 :: nat" and ?p = "ptable_proc s"
  obtain s1 a F1 where s1: "kmain_memory ke s = Ret ((), s1)" "kinv ?N {a..<16384} F1 [] s1" "pages F1 = {a..<16384}"
     "unat (pva a) \<le> unat ke + 1499136" "cpu_ready 9 0 s1" "lock_free Pgalloc_lock s1" "lock_free Kmalloc_lock s1"
     "rflags s1 = rflags s" "statics s1 = statics s" "int_disable_layer (cpus s1 ! 0) = 0" "kfoot ?N F1 [] s1 \<subseteq> {unat ke..<unat (pva 16384)}" "a \<le> 16384"
    using kmain_memory_up [OF b] by blast
  let ?P = "{a..<16384 :: nat}"
  have al1: "alive s1" using s1(5-8,10) b by (simp add: alive_def boot_ready_def)
  have c1: "4 < card (pages F1)"
  proof -
    have "a < page_limit" using s1(12) by (simp add: page_limit_num)
    then show ?thesis using s1(3,4) boot_bounds(2) [OF b] by (simp add: unat_pva)
  qed
  have ur1: "tx_ready \<lparr>mmio_base = NULL, pio_base = UART_COM1\<rparr> (dev_in s1)" using ur s1(9) by (simp add: statics_def)
  obtain s2 F2 L2 where s2: "console_init s1 = Ret ((), s2)" "kinv ?N ?P F2 L2 s2" "\<exists>i. pages F1 - {i} \<subseteq> pages F2"
     "kfoot ?N F2 L2 s2 \<subseteq> kfoot ?N F1 [] s1" "alive s2" "statics s2 = statics s1"
    using console_init_ok [OF s1(2) al1 card_pages_ne ur1] c1 by fastforce
  have c2: "3 < card (pages F2)" using card_pages [of F1 _ F2 4] s2(3) c1 by fastforce
  let ?s3 = "s2\<lparr>sys_tick := 0\<rparr>"
  have v3: "heap_view ?s3 = heap_view s2" by (simp add: heap_view_eq)
  have al3: "alive ?s3" by (rule alive_settled [OF s2(5)]) simp_all
  have st3: "ready_queue ?s3 = ready_queue s" "waiting_queue ?s3 = waiting_queue s" "statics ?s3 = statics s"
    using s2(6) s1(9) by (simp_all add: statics_def)
  have k3: "kinv ?N ?P F2 L2 ?s3" "kfoot ?N F2 L2 ?s3 \<subseteq> {unat ke..<unat (pva 16384)}"
    using s2(2,4) s1(11) view_cong(1) [OF v3 v3, of ?N ?P F2 L2] view_cong(2) [OF v3 v3, of ?N F2 L2] by auto
  have "span24 (ready_queue s) \<inter> kfoot ?N F2 L2 ?s3 = {}" "span24 (waiting_queue s) \<inter> kfoot ?N F2 L2 ?s3 = {}"
    using ln k3(2) unfolding linked_def span24_def by fastforce+
  then obtain s4 where s4: "proc_init ?s3 = Ret ((), s4)" "queues_ok ?N ?P F2 [] [] s4" "alive s4" "lock_free Sched_lock s4"
     "lock_free Ptable_lock s4" "statics s4 = statics s" "next_pid s4 = 1" "procs s4 ?p = zero_proc"
    using proc_init_ok [OF k3(1) al3, unfolded st3] ln s2(6) s1(9) unfolding linked_def by (auto simp: statics_def)
  have f4: "ptable_proc s4 = ?p" "idle_proc s4 = idle_proc s" "addr_of s4 = addr_of s" using s4(6) by (simp_all add: statics_def)
  obtain L M ns ms where q4: "queue_nodes ?N ?P F2 L M ns [] ms [] s4" using s4(2) by (auto simp: queues_ok_def)
  obtain s5 F5 L5 M5 node i where s5: "bindk proc_alloc (\<lambda>p. bindk (sched_create_kproc p Kshell_main) (\<lambda>_. sched_add p)) s4 = Ret ((), s5)"
     "queue_nodes ?N ?P F5 L5 M5 (ns @ [node]) ([] @ [?p]) ms [] s5" "alive s5" "lock_free Sched_lock s5" "0 < card (pages F5)"
     "statics s5 = statics s4" "shell_ready i ?p (addr_of s) s5" "pg_bytes i \<inter> kfoot ?N F5 L5 s5 = {}"
    using shell_created [OF q4 s4(3-5)] s4(7,8) ln c2 unfolding f4 linked_def by fastforce
  have id: "idle_proc s5 \<noteq> NULL" "idle_proc s5 \<noteq> ?p" using ln s5(6) f4 by (simp_all add: statics_def linked_def)
  have nz: "NULL \<notin> set ([] @ [?p])" using ln by (simp add: linked_def)
  obtain t where t: "\<forall>n. sched_start ctxsw n s5 = sched_rounds ctxsw 0 n t" "scheduling 0 ?N ?P ([] @ [?p]) [] t" "lock_held 0 Sched_lock t"
     "shell_ready i ?p (addr_of s) t"
    using sched_start_ok [OF s5(2-4) id s5(5,7,8) nz, of ctxsw] by blast
  have "kmain ctxsw n ke s = sched_rounds ctxsw 0 n t" for n
  proof -
    have "mpmain ctxsw n s4 = bindk (bindk proc_alloc (\<lambda>p. bindk (sched_create_kproc p Kshell_main) (\<lambda>_. sched_add p))) (\<lambda>_. sched_start ctxsw n) s4"
      by (simp only: mpmain_def bindk_assoc)
    also have "\<dots> = sched_rounds ctxsw 0 n t" by (subst bindk_Ret, rule s5(1)) (use t(1) in simp)
    finally have m: "mpmain ctxsw n s4 = sched_rounds ctxsw 0 n t" .
    show ?thesis unfolding kmain_def
      by (subst bindk_Ret, rule s1(1), subst bindk_Ret, rule s2(1), subst bindk_Ret, rule systick_init_def, subst bindk_Ret, rule s4(1)) (rule m)
  qed
  then show ?thesis using t by (intro exI [of _ t] exI [of _ a] exI [of _ i]) simp
qed

text \<open>C1: \<^verbatim>\<open>kmain\<close> reaches the scheduler. From the state the boot loader leaves, with the scheduler's objects inside the kernel
  image and a transmitter that becomes ready, all initialisation routines return and for every \<open>n\<close> the run continues
  as \<open>n\<close> turns of the scheduler loop from one state: the scheduler's lock is held, the heap and both queues are
  well-formed, the ready queue holds exactly the shell, in the first slot of the process table, the waiting queue is empty,
  and the shell is runnable with process number 1 and an intact initial stack, which enters \<^verbatim>\<open>kshell_main\<close> through
  \<^verbatim>\<open>proc_kentry\<close> and \<^verbatim>\<open>return_from_isr\<close>.\<close>

theorem kmain_starts_shell:
  fixes s :: "'z int_sys_scheme"
  assumes "boot_ready ke s" and "linked ke s" and "tx_ready \<lparr>mmio_base = NULL, pio_base = UART_COM1\<rparr> (dev_in s)"
  shows "\<exists>t a i. (\<forall>n. kmain ctxsw n ke s = sched_rounds ctxsw 0 n t) \<and> scheduling 0 (2 ^ 20) {a..<16384} [ptable_proc s] [] t
     \<and> lock_held 0 Sched_lock t \<and> shell_ready i (ptable_proc s) (addr_of s) t"
  by (rule kmain_to_scheduler [OF assms])

definition demo_linked :: int_sys where
  "demo_linked = demo_start\<lparr>dev_in := (\<lambda>_ _. 0xFF), ready_queue := 0xFFFF800000101000, waiting_queue := 0xFFFF800000101040,
     ptable_proc := 0xFFFF800000102000, idle_proc := 0xFFFF800000120000\<rparr>"

theorem kmain_starts_shell_witness:
  "\<exists>t a i. kmain (\<lambda>_ _. retk ()) 0 0xFFFF800000200000 demo_linked = Ret ([], t)
     \<and> scheduling 0 (2 ^ 20) {a..<16384} [0xFFFF800000102000] [] t \<and> shell_ready i 0xFFFF800000102000 (addr_of demo_linked) t"
proof -
  have b: "boot_ready 0xFFFF800000200000 demo_linked"
    using demo_start_ready by (simp add: boot_ready_def demo_linked_def)
  have l: "linked 0xFFFF800000200000 demo_linked" by (auto simp: linked_def demo_linked_def fits24_def span24_def)
  have u: "tx_ready \<lparr>mmio_base = NULL, pio_base = UART_COM1\<rparr> (dev_in demo_linked)" by (simp add: tx_ready_def demo_linked_def)
  have p: "ptable_proc demo_linked = 0xFFFF800000102000" by (simp add: demo_linked_def)
  obtain t a i where t: "\<forall>n. kmain (\<lambda>_ _. retk ()) n 0xFFFF800000200000 demo_linked = sched_rounds (\<lambda>_ _. retk ()) 0 n t"
      "scheduling 0 (2 ^ 20) {a..<16384} [0xFFFF800000102000] [] t" "shell_ready i 0xFFFF800000102000 (addr_of demo_linked) t"
    using kmain_starts_shell [OF b l u, where ctxsw = "\<lambda>_ _. retk ()", unfolded p] by blast
  have "kmain (\<lambda>_ _. retk ()) 0 0xFFFF800000200000 demo_linked = Ret ([], t)" using t(1) by (simp add: retk_def)
  then show ?thesis using t(2,3) by blast
qed

end
