(* ===== verification/Spec2Isabelle.thy ===== *)
theory Spec2Isabelle
  imports Spinlock_SMP Stage2_Loader Kpanic Usys Kmain_Start
begin

text \<open>
  A verification development of GuideOS, a small 64-bit kernel for the x86 written in C. The subject is the C code
  under \<^verbatim>\<open>src/kernel\<close>, the C part of the second boot loader, the system call stubs of \<^verbatim>\<open>src/lib/libsys\<close> and the
  assembly of interrupt entry and context switch. Paths below are relative to \<^verbatim>\<open>src/\<close>; \<^verbatim>\<open>K/\<close> is \<^verbatim>\<open>kernel/src/\<close>.

  \<^bold>\<open>The program.\<close> The boot loader copies the kernel to 1 MB and jumps to it; \<^verbatim>\<open>kmain\<close> starts the parts in turn. A bump
  allocator (boot allocator) hands out memory for the page table and for the bitmaps of the page allocator and is
  then switched off; its remaining zone becomes the pages of the page allocator, a buddy system. The kernel heap
  takes single pages from it. Queues take their nodes from the heap; the scheduler keeps its processes in two queues.
  The console writes to the screen and the serial line, and its interrupt handler fills a byte fifo and wakes the
  readers through the scheduler. The formatter prints through the console. Interrupts enter through one dispatcher,
  which serves the timer, the console and the system calls. The shell is the one process that \<^verbatim>\<open>kmain\<close> creates. Every
  shared structure has a spin lock, which masks interrupts while it is held.

  \<^bold>\<open>Conventions.\<close> An operation is a function from a state to an \<open>outcome\<close>: \<open>Ret\<close> with a result and the new state,
  \<open>Panic\<close> with the message of the source, \<open>Hang\<close> (this code spins for ever) or \<open>Undef\<close> (the C text leaves defined
  behaviour, for instance through a null pointer). \<open>bindk\<close> and \<open>retk\<close> sequence operations in the order of the source.
  The state is a chain of records, each component adding its globals to those of the components below it:
  \<open>machine\<close> (Cpu), \<open>boot_sys\<close>, \<open>pg_sys\<close>, \<open>km_sys\<close>, \<open>vm_sys\<close>, \<open>proc_sys\<close>, \<open>dev_sys\<close>, \<open>con_sys\<close>, \<open>int_sys\<close>, \<open>ksh_sys\<close>.
  Operations are polymorphic in the extension, so that a lemma on a component applies unchanged in every client. Integers have
  their machine width and wrap. Memory is a map from 64-bit addresses to bytes; linked lists, bitmaps, block headers,
  queue nodes, page tables, stacks, strings and the screen live in it with the layout the C structures have. Locks,
  the CPU table, the process table, descriptor tables and the fifo's control block are records instead, since
  no code reaches them through computed addresses.

  \<^bold>\<open>Loops.\<close> A loop that ends by its counter is \<open>fun\<close> or \<open>primrec\<close> on the number of turns it makes. A loop whose end depends on
  memory or on a device is a \<open>partial_function\<close> into \<open>option\<close>, in which \<open>None\<close> means that it never ends; the theorems
  on it say that it returns, not only what it returns. The endless loops of \<^verbatim>\<open>sched_start\<close> and \<^verbatim>\<open>kshell_main\<close> are
  observed for any number \<open>n\<close> of turns; no theorem depends on the choice of \<open>n\<close>.

  \<^bold>\<open>Theories\<close>, in the order in which they build on each other.

  \<^item> \<open>Prelude\<close>, \<open>Memory\<close>: integer types, outcomes, rules for word arithmetic; little-endian loads and stores, regions and
    frame rules (the collections \<open>outcome_simps\<close>, \<open>unat_arith_simps\<close>, \<open>mem_simps\<close>).
  \<^item> \<open>Cpu\<close>: \<^verbatim>\<open>K/cpu.c\<close>, \<^verbatim>\<open>K/spinlock.c\<close>, the interrupt flag of \<^verbatim>\<open>K/arch/x86/system.c\<close>. Nested masking is balanced;
    a matched acquire and release restore lock, flag and nesting; misuse panics.
  \<^item> \<open>Spinlock_SMP\<close>: the same lock as a step relation over any number of CPUs, at the granularity of the single memory accesses.
    Mutual exclusion; \<^verbatim>\<open>holding\<close>, two reads at different moments, gives the right answer at each of its uses.
  \<^item> \<open>Boot_Alloc\<close>: \<^verbatim>\<open>K/mem/boot_alloc.c\<close>. Requests are disjoint and in the zone, up to the bound \<open>max_request\<close> (1 TB) beyond
    which the arithmetic of the code wraps, which is shown as well.
  \<^item> \<open>Buddy\<close>, \<open>Page_Alloc\<close>, \<open>Page_Repr\<close>, \<open>Page_Refine\<close>: \<^verbatim>\<open>K/mem/page_alloc.c\<close>. \<open>Buddy\<close> is the specification on page numbers;
    the other three hold the code, the representation of free lists and bitmaps in memory (\<open>rep\<close>, for up to \<open>page_limit\<close>
    pages, the size of the direct map's half of the address space) and the proof that every routine refines its specification.
    The locale \<open>page_pool\<close> states what a client relies on; it is interpreted by the specification (\<open>bp\<close>) and by the code (\<open>cp\<close>).
  \<^item> \<open>Cstring\<close>: \<^verbatim>\<open>K/util/string.c\<close>.
  \<^item> \<open>Kmalloc\<close>, \<open>Kheap\<close>, \<open>Kheap_Calls\<close>: \<^verbatim>\<open>K/mem/kmalloc.c\<close>. The free list stays ordered and disjoint (\<open>kinv\<close>); grants are
    disjoint from all live blocks and only free bytes are written. The locale \<open>kernel_heap\<close> derives from the contract of the two
    calls that whole sessions of allocations, stores and frees are safe; \<open>kh\<close> interprets it on \<^verbatim>\<open>kmalloc\<close> and \<^verbatim>\<open>kfree\<close>.
  \<^item> \<open>Dequeue\<close>: \<^verbatim>\<open>K/util/queue.c\<close> over the heap; it refines lists. On an empty queue \<^verbatim>\<open>dequeue_push_front\<close> never returns.
  \<^item> \<open>Vm\<close>: \<^verbatim>\<open>K/arch/x86/mem/vm.c\<close>, against the page walk of the processor.
  \<^item> \<open>Fifo\<close>: \<^verbatim>\<open>K/util/fifo.c\<close>, against a bounded queue (locale \<open>bounded_queue\<close>, interpretation \<open>ff\<close>), and as a step relation of a
    concurrent producer and consumer.
  \<^item> \<open>Kprintf\<close>: \<^verbatim>\<open>K/util/kprintf.c\<close>, generic in the output function. Buffers never overflow; printed numbers read back.
    \<open>Printf_Spec\<close>: what a call has to print, written from the language standard over integers; the formatter hands exactly
    this text to any output function. The predicate \<open>supported\<close> names the calls for which this holds.
  \<^item> \<open>Proc\<close>, \<open>Sched\<close>: \<^verbatim>\<open>K/proc/proc.c\<close>, \<^verbatim>\<open>K/proc/sched.c\<close>, \<^verbatim>\<open>K/arch/x86/asm/swtch.s\<close>. The stack of a new process enters its function; ready
    processes run in turn (a log kept by the context switch, \<open>logged\<close>, shows which process was entered, and where); wake-ups move
    exactly the sleepers and cannot be missed (\<open>visits\<close> lists the states between the statements of \<^verbatim>\<open>sched_sleep\<close>).
  \<^item> \<open>Devices\<close>: \<^verbatim>\<open>K/device/uart/uart.c\<close>, \<^verbatim>\<open>K/arch/x86/lapic.c\<close>, \<^verbatim>\<open>ioapic.c\<close>, \<^verbatim>\<open>x86_pic.c\<close>, \<^verbatim>\<open>K/time/systick.c\<close> as sequences of accesses.
  \<^item> \<open>Console\<close>: \<^verbatim>\<open>K/arch/x86/console.c\<close>. The screen refines a reference screen; received bytes reach the readers in order.
  \<^item> \<open>Interrupts\<close>: \<^verbatim>\<open>K/arch/x86/interrupt.c\<close>, the descriptor tables, \<^verbatim>\<open>K/syscall.c\<close>. The tables are well formed as the processor
    reads them; the timer preempts. The call of \<^verbatim>\<open>panic\<close> is a parameter of the handler.
  \<^item> \<open>Usys\<close>: \<^verbatim>\<open>K/arch/x86/asm/vector.s\<close>, \<^verbatim>\<open>trap.s\<close> and \<^verbatim>\<open>lib/libsys/src/syscall.c\<close>. An interrupt restores all registers; system calls return and
    do nothing but give up the CPU.
  \<^item> \<open>Kshell\<close>: \<^verbatim>\<open>K/kshell.c\<close>. \<open>Kpanic\<close>: \<^verbatim>\<open>K/util/helpers.c\<close>, and what the console shows after a fault. \<open>Stage2_Loader\<close>: \<^verbatim>\<open>stage2_bootloader/src/stage2_loader.c\<close>.
  \<^item> \<open>Kmain\<close>, \<open>Kmain_Start\<close>: \<^verbatim>\<open>K/kmain.c\<close>. One run from the boot loader through every \<^verbatim>\<open>init\<close> function to the scheduler loop: the contracts
    of the components fit together, and exactly the shell is ready to run.

  \<^bold>\<open>Parameters and what is assumed of them.\<close> The hardware's answers to reads are functions of all accesses so far (\<open>dev_in\<close>, \<open>dev_rd\<close>);
  where a theorem needs a device to answer, this is a hypothesis (\<open>tx_ready\<close>: the transmitter becomes empty; \<open>icr_ready\<close>: the
  interrupt controller delivers). What other processes do during a context switch is the function \<open>ctxsw\<close>; theorems on code after a
  switch assume that it comes back with the scheduler's lock held: \<open>comes_back\<close> for the scheduler's loop (a running process entered
  through its own context returns the CPU with well-formed queues), \<open>switched_back\<close> for a process (it is switched in again with its trap
  frame intact; an idealisation of the loop, since it does not mention the heap and the queues).
  Addresses that the linker chooses (\<open>kern_end\<close>, the queue heads, the process table, \<open>addr_of\<close>, \<open>vectors\<close>) are values in the state or arguments; \<open>linked\<close> says
  that static objects are distinct and below the end of the image. \<open>boot_ready\<close> is the state the boot loader leaves: nothing
  initialised, interrupts off, the end of the image between 1 MB and 32 MB, cleared memory behind it. The 64 MB of memory and the
  2 ^ 20 pages of the bitmaps are constants of \<^verbatim>\<open>kmain\<close> and \<^verbatim>\<open>pgalloc_init\<close>. Each such hypothesis is met by a concrete instance beside its theorem.

  \<^bold>\<open>Not modelled.\<close> The assembly that switches to long mode (\<^verbatim>\<open>bsp_init.s\<close>, \<^verbatim>\<open>multiboot.s\<close>) and the real-mode boot loaders, whose effect is
  the hypothesis \<open>boot_ready\<close>; the floating point conversions of the formatter, which the build leaves out; \<^verbatim>\<open>hlt\<close>; the C stack of
  kernel code, except for trap frames and the initial stack of a process; weak memory ordering beyond the order of the atomic accesses in
  \<^verbatim>\<open>spinlock.c\<close> and \<^verbatim>\<open>fifo.c\<close>. The other headers hold prototypes only. No user-mode process exists in the source, so privilege changes
  on interrupt entry do not occur.
\<close>

end
